(* ===== verification/CPrelude.thy ===== *)
theory CPrelude
  imports Main "HOL-Library.Word" "HOL-Library.Char_ord" "HOL-Library.List_Lexorder"
    "HOL-Library.Multiset"
begin

text \<open>
  What the components share: C strings and bytes, the functions of the C library the sources
  use on them, and the generic lemmas on lists and words behind the component proofs.

  A C string is a \<open>string\<close> holding the bytes before the terminating NUL; a pointer into it is
  the suffix it points to, so two pointers into one string are equal exactly when the suffixes
  are. \<open>char\<close> is signed, as on the Linux targets the utilities are built for.
\<close>

unbundle bit_operations_syntax

named_theorems c_simps \<open>unfolding the C library functions of the model\<close>

section \<open>Types\<close>

type_synonym u8 = "8 word"
type_synonym u16 = "16 word"
type_synonym u32 = "32 word"

section \<open>Characters\<close>

abbreviation NL :: char where "NL \<equiv> CHR 0x0A"
abbreviation CR :: char where "CR \<equiv> CHR 0x0D"
abbreviation TAB :: char where "TAB \<equiv> CHR 0x09"
abbreviation SPACE :: char where "SPACE \<equiv> CHR 0x20"

text \<open>The value of a \<open>char\<close> in an expression: a signed byte.\<close>

definition schar :: "char \<Rightarrow> int" where
  "schar c = (let n = (of_char c :: int) in if n < 128 then n else n - 256)"

text \<open>\<open>s[i]\<close>, with the terminating NUL behind the last byte.\<close>

definition cat :: "string \<Rightarrow> nat \<Rightarrow> int" where
  "cat s i = (if i < length s then schar (s ! i) else 0)"

text \<open>\<open>isspace()\<close> of the C locale.\<close>

definition isspace :: "char \<Rightarrow> bool" where
  "isspace c = (c = SPACE \<or> (9 \<le> schar c \<and> schar c \<le> 13))"

text \<open>Letters, in the C locale.\<close>

definition isupper :: "char \<Rightarrow> bool" where
  "isupper c = (65 \<le> schar c \<and> schar c \<le> 90)"

definition islower :: "char \<Rightarrow> bool" where
  "islower c = (97 \<le> schar c \<and> schar c \<le> 122)"

definition isalpha :: "char \<Rightarrow> bool" where
  "isalpha c = (isupper c \<or> islower c)"

definition toupper :: "char \<Rightarrow> char" where
  "toupper c = (if islower c then char_of (nat (schar c) - 32) else c)"

definition tolower :: "char \<Rightarrow> char" where
  "tolower c = (if isupper c then char_of (nat (schar c) + 32) else c)"

lemma of_char_int_range: "0 \<le> (of_char c :: int)" "(of_char c :: int) < 256"
proof -
  have eq: "(of_char c :: int) = of_char c mod 256" by simp
  show "0 \<le> (of_char c :: int)" by (subst eq) (rule pos_mod_sign, simp)
  show "(of_char c :: int) < 256" by (subst eq) (rule pos_mod_bound, simp)
qed

lemma schar_range: "- 128 \<le> schar c" "schar c < 128"
  using of_char_int_range [of c] by (simp_all add: schar_def Let_def)

lemma schar_inj: "schar c = schar d \<longleftrightarrow> c = d"
proof
  assume "schar c = schar d"
  then have "(of_char c :: int) = of_char d"
    using of_char_int_range [of c] of_char_int_range [of d]
    by (simp add: schar_def Let_def split: if_splits)
  then show "c = d" by simp
qed simp

lemma schar_char_of: "n < 128 \<Longrightarrow> schar (char_of n) = int n"
proof -
  assume n: "n < 128"
  have "(of_char (char_of n :: char) :: int) = int n mod 256"
    by (metis of_char_of of_nat_of_char of_nat_mod of_nat_numeral)
  then show ?thesis using n by (simp add: schar_def Let_def)
qed

lemma cat_Nil [simp]: "cat [] i = 0"
  by (simp add: cat_def)

lemma cat_Cons_0 [simp]: "cat (c # s) 0 = schar c"
  by (simp add: cat_def)

lemma cat_Cons_Suc [simp]: "cat (c # s) (Suc i) = cat s i"
  by (simp add: cat_def)

section \<open>String functions of the C library\<close>

text \<open>The sign of \<open>strcmp(s, t)\<close>, which compares the bytes as unsigned.\<close>

fun strcmp :: "string \<Rightarrow> string \<Rightarrow> int" where
  "strcmp [] [] = 0"
| "strcmp [] (d # t) = - 1"
| "strcmp (c # s) [] = 1"
| "strcmp (c # s) (d # t) =
     (if (of_char c :: nat) < of_char d then - 1
      else if (of_char d :: nat) < of_char c then 1
      else strcmp s t)"

lemma strcmp_0_iff [simp]: "strcmp s t = 0 \<longleftrightarrow> s = t"
  by (induction s t rule: strcmp.induct) auto

lemma strcmp_neg_iff: "strcmp s t < 0 \<longleftrightarrow> s < t"
  by (induction s t rule: strcmp.induct) (auto simp: less_char_def)

lemma strcmp_pos_iff: "0 < strcmp s t \<longleftrightarrow> t < s"
  by (induction s t rule: strcmp.induct) (auto simp: less_char_def)

text \<open>\<open>strchr(s, c)\<close>: the text before the first \<open>c\<close> and the text behind it.\<close>

fun split_at :: "char \<Rightarrow> string \<Rightarrow> (string \<times> string) option" where
  "split_at c [] = None"
| "split_at c (x # xs) =
     (if x = c then Some ([], xs)
      else map_option (\<lambda>(a, b). (x # a, b)) (split_at c xs))"

lemma split_at_None: "split_at c s = None \<longleftrightarrow> c \<notin> set s"
  by (induction s) (auto simp: split_def)

lemma split_at_Some: "split_at c s = Some (a, b) \<longleftrightarrow> s = a @ c # b \<and> c \<notin> set a"
proof (induction s arbitrary: a)
  case (Cons x s)
  show ?case
  proof (cases a)
    case (Cons y a')
    then show ?thesis using Cons.IH [of a'] by auto
  qed (auto simp: split_def)
qed simp

lemma split_at_append [simp]: "c \<notin> set a \<Longrightarrow> split_at c (a @ c # b) = Some (a, b)"
  by (simp add: split_at_Some)

section \<open>Lists\<close>

lemma takeWhile_dropWhile_length: "length (takeWhile P xs) + length (dropWhile P xs) = length xs"
  by (metis length_append takeWhile_dropWhile_id)

section \<open>Words\<close>

lemma and_not_mask_0: "(n::'a::len word) AND NOT (mask k) = 0 \<longleftrightarrow> take_bit k n = n"
  by (auto simp: bit_eq_iff bit_simps)

lemma hi_bits_clear: "(n::'a::len word) AND NOT (mask k) = 0 \<longleftrightarrow> unat n < 2 ^ k"
proof -
  have "take_bit k n = n \<longleftrightarrow> take_bit k (unat n) = unat n"
    by (metis unsigned_take_bit_eq word_unat_eq_iff)
  then show ?thesis by (simp add: and_not_mask_0 take_bit_nat_eq_self_iff)
qed

lemma unat_u8: "unat (n::u8) < 2 ^ 8"
  using unsigned_less [of n, where 'a = nat] by simp

lemma unat_u16: "unat (n::u16) < 2 ^ 16"
  using unsigned_less [of n, where 'a = nat] by simp

lemma unat_u32: "unat (n::u32) < 2 ^ 32"
  using unsigned_less [of n, where 'a = nat] by simp

lemma unat_radix_step:
  assumes "b * unat n + d < 2 ^ 32"
  shows "unat (of_nat b * n + of_nat d :: u32) = b * unat n + d"
proof -
  have "of_nat b * n + of_nat d = (of_nat (b * unat n + d) :: u32)" by simp
  then show ?thesis using assms by (simp add: unat_of_nat del: of_nat_add of_nat_mult)
qed

lemma uint_u32: "0 \<le> uint (w::u32)" "uint (w::u32) < 2 ^ 32"
  using unsigned_less [of w, where 'a = int] by simp_all

lemma unat_lt_uint: "unat w < n \<longleftrightarrow> uint w < int n"
  by (metis nat_less_iff uint_ge_0 unat_eq_nat_uint)

lemma sint_u32: "sint (w::u32) = (if uint w < 2 ^ 31 then uint w else uint w - 2 ^ 32)"
proof -
  have s: "sint w = (uint w + 2 ^ 31) mod 2 ^ 32 - 2 ^ 31"
    by (simp add: sint_uint signed_take_bit_eq_take_bit_shift take_bit_eq_mod)
  show ?thesis
  proof (cases "uint w < 2 ^ 31")
    case True
    then show ?thesis by (simp add: s)
  next
    case False
    have "(uint w + 2 ^ 31) mod 2 ^ 32 = (uint w + 2 ^ 31 - 2 ^ 32) mod 2 ^ 32"
      by (rule minus_mod_self2 [symmetric])
    also have "\<dots> = uint w + 2 ^ 31 - 2 ^ 32"
      using False uint_u32 [of w] by (intro mod_pos_pos_trivial) auto
    finally show ?thesis using False by (simp add: s)
  qed
qed

lemma uint_uminus_u32: "(w::u32) \<noteq> 0 \<Longrightarrow> uint (- w) = 2 ^ 32 - uint w"
proof -
  assume "w \<noteq> 0"
  then have "0 < uint w" using uint_u32 [of w] by (simp add: less_le uint_0_iff)
  have "uint (- w) = (- uint w) mod 2 ^ 32" by (simp add: uint_word_ariths)
  also have "\<dots> = (2 ^ 32 - uint w) mod 2 ^ 32" by simp
  also have "\<dots> = 2 ^ 32 - uint w" using uint_u32 [of w] \<open>0 < uint w\<close> by (intro mod_pos_pos_trivial) auto
  finally show ?thesis .
qed

end
