(* ===== verification/Numerals.thy ===== *)
theory Numerals
  imports CPrelude
begin

text \<open>
  Decimal and other positional numerals as text: the value of a list of digits, the digits at
  the start of a text, and the decimal text of a number as \<open>printf\<close> prints it.
\<close>

section \<open>Positional numerals\<close>

text \<open>The number a list of digits stands for, read behind a prefix of value \<open>n\<close>.\<close>

definition radix_val :: "nat \<Rightarrow> nat \<Rightarrow> nat list \<Rightarrow> nat" where
  "radix_val b n ds = foldl (\<lambda>n d. b * n + d) n ds"

lemma radix_val_Nil [simp]: "radix_val b n [] = n"
  by (simp add: radix_val_def)

lemma radix_val_Cons [simp]: "radix_val b n (d # ds) = radix_val b (b * n + d) ds"
  by (simp add: radix_val_def)

lemma radix_val_append: "radix_val b n (ds @ es) = radix_val b (radix_val b n ds) es"
  by (simp add: radix_val_def)

lemma radix_val_ge: "0 < b \<Longrightarrow> n \<le> radix_val b n ds"
proof (induction ds arbitrary: n)
  case (Cons d ds)
  then have "b * n + d \<le> radix_val b (b * n + d) ds" by blast
  moreover have "n \<le> b * n + d" using Cons.prems by (simp add: trans_le_add1)
  ultimately show ?case by simp
qed simp

text \<open>The digits at the start of a text and the text behind them.\<close>

definition numeral_of :: "(char \<Rightarrow> nat option) \<Rightarrow> string \<Rightarrow> nat list" where
  "numeral_of digit s = map (the \<circ> digit) (takeWhile (\<lambda>c. digit c \<noteq> None) s)"

definition rest_after :: "(char \<Rightarrow> nat option) \<Rightarrow> string \<Rightarrow> string" where
  "rest_after digit s = dropWhile (\<lambda>c. digit c \<noteq> None) s"

lemma numeral_of_all:
  "(\<And>c. c \<in> set s \<Longrightarrow> digit c \<noteq> None) \<Longrightarrow>
     numeral_of digit s = map (the \<circ> digit) s \<and> rest_after digit s = []"
  unfolding numeral_of_def rest_after_def
  by (simp add: takeWhile_eq_all_conv [THEN iffD2] dropWhile_eq_Nil_conv [THEN iffD2] del: not_None_eq)

section \<open>Decimal text\<close>

definition decdigit :: "char \<Rightarrow> nat option" where
  "decdigit c = (if 48 \<le> schar c \<and> schar c \<le> 57 then Some (nat (schar c - 48)) else None)"

text \<open>The decimal digits of a number, without leading zeros; none for 0.\<close>

fun decstr :: "nat \<Rightarrow> string" where
  "decstr n = (if n = 0 then [] else decstr (n div 10) @ [char_of (48 + n mod 10)])"

declare decstr.simps [simp del]

lemma decdigit_char_of: "d < 10 \<Longrightarrow> decdigit (char_of (48 + d)) = Some d"
  by (simp add: decdigit_def schar_char_of)

lemma decstr_digits: "c \<in> set (decstr n) \<Longrightarrow> decdigit c \<noteq> None"
proof (induction n rule: decstr.induct)
  case (1 n)
  then show ?case by (auto simp: decstr.simps [of n] decdigit_char_of split: if_splits)
qed

lemma decstr_value: "radix_val 10 0 (map (the \<circ> decdigit) (decstr n)) = n"
proof (induction n rule: decstr.induct)
  case (1 n)
  then show ?case by (simp add: decstr.simps [of n] radix_val_append decdigit_char_of)
qed

lemma decstr_length: "n < 10 ^ k \<Longrightarrow> length (decstr n) \<le> k"
proof (induction k arbitrary: n)
  case (Suc k)
  then show ?case by (auto simp: decstr.simps [of n] less_mult_imp_div_less mult.commute)
qed (simp add: decstr.simps)

lemma decstr_head:
  assumes "0 < n"
  shows "\<exists>d s. decstr n = char_of (48 + d) # s \<and> 0 < d \<and> d < (10::nat)"
  using assms
proof (induction n rule: decstr.induct)
  case (1 n)
  show ?case
  proof (cases "n div 10 = 0")
    case True
    then have "decstr n = char_of (48 + n) # []" "n < 10"
      using "1.prems" by (auto simp: decstr.simps [of n] decstr.simps [of 0] div_eq_0_iff)
    then show ?thesis using "1.prems" by blast
  next
    case False
    then obtain d s where "decstr (n div 10) = char_of (48 + d) # s" "0 < d" "d < (10::nat)"
      using "1.IH" "1.prems" by auto
    moreover from this(1) have "decstr n = char_of (48 + d) # s @ [char_of (48 + n mod 10)]"
      using "1.prems" by (simp add: decstr.simps [of n])
    ultimately show ?thesis by blast
  qed
qed

text \<open>\<open>%u\<close>, and \<open>%4u\<close> with its field width.\<close>

definition fmt_u :: "nat \<Rightarrow> string" where
  "fmt_u n = (if n = 0 then ''0'' else decstr n)"

definition fmt_4u :: "nat \<Rightarrow> string" where
  "fmt_4u n = replicate (4 - length (fmt_u n)) SPACE @ fmt_u n"

lemma decdigit_0 [simp]: "decdigit CHR ''0'' = Some 0"
  by code_simp

lemma fmt_u_digits: "c \<in> set (fmt_u n) \<Longrightarrow> decdigit c \<noteq> None"
  by (auto simp: fmt_u_def simp del: not_None_eq dest: decstr_digits split: if_splits)

lemma fmt_u_value: "radix_val 10 0 (map (the \<circ> decdigit) (fmt_u n)) = n"
  by (simp add: fmt_u_def decstr_value)

lemma fmt_u_nonempty [simp]: "fmt_u n \<noteq> []"
  by (simp add: fmt_u_def) (simp add: decstr.simps)

lemma fmt_u_length: "n < 10 ^ k \<Longrightarrow> 0 < k \<Longrightarrow> length (fmt_u n) \<le> k"
  by (simp add: fmt_u_def decstr_length)

section \<open>Signed numbers\<close>

text \<open>\<open>%d\<close> and \<open>atoi\<close>, which cuts the saturated result of \<open>strtol\<close> to 32 bits.\<close>

definition fmt_d :: "int \<Rightarrow> string" where
  "fmt_d v = (if v < 0 then CHR ''-'' # fmt_u (nat (- v)) else fmt_u (nat v))"

definition digits_value :: "string \<Rightarrow> int" where
  "digits_value s = int (radix_val 10 0 (numeral_of decdigit s))"

definition strtol :: "string \<Rightarrow> int" where
  "strtol s =
     (let t = dropWhile isspace s;
          v = (if t \<noteq> [] \<and> hd t = CHR ''-'' then - digits_value (tl t)
               else if t \<noteq> [] \<and> hd t = CHR ''+'' then digits_value (tl t)
               else digits_value t)
      in max (- (2 ^ 63)) (min (2 ^ 63 - 1) v))"

definition atoi :: "string \<Rightarrow> int" where
  "atoi s = sint (word_of_int (strtol s) :: u32)"

definition int_ok :: "int \<Rightarrow> bool" where
  "int_ok v \<longleftrightarrow> - (2 ^ 31) \<le> v \<and> v < 2 ^ 31"

lemma isspace_digit: "decdigit c \<noteq> None \<Longrightarrow> \<not> isspace c"
proof -
  have "schar SPACE = 32" by code_simp
  then show "decdigit c \<noteq> None \<Longrightarrow> \<not> isspace c" by (auto simp: decdigit_def isspace_def split: if_splits)
qed

lemma isspace_minus: "\<not> isspace CHR ''-''" "decdigit CHR ''-'' = None" "decdigit CHR ''+'' = None" "decdigit CHR ''='' = None"
  by code_simp+

lemma fmt_u_head: "\<exists>c s. fmt_u n = c # s \<and> decdigit c \<noteq> None"
  using fmt_u_digits [of _ n] fmt_u_nonempty [of n] by (cases "fmt_u n") auto

lemma digits_value_fmt_u:
  assumes "rest = [] \<or> decdigit (hd rest) = None"
  shows "digits_value (fmt_u n @ rest) = int n"
proof -
  have "takeWhile (\<lambda>c. decdigit c \<noteq> None) (fmt_u n @ rest) = fmt_u n @ takeWhile (\<lambda>c. decdigit c \<noteq> None) rest"
    by (rule takeWhile_append2) (rule fmt_u_digits)
  moreover have "takeWhile (\<lambda>c. decdigit c \<noteq> None) rest = []" using assms by (cases rest) auto
  ultimately show ?thesis using fmt_u_value [of n] by (simp add: digits_value_def numeral_of_def)
qed

lemma strtol_fmt_d:
  assumes "int_ok v" "rest = [] \<or> decdigit (hd rest) = None"
  shows "strtol (fmt_d v @ rest) = v"
proof (cases "v < 0")
  case True
  then show ?thesis using assms digits_value_fmt_u [OF assms(2), of "nat (- v)"] isspace_minus
    by (simp add: strtol_def fmt_d_def int_ok_def)
next
  case False
  obtain c s where c: "fmt_u (nat v) = c # s" "decdigit c \<noteq> None" using fmt_u_head by blast
  then have "c \<noteq> CHR ''-''" "c \<noteq> CHR ''+''" using isspace_minus by auto
  then show ?thesis using False assms digits_value_fmt_u [OF assms(2), of "nat v"] c isspace_digit [OF c(2)]
    by (simp add: strtol_def fmt_d_def int_ok_def)
qed

lemma atoi_fmt_d:
  assumes "int_ok v" "rest = [] \<or> decdigit (hd rest) = None"
  shows "atoi (fmt_d v @ rest) = v"
proof -
  have "sint (word_of_int v :: u32) = v" using assms(1) by (simp add: int_ok_def sint_sbintrunc' signed_take_bit_int_eq_self)
  then show ?thesis by (simp add: atoi_def strtol_fmt_d [OF assms])
qed

lemma fmt_d_head: "\<exists>c s. fmt_d v = c # s \<and> \<not> isspace c"
proof (cases "v < 0")
  case True
  then show ?thesis using isspace_minus by (simp add: fmt_d_def)
next
  case False
  then show ?thesis using fmt_u_head [of "nat v"] isspace_digit by (auto simp: fmt_d_def)
qed

lemma fmt_u_digit: "n < 10 \<Longrightarrow> fmt_u n = [char_of (48 + n)]"
proof (cases "n = 0")
  case True
  have "''0'' = [char_of (48 :: nat)]" by code_simp
  then show ?thesis using True by (simp add: fmt_u_def)
qed (simp add: fmt_u_def decstr.simps [of n] decstr.simps [of 0])

end
