(* ===== verification/StrFunc.thy ===== *)
theory StrFunc
  imports Numerals
begin

text \<open>
  The number and string conversions of \<open>stringHash4MCU_/strfunc.c\<close>, which the firmware links
  instead of the C library: hexadecimal dumps, integers to text and text to integers in four
  notations. The readers return the rest of the input and the number written through their
  pointer argument; on overflow they return the start of the input and store \<open>0xffffff\<close>.
\<close>

section \<open>Definitions\<close>

subsection \<open>Output\<close>

text \<open>One hexadecimal digit: \<open>half + '0'\<close> or \<open>half - 10 + 'a'\<close>.\<close>

definition hexdigit :: "u8 \<Rightarrow> char" where
  "hexdigit half = (if half < 10 then char_of (unat (half + 48)) else char_of (unat (half - 10 + 97)))"

definition hexbyte :: "u8 \<Rightarrow> string" where
  "hexbyte b = [hexdigit (drop_bit 4 b AND 0x0f), hexdigit (b AND 0x0f)]"

text \<open>
  \<open>hexdump()\<close>: the loop index, the text collected in \<open>buf\<close> so far and the bytes left; the
  result lists the strings given to \<open>sendfun\<close>.
\<close>

fun hexdump_loop :: "nat \<Rightarrow> string \<Rightarrow> u8 list \<Rightarrow> string list" where
  "hexdump_loop l buf [] = (if buf \<noteq> [] then [buf @ [NL]] else [])"
| "hexdump_loop l buf (b # arr) =
     (let buf' = buf @ hexbyte b in
      if l mod 16 = 15 then (buf' @ [NL]) # hexdump_loop (l + 1) [] arr
      else hexdump_loop (l + 1) (buf' @ [SPACE]) arr)"

definition hexdump :: "u8 list \<Rightarrow> string list" where
  "hexdump arr = hexdump_loop 0 [] arr"

text \<open>\<open>_2str()\<close>: digits are stored from the end of \<open>strbuf\<close>; \<open>acc\<close> is the text from \<open>bufptr\<close> on.\<close>

function two_str_loop :: "u32 \<Rightarrow> string \<Rightarrow> string" where
  "two_str_loop val acc =
     (if val = 0 then acc
      else let x = val div 10 in two_str_loop x (char_of (unat (val - 10 * x + 48)) # acc))"
  by pat_completeness auto
termination
  by (relation "measure (\<lambda>(val, acc). unat val)") (auto simp: unat_div unat_gt_0)

declare two_str_loop.simps [simp del]

definition two_str :: "u32 \<Rightarrow> bool \<Rightarrow> string" where
  "two_str val neg =
     (let digits = (if val = 0 then [CHR ''0''] else two_str_loop val []) in
      if neg then CHR ''-'' # digits else digits)"

definition u2str :: "u32 \<Rightarrow> string" where
  "u2str val = two_str val False"

text \<open>\<open>val = -i\<close> is taken in \<open>uint32_t\<close>, so \<open>INT32_MIN\<close> becomes 2147483648.\<close>

definition i2str :: "u32 \<Rightarrow> string" where
  "i2str i = (if sint i < 0 then two_str (- i) True else two_str i False)"

text \<open>
  \<open>uhex2str()\<close>: the bytes from the most significant one on, \<open>i\<close> and the flag \<open>z\<close> as in the loop.
\<close>

fun uhex_loop :: "nat \<Rightarrow> bool \<Rightarrow> u8 list \<Rightarrow> string" where
  "uhex_loop i z [] = []"
| "uhex_loop i z (b # bs) =
     (if b = 0 then
        (let z' = (if i = 3 then False else z) in
         if z' then uhex_loop (i + 1) z' bs else hexbyte b @ uhex_loop (i + 1) z' bs)
      else hexbyte b @ uhex_loop (i + 1) False bs)"

definition be_bytes :: "u32 \<Rightarrow> u8 list" where
  "be_bytes v = [ucast (drop_bit 24 v), ucast (drop_bit 16 v), ucast (drop_bit 8 v), ucast v]"

definition uhex2str :: "u32 \<Rightarrow> string" where
  "uhex2str val = ''0x'' @ uhex_loop 0 True (be_bytes val)"

subsection \<open>Input\<close>

fun omit_spaces :: "string \<Rightarrow> string" where
  "omit_spaces [] = []"
| "omit_spaces (c # buf) = (if schar c > 32 then c # buf else omit_spaces buf)"

fun getdec_loop :: "string \<Rightarrow> u32 \<Rightarrow> string \<Rightarrow> string \<times> u32" where
  "getdec_loop start num [] = ([], num)"
| "getdec_loop start num (c # buf) =
     (if schar c < 48 \<or> schar c > 57 then (c # buf, num)
      else if num > 429496729 \<or> (num = 429496729 \<and> schar c > 53) then (start, 0xffffff)
      else getdec_loop start (num * 10 + word_of_int (schar c - 48)) buf)"

definition getdec :: "string \<Rightarrow> string \<times> u32" where
  "getdec buf = getdec_loop buf 0 buf"

text \<open>The base character \<open>M\<close> that \<open>gethex\<close> subtracts; 0 for a character that is no digit.\<close>

definition hexbase :: "char \<Rightarrow> int" where
  "hexbase c =
     (if 48 \<le> schar c \<and> schar c \<le> 57 then 48
      else if 65 \<le> schar c \<and> schar c \<le> 70 then 65 - 10
      else if 97 \<le> schar c \<and> schar c \<le> 102 then 97 - 10
      else 0)"

fun gethex_loop :: "string \<Rightarrow> u32 \<Rightarrow> string \<Rightarrow> string \<times> u32" where
  "gethex_loop start num [] = ([], num)"
| "gethex_loop start num (c # buf) =
     (let M = hexbase c in
      if M \<noteq> 0 then
        (if num AND 0xf0000000 \<noteq> 0 then (start, 0xffffff)
         else gethex_loop start (push_bit 4 num + word_of_int (schar c - M)) buf)
      else (c # buf, num))"

definition gethex :: "string \<Rightarrow> string \<times> u32" where
  "gethex buf = gethex_loop buf 0 buf"

fun getoct_loop :: "string \<Rightarrow> u32 \<Rightarrow> string \<Rightarrow> string \<times> u32" where
  "getoct_loop start num [] = ([], num)"
| "getoct_loop start num (c # buf) =
     (if schar c < 48 \<or> schar c > 55 then (c # buf, num)
      else if num AND 0xe0000000 \<noteq> 0 then (start, 0xffffff)
      else getoct_loop start (push_bit 3 num + word_of_int (schar c - 48)) buf)"

definition getoct :: "string \<Rightarrow> string \<times> u32" where
  "getoct buf = getoct_loop buf 0 buf"

fun getbin_loop :: "string \<Rightarrow> u32 \<Rightarrow> string \<Rightarrow> string \<times> u32" where
  "getbin_loop start num [] = ([], num)"
| "getbin_loop start num (c # buf) =
     (if schar c < 48 \<or> schar c > 49 then (c # buf, num)
      else if num AND 0x80000000 \<noteq> 0 then (start, 0xffffff)
      else getbin_loop start (if schar c = 49 then push_bit 1 num OR 1 else push_bit 1 num) buf)"

definition getbin :: "string \<Rightarrow> string \<times> u32" where
  "getbin buf = getbin_loop buf 0 buf"

text \<open>\<open>getnum()\<close>: the rest of the text, equal to \<open>txt\<close> itself when there is no number.\<close>

definition getnum :: "string \<Rightarrow> string \<times> u32" where
  "getnum txt =
     (let s = omit_spaces txt in
      if cat s 0 = 48 then
        (if cat s 1 = 120 \<or> cat s 1 = 88 then
           (let (nxt, n) = gethex (drop 2 s) in (if nxt = drop 2 s then txt else nxt, n))
         else if cat s 1 > 47 \<and> cat s 1 < 56 then
           (let (nxt, n) = getoct (drop 1 s) in (if nxt = drop 1 s then txt else nxt, n))
         else (drop 1 s, 0))
      else if cat s 0 = 98 \<or> cat s 0 = 66 then
        (let (nxt, n) = getbin (drop 1 s) in (if nxt = drop 1 s then txt else nxt, n))
      else
        (let (nxt, n) = getdec s in (if nxt = s then txt else nxt, n)))"

text \<open>\<open>getint()\<close>: \<open>None\<close> when \<open>*I\<close> is not written.\<close>

definition getint :: "string \<Rightarrow> string \<times> int option" where
  "getint txt =
     (let s0 = omit_spaces txt;
          neg = (cat s0 0 = 45);
          s = (if neg then drop 1 s0 else s0);
          (nxt, U) = getnum s in
      if nxt = s then (txt, None)
      else if U AND 0x80000000 \<noteq> 0 then (txt, None)
      else (nxt, Some ((if neg then - 1 else 1) * sint U)))"

section \<open>The contract of the readers\<close>

text \<open>
  The contract the four readers share: a reader of a given base stops at the first character
  that is no digit, and either takes a digit into the number or, where the number would not fit
  32 bits, gives up with the start of the text. What it then returns is exactly the value of
  the numeral, or the overflow report.
\<close>

locale radix_reader =
  fixes reader :: "string \<Rightarrow> u32 \<Rightarrow> string \<Rightarrow> string \<times> u32"
    and digit :: "char \<Rightarrow> nat option"
    and base :: nat
  assumes base_pos: "0 < base"
    and at_end: "reader start n [] = ([], n)"
    and at_stop: "digit c = None \<Longrightarrow> reader start n (c # s) = (c # s, n)"
    and overflow: "digit c = Some d \<Longrightarrow> 2 ^ 32 \<le> base * unat n + d
      \<Longrightarrow> reader start n (c # s) = (start, 0xffffff)"
    and accept: "digit c = Some d \<Longrightarrow> base * unat n + d < 2 ^ 32
      \<Longrightarrow> reader start n (c # s) = reader start (of_nat base * n + of_nat d) s"
begin

lemma reads_exactly:
  "reader start n s =
     (let v = radix_val base (unat n) (numeral_of digit s) in
      if v < 2 ^ 32 then (rest_after digit s, of_nat v) else (start, 0xffffff))"
proof (induction s arbitrary: n)
  case Nil
  show ?case using unat_u32 [of n] by (simp add: at_end numeral_of_def rest_after_def)
next
  case (Cons c s)
  show ?case
  proof (cases "digit c")
    case None
    then show ?thesis
      using unat_u32 [of n] by (simp add: at_stop numeral_of_def rest_after_def)
  next
    case (Some d)
    then have digits: "numeral_of digit (c # s) = d # numeral_of digit s" and rest: "rest_after digit (c # s) = rest_after digit s"
      by (simp_all add: numeral_of_def rest_after_def)
    show ?thesis
    proof (cases "base * unat n + d < 2 ^ 32")
      case True
      then show ?thesis
        using Cons [of "of_nat base * n + of_nat d"] accept [OF Some True]
        by (simp add: digits rest unat_radix_step Let_def)
    next
      case False
      moreover have "base * unat n + d \<le> radix_val base (base * unat n + d) (numeral_of digit s)"
        using base_pos by (rule radix_val_ge)
      ultimately show ?thesis using overflow [OF Some] by (simp add: digits)
    qed
  qed
qed

end

section \<open>The readers keep the contract\<close>

definition hexdigit_val :: "char \<Rightarrow> nat option" where
  "hexdigit_val c = (if hexbase c \<noteq> 0 then Some (nat (schar c - hexbase c)) else None)"

definition octdigit :: "char \<Rightarrow> nat option" where
  "octdigit c = (if 48 \<le> schar c \<and> schar c \<le> 55 then Some (nat (schar c - 48)) else None)"

definition bindigit :: "char \<Rightarrow> nat option" where
  "bindigit c = (if 48 \<le> schar c \<and> schar c \<le> 49 then Some (nat (schar c - 48)) else None)"

lemma high_nibble_clear: "(n::u32) AND 0xf0000000 = 0 \<longleftrightarrow> unat n < 2 ^ 28"
proof -
  have "(0xf0000000 :: u32) = NOT (mask 28)" by code_simp
  then show ?thesis by (simp only: hi_bits_clear)
qed

lemma high_octal_clear: "(n::u32) AND 0xe0000000 = 0 \<longleftrightarrow> unat n < 2 ^ 29"
proof -
  have "(0xe0000000 :: u32) = NOT (mask 29)" by code_simp
  then show ?thesis by (simp only: hi_bits_clear)
qed

lemma sign_bit_clear: "(n::u32) AND 0x80000000 = 0 \<longleftrightarrow> unat n < 2 ^ 31"
proof -
  have "(0x80000000 :: u32) = NOT (mask 31)" by code_simp
  then show ?thesis by (simp only: hi_bits_clear)
qed

interpretation dec: radix_reader getdec_loop decdigit 10
  by unfold_locales
    (auto simp: decdigit_def word_less_nat_alt word_unat_eq_iff mult.commute split: if_splits)

interpretation hex: radix_reader gethex_loop hexdigit_val 16
  by unfold_locales
    (auto simp: hexdigit_val_def high_nibble_clear push_bit_eq_mult mult.commute Let_def hexbase_def split: if_splits)

interpretation oct: radix_reader getoct_loop octdigit 8
  by unfold_locales
    (auto simp: octdigit_def high_octal_clear push_bit_eq_mult mult.commute split: if_splits)

interpretation bin: radix_reader getbin_loop bindigit 2
  by unfold_locales
    (auto simp: bindigit_def sign_bit_clear push_bit_eq_mult or_one_eq mult.commute split: if_splits)

section \<open>What the conversions print is what they read\<close>

lemma two_str_loop_decstr: "two_str_loop v acc = decstr (unat v) @ acc"
proof (induction v acc rule: two_str_loop.induct)
  case (1 v acc)
  have digit: "unat (v - 10 * (v div 10) + 48) = 48 + unat v mod 10"
  proof -
    have "v - 10 * (v div 10) = v mod 10" by (simp add: minus_mult_div_eq_mod)
    moreover have "unat (v mod 10 + 48) = 48 + unat v mod 10"
      by (simp add: unat_word_ariths unat_mod)
    ultimately show ?thesis by simp
  qed
  show ?case
  proof (cases "v = 0")
    case False
    then show ?thesis
      using 1 [OF False refl] digit
      by (simp add: two_str_loop.simps [of v] decstr.simps [of "unat v"] Let_def unat_div unat_eq_zero)
  qed (simp add: two_str_loop.simps decstr.simps)
qed

lemma getdec_reads:
  "getdec s =
     (let v = radix_val 10 0 (numeral_of decdigit s) in
      if v < 2 ^ 32 then (rest_after decdigit s, of_nat v) else (s, 0xffffff))"
  using dec.reads_exactly [of s 0 s] by (simp add: getdec_def)

text \<open>
  C31. \<open>getdec\<close> reads the decimal numeral at the start of the text. When the number fits 32 bits the result is the
  number and the text behind it, also where the text ends or the numeral is empty; otherwise no text is consumed.
\<close>

theorem getdec_exact:
  "let v = radix_val 10 0 (numeral_of decdigit s) in
   if v < 2 ^ 32 then getdec s = (rest_after decdigit s, of_nat v) else fst (getdec s) = s"
  by (simp add: getdec_reads Let_def)

text \<open>
  The marker stored for a number that does not fit is \<open>0xffffff\<close>, which is a number that fits; the comments above
  \<open>getdec\<close> and \<open>getnum\<close> promise \<open>0xffffffff\<close>.
\<close>

theorem getdec_overflow_marker:
  "radix_val 10 0 (numeral_of decdigit s) \<ge> 2 ^ 32 \<Longrightarrow> snd (getdec s) = 0xffffff"
  by (simp add: getdec_reads Let_def)

lemma gethex_exact:
  "gethex s =
     (let v = radix_val 16 0 (numeral_of hexdigit_val s) in
      if v < 2 ^ 32 then (rest_after hexdigit_val s, of_nat v) else (s, 0xffffff))"
  using hex.reads_exactly [of s 0 s] by (simp add: gethex_def)

lemma getdec_decstr: "getdec (decstr (unat v)) = ([], v)"
  using numeral_of_all [of "decstr (unat v)" decdigit, OF decstr_digits] unat_u32 [of v]
  by (simp add: getdec_reads decstr_value)

lemma getnum_decstr:
  assumes "v \<noteq> 0"
  shows "getnum (decstr (unat v)) = ([], v)"
proof -
  have "0 < unat v" using assms by (simp add: unat_gt_0)
  then obtain d s where ds: "decstr (unat v) = char_of (48 + d) # s" "0 < d" "d < (10::nat)"
    using decstr_head by blast
  then have "getdec (char_of (48 + d) # s) = ([], v)" using getdec_decstr [of v] by simp
  then show ?thesis using ds by (simp add: getnum_def schar_char_of)
qed

text \<open>
  The text \<open>u2str\<close> prints for any 32-bit number is read back by \<open>getnum\<close>, completely.
\<close>

theorem getnum_u2str: "getnum (u2str v) = ([], v)"
proof (cases "v = 0")
  case True
  moreover have "getnum (u2str 0) = ([], 0)" by code_simp
  ultimately show ?thesis by simp
next
  case False
  then show ?thesis by (simp add: u2str_def two_str_def two_str_loop_decstr getnum_decstr)
qed

lemma two_str_length: "length (two_str v neg) \<le> (if neg then 11 else 10)"
proof -
  have "unat v < 10 ^ 10" using unat_u32 [of v] by simp
  then have "length (decstr (unat v)) \<le> 10" by (rule decstr_length)
  then show ?thesis by (simp add: two_str_def two_str_loop_decstr)
qed


lemma getint_decstr:
  fixes v :: u32
  assumes "v \<noteq> 0" "uint v < 2 ^ 31"
  shows "getint (decstr (unat v)) = ([], Some (uint v))"
    "getint (CHR ''-'' # decstr (unat v)) = ([], Some (- uint v))"
proof -
  have "0 < unat v" using assms by (simp add: unat_gt_0)
  then obtain d s where ds: "decstr (unat v) = char_of (48 + d) # s" "0 < d" "d < (10::nat)"
    using decstr_head by blast
  have m: "schar CHR ''-'' = 45" by code_simp
  have u: "v AND 0x80000000 = 0" using assms by (simp add: sign_bit_clear unat_lt_uint)
  have "getnum (char_of (48 + d) # s) = ([], v)" using getnum_decstr [OF assms(1)] ds by simp
  then show "getint (decstr (unat v)) = ([], Some (uint v))"
    "getint (CHR ''-'' # decstr (unat v)) = ([], Some (- uint v))"
    using ds assms(2) u by (simp_all add: getint_def schar_char_of sint_u32 m)
qed

lemma i2str_negative:
  assumes "sint i < 0"
  shows "i2str i = CHR ''-'' # decstr (unat (- i))" "uint (- i) = 2 ^ 32 - uint i" "2 ^ 31 \<le> uint i"
proof -
  show "2 ^ 31 \<le> uint i" using assms uint_u32 [of i] by (simp add: sint_u32 split: if_splits)
  moreover have "i \<noteq> 0" using assms by auto
  ultimately show "uint (- i) = 2 ^ 32 - uint i" by (simp add: uint_uminus_u32)
  show "i2str i = CHR ''-'' # decstr (unat (- i))"
    using assms \<open>i \<noteq> 0\<close> by (simp add: i2str_def two_str_def two_str_loop_decstr)
qed

text \<open>
  The text \<open>i2str\<close> prints for a signed number is read back by \<open>getint\<close>, for every number but
  \<open>INT32_MIN\<close>, which \<open>getint\<close> refuses.
\<close>

theorem getint_i2str:
  "getint (i2str i) = (if i = 0x80000000 then (i2str i, None) else ([], Some (sint i)))"
proof (cases "i = 0x80000000 \<or> i = 0")
  case True
  moreover have "getint (i2str 0x80000000) = (i2str 0x80000000, None)" by code_simp
  moreover have "getint (i2str 0) = ([], Some 0)" by code_simp
  ultimately show ?thesis by auto
next
  case False
  then have ne: "uint i \<noteq> 2 ^ 31" by (simp add: word_uint_eq_iff)
  show ?thesis
  proof (cases "sint i < 0")
    case True
    note neg = i2str_negative [OF this]
    then have "uint (- i) < 2 ^ 31" using ne by simp
    then show ?thesis using False neg getint_decstr(2) [of "- i"] by (simp add: sint_u32)
  next
    case nonneg: False
    then have lt: "uint i < 2 ^ 31" using uint_u32 [of i] by (simp add: sint_u32 split: if_splits)
    then show ?thesis using False nonneg getint_decstr(1) [of i]
      by (simp add: i2str_def two_str_def two_str_loop_decstr sint_u32)
  qed
qed

lemma hexdigit_inverse: "h < 16 \<Longrightarrow> hexdigit_val (hexdigit h) = Some (unat h)"
proof -
  assume "h < 16"
  then have "unat h \<in> set [0..<16]" by (simp add: word_less_nat_alt)
  moreover have "list_all (\<lambda>n. hexdigit_val (hexdigit (of_nat n)) = Some n) [0..<16]" by code_simp
  ultimately have "hexdigit_val (hexdigit (of_nat (unat h))) = Some (unat h)"
    unfolding list_all_iff by blast
  then show ?thesis by simp
qed

lemma nibble_less: "(b::u8) AND 0x0f < 16"
  using word_and_le1 [of b "0x0f"] by (rule order.strict_trans1) simp

lemma hexbyte_digits: "c \<in> set (hexbyte b) \<Longrightarrow> hexdigit_val c \<noteq> None"
  by (auto simp: hexbyte_def hexdigit_inverse nibble_less)

lemma unat_low_nibble: "unat ((w::u8) AND 0x0f) = unat w mod 16"
proof -
  have m: "(0x0f :: u8) = mask 4" by code_simp
  show ?thesis unfolding m take_bit_eq_mask [symmetric] unsigned_take_bit_eq
    by (simp add: take_bit_eq_mod)
qed

lemma hexbyte_val: "radix_val 16 n (map (the \<circ> hexdigit_val) (hexbyte b)) = 256 * n + unat b"
proof -
  have "unat (drop_bit 4 b) = unat b div 16"
    unfolding unat_drop_bit_eq by (simp add: drop_bit_eq_div)
  moreover have "unat b div 16 mod 16 = unat b div 16"
    using unat_u8 [of b] by (intro mod_less) (simp add: div_less_iff_less_mult)
  moreover have "unat b = 16 * (unat b div 16) + unat b mod 16" by simp
  ultimately show ?thesis
    by (simp add: hexbyte_def hexdigit_inverse nibble_less unat_low_nibble)
qed

lemma be_bytes_val: "radix_val 256 0 (map unat (be_bytes v)) = unat v"
proof -
  define n where "n = unat v"
  have n: "n < 2 ^ 32" unfolding n_def by (rule unat_u32)
  have byte: "unat (ucast (drop_bit k v) :: u8) = n div 2 ^ k mod 256" for k
  proof -
    have "unat (drop_bit k v) = n div 2 ^ k"
      unfolding unat_drop_bit_eq n_def by (rule drop_bit_eq_div)
    then show ?thesis by (simp add: unsigned_ucast_eq take_bit_eq_mod)
  qed
  have "unat (ucast v :: u8) = n mod 256" using byte [of 0] by simp
  then have "radix_val 256 0 (map unat (be_bytes v)) =
      256 * (256 * (256 * (n div 2 ^ 24 mod 256) + n div 2 ^ 16 mod 256) + n div 2 ^ 8 mod 256) + n mod 256"
    by (simp add: be_bytes_def byte)
  also have "\<dots> = n"
  proof -
    have "n div 2 ^ 16 = 256 * (n div 2 ^ 24) + n div 2 ^ 16 mod 256"
      using div_mult_mod_eq [of "n div 2 ^ 16" 256] by (simp add: div_mult2_eq [symmetric])
    moreover have "n div 2 ^ 8 = 256 * (n div 2 ^ 16) + n div 2 ^ 8 mod 256"
      using div_mult_mod_eq [of "n div 2 ^ 8" 256] by (simp add: div_mult2_eq [symmetric])
    moreover have "n = 256 * (n div 2 ^ 8) + n mod 256" by simp
    moreover have "n div 2 ^ 24 mod 256 = n div 2 ^ 24"
      using n by (intro mod_less) (simp add: div_less_iff_less_mult)
    ultimately show ?thesis by simp
  qed
  finally show ?thesis by (simp add: n_def)
qed

lemma uhex_loop_digits: "c \<in> set (uhex_loop i z bs) \<Longrightarrow> hexdigit_val c \<noteq> None"
  by (induction i z bs rule: uhex_loop.induct)
    (auto simp: Let_def simp del: not_None_eq dest: hexbyte_digits split: if_splits)

lemma uhex_loop_val:
  "i + length bs = 4 \<Longrightarrow> (z \<Longrightarrow> n = 0) \<Longrightarrow>
     radix_val 16 n (map (the \<circ> hexdigit_val) (uhex_loop i z bs)) = radix_val 256 n (map unat bs)"
  by (induction i z bs arbitrary: n rule: uhex_loop.induct)
    (auto simp: Let_def radix_val_append hexbyte_val)

text \<open>
  The hexadecimal text of \<open>uhex2str\<close>, leading zero bytes omitted, is read back by \<open>getnum\<close>.
\<close>

theorem getnum_uhex2str: "getnum (uhex2str v) = ([], v)"
proof -
  let ?h = "uhex_loop 0 True (be_bytes v)"
  have "radix_val 16 0 (map (the \<circ> hexdigit_val) ?h) = unat v"
    using uhex_loop_val [of 0 "be_bytes v" True 0] be_bytes_val [of v] by (simp add: be_bytes_def)
  then have "gethex ?h = ([], v)"
    using numeral_of_all [of ?h hexdigit_val, OF uhex_loop_digits] unat_u32 [of v]
    by (simp add: gethex_exact)
  moreover have "?h \<noteq> []" by (simp add: be_bytes_def hexbyte_def)
  moreover have "schar CHR ''0'' = 48" "schar CHR ''x'' = 120" by code_simp+
  ultimately show ?thesis by (simp add: getnum_def uhex2str_def)
qed

lemma hexdump_loop_chars:
  "filter (\<lambda>c. c \<noteq> SPACE \<and> c \<noteq> NL) (concat (hexdump_loop l buf arr)) =
     filter (\<lambda>c. c \<noteq> SPACE \<and> c \<noteq> NL) (buf @ concat (map hexbyte arr))"
  by (induction l buf arr rule: hexdump_loop.induct) (auto simp: Let_def)

lemma hexdigit_visible: "h < 16 \<Longrightarrow> hexdigit h \<noteq> SPACE \<and> hexdigit h \<noteq> NL"
  using hexdigit_inverse [of h] by (auto simp: hexdigit_val_def hexbase_def schar_def)

text \<open>
  A hex dump shows the bytes of the array, each as two digits, in order, whatever its line
  breaks.
\<close>

theorem hexdump_content:
  "filter (\<lambda>c. c \<noteq> SPACE \<and> c \<noteq> NL) (concat (hexdump arr)) = concat (map hexbyte arr)"
proof -
  have "filter (\<lambda>c. c \<noteq> SPACE \<and> c \<noteq> NL) (concat (map hexbyte arr)) = concat (map hexbyte arr)"
    by (induction arr) (simp_all add: hexbyte_def hexdigit_visible nibble_less)
  then show ?thesis by (simp add: hexdump_def hexdump_loop_chars)
qed

lemma hexdump_loop_bound:
  "length buf = 3 * (l mod 16) \<Longrightarrow> s \<in> set (hexdump_loop l buf arr) \<Longrightarrow> length s \<le> 48"
proof (induction l buf arr rule: hexdump_loop.induct)
  case (1 l buf)
  have "l mod 16 < 16" by simp
  then show ?case using 1 by (auto split: if_splits)
next
  case (2 l buf b arr)
  have "(l + 1) mod 16 = (if l mod 16 = 15 then 0 else l mod 16 + 1)" by (simp add: mod_Suc)
  then show ?case using 2 by (auto simp: Let_def hexbyte_def split: if_splits)
qed

text \<open>
  No conversion overruns its static buffer: 12 bytes for numbers, 52 for a line of a hex
  dump, the terminating NUL included.
\<close>

theorem conversion_buffers:
  "length (u2str v) < 12 \<and> length (i2str v) < 12 \<and> length (uhex2str v) < 12 \<and>
   list_all (\<lambda>s. length s < 52) (hexdump arr)"
proof -
  have "length (uhex_loop 0 True (be_bytes v)) \<le> 8" by (simp add: be_bytes_def hexbyte_def)
  moreover have "length (u2str v) \<le> 10" "length (i2str v) \<le> 11"
    using two_str_length [of v False] two_str_length [of "- v" True]
    by (simp_all add: u2str_def i2str_def)
  moreover have "length s \<le> 48" if "s \<in> set (hexdump arr)" for s
    using hexdump_loop_bound [of "[]" 0 s arr] that by (simp add: hexdump_def)
  ultimately show ?thesis by (fastforce simp: uhex2str_def list_all_iff)
qed

text \<open>
  A text with the prefix \<open>0b\<close> is not read as a binary number, although the comment above
  \<open>getnum\<close> gives \<open>0b1111111\<close> as an example: the number is 0 and the rest starts at the \<open>b\<close>.
\<close>

theorem getnum_0b_prefix: "getnum (''0b'' @ s) = (''b'' @ s, 0)"
proof -
  have "schar CHR ''0'' = 48" "schar CHR ''b'' = 98" by code_simp+
  then show ?thesis by (simp add: getnum_def)
qed

end
