(* ===== verification/SortSearch.thy ===== *)
theory SortSearch
  imports CPrelude
begin

text \<open>
  The two interfaces through which the components order and search their tables: \<open>qsort\<close> of
  the C library with a comparison function, and a binary search over a table ordered by it.
  Both are locales; the clients' lemmas (neighbours of equal key exist whenever a key repeats,
  a binary search finds a key whenever it is there) are proved once in them.
\<close>

section \<open>qsort\<close>

text \<open>
  \<open>qsort(base, n, size, compar)\<close>. The standard leaves the order of equal elements open; the
  executable model keeps the input's, as glibc's merge sort does, and the lemmas below use
  only the contract.
\<close>

fun insert_by :: "('e \<Rightarrow> 'e \<Rightarrow> int) \<Rightarrow> 'e \<Rightarrow> 'e list \<Rightarrow> 'e list" where
  "insert_by compar x [] = [x]"
| "insert_by compar x (y # ys) =
     (if compar x y \<le> 0 then x # y # ys else y # insert_by compar x ys)"

fun qsort :: "('e \<Rightarrow> 'e \<Rightarrow> int) \<Rightarrow> 'e list \<Rightarrow> 'e list" where
  "qsort compar [] = []"
| "qsort compar (x # xs) = insert_by compar x (qsort compar xs)"

text \<open>What the C standard asks of a comparison function: it orders the elements by a key.\<close>

definition ranks :: "('e \<Rightarrow> 'e \<Rightarrow> int) \<Rightarrow> ('e \<Rightarrow> 'k::linorder) \<Rightarrow> bool" where
  "ranks compar key \<longleftrightarrow>
     (\<forall>x y. (compar x y < 0 \<longleftrightarrow> key x < key y) \<and> (0 < compar x y \<longleftrightarrow> key y < key x))"

lemma ranks_le: "ranks compar key \<Longrightarrow> compar x y \<le> 0 \<longleftrightarrow> key x \<le> key y"
  unfolding ranks_def by (meson linorder_not_less)

lemma ranks_eq: "ranks compar key \<Longrightarrow> compar x y = 0 \<longleftrightarrow> key x = key y"
  unfolding ranks_def by (metis less_irrefl linorder_neqE)

locale table_sorter =
  fixes sorter :: "('e \<Rightarrow> 'e \<Rightarrow> int) \<Rightarrow> 'e list \<Rightarrow> 'e list"
  assumes keeps_elements: "mset (sorter compar xs) = mset xs"
    and puts_in_order:
      "(\<forall>x y. compar x y \<le> 0 \<or> compar y x \<le> 0) \<Longrightarrow>
       (\<forall>x y z. compar x y \<le> 0 \<longrightarrow> compar y z \<le> 0 \<longrightarrow> compar x z \<le> 0) \<Longrightarrow>
       sorted_wrt (\<lambda>x y. compar x y \<le> 0) (sorter compar xs)"
begin

lemma sorter_set [simp]: "set (sorter compar xs) = set xs"
  by (metis keeps_elements set_mset_mset)

lemma sorter_length [simp]: "length (sorter compar xs) = length xs"
  by (metis keeps_elements size_mset)

lemma sorter_distinct: "distinct (map key (sorter compar xs)) \<longleftrightarrow> distinct (map key xs)"
  by (metis keeps_elements mset_eq_imp_distinct_iff mset_map)

lemma sorter_sorted:
  assumes "ranks compar key"
  shows "sorted (map key (sorter compar xs))"
proof -
  have "sorted_wrt (\<lambda>x y. compar x y \<le> 0) (sorter compar xs)"
    using ranks_le [OF assms] by (intro puts_in_order) (auto simp: linear)
  then show ?thesis by (simp add: sorted_map ranks_le [OF assms])
qed

end

lemma mset_insert_by: "mset (insert_by compar x xs) = add_mset x (mset xs)"
  by (induction xs) auto

lemma set_insert_by: "set (insert_by compar x xs) = insert x (set xs)"
  by (induction xs) auto

lemma mset_qsort: "mset (qsort compar xs) = mset xs"
  by (induction xs) (auto simp: mset_insert_by)

lemma insert_by_ordered:
  assumes "\<forall>x y. compar x y \<le> 0 \<or> compar y x \<le> 0"
    and "\<forall>x y z. compar x y \<le> 0 \<longrightarrow> compar y z \<le> 0 \<longrightarrow> compar x z \<le> (0::int)"
  shows "sorted_wrt (\<lambda>x y. compar x y \<le> 0) xs \<Longrightarrow>
    sorted_wrt (\<lambda>x y. compar x y \<le> 0) (insert_by compar x xs)"
proof (induction xs)
  case (Cons y ys)
  then show ?case using assms by (auto simp: set_insert_by)
qed simp

lemma qsort_ordered:
  assumes "\<forall>x y. compar x y \<le> 0 \<or> compar y x \<le> 0"
    and "\<forall>x y z. compar x y \<le> 0 \<longrightarrow> compar y z \<le> 0 \<longrightarrow> compar x z \<le> (0::int)"
  shows "sorted_wrt (\<lambda>x y. compar x y \<le> 0) (qsort compar xs)"
  by (induction xs) (auto intro: insert_by_ordered [OF assms])

interpretation qs: table_sorter qsort
  by unfold_locales (auto simp: mset_qsort intro: qsort_ordered)

section \<open>Repeated keys in a sorted table\<close>

text \<open>Whether some element has the key of its successor: the scan behind a \<open>qsort\<close>.\<close>

fun has_twins :: "('e \<Rightarrow> 'e \<Rightarrow> bool) \<Rightarrow> 'e list \<Rightarrow> bool" where
  "has_twins same (x # y # zs) = (same x y \<or> has_twins same (y # zs))"
| "has_twins same _ = False"

lemma sorted_no_twins:
  "sorted (map key xs) \<Longrightarrow> \<not> has_twins (\<lambda>x y. key x = key y) xs \<longleftrightarrow> distinct (map key xs)"
proof (induction "\<lambda>x y. key x = key y" xs rule: has_twins.induct)
  case (1 x y zs)
  show ?case
  proof (cases "key x = key y")
    case False
    with "1.prems" have "key x < key y" by (simp add: less_le)
    moreover have "key y \<le> k" if "k \<in> set (map key (y # zs))" for k
      using "1.prems" that by auto
    ultimately have "key x \<notin> set (map key (y # zs))" by (meson leD)
    then show ?thesis using 1 False by simp
  qed simp
qed auto

section \<open>Binary search\<close>

text \<open>
  A search over the table \<open>t\<close> of \<open>size t\<close> elements. \<open>compar t k i\<close> compares the needle \<open>k\<close> with
  element \<open>i\<close>; in a well-formed table a needle left of an element is left of all the later ones,
  and right of an element is right of all the earlier ones.
\<close>

locale bin_search =
  fixes search :: "'t \<Rightarrow> 'k \<Rightarrow> nat \<Rightarrow> nat \<Rightarrow> nat option"
    and compar :: "'t \<Rightarrow> 'k \<Rightarrow> nat \<Rightarrow> int"
    and wf_table :: "'t \<Rightarrow> bool"
    and size :: "'t \<Rightarrow> nat"
  assumes halving:
      "search t k low high =
         (if low < high then
            (let mid = (high + low) div 2; c = compar t k mid in
             if c < 0 then search t k low mid
             else if c > 0 then search t k (mid + 1) high
             else Some mid)
          else None)"
    and left_of: "wf_table t \<Longrightarrow> i \<le> j \<Longrightarrow> j < size t \<Longrightarrow> compar t k i < 0 \<Longrightarrow> compar t k j < 0"
    and right_of: "wf_table t \<Longrightarrow> i \<le> j \<Longrightarrow> j < size t \<Longrightarrow> compar t k j > 0 \<Longrightarrow> compar t k i > 0"
begin

lemma search_sound: "search t k low high = Some i \<Longrightarrow> low \<le> i \<and> i < high \<and> compar t k i = 0"
proof (induction "high - low" arbitrary: low high rule: less_induct)
  case less
  let ?mid = "(high + low) div 2"
  have low: "low < high" using less.prems by (subst (asm) halving) (simp split: if_splits)
  then have m: "low \<le> ?mid" "?mid < high" by auto
  consider "compar t k ?mid < 0" | "compar t k ?mid > 0" | "compar t k ?mid = 0" by linarith
  then show ?case
  proof cases
    case 1
    then have "search t k low ?mid = Some i"
      using less.prems low by (subst (asm) halving) (simp add: Let_def)
    moreover have "?mid - low < high - low" using m by linarith
    ultimately have "low \<le> i \<and> i < ?mid \<and> compar t k i = 0" using less.hyps by blast
    then show ?thesis using m by linarith
  next
    case 2
    then have "search t k (?mid + 1) high = Some i"
      using less.prems low by (subst (asm) halving) (simp add: Let_def)
    moreover have "high - (?mid + 1) < high - low" using m by linarith
    ultimately have "?mid + 1 \<le> i \<and> i < high \<and> compar t k i = 0" using less.hyps by blast
    then show ?thesis using m by linarith
  next
    case 3
    then show ?thesis using less.prems low m by (subst (asm) halving) (simp add: Let_def)
  qed
qed

lemma search_complete:
  assumes "wf_table t"
  shows "high \<le> size t \<Longrightarrow> search t k low high = None \<Longrightarrow> low \<le> i \<Longrightarrow> i < high \<Longrightarrow> compar t k i \<noteq> 0"
proof (induction "high - low" arbitrary: low high rule: less_induct)
  case less
  let ?mid = "(high + low) div 2"
  have low: "low < high" using less.prems by simp
  then have m: "low \<le> ?mid" "?mid < high" by auto
  consider "compar t k ?mid < 0" | "compar t k ?mid > 0" | "compar t k ?mid = 0" by linarith
  then show ?case
  proof cases
    case 1
    then have *: "search t k low ?mid = None"
      using less.prems low by (subst (asm) halving) (simp add: Let_def)
    show ?thesis
    proof (cases "i < ?mid")
      case False
      then show ?thesis using left_of [OF assms, of ?mid i k] 1 less.prems by auto
    next
      case True
      moreover have "?mid - low < high - low" "?mid \<le> size t" using m less.prems by linarith+
      ultimately show ?thesis using less.hyps * less.prems by blast
    qed
  next
    case 2
    then have *: "search t k (?mid + 1) high = None"
      using less.prems low by (subst (asm) halving) (simp add: Let_def)
    show ?thesis
    proof (cases "i \<le> ?mid")
      case True
      then show ?thesis using right_of [OF assms, of i ?mid k] 2 less.prems m by auto
    next
      case False
      moreover have "high - (?mid + 1) < high - low" "?mid + 1 \<le> i" using False m by linarith+
      ultimately show ?thesis using less.hyps * less.prems by blast
    qed
  next
    case 3
    then show ?thesis using less.prems low by (subst (asm) halving) (simp add: Let_def)
  qed
qed

lemma search_iff:
  assumes "wf_table t" "high \<le> size t"
  shows "(\<exists>i. search t k low high = Some i) \<longleftrightarrow> (\<exists>i. low \<le> i \<and> i < high \<and> compar t k i = 0)"
  using search_sound search_complete [OF assms(1) assms(2)] by (metis not_None_eq)

text \<open>A search in a table of positions \<open>base\<close>, which lists every position below \<open>n\<close>.\<close>

lemma search_positions:
  assumes "wf_table t" "size t = n" "length base = n" "set base = {0..<n}"
    and hit: "\<And>m. m < n \<Longrightarrow> compar t k m = 0 \<longleftrightarrow> hit (base ! m)"
  shows "case map_option (\<lambda>m. base ! m) (search t k 0 n) of
      None \<Rightarrow> (\<forall>j < n. \<not> hit j)
    | Some j \<Rightarrow> j < n \<and> hit j"
proof (cases "search t k 0 n")
  case None
  have "\<not> hit j" if j: "j < n" for j
  proof -
    obtain m where "m < n" "j = base ! m"
      using assms(3,4) j by (metis atLeastLessThan_iff in_set_conv_nth le0)
    then show ?thesis using search_complete [OF assms(1) _ None, of m] assms(2) hit by simp
  qed
  then show ?thesis using None by simp
next
  case (Some m)
  then have "m < n" "compar t k m = 0" using search_sound by blast+
  then show ?thesis using Some hit nth_mem [of m base] assms(3,4) by auto
qed

end

end
