(* ===== verification/HashGen.thy ===== *)
theory HashGen
  imports SortSearch
begin

text \<open>
  \<open>stringHash4MCU_/hashgen.c\<close>: from a dictionary of text commands it looks for a hash function
  without collisions and writes a parser that switches over the hash. The model follows
  \<open>main()\<close> from the text of the dictionary to the tables of the generated files and adds the
  meaning of the generated \<open>parsecmd()\<close>, whose text is the string constants \<open>fhdr\<close>, \<open>sw\<close> and
  \<open>ffooter\<close>. The layout of the generated text is not modelled.
\<close>

section \<open>Hash functions\<close>

text \<open>\<open>MAXCMDLEN\<close>.\<close>

abbreviation MAXCMDLEN :: nat where "MAXCMDLEN \<equiv> 128"

text \<open>The zeroed buffer behind the text, read as little-endian 32-bit words.\<close>

definition byte32 :: "char \<Rightarrow> u32" where
  "byte32 c = ucast (of_char c :: u8)"

fun le_words :: "string \<Rightarrow> u32 list" where
  "le_words (a # b # c # d # s) =
     (byte32 a + push_bit 8 (byte32 b) + push_bit 16 (byte32 c) + push_bit 24 (byte32 d)) # le_words s"
| "le_words [a, b, c] = [byte32 a + push_bit 8 (byte32 b) + push_bit 16 (byte32 c)]"
| "le_words [a, b] = [byte32 a + push_bit 8 (byte32 b)]"
| "le_words [a] = [byte32 a]"
| "le_words [] = []"

definition my :: "string \<Rightarrow> u32" where
  "my str = fold (\<lambda>c hash. push_bit 2 hash + c) (le_words str) 0"

text \<open>\<open>c = (uint32_t)*str++\<close>: the signed character, extended to 32 bits.\<close>

definition char32 :: "char \<Rightarrow> u32" where
  "char32 c = word_of_int (schar c)"

definition djb2 :: "string \<Rightarrow> u32" where
  "djb2 str = fold (\<lambda>c hash. (push_bit 7 hash + hash) + char32 c) str 5381"

definition sdbm :: "string \<Rightarrow> u32" where
  "sdbm str = fold (\<lambda>c hash. char32 c + push_bit 6 hash + push_bit 16 hash - hash) str 5381"

definition jenkins_mix :: "char \<Rightarrow> u32 \<Rightarrow> u32" where
  "jenkins_mix c hash =
     (let h1 = hash + char32 c; h2 = h1 + push_bit 10 h1 in h2 XOR drop_bit 6 h2)"

definition jenkins :: "string \<Rightarrow> u32" where
  "jenkins str =
     (let h0 = fold jenkins_mix str 0;
          h1 = h0 + push_bit 3 h0;
          h2 = h1 XOR drop_bit 11 h1
      in h2 + push_bit 15 h2)"

definition hashes :: "(string \<Rightarrow> u32) list" where
  "hashes = [my, djb2, sdbm, jenkins]"

section \<open>Names\<close>

definition macro_char :: "char \<Rightarrow> char" where
  "macro_char c0 = (let c = (if \<not> isalpha c0 then CHR ''_'' else c0) in
     if islower c then toupper c else c)"

definition macroname_of :: "string \<Rightarrow> string" where
  "macroname_of cmd = map macro_char (take MAXCMDLEN cmd)"

definition fn_char :: "char \<Rightarrow> char" where
  "fn_char c0 = (let c = (if \<not> isalpha c0 then CHR ''_'' else c0) in
     if isupper c then tolower c else c)"

definition fnname :: "string \<Rightarrow> string" where
  "fnname cmd = map fn_char (take MAXCMDLEN cmd)"

section \<open>The dictionary\<close>

record strhash =
  str :: string
  fname :: string
  macroname :: string
  hash :: u32

definition new_entry :: "string \<Rightarrow> strhash" where
  "new_entry s = \<lparr>str = s, fname = take (MAXCMDLEN - 1) (fnname s), macroname = [], hash = 0\<rparr>"

text \<open>
  The loop of \<open>main()\<close> over the file: bytes below 33 are skipped, a command ends at the first
  space or at the end of its line, and the rest of the line is ignored.
\<close>

definition upto_space :: "string \<Rightarrow> string" where
  "upto_space s = takeWhile (\<lambda>c. c \<noteq> SPACE) s"

function read_dict :: "string \<Rightarrow> strhash list" where
  "read_dict data =
     (let word = dropWhile (\<lambda>c. schar c < 33) data in
      if word = [] then []
      else case split_at NL word of
        Some (line, rest) \<Rightarrow> new_entry (take MAXCMDLEN (upto_space line)) # read_dict rest
      | None \<Rightarrow>
          [new_entry (if SPACE \<in> set word then take MAXCMDLEN (upto_space word)
                      else take (MAXCMDLEN - 1) word)])"
  by pat_completeness auto
termination
proof (relation "measure length", goal_cases)
  case (2 data word p line rest)
  then have "split_at NL word = Some (line, rest)" by simp
  then have "word = line @ NL # rest" by (simp add: split_at_Some)
  moreover have "length word \<le> length data" using 2 by (simp add: length_dropWhile_le)
  ultimately show ?case by simp
qed simp

declare read_dict.simps [simp del]

definition sorthashesH :: "strhash \<Rightarrow> strhash \<Rightarrow> int" where
  "sorthashesH a b = (if hash a > hash b then 1 else if hash a < hash b then - 1 else 0)"

definition sorthashesS :: "strhash \<Rightarrow> strhash \<Rightarrow> int" where
  "sorthashesS a b = strcmp (str a) (str b)"

definition sorthashesF :: "strhash \<Rightarrow> strhash \<Rightarrow> int" where
  "sorthashesF a b = strcmp (fname a) (fname b)"

section \<open>Generation\<close>

text \<open>
  What the generated files hold: the number of the hash function in \<open>hashsources\<close>, the value
  of \<open>CMD_MAXLEN\<close>, and per command the macro \<open>CMD_\<close> with its hash, the function \<open>fn_\<close> it is
  given to and the macro \<open>STR_\<close> with its text.
\<close>

record generated =
  gen_hno :: nat
  gen_maxlen :: nat
  gen_cmds :: "strhash list"

definition build :: "strhash list \<Rightarrow> nat \<Rightarrow> generated" where
  "build H hno =
     (let H1 = map (\<lambda>h. h\<lparr>macroname := macroname_of (str h)\<rparr>) H;
          lmax = fold (\<lambda>h m. if length (str h) > m then length (str h) else m) H1 1;
          lmax = (lmax + 3) div 4 * 4
      in \<lparr>gen_hno = hno, gen_maxlen = lmax, gen_cmds = qsort sorthashesS H1\<rparr>)"

text \<open>
  \<open>main()\<close> behind the reading of the dictionary: it stops when two functions would have one
  name, and otherwise takes the first hash function without a matching pair. The table is
  sorted again by every attempt.
\<close>

datatype outcome = SimilarNames | NoHash | Generated generated

fun try_hashes :: "nat \<Rightarrow> (string \<Rightarrow> u32) list \<Rightarrow> strhash list \<Rightarrow> outcome" where
  "try_hashes hno [] H = NoHash"
| "try_hashes hno (hf # hfs) H =
     (let H1 = qsort sorthashesH (map (\<lambda>h. h\<lparr>hash := hf (str h)\<rparr>) H) in
      if \<not> has_twins (\<lambda>p q. hash p = hash q) H1 then Generated (build H1 hno)
      else try_hashes (hno + 1) hfs H1)"

definition hashgen :: "string \<Rightarrow> outcome" where
  "hashgen data =
     (let H = qsort sorthashesF (read_dict data) in
      if has_twins (\<lambda>p q. strcmp (fname p) (fname q) = 0) H then SimilarNames
      else try_hashes 0 hashes H)"

section \<open>The generated parser\<close>

text \<open>
  \<open>parsecmd(str)\<close> of the generated source: the command is the run of characters above \<open>'@'\<close>,
  cut at \<open>CMD_MAXLEN\<close>; the arguments start behind the next spaces; the \<open>switch\<close> calls the
  function whose macro has the hash. \<open>None\<close> is \<open>RET_CMDNOTFOUND\<close>, \<open>Some (f, a)\<close> the call
  \<open>fn_f(h, a)\<close>.
\<close>

definition cmd_word :: "generated \<Rightarrow> string \<Rightarrow> string" where
  "cmd_word g s = take (gen_maxlen g) (takeWhile (\<lambda>c. schar c > 64) s)"

definition cmd_args :: "generated \<Rightarrow> string \<Rightarrow> string" where
  "cmd_args g s = dropWhile (\<lambda>c. schar c \<le> 32) (drop (length (cmd_word g s)) s)"

definition parsecmd :: "generated \<Rightarrow> string \<Rightarrow> (string \<times> string) option" where
  "parsecmd g s =
     (if s = [] then None
      else map_option (\<lambda>h. (fname h, cmd_args g s))
             (find (\<lambda>h. hash h = (hashes ! gen_hno g) (cmd_word g s)) (gen_cmds g)))"

section \<open>Lemmas\<close>

lemma ranks_hash: "ranks sorthashesH hash"
  by (auto simp: ranks_def sorthashesH_def)

lemma ranks_str: "ranks sorthashesS str"
  by (simp add: ranks_def sorthashesS_def strcmp_neg_iff strcmp_pos_iff)

lemma ranks_fname: "ranks sorthashesF fname"
  by (simp add: ranks_def sorthashesF_def strcmp_neg_iff strcmp_pos_iff)

text \<open>A command is known by its text and its function's name, which no later step changes.\<close>

abbreviation ident :: "strhash \<Rightarrow> string \<times> string" where
  "ident h \<equiv> (str h, fname h)"

lemma mset_map_qsort: "mset (map f (qsort compar xs)) = mset (map f xs)"
  by (simp add: mset_qsort)

lemma ident_build: "mset (map ident (gen_cmds (build H hno))) = mset (map ident H)"
  by (simp add: build_def Let_def mset_qsort image_mset.compositionality comp_def)

lemma build_fields:
  "gen_hno (build H hno) = hno"
  "h \<in> set (gen_cmds (build H hno)) \<longleftrightarrow>
     (\<exists>h'\<in>set H. h = h'\<lparr>macroname := macroname_of (str h')\<rparr>)"
  by (auto simp: build_def Let_def)

definition longest :: "strhash list \<Rightarrow> nat \<Rightarrow> nat" where
  "longest = fold (\<lambda>h m. if length (str h) > m then length (str h) else m)"

lemma longest_Cons: "longest (a # H) m = longest H (if length (str a) > m then length (str a) else m)"
  by (simp add: longest_def)

lemma longest_ge_start: "m \<le> longest H m"
proof (induction H arbitrary: m)
  case (Cons a H)
  show ?case using Cons [of "if length (str a) > m then length (str a) else m"]
    unfolding longest_Cons by (simp split: if_splits)
qed (simp add: longest_def)

lemma longest_ge: "h \<in> set H \<Longrightarrow> length (str h) \<le> longest H m"
proof (induction H arbitrary: m)
  case (Cons a H)
  let ?m = "if length (str a) > m then length (str a) else m"
  show ?case using Cons longest_ge_start [of ?m H] unfolding longest_Cons
    by (auto split: if_splits)
qed simp

lemma maxlen_ge: "h \<in> set (gen_cmds (build H hno)) \<Longrightarrow> length (str h) \<le> gen_maxlen (build H hno)"
proof -
  assume h: "h \<in> set (gen_cmds (build H hno))"
  let ?H = "map (\<lambda>h. h\<lparr>macroname := macroname_of (str h)\<rparr>) H"
  let ?m = "longest ?H 1"
  have "h \<in> set ?H" using h by (simp add: build_def Let_def)
  then have "length (str h) \<le> ?m" by (rule longest_ge)
  also have "?m \<le> (?m + 3) div 4 * 4" by linarith
  finally show ?thesis by (simp add: build_def Let_def longest_def)
qed

text \<open>The hash function has no matching pair among the commands.\<close>

definition clash_free :: "(string \<Rightarrow> u32) \<Rightarrow> strhash list \<Rightarrow> bool" where
  "clash_free hf H \<longleftrightarrow> distinct (map (\<lambda>h. hf (str h)) H)"

text \<open>The generated tables are those of the commands \<open>H\<close> under the collision-free hash \<open>hf\<close>.\<close>

definition serves :: "(string \<Rightarrow> u32) \<Rightarrow> strhash list \<Rightarrow> generated \<Rightarrow> bool" where
  "serves hf H g \<longleftrightarrow>
     clash_free hf H \<and>
     mset (map ident (gen_cmds g)) = mset (map ident H) \<and>
     (\<forall>h \<in> set (gen_cmds g). hash h = hf (str h) \<and> macroname h = macroname_of (str h) \<and>
        length (str h) \<le> gen_maxlen g)"

lemma clash_free_perm:
  assumes "mset (map ident H) = mset (map ident H')"
  shows "clash_free hf H = clash_free hf H'"
proof -
  have "mset (map (\<lambda>h. hf (str h)) H) = mset (map (\<lambda>h. hf (str h)) H')"
    using arg_cong [OF assms, where f = "image_mset (hf \<circ> fst)"]
    by (simp add: image_mset.compositionality comp_def)
  then show ?thesis unfolding clash_free_def by (rule mset_eq_imp_distinct_iff)
qed

lemma serves_perm:
  assumes "mset (map ident H) = mset (map ident H')"
  shows "serves hf H g = serves hf H' g"
  unfolding serves_def assms clash_free_perm [OF assms] ..

lemma hashed_ident:
  "mset (map ident (qsort sorthashesH (map (\<lambda>h. h\<lparr>hash := hf (str h)\<rparr>) H))) = mset (map ident H)"
  by (simp add: mset_qsort image_mset.compositionality comp_def)

lemma hashed_twins:
  "has_twins (\<lambda>p q. hash p = hash q) (qsort sorthashesH (map (\<lambda>h. h\<lparr>hash := hf (str h)\<rparr>) H))
     \<longleftrightarrow> \<not> clash_free hf H"
proof -
  let ?H = "map (\<lambda>h. h\<lparr>hash := hf (str h)\<rparr>) H"
  have "\<not> has_twins (\<lambda>p q. hash p = hash q) (qsort sorthashesH ?H) \<longleftrightarrow>
      distinct (map hash (qsort sorthashesH ?H))"
    by (rule sorted_no_twins [OF qs.sorter_sorted [OF ranks_hash]])
  also have "\<dots> \<longleftrightarrow> distinct (map hash ?H)" by (rule qs.sorter_distinct)
  also have "\<dots> \<longleftrightarrow> clash_free hf H" by (simp add: comp_def clash_free_def)
  finally show ?thesis by blast
qed

lemma build_serves:
  assumes "clash_free hf H"
  shows "serves hf H (build (qsort sorthashesH (map (\<lambda>h. h\<lparr>hash := hf (str h)\<rparr>) H)) hno)"
proof -
  let ?H1 = "qsort sorthashesH (map (\<lambda>h. h\<lparr>hash := hf (str h)\<rparr>) H)"
  have "mset (map ident (gen_cmds (build ?H1 hno))) = mset (map ident H)"
    unfolding ident_build by (rule hashed_ident)
  moreover have "\<forall>h \<in> set (gen_cmds (build ?H1 hno)).
      hash h = hf (str h) \<and> macroname h = macroname_of (str h)"
    by (auto simp: build_fields(2))
  ultimately show ?thesis using assms maxlen_ge unfolding serves_def by blast
qed

lemma try_hashes_Generated:
  "try_hashes hno hfs H = Generated g \<Longrightarrow>
     \<exists>k < length hfs. gen_hno g = hno + k \<and> serves (hfs ! k) H g \<and>
       (\<forall>j < k. \<not> clash_free (hfs ! j) H)"
proof (induction hno hfs H rule: try_hashes.induct)
  case (2 hno hf hfs H)
  let ?H1 = "qsort sorthashesH (map (\<lambda>h. h\<lparr>hash := hf (str h)\<rparr>) H)"
  show ?case
  proof (cases "clash_free hf H")
    case True
    then have "g = build ?H1 hno" using "2.prems" by (simp add: Let_def hashed_twins)
    then show ?thesis
      using build_serves [OF True] build_fields(1) by (intro exI [of _ 0]) auto
  next
    case False
    then have "try_hashes (hno + 1) hfs ?H1 = Generated g"
      using "2.prems" by (simp add: Let_def hashed_twins)
    then obtain k where k: "k < length hfs" "gen_hno g = hno + 1 + k" "serves (hfs ! k) ?H1 g"
        "\<forall>j < k. \<not> clash_free (hfs ! j) ?H1"
      using "2.IH" [OF refl] False by (auto simp: hashed_twins)
    have "clash_free f ?H1 = clash_free f H" for f by (rule clash_free_perm [OF hashed_ident])
    then show ?thesis using k False serves_perm [OF hashed_ident]
      by (intro exI [of _ "Suc k"]) (auto simp: less_Suc_eq_0_disj)
  qed
qed simp

lemma try_hashes_NoHash:
  "try_hashes hno hfs H = NoHash \<longleftrightarrow> (\<forall>hf \<in> set hfs. \<not> clash_free hf H)"
proof (induction hno hfs H rule: try_hashes.induct)
  case (2 hno hf hfs H)
  let ?H1 = "qsort sorthashesH (map (\<lambda>h. h\<lparr>hash := hf (str h)\<rparr>) H)"
  have "clash_free f ?H1 = clash_free f H" for f by (rule clash_free_perm [OF hashed_ident])
  then show ?case using 2 [OF refl] by (auto simp: Let_def hashed_twins)
qed simp

lemma try_hashes_names: "try_hashes hno hfs H \<noteq> SimilarNames"
  by (induction hno hfs H rule: try_hashes.induct) (auto simp: Let_def)

lemma names_twins:
  "has_twins (\<lambda>p q. fname p = fname q) (qsort sorthashesF H) \<longleftrightarrow> \<not> distinct (map fname H)"
  using sorted_no_twins [OF qs.sorter_sorted [OF ranks_fname, of H]]
    qs.sorter_distinct [of fname sorthashesF H]
  by auto

lemma hashgen_entry: "h \<in> set (read_dict data) \<Longrightarrow> fname h = take (MAXCMDLEN - 1) (fnname (str h))"
proof (induction data rule: read_dict.induct)
  case (1 data)
  from "1.prems" have "h \<in> set (read_dict data)" .
  then show ?case unfolding read_dict.simps [of data]
    using "1.IH" [OF refl] by (auto simp: new_entry_def Let_def split: if_splits option.splits)
qed

text \<open>Every command has a character, the first not blank.\<close>

lemma dropWhile_low_hd: "dropWhile (\<lambda>c. schar c < 33) data = c # cs \<Longrightarrow> c \<noteq> SPACE \<and> c \<noteq> NL"
  using hd_dropWhile [of "\<lambda>c. schar c < 33" data] by (auto simp: schar_def)

lemma upto_space_nonempty: "c \<noteq> SPACE \<Longrightarrow> upto_space (c # cs) \<noteq> []"
  by (simp add: upto_space_def)

lemma hashgen_nonempty: "h \<in> set (read_dict data) \<Longrightarrow> str h \<noteq> []"
proof (induction data rule: read_dict.induct)
  case (1 data)
  obtain word where w: "dropWhile (\<lambda>c. schar c < 33) data = word" by blast
  show ?case
  proof (cases word)
    case (Cons c cs)
    then have "c \<noteq> SPACE" "c \<noteq> NL" using dropWhile_low_hd w by blast+
    then have u: "upto_space word \<noteq> []" "\<And>l r. split_at NL word = Some (l, r) \<Longrightarrow> upto_space l \<noteq> []"
      using Cons by (auto simp: upto_space_nonempty split_at_Some Cons_eq_append_conv)
    have ne: "word \<noteq> []" using Cons by simp
    show ?thesis
    proof (cases "split_at NL word")
      case None
      then show ?thesis using "1.prems" u(1) ne unfolding read_dict.simps [of data] w
        by (auto simp: new_entry_def)
    next
      case (Some lr)
      obtain l r where lr: "lr = (l, r)" by force
      have "h = new_entry (take MAXCMDLEN (upto_space l)) \<or> h \<in> set (read_dict r)"
        using "1.prems" Some ne unfolding read_dict.simps [of data] w by (simp add: lr)
      then show ?thesis using "1.IH" [OF w [symmetric] ne Some lr [symmetric]] u(2) Some lr by (auto simp: new_entry_def)
    qed
  qed (use "1.prems" w read_dict.simps [of data] in simp)
qed

lemma tolower_macro_char: "tolower (macro_char c) = fn_char c"
proof -
  have "schar CHR ''_'' = 95" by code_simp
  moreover have "schar (char_of (nat (schar c) - 32)) = schar c - 32" if "islower c"
    using that by (subst schar_char_of) (auto simp: islower_def)
  moreover have "char_of (nat (schar c) - 32 + 32) = c" if "islower c"
  proof -
    have "schar (char_of (nat (schar c))) = schar c"
      using that schar_range [of c] by (subst schar_char_of) (auto simp: islower_def)
    moreover have "nat (schar c) - 32 + 32 = nat (schar c)" using that unfolding islower_def by linarith
    ultimately show ?thesis by (simp only: schar_inj)
  qed
  ultimately show ?thesis
    by (auto simp: macro_char_def fn_char_def Let_def toupper_def tolower_def isalpha_def
        isupper_def islower_def nat_diff_distrib)
qed

lemma macroname_fname:
  "take (MAXCMDLEN - 1) (map tolower (macroname_of s)) = take (MAXCMDLEN - 1) (fnname s)"
  by (simp add: macroname_of_def fnname_def tolower_macro_char comp_def)

lemma find_unique: "distinct (map f xs) \<Longrightarrow> h \<in> set xs \<Longrightarrow> find (\<lambda>x. f x = f h) xs = Some h"
  by (induction xs) (auto simp: image_iff)

lemma serves_hashes: "serves hf H g \<Longrightarrow> distinct (map hash (gen_cmds g))"
proof -
  assume s: "serves hf H g"
  then have "clash_free hf (gen_cmds g)" using clash_free_perm unfolding serves_def by blast
  moreover have "map hash (gen_cmds g) = map (\<lambda>h. hf (str h)) (gen_cmds g)"
    using s by (simp add: serves_def)
  ultimately show ?thesis by (metis clash_free_def)
qed

lemma serves_names:
  assumes s: "serves hf (read_dict data) g" and d: "distinct (map fname (read_dict data))"
  shows "distinct (map fname (gen_cmds g))" "distinct (map macroname (gen_cmds g))"
proof -
  have m: "mset (map ident (gen_cmds g)) = mset (map ident (read_dict data))"
    using s by (simp add: serves_def)
  from arg_cong [OF m, where f = "image_mset snd"]
  have "mset (map fname (gen_cmds g)) = mset (map fname (read_dict data))"
    by (simp add: image_mset.compositionality comp_def)
  then show names: "distinct (map fname (gen_cmds g))" using d by (metis mset_eq_imp_distinct_iff)
  have "fname h = take (MAXCMDLEN - 1) (map tolower (macroname h))" if "h \<in> set (gen_cmds g)" for h
  proof -
    have "ident h \<in> set (map ident (read_dict data))" using that mset_eq_setD [OF m] by auto
    then obtain h' where "h' \<in> set (read_dict data)" "str h' = str h" "fname h' = fname h" by auto
    then have "fname h = take (MAXCMDLEN - 1) (fnname (str h))" using hashgen_entry [of h' data] by simp
    moreover have "macroname h = macroname_of (str h)" using s that by (simp add: serves_def)
    ultimately show ?thesis by (simp only: macroname_fname)
  qed
  then have "map fname (gen_cmds g) = map (\<lambda>m. take (MAXCMDLEN - 1) (map tolower m)) (map macroname (gen_cmds g))"
    by simp
  with names have "distinct (map (\<lambda>m. take (MAXCMDLEN - 1) (map tolower m)) (map macroname (gen_cmds g)))"
    by (simp only:)
  then show "distinct (map macroname (gen_cmds g))" by (simp only: distinct_map)
qed

lemma hashgen_Generated:
  assumes "hashgen data = Generated g"
  obtains k where "k < length hashes" "gen_hno g = k" "serves (hashes ! k) (read_dict data) g"
    "\<forall>j < k. \<not> clash_free (hashes ! j) (read_dict data)" "distinct (map fname (read_dict data))"
proof -
  let ?H = "qsort sorthashesF (read_dict data)"
  have perm: "mset (map ident ?H) = mset (map ident (read_dict data))" by (simp add: mset_qsort)
  have "distinct (map fname (read_dict data))" "try_hashes 0 hashes ?H = Generated g"
    using assms by (auto simp: hashgen_def Let_def names_twins split: if_splits)
  then show ?thesis
    using try_hashes_Generated [of 0 hashes ?H g] that
    by (auto simp: serves_perm [OF perm] clash_free_perm [OF perm])
qed

text \<open>
  C8. The generator refuses the dictionary exactly when two commands would share a function name,
  gives up exactly when each of the four hash functions has a matching pair, and otherwise
  generates for the first function without one: then every command of the dictionary is in
  the tables, with its hash, and no two commands share a hash, a macro or a function.
\<close>

theorem hashgen_outcome:
  "case hashgen data of
     SimilarNames \<Rightarrow> \<not> distinct (map fname (read_dict data))
   | NoHash \<Rightarrow> distinct (map fname (read_dict data)) \<and>
       list_all (\<lambda>hf. \<not> clash_free hf (read_dict data)) hashes
   | Generated g \<Rightarrow> gen_hno g < length hashes \<and>
       list_all (\<lambda>hf. \<not> clash_free hf (read_dict data)) (take (gen_hno g) hashes) \<and>
       distinct (map fname (gen_cmds g)) \<and> distinct (map macroname (gen_cmds g)) \<and>
       distinct (map hash (gen_cmds g)) \<and>
       mset (map str (gen_cmds g)) = mset (map str (read_dict data)) \<and>
       list_all (\<lambda>h. hash h = (hashes ! gen_hno g) (str h)) (gen_cmds g)"
proof (cases "hashgen data")
  case SimilarNames
  then show ?thesis
    using try_hashes_names [of 0 hashes "qsort sorthashesF (read_dict data)"]
    by (auto simp: hashgen_def Let_def names_twins split: if_splits)
next
  case NoHash
  have perm: "mset (map ident (qsort sorthashesF (read_dict data))) = mset (map ident (read_dict data))"
    by (simp add: mset_qsort)
  show ?thesis using NoHash
    by (auto simp: hashgen_def Let_def names_twins try_hashes_NoHash clash_free_perm [OF perm]
        list_all_iff split: if_splits)
next
  case (Generated g)
  then obtain k where k: "k < length hashes" "gen_hno g = k" "serves (hashes ! k) (read_dict data) g"
      "\<forall>j < k. \<not> clash_free (hashes ! j) (read_dict data)" "distinct (map fname (read_dict data))"
    by (rule hashgen_Generated)
  have "mset (map str (gen_cmds g)) = mset (map str (read_dict data))"
  proof -
    have "mset (map ident (gen_cmds g)) = mset (map ident (read_dict data))"
      using k(3) by (simp add: serves_def)
    from arg_cong [OF this, where f = "image_mset fst"] show ?thesis
      by (simp add: image_mset.compositionality comp_def)
  qed
  moreover have "list_all (\<lambda>hf. \<not> clash_free hf (read_dict data)) (take k hashes)"
    using k(4) by (auto simp: list_all_length)
  ultimately show ?thesis
    using Generated k serves_hashes [OF k(3)] serves_names [OF k(3) k(5)]
    by (simp add: serves_def list_all_iff)
qed

text \<open>
  The generated parser cuts the word of a command before the first character not above \<open>'@'\<close>. What follows it in
  the command stays in the arguments, which are then longer than those given.
\<close>

lemma cut_word_args:
  assumes "\<not> list_all (\<lambda>c. schar c > 64) w" "list_all (\<lambda>c. schar c > 32) w"
  shows "cmd_args g (w @ args) \<noteq> dropWhile (\<lambda>c. schar c \<le> 32) args"
proof -
  let ?n = "length (cmd_word g (w @ args))"
  have "length (takeWhile (\<lambda>c. schar c > 64) w) < length w"
    using assms(1) by (induction w) auto
  moreover have "takeWhile (\<lambda>c. schar c > 64) (w @ args) = takeWhile (\<lambda>c. schar c > 64) w"
    using assms(1) by (induction w) auto
  ultimately have n: "?n < length w" by (simp add: cmd_word_def)
  then obtain c cs where d: "drop ?n w = c # cs" by (metis Cons_nth_drop_Suc)
  then have "schar c > 32" using assms(2) by (metis in_set_dropD list_all_iff list.set_intros(1))
  then have "cmd_args g (w @ args) = c # cs @ args" using n d by (simp add: cmd_args_def)
  moreover have "length (dropWhile (\<lambda>c. schar c \<le> 32) args) \<le> length args" by (rule length_dropWhile_le)
  ultimately show ?thesis by (auto dest: arg_cong [where f = length])
qed

text \<open>
  C9. For a dictionary command without blanks, and arguments behind a character not above \<open>'@'\<close>: the generated parser
  calls the function of the command, with the text behind the separating spaces as its arguments, exactly when every
  character of the command is above \<open>'@'\<close>. A command with a digit or a sign is never called as it was written.
\<close>

theorem parsecmd_dispatch:
  assumes "hashgen data = Generated g" and h: "h \<in> set (gen_cmds g)"
    and chars: "list_all (\<lambda>c. schar c > 32) (str h)"
    and sep: "args = [] \<or> schar (hd args) \<le> 64"
  shows "parsecmd g (str h @ args) = Some (fname h, dropWhile (\<lambda>c. schar c \<le> 32) args) \<longleftrightarrow>
    list_all (\<lambda>c. schar c > 64) (str h)"
proof -
  obtain k where k: "gen_hno g = k" "serves (hashes ! k) (read_dict data) g"
    using assms(1) by (rule hashgen_Generated)
  have "str h \<noteq> []"
  proof -
    have "mset (map ident (gen_cmds g)) = mset (map ident (read_dict data))"
      using k(2) by (simp add: serves_def)
    from mset_eq_setD [OF this] have "ident h \<in> set (map ident (read_dict data))" using h by auto
    then show ?thesis using hashgen_nonempty by fastforce
  qed
  moreover have ?thesis if letters: "list_all (\<lambda>c. schar c > 64) (str h)" and "str h \<noteq> []"
  proof -
    have "takeWhile (\<lambda>c. schar c > 64) (str h @ args) = str h"
      using letters sep by (cases args) (auto simp: list_all_iff)
    moreover have len: "length (str h) \<le> gen_maxlen g" using k(2) h by (simp add: serves_def)
    ultimately have word: "cmd_word g (str h @ args) = str h" by (simp add: cmd_word_def)
    have "hash h = (hashes ! k) (str h)" using k(2) h by (simp add: serves_def)
    then show ?thesis
      using find_unique [OF serves_hashes [OF k(2)] h] that k(1)
      by (simp add: parsecmd_def word cmd_args_def)
  qed
  moreover have ?thesis if "\<not> list_all (\<lambda>c. schar c > 64) (str h)"
    using that cut_word_args [OF that chars] by (auto simp: parsecmd_def)
  ultimately show ?thesis by blast
qed

abbreviation demo_dict :: string where
  "demo_dict \<equiv> ''abspos - position'' @ [NL] @ ''goto'' @ [NL] @ ''time'' @ [NL]"

definition demo_gen :: generated where
  "demo_gen = (case hashgen demo_dict of Generated g \<Rightarrow> g)"

theorem parsecmd_dispatch_witness:
  "hashgen demo_dict = Generated demo_gen \<and> parsecmd demo_gen ''goto 12'' = Some (''goto'', ''12'')"
proof -
  have g: "hashgen demo_dict = Generated demo_gen" by code_simp
  have h: "gen_cmds demo_gen ! 1 \<in> set (gen_cmds demo_gen)" by code_simp
  have s: "str (gen_cmds demo_gen ! 1) = ''goto''" "fname (gen_cmds demo_gen ! 1) = ''goto''" by code_simp+
  have l: "list_all (\<lambda>c. schar c > 32) (str (gen_cmds demo_gen ! 1))" "list_all (\<lambda>c. schar c > 64) (str (gen_cmds demo_gen ! 1))"
    unfolding s by code_simp+
  have a: "'' 12'' = [] \<or> schar (hd '' 12'') \<le> 64" by code_simp
  have "dropWhile (\<lambda>c. schar c \<le> 32) '' 12'' = ''12''" by code_simp
  then show ?thesis using g parsecmd_dispatch [OF g h l(1) a] l(2) s by simp
qed

text \<open>
  A dictionary command with a character not above \<open>'@'\<close> (a digit) is accepted and gets its
  tables, but the generated parser cuts the word before that character and does not find it.
\<close>

theorem hashgen_digit_command_lost:
  "case hashgen (''m1'' @ [NL]) of
     Generated g \<Rightarrow> map str (gen_cmds g) = [''m1''] \<and> parsecmd g ''m1'' = None
   | _ \<Rightarrow> False"
  by code_simp

end
