(* ===== verification/ModbusDict.thy ===== *)
theory ModbusDict
  imports SortSearch Numerals
begin

text \<open>
  The register dictionary and the aliases of \<open>modbus_params/dictionary.c\<close>: reading both from
  their files, the tables sorted by code, by register and by name, lookups, and the text of an
  entry.

  A pointer into the array \<open>dictionary\<close> is an index; \<open>dictbycode\<close> and \<open>dictbyreg\<close> are lists of
  such indices, empty for a NULL pointer. Whether \<open>realloc\<close> gets memory for \<open>n\<close> elements is the
  argument \<open>mem\<close> of the readers. The text of a file comes as an argument, \<open>None\<close> when \<open>fopen\<close>
  fails. Lines and codes are taken to be shorter than \<open>BUFSIZ\<close>. \<open>sl_omitspaces\<close> and
  \<open>sl_omitspacesr\<close> of the snippets library are arguments of the definitions that call them.
\<close>

section \<open>Data\<close>

record dicentry =
  code :: string
  dhelp :: "string option"
  val :: u16
  reg :: u16
  readonly :: u8

record alias_t =
  al_name :: string
  al_expr :: string
  al_help :: "string option"

record dict =
  dictionary :: "dicentry list"
  dictbycode :: "nat list"
  dictbyreg :: "nat list"
  dictsize :: nat

definition no_dict :: dict where
  "no_dict = \<lparr>dictionary = [], dictbycode = [], dictbyreg = [], dictsize = 0\<rparr>"

section \<open>Reading the dictionary\<close>

text \<open>\<open>getline\<close>: the lines of a text, each with its newline.\<close>

function getlines :: "string \<Rightarrow> string list" where
  "getlines s =
     (if s = [] then []
      else case split_at NL s of
        None \<Rightarrow> [s]
      | Some (l, rest) \<Rightarrow> (l @ [NL]) # getlines rest)"
  by pat_completeness auto
termination
  by (relation "measure length") (auto simp: split_at_Some)

declare getlines.simps [simp del]

text \<open>Storing a NUL at the first \<open>c\<close>: the text is cut there.\<close>

definition cut_at :: "char \<Rightarrow> string \<Rightarrow> string" where
  "cut_at c s = takeWhile (\<lambda>x. x \<noteq> c) s"

text \<open>\<open>getcomment()\<close>: the text cut at the \<open>#\<close> and the comment, if there is one.\<close>

definition getcomment :: "string \<Rightarrow> string \<times> string option" where
  "getcomment s =
     (case split_at CHR ''#'' s of
        None \<Rightarrow> (s, None)
      | Some (before, after) \<Rightarrow>
          (let comment = dropWhile isspace after in
           if comment \<noteq> [] \<and> hd comment \<noteq> NL then (before, Some (cut_at NL comment))
           else (before, None)))"

text \<open>
  \<open>sscanf\<close> with \<open>%s\<close> and with an unsigned conversion, which skips space, takes a sign, converts
  as \<open>strtoul\<close> does (saturating at \<open>ULONG_MAX\<close>) and stores the low bits.
\<close>

definition scan_s :: "string \<Rightarrow> (string \<times> string) option" where
  "scan_s s =
     (let s1 = dropWhile isspace s; w = takeWhile (\<lambda>c. \<not> isspace c) s1 in
      if w = [] then None else Some (w, drop (length w) s1))"

definition scan_u :: "string \<Rightarrow> (64 word \<times> string) option" where
  "scan_u s =
     (let s1 = dropWhile isspace s;
          neg = (s1 \<noteq> [] \<and> hd s1 = CHR ''-'');
          s2 = (if s1 \<noteq> [] \<and> (hd s1 = CHR ''-'' \<or> hd s1 = CHR ''+'') then tl s1 else s1);
          ds = numeral_of decdigit s2;
          n = radix_val 10 0 ds;
          v = (if int n < 2 ^ 64 then (if neg then - of_nat n else of_nat n) else - 1)
      in if ds = [] then None else Some (v, rest_after decdigit s2))"

text \<open>The \<open>sscanf\<close> call of \<open>opendict\<close>; \<open>None\<close> when fewer than four fields are converted.\<close>

definition scan_entry :: "string \<Rightarrow> string option \<Rightarrow> dicentry option" where
  "scan_entry line comment =
     (case scan_s line of None \<Rightarrow> None | Some (c, s1) \<Rightarrow>
      (case scan_u s1 of None \<Rightarrow> None | Some (r, s2) \<Rightarrow>
       (case scan_u s2 of None \<Rightarrow> None | Some (v, s3) \<Rightarrow>
        (case scan_u s3 of None \<Rightarrow> None | Some (ro, s4) \<Rightarrow>
           Some \<lparr>code = c, dhelp = comment, val = ucast v, reg = ucast r, readonly = ucast ro\<rparr>))))"

text \<open>One turn of the loop: the entry of a line, if it has one.\<close>

definition dict_line :: "string \<Rightarrow> dicentry option" where
  "dict_line raw =
     (let (l, comment) = getcomment raw; line = cut_at NL l in
      if line = [] then None else scan_entry line comment)"

text \<open>
  The loop of \<open>opendict\<close>: \<open>sz\<close> is \<open>dictsize\<close>, \<open>dicsz\<close> the number of elements allocated. The
  result says whether the memory sufficed; \<open>dictsize\<close> is counted up before it is asked for.
\<close>

fun opendict_loop :: "(nat \<Rightarrow> bool) \<Rightarrow> string list \<Rightarrow> nat \<Rightarrow> nat \<Rightarrow> dicentry list
    \<Rightarrow> bool \<times> nat \<times> dicentry list" where
  "opendict_loop mem [] sz dicsz dic = (True, sz, dic)"
| "opendict_loop mem (raw # ls) sz dicsz dic =
     (case dict_line raw of
        None \<Rightarrow> opendict_loop mem ls sz dicsz dic
      | Some e \<Rightarrow>
          (if sz + 1 \<ge> dicsz then
             (if mem (dicsz + 50) then opendict_loop mem ls (sz + 1) (dicsz + 50) (dic @ [e])
              else (False, sz + 1, dic))
           else opendict_loop mem ls (sz + 1) dicsz (dic @ [e])))"

definition sort_by_code :: "dicentry list \<Rightarrow> nat \<Rightarrow> nat \<Rightarrow> int" where
  "sort_by_code dic needle straw = strcmp (code (dic ! needle)) (code (dic ! straw))"

definition sort_by_reg :: "dicentry list \<Rightarrow> nat \<Rightarrow> nat \<Rightarrow> int" where
  "sort_by_reg dic needle straw = uint (reg (dic ! needle)) - uint (reg (dic ! straw))"

definition closedict :: "dict \<Rightarrow> dict" where
  "closedict d = (if dictsize d = 0 then d else no_dict)"

definition opendict :: "(nat \<Rightarrow> bool) \<Rightarrow> string option \<Rightarrow> dict \<Rightarrow> bool \<times> dict" where
  "opendict mem file d0 =
     (let d = closedict d0 in
      case file of
        None \<Rightarrow> (False, d)
      | Some text \<Rightarrow>
          (case opendict_loop mem (getlines text) 0 0 [] of
             (False, sz, dic) \<Rightarrow> (False, d\<lparr>dictionary := dic, dictsize := sz\<rparr>)
           | (True, sz, dic) \<Rightarrow>
               (True, \<lparr>dictionary = dic,
                       dictbycode = qsort (sort_by_code dic) [0..<sz],
                       dictbyreg = qsort (sort_by_reg dic) [0..<sz],
                       dictsize = sz\<rparr>)))"

definition chkdict :: "dict \<Rightarrow> bool" where
  "chkdict d = (\<not> dictsize d < 1)"

section \<open>Lookups\<close>

text \<open>
  \<open>binsearch(base, needle, compar)\<close>: the comparison with the needle is the argument \<open>compar\<close>;
  the result is the position in \<open>base\<close>.
\<close>

function binsearch :: "nat list \<Rightarrow> (nat \<Rightarrow> int) \<Rightarrow> nat \<Rightarrow> nat \<Rightarrow> nat option" where
  "binsearch base compar low high =
     (if low < high then
        (let mid = (high + low) div 2; cmp = compar (base ! mid) in
         if cmp < 0 then binsearch base compar low mid
         else if cmp > 0 then binsearch base compar (mid + 1) high
         else Some mid)
      else None)"
  by pat_completeness auto
termination
  by (relation "measure (\<lambda>(base, compar, low, high). high - low)") auto

declare binsearch.simps [simp del]

definition search_by_code :: "dicentry list \<Rightarrow> string \<Rightarrow> nat \<Rightarrow> int" where
  "search_by_code dic c straw = strcmp c (code (dic ! straw))"

definition search_by_reg :: "dicentry list \<Rightarrow> u16 \<Rightarrow> nat \<Rightarrow> int" where
  "search_by_reg dic r straw = uint r - uint (reg (dic ! straw))"

definition findentry_by_code :: "dict \<Rightarrow> string \<Rightarrow> nat option" where
  "findentry_by_code d c =
     (if \<not> chkdict d then None
      else map_option (\<lambda>m. dictbycode d ! m)
             (binsearch (dictbycode d) (search_by_code (dictionary d) c) 0 (dictsize d)))"

definition findentry_by_reg :: "dict \<Rightarrow> u16 \<Rightarrow> nat option" where
  "findentry_by_reg d r =
     (if \<not> chkdict d then None
      else map_option (\<lambda>m. dictbyreg d ! m)
             (binsearch (dictbyreg d) (search_by_reg (dictionary d) r) 0 (dictsize d)))"

section \<open>Entries as text\<close>

text \<open>\<open>snprintf(buf, bufsize - 1, \<dots>)\<close>: at most \<open>bufsize - 2\<close> characters.\<close>

definition dicentry_text :: "dicentry \<Rightarrow> string" where
  "dicentry_text e =
     code e @ [SPACE] @ fmt_4u (unat (reg e)) @ [SPACE] @ fmt_4u (unat (val e)) @ [SPACE] @
     fmt_u (unat (readonly e)) @
     (case dhelp e of Some h \<Rightarrow> '' # '' @ h | None \<Rightarrow> []) @ [NL]"

definition dicentry_descr :: "dicentry option \<Rightarrow> nat \<Rightarrow> string option" where
  "dicentry_descr entry bufsize =
     (case entry of
        None \<Rightarrow> None
      | Some e \<Rightarrow> if bufsize = 0 then None else Some (take (bufsize - 2) (dicentry_text e)))"

definition dicentry_descrN :: "dict \<Rightarrow> nat \<Rightarrow> nat \<Rightarrow> string option" where
  "dicentry_descrN d N bufsize =
     (if N \<ge> dictsize d then None else dicentry_descr (Some (dictionary d ! N)) bufsize)"

section \<open>Aliases\<close>

record space_lib =
  sl_omitspaces :: "string \<Rightarrow> string"
  sl_omitspacesr :: "string \<Rightarrow> nat option"

text \<open>
  \<open>omitspaces()\<close>: the text from the first character that is no space, cut at the end position
  \<open>sl_omitspacesr\<close> points to; \<open>None\<close> for an empty one.
\<close>

definition omitspaces :: "space_lib \<Rightarrow> string \<Rightarrow> string option" where
  "omitspaces sl ori =
     (let name = sl_omitspaces sl ori in
      if name = [] then None
      else
        (let name' = (case sl_omitspacesr sl name of Some e \<Rightarrow> take e name | None \<Rightarrow> name) in
         if name' = [] then None else Some name'))"

definition alias_line :: "space_lib \<Rightarrow> string \<Rightarrow> alias_t option" where
  "alias_line sl raw =
     (let (l, comment) = getcomment raw; line = cut_at NL l in
      if line = [] then None
      else case split_at CHR '':'' line of
        None \<Rightarrow> None
      | Some (before, after) \<Rightarrow>
          (case omitspaces sl after of
             None \<Rightarrow> None
           | Some torun \<Rightarrow>
               (case omitspaces sl before of
                  None \<Rightarrow> None
                | Some name \<Rightarrow>
                    if SPACE \<in> set name then None
                    else Some \<lparr>al_name = name, al_expr = torun, al_help = comment\<rparr>)))"

record aliastab =
  aliases :: "alias_t list"
  aliasessize :: nat

definition no_aliases :: aliastab where
  "no_aliases = \<lparr>aliases = [], aliasessize = 0\<rparr>"

definition closealiases :: "aliastab \<Rightarrow> aliastab" where
  "closealiases t = (if aliasessize t = 0 then t else no_aliases)"

fun openaliases_loop :: "space_lib \<Rightarrow> (nat \<Rightarrow> bool) \<Rightarrow> string list \<Rightarrow> nat \<Rightarrow> nat \<Rightarrow> alias_t list
    \<Rightarrow> bool \<times> nat \<times> alias_t list" where
  "openaliases_loop sl mem [] sz asz tab = (True, sz, tab)"
| "openaliases_loop sl mem (raw # ls) sz asz tab =
     (case alias_line sl raw of
        None \<Rightarrow> openaliases_loop sl mem ls sz asz tab
      | Some a \<Rightarrow>
          (if sz + 1 \<ge> asz then
             (if mem (asz + 50) then openaliases_loop sl mem ls (sz + 1) (asz + 50) (tab @ [a])
              else (False, sz + 1, tab))
           else openaliases_loop sl mem ls (sz + 1) asz (tab @ [a])))"

definition sortalias :: "alias_t \<Rightarrow> alias_t \<Rightarrow> int" where
  "sortalias l r = strcmp (al_name l) (al_name r)"

definition openaliases :: "space_lib \<Rightarrow> (nat \<Rightarrow> bool) \<Rightarrow> string option \<Rightarrow> aliastab
    \<Rightarrow> bool \<times> aliastab" where
  "openaliases sl mem file t0 =
     (let t = closealiases t0 in
      case file of
        None \<Rightarrow> (False, t)
      | Some text \<Rightarrow>
          (case openaliases_loop sl mem (getlines text) 0 0 [] of
             (False, sz, tab) \<Rightarrow> (False, \<lparr>aliases = tab, aliasessize = sz\<rparr>)
           | (True, sz, tab) \<Rightarrow>
               (sz \<noteq> 0, \<lparr>aliases = qsort sortalias tab, aliasessize = sz\<rparr>)))"

definition chkaliases :: "aliastab \<Rightarrow> bool" where
  "chkaliases t = (\<not> aliasessize t < 1)"

function find_alias_loop :: "alias_t list \<Rightarrow> string \<Rightarrow> nat \<Rightarrow> nat \<Rightarrow> nat option" where
  "find_alias_loop tab name low high =
     (if low < high then
        (let mid = (high + low) div 2; cmp = strcmp name (al_name (tab ! mid)) in
         if cmp < 0 then find_alias_loop tab name low mid
         else if cmp > 0 then find_alias_loop tab name (mid + 1) high
         else Some mid)
      else None)"
  by pat_completeness auto
termination
  by (relation "measure (\<lambda>(tab, name, low, high). high - low)") auto

declare find_alias_loop.simps [simp del]

definition find_alias :: "aliastab \<Rightarrow> string \<Rightarrow> alias_t option" where
  "find_alias t name =
     (if \<not> chkaliases t then None
      else map_option (\<lambda>m. aliases t ! m) (find_alias_loop (aliases t) name 0 (aliasessize t)))"

definition alias_text :: "alias_t \<Rightarrow> string" where
  "alias_text a = al_name a @ '' : '' @ al_expr a @
     (case al_help a of Some h \<Rightarrow> '' # '' @ h | None \<Rightarrow> []) @ [NL]"

definition alias_descr :: "alias_t option \<Rightarrow> nat \<Rightarrow> string option" where
  "alias_descr entry bufsize =
     (case entry of
        None \<Rightarrow> None
      | Some a \<Rightarrow> if bufsize = 0 then None else Some (take (bufsize - 2) (alias_text a)))"

definition alias_descrN :: "aliastab \<Rightarrow> nat \<Rightarrow> nat \<Rightarrow> string option" where
  "alias_descrN t N bufsize =
     (if N \<ge> aliasessize t then None else alias_descr (Some (aliases t ! N)) bufsize)"

section \<open>The tables\<close>

text \<open>The searches are instances of the binary search over a table sorted by its key.\<close>

interpretation bycode: bin_search
    "\<lambda>t c. binsearch (snd t) (search_by_code (fst t) c)"
    "\<lambda>t c i. search_by_code (fst t) c (snd t ! i)"
    "\<lambda>t. sorted (map (\<lambda>i. code (fst t ! i)) (snd t))"
    "\<lambda>t. length (snd t)"
proof (unfold_locales, goal_cases)
  case (1 t k low high)
  show ?case by (rule binsearch.simps)
next
  case (2 t i j k)
  then show ?case using sorted_nth_mono [OF 2(1), of i j]
    by (simp add: search_by_code_def strcmp_neg_iff)
next
  case (3 t i j k)
  then show ?case using sorted_nth_mono [OF 3(1), of i j]
    by (simp add: search_by_code_def strcmp_pos_iff)
qed

interpretation byreg: bin_search
    "\<lambda>t r. binsearch (snd t) (search_by_reg (fst t) r)"
    "\<lambda>t r i. search_by_reg (fst t) r (snd t ! i)"
    "\<lambda>t. sorted (map (\<lambda>i. uint (reg (fst t ! i))) (snd t))"
    "\<lambda>t. length (snd t)"
proof (unfold_locales, goal_cases)
  case (1 t k low high)
  show ?case by (rule binsearch.simps)
next
  case (2 t i j k)
  then show ?case using sorted_nth_mono [OF 2(1), of i j]
    by (simp add: search_by_reg_def)
next
  case (3 t i j k)
  then show ?case using sorted_nth_mono [OF 3(1), of i j]
    by (simp add: search_by_reg_def)
qed

interpretation byname: bin_search find_alias_loop
    "\<lambda>tab name i. strcmp name (al_name (tab ! i))" "\<lambda>tab. sorted (map al_name tab)" length
proof (unfold_locales, goal_cases)
  case (1 t k low high)
  show ?case by (rule find_alias_loop.simps)
next
  case (2 t i j k)
  then show ?case using sorted_nth_mono [OF 2(1), of i j] by (simp add: strcmp_neg_iff)
next
  case (3 t i j k)
  then show ?case using sorted_nth_mono [OF 3(1), of i j] by (simp add: strcmp_pos_iff)
qed

text \<open>The invariant of an opened dictionary.\<close>

definition dict_ok :: "dict \<Rightarrow> bool" where
  "dict_ok d \<longleftrightarrow>
     dictsize d = length (dictionary d) \<and>
     mset (dictbycode d) = mset [0..<dictsize d] \<and>
     mset (dictbyreg d) = mset [0..<dictsize d] \<and>
     sorted (map (\<lambda>i. code (dictionary d ! i)) (dictbycode d)) \<and>
     sorted (map (\<lambda>i. uint (reg (dictionary d ! i))) (dictbyreg d))"

lemma perm_indices:
  assumes "mset xs = mset [0..<n]"
  shows "length xs = n" "set xs = {0..<n}"
  using arg_cong [OF assms, of size] arg_cong [OF assms, of set_mset] by auto

lemma ranks_code: "ranks (sort_by_code dic) (\<lambda>i. code (dic ! i))"
  by (simp add: ranks_def sort_by_code_def strcmp_neg_iff strcmp_pos_iff)

lemma ranks_reg: "ranks (sort_by_reg dic) (\<lambda>i. uint (reg (dic ! i)))"
  by (simp add: ranks_def sort_by_reg_def)

lemma ranks_alias: "ranks sortalias al_name"
  by (simp add: ranks_def sortalias_def strcmp_neg_iff strcmp_pos_iff)

lemma opendict_loop_ok:
  "opendict_loop mem ls sz dicsz dic = (True, sz', dic') \<Longrightarrow> sz = length dic \<Longrightarrow>
     sz' = length dic' \<and> dic' = dic @ List.map_filter dict_line ls"
  by (induction mem ls sz dicsz dic rule: opendict_loop.induct)
    (auto simp: map_filter_simps split: option.splits if_splits)

lemma opendict_dict_ok:
  assumes "opendict mem file d0 = (True, d)"
  shows "dict_ok d"
proof -
  obtain body sz dic where l: "opendict_loop mem (getlines body) 0 0 [] = (True, sz, dic)"
    and d: "d = \<lparr>dictionary = dic, dictbycode = qsort (sort_by_code dic) [0..<sz],
                 dictbyreg = qsort (sort_by_reg dic) [0..<sz], dictsize = sz\<rparr>"
    using assms by (auto simp: opendict_def Let_def split: option.splits prod.splits bool.splits)
  have "sz = length dic" using opendict_loop_ok [OF l] by simp
  then show ?thesis
    using qs.sorter_sorted [OF ranks_code [of dic], of "[0..<sz]"] qs.sorter_sorted [OF ranks_reg [of dic], of "[0..<sz]"]
    by (simp add: d dict_ok_def mset_qsort del: map_map)
qed

lemma opendict_entries:
  assumes "opendict mem (Some body) d0 = (True, d)"
  shows "dictionary d = List.map_filter dict_line (getlines body)"
proof -
  obtain sz dic where l: "opendict_loop mem (getlines body) 0 0 [] = (True, sz, dic)"
    and d: "dictionary d = dic"
    using assms by (auto simp: opendict_def Let_def split: option.splits prod.splits bool.splits)
  then show ?thesis using opendict_loop_ok [OF l] by simp
qed

lemma findentry_by_code_lookup:
  assumes "dict_ok d"
  shows "case findentry_by_code d c of
      None \<Rightarrow> c \<notin> code ` set (dictionary d)
    | Some i \<Rightarrow> i < length (dictionary d) \<and> code (dictionary d ! i) = c"
proof -
  let ?t = "(dictionary d, dictbycode d)"
  have "length (dictbycode d) = dictsize d" "set (dictbycode d) = {0..<dictsize d}"
    using assms perm_indices [of "dictbycode d"] by (auto simp: dict_ok_def)
  then have "case findentry_by_code d c of
      None \<Rightarrow> (\<forall>j < dictsize d. c \<noteq> code (dictionary d ! j))
    | Some i \<Rightarrow> i < dictsize d \<and> c = code (dictionary d ! i)"
    using bycode.search_positions [of ?t "dictsize d" "dictbycode d" c "\<lambda>i. c = code (dictionary d ! i)"] assms
    by (auto simp: findentry_by_code_def chkdict_def dict_ok_def search_by_code_def split: option.splits)
  then show ?thesis using assms by (auto simp: dict_ok_def in_set_conv_nth split: option.splits)
qed

lemma findentry_by_reg_lookup:
  assumes "dict_ok d"
  shows "case findentry_by_reg d r of
      None \<Rightarrow> r \<notin> reg ` set (dictionary d)
    | Some i \<Rightarrow> i < length (dictionary d) \<and> reg (dictionary d ! i) = r"
proof -
  let ?t = "(dictionary d, dictbyreg d)"
  have "length (dictbyreg d) = dictsize d" "set (dictbyreg d) = {0..<dictsize d}"
    using assms perm_indices [of "dictbyreg d"] by (auto simp: dict_ok_def)
  then have "case findentry_by_reg d r of
      None \<Rightarrow> (\<forall>j < dictsize d. r \<noteq> reg (dictionary d ! j))
    | Some i \<Rightarrow> i < dictsize d \<and> r = reg (dictionary d ! i)"
    using byreg.search_positions [of ?t "dictsize d" "dictbyreg d" r "\<lambda>i. r = reg (dictionary d ! i)"] assms
    by (auto simp: findentry_by_reg_def chkdict_def dict_ok_def search_by_reg_def word_uint_eq_iff [symmetric]
        split: option.splits)
  then show ?thesis using assms by (auto simp: dict_ok_def in_set_conv_nth split: option.splits)
qed

lemma openaliases_loop_ok:
  "openaliases_loop sl mem ls sz asz tab = (True, sz', tab') \<Longrightarrow> sz = length tab \<Longrightarrow>
     sz' = length tab' \<and> tab' = tab @ List.map_filter (alias_line sl) ls"
  by (induction sl mem ls sz asz tab rule: openaliases_loop.induct)
    (auto simp: map_filter_simps split: option.splits if_splits)

text \<open>The invariant of the alias table.\<close>

definition aliases_ok :: "aliastab \<Rightarrow> bool" where
  "aliases_ok t \<longleftrightarrow> aliasessize t = length (aliases t) \<and> sorted (map al_name (aliases t))"

lemma openaliases_ok:
  assumes "openaliases sl mem (Some body) t0 = (True, t)"
  shows "aliases_ok t \<and> mset (aliases t) = mset (List.map_filter (alias_line sl) (getlines body))"
proof -
  obtain sz tab where l: "openaliases_loop sl mem (getlines body) 0 0 [] = (True, sz, tab)"
    and t: "t = \<lparr>aliases = qsort sortalias tab, aliasessize = sz\<rparr>"
    using assms by (auto simp: openaliases_def Let_def split: option.splits prod.splits bool.splits)
  then show ?thesis
    using openaliases_loop_ok [OF l] qs.sorter_sorted [OF ranks_alias, of tab]
    by (simp add: aliases_ok_def mset_qsort)
qed

lemma find_alias_lookup:
  assumes "aliases_ok t"
  shows "case find_alias t name of
      None \<Rightarrow> name \<notin> al_name ` set (aliases t)
    | Some a \<Rightarrow> a \<in> set (aliases t) \<and> al_name a = name"
proof -
  have pos: "case map_option (\<lambda>m. [0..<aliasessize t] ! m) (find_alias_loop (aliases t) name 0 (aliasessize t)) of
      None \<Rightarrow> (\<forall>j < aliasessize t. al_name (aliases t ! j) \<noteq> name)
    | Some j \<Rightarrow> j < aliasessize t \<and> al_name (aliases t ! j) = name"
    using assms by (intro byname.search_positions) (auto simp: aliases_ok_def)
  moreover have "m < aliasessize t" if "find_alias_loop (aliases t) name 0 (aliasessize t) = Some m" for m
    using byname.search_sound [OF that] by simp
  ultimately show ?thesis using assms
    by (cases "find_alias_loop (aliases t) name 0 (aliasessize t)")
      (auto simp: find_alias_def chkaliases_def aliases_ok_def in_set_conv_nth)
qed

section \<open>Text of the entries\<close>

lemma ucast_64 [simp]:
  "(ucast (ucast (v::u16) :: 64 word) :: u16) = v" "(ucast (ucast (w::u8) :: 64 word) :: u8) = w"
  by (rule bit_word_eqI; simp add: bit_simps)+

lemma isspace_not_digit: "decdigit c \<noteq> None \<Longrightarrow> \<not> isspace c"
  by (auto simp: decdigit_def isspace_def schar_def split: if_splits)

lemma isspace_SPACE [simp]: "isspace SPACE" and isspace_NL [simp]: "isspace NL"
  by (simp_all add: isspace_def schar_def)

lemma decdigit_signs [simp]: "decdigit CHR ''-'' = None" "decdigit CHR ''+'' = None" "decdigit SPACE = None"
    "decdigit NL = None" "decdigit CHR ''#'' = None"
  by (simp_all add: decdigit_def schar_def)

lemma dropWhile_spaces: "s \<noteq> [] \<Longrightarrow> \<not> isspace (hd s) \<Longrightarrow> dropWhile isspace (replicate n SPACE @ s) = s"
  by (induction n) (cases s; auto)+

text \<open>A number printed behind spaces is scanned back, up to the next character that is no digit.\<close>

lemma scan_u_fmt:
  assumes n: "int n < 2 ^ 64" and r: "r = [] \<or> decdigit (hd r) = None"
  shows "scan_u (replicate k SPACE @ fmt_u n @ r) = Some (of_nat n, r)"
proof -
  have hd: "decdigit (hd (fmt_u n)) \<noteq> None" by (rule fmt_u_digits [of _ n]) simp
  have all: "\<And>c. c \<in> set (fmt_u n) \<Longrightarrow> decdigit c \<noteq> None" by (rule fmt_u_digits)
  have t: "takeWhile (\<lambda>c. decdigit c \<noteq> None) (fmt_u n @ r) = fmt_u n"
    and d: "dropWhile (\<lambda>c. decdigit c \<noteq> None) (fmt_u n @ r) = r"
    using all r by (cases r; auto simp: takeWhile_append2 dropWhile_append2 simp del: not_None_eq)+
  have s: "dropWhile isspace (replicate k SPACE @ fmt_u n @ r) = fmt_u n @ r"
    using isspace_not_digit [OF hd] by (intro dropWhile_spaces) (simp_all add: hd_append)
  have sign: "hd (fmt_u n) \<noteq> CHR ''-''" "hd (fmt_u n) \<noteq> CHR ''+''" using hd by auto
  show ?thesis
    using n sign by (simp add: scan_u_def s numeral_of_def rest_after_def t d fmt_u_value hd_append Let_def del: not_None_eq)
qed

lemma scan_u_fmt_4u:
  "int n < 2 ^ 64 \<Longrightarrow> r = [] \<or> decdigit (hd r) = None \<Longrightarrow> scan_u (SPACE # fmt_4u n @ r) = Some (of_nat n, r)"
  using scan_u_fmt [of n r "Suc (4 - length (fmt_u n))"] by (simp add: fmt_4u_def)

text \<open>Entries the text format can hold: their code is one word, their help starts with no space.\<close>

definition printable :: "dicentry \<Rightarrow> bool" where
  "printable e \<longleftrightarrow>
     code e \<noteq> [] \<and> list_all (\<lambda>c. \<not> isspace c \<and> c \<noteq> CHR ''#'') (code e) \<and>
     (case dhelp e of None \<Rightarrow> True | Some h \<Rightarrow> h \<noteq> [] \<and> \<not> isspace (hd h) \<and> NL \<notin> set h)"

lemma scan_entry_fields:
  assumes c: "c \<noteq> []" "list_all (\<lambda>c. \<not> isspace c) c" and z2: "z2 = [] \<or> decdigit (hd z2) = None"
  shows "scan_entry (c @ SPACE # fmt_4u (unat r) @ SPACE # fmt_4u (unat v) @ SPACE # fmt_u (unat ro) @ z2) h =
    Some \<lparr>code = c, dhelp = h, val = v, reg = r, readonly = ro\<rparr>"
proof -
  have s: "scan_s (c @ SPACE # z) = Some (c, SPACE # z)" for z
  proof -
    have "dropWhile isspace (c @ SPACE # z) = c @ SPACE # z" using c by (cases c) auto
    moreover have "takeWhile (\<lambda>c. \<not> isspace c) (c @ SPACE # z) = c"
      using c by (auto simp: list_all_iff takeWhile_append2)
    ultimately show ?thesis using c by (simp add: scan_s_def)
  qed
  have b: "int (unat r) < 2 ^ 64" "int (unat v) < 2 ^ 64" "int (unat ro) < 2 ^ 64"
    using unat_u16 [of r] unat_u16 [of v] unat_u8 [of ro] by (simp_all del: of_nat_unat)
  have u: "scan_u (SPACE # fmt_u (unat ro) @ z2) = Some (of_nat (unat ro), z2)"
    using scan_u_fmt [OF b(3) z2, of 1] by simp
  show ?thesis
    by (simp add: scan_entry_def s u scan_u_fmt_4u [OF b(1)] scan_u_fmt_4u [OF b(2)])
qed

lemma not_in_fmt_u [simp]: "decdigit c = None \<Longrightarrow> c \<notin> set (fmt_u n)"
  using fmt_u_digits by (metis)

lemma not_in_fmt_4u [simp]: "decdigit c = None \<Longrightarrow> c \<noteq> SPACE \<Longrightarrow> c \<notin> set (fmt_4u n)"
  by (auto simp: fmt_4u_def)

lemma cut_at_id: "c \<notin> set s \<Longrightarrow> cut_at c s = s"
  by (auto simp: cut_at_def takeWhile_eq_all_conv)

lemma cut_at_append: "c \<notin> set s \<Longrightarrow> cut_at c (s @ c # r) = s"
  by (induction s) (auto simp: cut_at_def)

lemma printable_code:
  assumes "printable e"
  shows "code e \<noteq> []" "list_all (\<lambda>c. \<not> isspace c) (code e)" "CHR ''#'' \<notin> set (code e)" "NL \<notin> set (code e)"
proof -
  have all: "\<forall>c \<in> set (code e). \<not> isspace c \<and> c \<noteq> CHR ''#''"
    using assms by (simp add: printable_def list_all_iff)
  show "code e \<noteq> []" using assms by (simp add: printable_def)
  show "list_all (\<lambda>c. \<not> isspace c) (code e)" using all by (simp add: list_all_iff)
  show "CHR ''#'' \<notin> set (code e)" using all by metis
  show "NL \<notin> set (code e)" using all isspace_NL by metis
qed

lemma dict_line_text:
  assumes "printable e"
  shows "dict_line (dicentry_text e) = Some e"
proof -
  define l where "l = code e @ SPACE # fmt_4u (unat (reg e)) @ SPACE # fmt_4u (unat (val e)) @
    SPACE # fmt_u (unat (readonly e))"
  note c = printable_code [OF assms]
  have l_fresh: "CHR ''#'' \<notin> set l" "NL \<notin> set l" "l \<noteq> []"
    unfolding l_def using c(1,3,4) by simp_all
  have scan: "scan_entry (l @ z2) h =
      Some \<lparr>code = code e, dhelp = h, val = val e, reg = reg e, readonly = readonly e\<rparr>"
    if "z2 = [] \<or> decdigit (hd z2) = None" for z2 h
    using scan_entry_fields [OF c(1,2) that] by (simp add: l_def)
  show ?thesis
  proof (cases "dhelp e")
    case None
    then have "dicentry_text e = l @ [NL]" by (simp add: dicentry_text_def l_def)
    then show ?thesis
      using None scan [of "[]" None] l_fresh
      by (simp add: dict_line_def getcomment_def split_at_None [THEN iffD2] cut_at_append)
  next
    case (Some h)
    then have h: "h \<noteq> []" "\<not> isspace (hd h)" "NL \<notin> set h" using assms by (simp_all add: printable_def)
    have t: "dicentry_text e = (l @ [SPACE]) @ CHR ''#'' # SPACE # h @ [NL]"
      using Some by (simp add: dicentry_text_def l_def)
    have sp: "split_at CHR ''#'' (dicentry_text e) = Some (l @ [SPACE], SPACE # h @ [NL])"
      unfolding t using l_fresh by (intro split_at_append) simp
    have dw: "dropWhile isspace (SPACE # h @ [NL]) = h @ [NL]" using h by (cases h) simp_all
    have "hd h \<noteq> NL" using h(2) by auto
    then have "getcomment (dicentry_text e) = (l @ [SPACE], Some h)"
      unfolding getcomment_def sp option.case prod.case dw Let_def using h(1,3) by (simp add: cut_at_append)
    then show ?thesis
      using Some scan [of "[SPACE]" "Some h"] l_fresh by (simp add: dict_line_def cut_at_id)
  qed
qed

lemma getlines_line: "NL \<notin> set l \<Longrightarrow> getlines (l @ NL # r) = (l @ [NL]) # getlines r"
  by (subst getlines.simps) simp

lemma dicentry_text_line:
  assumes "printable e"
  shows "\<exists>l. dicentry_text e = l @ [NL] \<and> NL \<notin> set l"
proof -
  have "NL \<notin> set (code e)" by (rule printable_code [OF assms])
  moreover have "NL \<notin> set h" if "dhelp e = Some h" for h using assms that by (simp add: printable_def)
  ultimately show ?thesis by (auto simp: dicentry_text_def split: option.splits)
qed

lemma getlines_dump:
  "list_all printable es \<Longrightarrow>
     List.map_filter dict_line (getlines (concat (map (\<lambda>e. dicentry_text e @ [NL]) es))) = es"
proof (induction es)
  case Nil
  show ?case by (subst getlines.simps) (simp add: map_filter_simps)
next
  case (Cons e es)
  then obtain l where l: "dicentry_text e = l @ [NL]" "NL \<notin> set l" using dicentry_text_line by auto
  have "dict_line [NL] = None" by code_simp
  moreover have "dict_line (l @ [NL]) = Some e" using Cons.prems dict_line_text [of e] l by simp
  ultimately show ?case
    using Cons l by (simp add: getlines_line getlines_line [of "[]", simplified] map_filter_simps)
qed

section \<open>Properties\<close>

text \<open>
  C10. A dictionary that was opened holds the entries of the lines of its file, in order, and both
  lookups are exact on it: by code and by register they return an entry with that key, and
  \<open>NULL\<close> only when no entry has it, although the tables are searched by halving.
\<close>

theorem opendict_lookup:
  assumes "opendict mem (Some body) d0 = (True, d)"
  shows "dictionary d = List.map_filter dict_line (getlines body) \<and>
    (case findentry_by_code d c of
       None \<Rightarrow> c \<notin> code ` set (dictionary d)
     | Some i \<Rightarrow> i < length (dictionary d) \<and> code (dictionary d ! i) = c) \<and>
    (case findentry_by_reg d r of
       None \<Rightarrow> r \<notin> reg ` set (dictionary d)
     | Some i \<Rightarrow> i < length (dictionary d) \<and> reg (dictionary d ! i) = r)"
  using opendict_entries [OF assms] findentry_by_code_lookup [OF opendict_dict_ok [OF assms]]
    findentry_by_reg_lookup [OF opendict_dict_ok [OF assms]] by simp

abbreviation demo_text :: string where
  "demo_text \<equiv> ''F00.01 61 0 0 # speed'' @ [NL] @ ''# comment'' @ [NL] @ ''A 5 1 1''"

theorem opendict_lookup_witness:
  "opendict (\<lambda>_. True) (Some demo_text) no_dict = (True, snd (opendict (\<lambda>_. True) (Some demo_text) no_dict)) \<and>
   dictionary (snd (opendict (\<lambda>_. True) (Some demo_text) no_dict)) = List.map_filter dict_line (getlines demo_text) \<and>
   findentry_by_reg (snd (opendict (\<lambda>_. True) (Some demo_text) no_dict)) 5 = Some 1 \<and>
   findentry_by_code (snd (opendict (\<lambda>_. True) (Some demo_text) no_dict)) ''B'' = None"
proof -
  have o: "opendict (\<lambda>_. True) (Some demo_text) no_dict = (True, snd (opendict (\<lambda>_. True) (Some demo_text) no_dict))"
    by code_simp
  moreover have "findentry_by_reg (snd (opendict (\<lambda>_. True) (Some demo_text) no_dict)) 5 = Some 1" by code_simp
  moreover have "findentry_by_code (snd (opendict (\<lambda>_. True) (Some demo_text) no_dict)) ''B'' = None" by code_simp
  ultimately show ?thesis using opendict_lookup [OF o, of "''B''" 5] by blast
qed

text \<open>
  The alias table holds the aliases of the lines of its file, and \<open>find_alias\<close> returns an alias
  of that name, and \<open>NULL\<close> only when there is none.
\<close>

theorem openaliases_lookup:
  assumes "openaliases sl mem (Some body) t0 = (True, t)"
  shows "mset (aliases t) = mset (List.map_filter (alias_line sl) (getlines body)) \<and>
    (case find_alias t name of
       None \<Rightarrow> name \<notin> al_name ` set (aliases t)
     | Some a \<Rightarrow> a \<in> set (aliases t) \<and> al_name a = name)"
  using openaliases_ok [OF assms] find_alias_lookup by blast

text \<open>A concrete pair of space functions for the example: cut the spaces at both ends.\<close>

definition demo_spaces :: space_lib where
  "demo_spaces = \<lparr>sl_omitspaces = dropWhile isspace,
     sl_omitspacesr = (\<lambda>s. Some (length (dropWhile isspace (rev s))))\<rparr>"

abbreviation demo_aliases :: string where
  "demo_aliases \<equiv> ''stop : F01=0 # halt'' @ [NL] @ ''go: F01=1'' @ [NL] @ ''two words : x''"

theorem openaliases_lookup_witness:
  "fst (openaliases demo_spaces (\<lambda>_. True) (Some demo_aliases) no_aliases) \<and>
   map_option al_expr (find_alias (snd (openaliases demo_spaces (\<lambda>_. True) (Some demo_aliases) no_aliases)) ''go'') = Some ''F01=1'' \<and>
   length (aliases (snd (openaliases demo_spaces (\<lambda>_. True) (Some demo_aliases) no_aliases))) = 2"
proof -
  let ?t = "snd (openaliases demo_spaces (\<lambda>_. True) (Some demo_aliases) no_aliases)"
  have o: "openaliases demo_spaces (\<lambda>_. True) (Some demo_aliases) no_aliases = (True, ?t)" by code_simp
  have "length (List.map_filter (alias_line demo_spaces) (getlines demo_aliases)) = 2" by code_simp
  then have "length (aliases ?t) = 2"
    using openaliases_lookup [OF o, of "''go''", THEN conjunct1, THEN mset_eq_length] by (rule trans [rotated])
  moreover have "map_option al_expr (find_alias ?t ''go'') = Some ''F01=1''" by code_simp
  moreover have "fst (openaliases demo_spaces (\<lambda>_. True) (Some demo_aliases) no_aliases)"
    using arg_cong [OF o, of fst] by (simp only: fst_conv)
  ultimately show ?thesis by (intro conjI)
qed

lemma opendict_loop_failed:
  "opendict_loop mem ls sz dicsz dic = (False, sz', dic') \<Longrightarrow> sz = length dic \<Longrightarrow> sz' = Suc (length dic')"
  by (induction mem ls sz dicsz dic rule: opendict_loop.induct) (auto split: option.splits if_splits)

text \<open>
  After a successful \<open>opendict\<close> the tables are consistent. When \<open>realloc\<close> fails, the dictionary
  still counts as open, with one entry more than it has and without the sorted tables, which
  the lookups dereference.
\<close>

theorem opendict_out_of_memory:
  "case opendict mem (Some body) no_dict of
     (ok, d) \<Rightarrow>
       if ok then dict_ok d
       else chkdict d \<and> dictsize d = Suc (length (dictionary d)) \<and> dictbycode d = [] \<and> dictbyreg d = []"
proof (cases "opendict mem (Some body) no_dict")
  case (Pair ok d)
  show ?thesis
  proof (cases ok)
    case True
    then show ?thesis using opendict_dict_ok [of mem "Some body" no_dict d] Pair by simp
  next
    case False
    then obtain sz dic where "opendict_loop mem (getlines body) 0 0 [] = (False, sz, dic)"
        "d = no_dict\<lparr>dictionary := dic, dictsize := sz\<rparr>"
      using Pair by (auto simp: opendict_def closedict_def no_dict_def Let_def split: prod.splits bool.splits)
    then show ?thesis
      using Pair False opendict_loop_failed by (fastforce simp: no_dict_def chkdict_def)
  qed
qed

end
