(* ===== verification/ModbusIO.thy ===== *)
theory ModbusIO
  imports ModbusDict
begin

text \<open>
  \<open>modbus_params/modbus.c\<close> and the parts of \<open>dictionary.c\<close> that talk to the device: reading and
  writing registers, the command line operations over lists of registers and key codes, the
  full dump of the dictionary, and the dump thread with its flags.

  The device is the libmodbus context: \<open>mb_read\<close> and \<open>mb_write\<close> stand for
  \<open>modbus_read_registers\<close> (of one register) and \<open>modbus_write_register\<close> on a device state of any
  type; \<open>None\<close> and \<open>False\<close> are their error results, and a failed read leaves its destination.
  \<open>sl_get_keyval\<close> and \<open>sl_str2i\<close> of the snippets library are arguments too. The mutex around the
  calls is held for one call each, so a call is one step.
\<close>

record 'm modbus_lib =
  mb_read :: "'m \<Rightarrow> u16 \<Rightarrow> 'm \<times> u16 option"
  mb_write :: "'m \<Rightarrow> u16 \<Rightarrow> u16 \<Rightarrow> 'm \<times> bool"

record key_lib =
  sl_get_keyval :: "string \<Rightarrow> nat \<times> string \<times> string"
  sl_str2i :: "string \<Rightarrow> int option"
  SL_VAL_LEN :: nat

abbreviation UINT16_MAX :: int where "UINT16_MAX \<equiv> 65535"
abbreviation BUFSIZ :: nat where "BUFSIZ \<equiv> 8192"

section \<open>Single registers\<close>

definition read_entry :: "'m modbus_lib \<Rightarrow> 'm \<Rightarrow> dicentry option \<Rightarrow> 'm \<times> dicentry option \<times> bool" where
  "read_entry mb m entry =
     (case entry of
        None \<Rightarrow> (m, None, False)
      | Some e \<Rightarrow>
          (case mb_read mb m (reg e) of
             (m', None) \<Rightarrow> (m', Some e, False)
           | (m', Some v) \<Rightarrow> (m', Some (e\<lparr>val := v\<rparr>), True)))"

definition write_entry :: "'m modbus_lib \<Rightarrow> 'm \<Rightarrow> dicentry option \<Rightarrow> 'm \<times> bool" where
  "write_entry mb m entry =
     (case entry of
        None \<Rightarrow> (m, False)
      | Some e \<Rightarrow> if readonly e \<noteq> 0 then (m, False) else mb_write mb m (reg e) (val e))"

text \<open>\<open>dicentry_t entry = {0}\<close>.\<close>

definition zero_entry :: dicentry where
  "zero_entry = \<lparr>code = [], dhelp = None, val = 0, reg = 0, readonly = 0\<rparr>"

section \<open>Lists of registers\<close>

text \<open>The range check of a register number and of a value given as text.\<close>

definition is_u16 :: "int \<Rightarrow> bool" where
  "is_u16 n = (\<not> (n < 0 \<or> n > UINT16_MAX))"

text \<open>One turn of the loop of \<open>write_regval\<close>; the second component counts what was written.\<close>

definition write_regval_step :: "'m modbus_lib \<Rightarrow> key_lib \<Rightarrow> string \<Rightarrow> 'm \<times> nat \<Rightarrow> 'm \<times> nat" where
  "write_regval_step mb kl regval = (\<lambda>(m, written).
     (case sl_get_keyval kl regval of (n, key, value) \<Rightarrow>
        if n \<noteq> 2 then (m, written)
        else
          (case (sl_str2i kl key, sl_str2i kl value) of
             (Some r, Some v) \<Rightarrow>
               if is_u16 r \<and> is_u16 v then
                 (case write_entry mb m (Some (zero_entry\<lparr>val := word_of_int v, reg := word_of_int r\<rparr>)) of
                    (m', ok) \<Rightarrow> (m', if ok then written + 1 else written))
               else (m, written)
           | _ \<Rightarrow> (m, written))))"

definition write_regval :: "'m modbus_lib \<Rightarrow> key_lib \<Rightarrow> string list \<Rightarrow> 'm \<Rightarrow> 'm \<times> nat" where
  "write_regval mb kl regvals m = fold (write_regval_step mb kl) regvals (m, 0)"

definition write_codeval_step :: "'m modbus_lib \<Rightarrow> key_lib \<Rightarrow> dict \<Rightarrow> string \<Rightarrow> 'm \<times> nat \<Rightarrow> 'm \<times> nat" where
  "write_codeval_step mb kl d codeval = (\<lambda>(m, written).
     (case sl_get_keyval kl codeval of (n, key, value) \<Rightarrow>
        if n \<noteq> 2 then (m, written)
        else
          (case sl_str2i kl value of
             None \<Rightarrow> (m, written)
           | Some v \<Rightarrow>
               if \<not> is_u16 v then (m, written)
               else
                 (case findentry_by_code d key of
                    None \<Rightarrow> (m, written)
                  | Some i \<Rightarrow>
                      let de = dictionary d ! i;
                          entry = zero_entry\<lparr>readonly := readonly de, reg := reg de\<rparr>
                      in if readonly entry \<noteq> 0 then (m, written)
                         else
                           (case write_entry mb m (Some (entry\<lparr>val := word_of_int v\<rparr>)) of
                              (m', ok) \<Rightarrow> (m', if ok then written + 1 else written))))))"

definition write_codeval :: "'m modbus_lib \<Rightarrow> key_lib \<Rightarrow> dict \<Rightarrow> string list \<Rightarrow> 'm \<Rightarrow> 'm \<times> nat" where
  "write_codeval mb kl d codevals m =
     (if \<not> chkdict d then (m, 0) else fold (write_codeval_step mb kl d) codevals (m, 0))"

text \<open>\<open>read_registers\<close> and \<open>read_keycodes\<close>: the lines printed between the title and the last newline.\<close>

definition read_registers_step :: "'m modbus_lib \<Rightarrow> int \<Rightarrow> 'm \<times> string list \<Rightarrow> 'm \<times> string list" where
  "read_registers_step mb addr = (\<lambda>(m, out).
     if \<not> is_u16 addr then (m, out)
     else
       (case read_entry mb m (Some (zero_entry\<lparr>reg := word_of_int addr\<rparr>)) of
          (m', Some e, True) \<Rightarrow>
            (m', out @ [fmt_4u (unat (reg e)) @ [SPACE] @ fmt_4u (unat (val e)) @ [NL]])
        | (m', _) \<Rightarrow> (m', out)))"

definition read_registers :: "'m modbus_lib \<Rightarrow> int list \<Rightarrow> 'm \<Rightarrow> 'm \<times> string list" where
  "read_registers mb addresses m = fold (read_registers_step mb) addresses (m, [])"

definition read_keycodes_step :: "'m modbus_lib \<Rightarrow> dict \<Rightarrow> string \<Rightarrow> 'm \<times> string list \<Rightarrow> 'm \<times> string list" where
  "read_keycodes_step mb d keycode = (\<lambda>(m, out).
     (case findentry_by_code d keycode of
        None \<Rightarrow> (m, out)
      | Some i \<Rightarrow>
          (case read_entry mb m (Some (zero_entry\<lparr>reg := reg (dictionary d ! i)\<rparr>)) of
             (m', Some e, True) \<Rightarrow>
               (m', out @ [code (dictionary d ! i) @ '' ('' @ fmt_4u (unat (reg e)) @ '') '' @
                             fmt_4u (unat (val e)) @ [NL]])
           | (m', _) \<Rightarrow> (m', out))))"

definition read_keycodes :: "'m modbus_lib \<Rightarrow> dict \<Rightarrow> string list \<Rightarrow> 'm \<Rightarrow> 'm \<times> string list" where
  "read_keycodes mb d keycodes m =
     (if \<not> chkdict d then (m, []) else fold (read_keycodes_step mb d) keycodes (m, []))"

section \<open>The dump of the whole dictionary\<close>

text \<open>
  The loop of \<open>read_dict_entries\<close> from entry \<open>i\<close> on, with the text written to the file and the
  count; \<open>opened\<close> says whether \<open>fopen\<close> succeeds.
\<close>

function read_dict_loop :: "'m modbus_lib \<Rightarrow> nat \<Rightarrow> 'm \<Rightarrow> dict \<Rightarrow> string \<Rightarrow> int \<Rightarrow> 'm \<times> dict \<times> string \<times> int" where
  "read_dict_loop mb i m d out got =
     (if i < dictsize d then
        (case read_entry mb m (Some (dictionary d ! i)) of
           (m', Some e, True) \<Rightarrow>
             (let d' = d\<lparr>dictionary := (dictionary d)[i := e]\<rparr> in
              (case dicentry_descrN d' i BUFSIZ of
                 Some buf \<Rightarrow> read_dict_loop mb (i + 1) m' d' (out @ buf @ [NL]) (got + 1)
               | None \<Rightarrow> read_dict_loop mb (i + 1) m' d' out got))
         | (m', _) \<Rightarrow> read_dict_loop mb (i + 1) m' d out got)
      else (m, d, out, got))"
  by pat_completeness auto
termination
  by (relation "measure (\<lambda>(mb, i, m, d, out, got). dictsize d - i)") auto

declare read_dict_loop.simps [simp del]

definition read_dict_entries :: "'m modbus_lib \<Rightarrow> bool \<Rightarrow> 'm \<Rightarrow> dict \<Rightarrow> 'm \<times> dict \<times> string option \<times> int" where
  "read_dict_entries mb opened m d =
     (if \<not> chkdict d then (m, d, None, - 1)
      else if \<not> opened then (m, d, None, - 1)
      else (case read_dict_loop mb 0 m d [] 0 of (m', d', out, got) \<Rightarrow> (m', d', Some out, got)))"

section \<open>Dump parameters\<close>

text \<open>
  \<open>dumppars\<close> with its allocated size \<open>cursz\<close> (-1 before the first call) and \<open>dumpsize\<close>. Elements
  behind the ones ever written are not listed.
\<close>

record dumplist =
  dumppars :: "dicentry list"
  dumpsize :: nat
  cursz :: int

definition no_dump :: dumplist where
  "no_dump = \<lparr>dumppars = [], dumpsize = 0, cursz = - 1\<rparr>"

definition put_at :: "nat \<Rightarrow> 'x \<Rightarrow> 'x list \<Rightarrow> 'x list" where
  "put_at n x xs = (if n < length xs then xs[n := x] else xs @ [x])"

text \<open>
  \<open>setdumppars\<close>: \<open>None\<close> stands for a store behind the end of the allocated array, which happens
  when \<open>realloc\<close> fails and the loop goes on.
\<close>

fun setdumppars_loop :: "(int \<Rightarrow> bool) \<Rightarrow> dict \<Rightarrow> nat \<Rightarrow> string list \<Rightarrow> dumplist \<Rightarrow> (bool \<times> dumplist) option" where
  "setdumppars_loop mem d N [] s = Some (True, s\<lparr>dumpsize := N\<rparr>)"
| "setdumppars_loop mem d N (p # ps) s =
     (case findentry_by_code d p of
        None \<Rightarrow> Some (False, s)
      | Some i \<Rightarrow>
          (let s1 = (if cursz s \<le> int N \<and> mem (cursz s + 50) then s\<lparr>cursz := cursz s + 50\<rparr> else s) in
           if cursz s1 \<le> int N then None
           else setdumppars_loop mem d (N + 1) ps
                  (s1\<lparr>dumppars := put_at N (dictionary d ! i) (dumppars s1)\<rparr>)))"

definition setdumppars :: "(int \<Rightarrow> bool) \<Rightarrow> dict \<Rightarrow> string list \<Rightarrow> dumplist \<Rightarrow> (bool \<times> dumplist) option" where
  "setdumppars mem d pars s =
     (if pars = [] then Some (False, s)
      else if \<not> chkdict d then Some (False, s)
      else setdumppars_loop mem d 0 pars s)"

text \<open>One row of the dump: \<open>time\<close> is the time stamp printed with \<open>%10.3f\<close>.\<close>

fun dump_fields :: "'m modbus_lib \<Rightarrow> dicentry list \<Rightarrow> 'm \<Rightarrow> 'm \<times> dicentry list \<times> string" where
  "dump_fields mb [] m = (m, [], [])"
| "dump_fields mb (e # es) m =
     (case read_entry mb m (Some e) of
        (m', e', ok) \<Rightarrow>
          (case dump_fields mb es m' of
             (m'', es', s) \<Rightarrow>
               (m'', (case e' of Some x \<Rightarrow> x | None \<Rightarrow> e) # es',
                (if ok then fmt_4u (unat (val (the e'))) @ [SPACE] else ''---- '') @ s)))"

definition dump_row :: "'m modbus_lib \<Rightarrow> string \<Rightarrow> dumplist \<Rightarrow> 'm \<Rightarrow> 'm \<times> dumplist \<times> string" where
  "dump_row mb time s m =
     (case dump_fields mb (take (dumpsize s) (dumppars s)) m of
        (m', es, row) \<Rightarrow>
          (m', s\<lparr>dumppars := es @ drop (dumpsize s) (dumppars s)\<rparr>, time @ [SPACE] @ row @ [NL]))"

definition dump_header :: "dumplist \<Rightarrow> string" where
  "dump_header s = ''#   time,s '' @ concat (map (\<lambda>e. code e @ [SPACE]) (take (dumpsize s) (dumppars s))) @ [NL]"

section \<open>What the device sees\<close>

text \<open>The traffic of an operation as a sequence of accesses to the device.\<close>

datatype access = ReadReg u16 | WriteReg u16 u16

fun device_access :: "'m modbus_lib \<Rightarrow> access \<Rightarrow> 'm \<Rightarrow> 'm" where
  "device_access mb (ReadReg r) m = fst (mb_read mb m r)"
| "device_access mb (WriteReg r v) m = fst (mb_write mb m r v)"

text \<open>Accesses the dictionary allows: a register it lists, for writing one that is not read-only.\<close>

fun allowed :: "dict \<Rightarrow> access \<Rightarrow> bool" where
  "allowed d (ReadReg r) = list_ex (\<lambda>e. reg e = r) (dictionary d)"
| "allowed d (WriteReg r v) = list_ex (\<lambda>e. reg e = r \<and> readonly e = 0) (dictionary d)"

lemma findentry_by_code_Some:
  "dict_ok d \<Longrightarrow> findentry_by_code d c = Some i \<Longrightarrow> i < length (dictionary d) \<and> code (dictionary d ! i) = c"
  using findentry_by_code_lookup [of d c] by simp

lemma findentry_by_reg_Some:
  "dict_ok d \<Longrightarrow> findentry_by_reg d r = Some i \<Longrightarrow> i < length (dictionary d) \<and> reg (dictionary d ! i) = r"
  using findentry_by_reg_lookup [of d r] by simp

lemma write_codeval_step_access:
  assumes "dict_ok d"
  shows "\<exists>acc. list_all (allowed d) acc \<and> length acc \<le> 1 \<and>
    fst (write_codeval_step mb kl d cv (m, n)) = fold (device_access mb) acc m \<and>
    snd (write_codeval_step mb kl d cv (m, n)) \<le> n + length acc"
proof -
  obtain k key vl where kv: "sl_get_keyval kl cv = (k, key, vl)" by (cases "sl_get_keyval kl cv")
  show ?thesis
  proof (cases "write_codeval_step mb kl d cv (m, n) = (m, n)")
    case True
    then show ?thesis by (intro exI [of _ "[]"]) simp
  next
    case False
    then obtain v i where vi: "sl_str2i kl vl = Some v" "findentry_by_code d key = Some i"
        "k = 2" "is_u16 v" "readonly (dictionary d ! i) = 0"
      by (auto simp: write_codeval_step_def kv zero_entry_def Let_def split: if_splits option.splits)
    have "i < length (dictionary d)" using findentry_by_code_Some [OF assms vi(2)] by simp
    then have "allowed d (WriteReg (reg (dictionary d ! i)) (word_of_int v))"
      using vi(5) by (auto simp: list_ex_iff intro: nth_mem)
    then show ?thesis using vi
      by (intro exI [of _ "[WriteReg (reg (dictionary d ! i)) (word_of_int v)]"])
        (auto simp: write_codeval_step_def kv zero_entry_def write_entry_def Let_def split: prod.splits)
  qed
qed

lemma write_codeval_fold_access:
  assumes "dict_ok d"
  shows "\<exists>acc. list_all (allowed d) acc \<and> length acc \<le> length cvs \<and>
    fst (fold (write_codeval_step mb kl d) cvs (m, n)) = fold (device_access mb) acc m \<and>
    snd (fold (write_codeval_step mb kl d) cvs (m, n)) \<le> n + length acc"
proof (induction cvs arbitrary: m n)
  case Nil
  show ?case by (intro exI [of _ "[]"]) simp
next
  case (Cons cv cvs)
  obtain m1 n1 where s: "write_codeval_step mb kl d cv (m, n) = (m1, n1)" by (cases "write_codeval_step mb kl d cv (m, n)")
  obtain a1 where a1: "list_all (allowed d) a1" "length a1 \<le> 1" "m1 = fold (device_access mb) a1 m" "n1 \<le> n + length a1"
    using write_codeval_step_access [OF assms, of mb kl cv m n] s by auto
  obtain a2 where "list_all (allowed d) a2" "length a2 \<le> length cvs"
      "fst (fold (write_codeval_step mb kl d) cvs (m1, n1)) = fold (device_access mb) a2 m1"
      "snd (fold (write_codeval_step mb kl d) cvs (m1, n1)) \<le> n1 + length a2"
    using Cons by blast
  then show ?case using a1 s by (intro exI [of _ "a1 @ a2"]) simp
qed

text \<open>
  C12. Writing by key codes reaches the device only as writes to registers of the dictionary that are
  not read-only, at most one per argument, and never reports more writes than it made.
\<close>

theorem write_codeval_access:
  assumes "dict_ok d"
  shows "\<exists>acc. list_all (allowed d) acc \<and> length acc \<le> length codevals \<and>
    fst (write_codeval mb kl d codevals m) = fold (device_access mb) acc m \<and>
    snd (write_codeval mb kl d codevals m) \<le> length acc"
proof (cases "chkdict d")
  case True
  then show ?thesis using write_codeval_fold_access [OF assms, of codevals mb kl m 0] by (simp add: write_codeval_def)
next
  case False
  then show ?thesis by (intro exI [of _ "[]"]) (simp add: write_codeval_def)
qed

section \<open>The dump of the dictionary\<close>

text \<open>The entries read one after the other: each with its value, if it could be read.\<close>

fun poll :: "'m modbus_lib \<Rightarrow> 'm \<Rightarrow> dicentry list \<Rightarrow> 'm \<times> (dicentry \<times> bool) list" where
  "poll mb m [] = (m, [])"
| "poll mb m (e # es) =
     (case mb_read mb m (reg e) of
        (m', v) \<Rightarrow>
          (case poll mb m' es of
             (m'', rs) \<Rightarrow> (m'', (case v of None \<Rightarrow> (e, False) | Some x \<Rightarrow> (e\<lparr>val := x\<rparr>, True)) # rs)))"

definition dumped :: "(dicentry \<times> bool) list \<Rightarrow> string" where
  "dumped rs = concat (map (\<lambda>(e, ok). if ok then take (BUFSIZ - 2) (dicentry_text e) @ [NL] else []) rs)"

lemma read_dict_loop_poll:
  assumes "dictsize d = length (dictionary d)" "i \<le> dictsize d"
  shows "read_dict_loop mb i m d out got =
    (let (m', rs) = poll mb m (drop i (dictionary d)) in
     (m', d\<lparr>dictionary := take i (dictionary d) @ map fst rs\<rparr>, out @ dumped rs,
      got + int (length (filter snd rs))))"
  using assms
proof (induction "dictsize d - i" arbitrary: i m d out got)
  case 0
  then show ?case by (subst read_dict_loop.simps) (simp add: dumped_def)
next
  case (Suc n)
  then have i: "i < length (dictionary d)" by simp
  define e where "e = dictionary d ! i"
  have dr: "drop i (dictionary d) = e # drop (Suc i) (dictionary d)"
    using i by (simp add: Cons_nth_drop_Suc e_def)
  have tk: "take (Suc i) (dictionary d) = take i (dictionary d) @ [e]"
    using i by (simp add: take_Suc_conv_app_nth e_def)
  obtain m' v where r: "mb_read mb m (reg e) = (m', v)" by (cases "mb_read mb m (reg e)")
  show ?case
  proof (cases v)
    case None
    then have re: "read_entry mb m (Some e) = (m', Some e, False)" by (simp add: read_entry_def r)
    have "read_dict_loop mb i m d out got = read_dict_loop mb (i + 1) m' d out got"
      using i Suc.prems by (subst read_dict_loop.simps) (simp add: re [unfolded e_def])
    then show ?thesis
      using Suc.hyps(1) [of d "i + 1" m' out got] Suc.hyps(2) Suc.prems i None
      by (simp add: dr tk r dumped_def split: prod.splits)
  next
    case (Some x)
    let ?e = "e\<lparr>val := x\<rparr>" and ?d = "d\<lparr>dictionary := (dictionary d)[i := e\<lparr>val := x\<rparr>]\<rparr>"
    have re: "read_entry mb m (Some e) = (m', Some ?e, True)" by (simp add: read_entry_def r Some)
    have "dicentry_descrN ?d i BUFSIZ = Some (take (BUFSIZ - 2) (dicentry_text ?e))"
      using i Suc.prems by (simp add: dicentry_descrN_def dicentry_descr_def)
    then have "read_dict_loop mb i m d out got =
        read_dict_loop mb (i + 1) m' ?d (out @ take (BUFSIZ - 2) (dicentry_text ?e) @ [NL]) (got + 1)"
      using i Suc.prems re by (subst read_dict_loop.simps) (simp add: e_def Let_def)
    moreover have "take (Suc i) (dictionary ?d) = take i (dictionary d) @ [?e]"
      using i by (simp add: take_Suc_conv_app_nth)
    moreover have "drop (Suc i) (dictionary ?d) = drop (Suc i) (dictionary d)" by simp
    ultimately show ?thesis
      using Suc.hyps(1) [of ?d "i + 1" m' "out @ take (BUFSIZ - 2) (dicentry_text ?e) @ [NL]" "got + 1"]
        Suc.hyps(2) Suc.prems i Some
      by (simp add: dr r dumped_def split: prod.splits)
  qed
qed

text \<open>Entries whose text fits the buffer, whatever their value.\<close>

definition fits :: "dicentry \<Rightarrow> bool" where
  "fits e \<longleftrightarrow> printable e \<and>
     length (code e) + (case dhelp e of None \<Rightarrow> 0 | Some h \<Rightarrow> length h) + 30 \<le> BUFSIZ"

lemma fits_text:
  assumes "fits e"
  shows "length (dicentry_text e) \<le> BUFSIZ - 2"
proof -
  have "length (fmt_u (unat (reg e))) \<le> 5" "length (fmt_u (unat (val e))) \<le> 5" "length (fmt_u (unat (readonly e))) \<le> 5"
    using unat_u16 [of "reg e"] unat_u16 [of "val e"] unat_u8 [of "readonly e"]
    by (auto intro!: fmt_u_length)
  then show ?thesis
    using assms by (auto simp: fits_def dicentry_text_def fmt_4u_def split: option.splits)
qed

lemma poll_entries: "list_all fits es \<Longrightarrow> poll mb m es = (m', rs) \<Longrightarrow> list_all (fits \<circ> fst) rs \<and> length rs = length es"
  by (induction es arbitrary: m m' rs)
    (auto simp: fits_def printable_def split: prod.splits option.splits)

lemma dumped_fits:
  "list_all (fits \<circ> fst) rs \<Longrightarrow> dumped rs = concat (map (\<lambda>e. dicentry_text e @ [NL]) (map fst (filter snd rs)))"
  by (induction rs) (use fits_text in \<open>auto simp: dumped_def\<close>)

text \<open>
  C25. The dump of the dictionary polls every entry once, in order, stores the values read, returns
  the number of entries read, and writes a file from which the reader of \<open>opendict\<close> gets back
  exactly the entries that could be read, with their new values.
\<close>

theorem read_dict_entries_dump:
  assumes "dict_ok d" "chkdict d" "list_all fits (dictionary d)"
  shows "case read_dict_entries mb True m d of (m', d', out, got) \<Rightarrow>
     (case poll mb m (dictionary d) of (m'', rs) \<Rightarrow>
        m' = m'' \<and> d' = d\<lparr>dictionary := map fst rs\<rparr> \<and> got = int (length (filter snd rs)) \<and>
        map_option (\<lambda>o'. List.map_filter dict_line (getlines o')) out = Some (map fst (filter snd rs)))"
proof (cases "poll mb m (dictionary d)")
  case (Pair m'' rs)
  then have rs: "list_all (fits \<circ> fst) rs" using poll_entries [OF assms(3) Pair] by simp
  then have "list_all printable (map fst (filter snd rs))" by (auto simp: list_all_iff fits_def)
  then show ?thesis
    using assms(1,2) Pair rs getlines_dump [of "map fst (filter snd rs)"]
    by (simp add: read_dict_entries_def read_dict_loop_poll dict_ok_def dumped_fits)
qed

section \<open>An example device and dictionary\<close>

text \<open>
  A device that remembers the registers written, and the key functions of the snippets library
  on plain \<open>key=value\<close> texts with decimal numbers.
\<close>

definition demo_bus :: "(u16 \<times> u16) list modbus_lib" where
  "demo_bus = \<lparr>mb_read = (\<lambda>m r. (m, map_of m r)), mb_write = (\<lambda>m r v. ((r, v) # m, True))\<rparr>"

definition demo_keys :: key_lib where
  "demo_keys =
     \<lparr>sl_get_keyval = (\<lambda>s. case split_at CHR ''='' s of
          None \<Rightarrow> (if s = [] then 0 else 1, s, [])
        | Some (k, v) \<Rightarrow> (2, k, v)),
      sl_str2i = (\<lambda>s. if s \<noteq> [] \<and> list_all (\<lambda>c. decdigit c \<noteq> None) s
        then Some (int (radix_val 10 0 (numeral_of decdigit s))) else None),
      SL_VAL_LEN = 128\<rparr>"

definition demo_d :: dict where
  "demo_d = snd (opendict (\<lambda>_. True) (Some demo_text) no_dict)"

lemma demo_d_ok: "dict_ok demo_d" "chkdict demo_d"
proof -
  have "opendict (\<lambda>_. True) (Some demo_text) no_dict = (True, demo_d)" by code_simp
  then show "dict_ok demo_d" by (rule opendict_dict_ok)
  show "chkdict demo_d" by code_simp
qed

theorem write_codeval_access_witness:
  "\<exists>acc. list_all (allowed demo_d) acc \<and>
    fst (write_codeval demo_bus demo_keys demo_d [''F00.01=7'', ''A=3'', ''B=1''] []) = fold (device_access demo_bus) acc [] \<and>
    write_codeval demo_bus demo_keys demo_d [''F00.01=7'', ''A=3'', ''B=1''] [] = ([(61, 7)], 1)"
proof -
  have "write_codeval demo_bus demo_keys demo_d [''F00.01=7'', ''A=3'', ''B=1''] [] = ([(61, 7)], 1)"
    by code_simp
  then show ?thesis
    using write_codeval_access [OF demo_d_ok(1), of "[''F00.01=7'', ''A=3'', ''B=1'']" demo_bus demo_keys "[]"]
    by blast
qed

theorem read_dict_entries_dump_witness:
  "list_all fits (dictionary demo_d) \<and>
   (case read_dict_entries demo_bus True [(5, 9)] demo_d of (m', d', out, got) \<Rightarrow>
      got = 1 \<and> map_option (\<lambda>t. map val (List.map_filter dict_line (getlines t))) out = Some [9])"
proof -
  have f: "list_all fits (dictionary demo_d)" by code_simp
  have p: "poll demo_bus [(5, 9)] (dictionary demo_d) =
    ([(5, 9)], [(dictionary demo_d ! 0, False), ((dictionary demo_d ! 1)\<lparr>val := 9\<rparr>, True)])" by code_simp
  show ?thesis
    using read_dict_entries_dump [OF demo_d_ok f, of demo_bus "[(5, 9)]"] f
    by (auto simp: p split: prod.splits)
qed

section \<open>Dump parameters\<close>

lemma setdumppars_loop_result:
  assumes d: "dict_ok d"
  shows "\<lbrakk>- 1 \<le> cursz s; N = 0 \<or> int N \<le> cursz s; N \<le> length (dumppars s)\<rbrakk> \<Longrightarrow>
    case setdumppars_loop (\<lambda>_. True) d N ps s of
      None \<Rightarrow> False
    | Some (ok, s') \<Rightarrow>
        ok = list_all (\<lambda>p. p \<in> code ` set (dictionary d)) ps \<and>
        (if ok then
           dumpsize s' = N + length ps \<and>
           take N (dumppars s') = take N (dumppars s) \<and>
           map code (take (length ps) (drop N (dumppars s'))) = ps
         else dumpsize s' = dumpsize s)"
proof (induction ps arbitrary: N s)
  case (Cons p ps)
  show ?case
  proof (cases "findentry_by_code d p")
    case None
    then show ?thesis using findentry_by_code_lookup [OF d, of p] by simp
  next
    case (Some i)
    then have i: "i < length (dictionary d)" "code (dictionary d ! i) = p"
      using findentry_by_code_Some [OF d] by auto
    then have p: "p \<in> code ` set (dictionary d)" by force
    define s1 where "s1 = (if cursz s \<le> int N then s\<lparr>cursz := cursz s + 50\<rparr> else s)"
    define s2 where "s2 = s1\<lparr>dumppars := put_at N (dictionary d ! i) (dumppars s1)\<rparr>"
    have c: "cursz s1 > int N" using Cons.prems by (auto simp: s1_def)
    have l: "setdumppars_loop (\<lambda>_. True) d N (p # ps) s = setdumppars_loop (\<lambda>_. True) d (N + 1) ps s2"
      using Some c by (simp add: s1_def s2_def Let_def)
    have dp: "dumppars s1 = dumppars s" "dumpsize s2 = dumpsize s" by (simp_all add: s1_def s2_def)
    have s2: "N < length (dumppars s2)" "take N (dumppars s2) = take N (dumppars s)" "dumppars s2 ! N = dictionary d ! i"
      using Cons.prems by (auto simp: s2_def dp put_at_def nth_append)
    have IH: "case setdumppars_loop (\<lambda>_. True) d (N + 1) ps s2 of
        None \<Rightarrow> False
      | Some (ok, s') \<Rightarrow>
          ok = list_all (\<lambda>p. p \<in> code ` set (dictionary d)) ps \<and>
          (if ok then dumpsize s' = (N + 1) + length ps \<and> take (N + 1) (dumppars s') = take (N + 1) (dumppars s2) \<and>
             map code (take (length ps) (drop (N + 1) (dumppars s'))) = ps
           else dumpsize s' = dumpsize s2)"
      using c s2(1) by (intro Cons.IH) (auto simp: s2_def)
    have keep: "take N (dumppars s') = take N (dumppars s) \<and> dumppars s' ! N = dictionary d ! i \<and> N < length (dumppars s')"
      if "take (N + 1) (dumppars s') = take (N + 1) (dumppars s2)" for s'
    proof -
      have len: "N < length (dumppars s')"
        using arg_cong [OF that, of length] s2(1) by (simp add: min_def split: if_splits)
      have "take (N + 1) (dumppars s') ! N = take (N + 1) (dumppars s2) ! N" by (simp only: that)
      moreover have "take N (take (N + 1) (dumppars s')) = take N (take (N + 1) (dumppars s2))" by (simp only: that)
      ultimately show ?thesis using s2 len by (simp add: min_def)
    qed
    obtain ok s' where r: "setdumppars_loop (\<lambda>_. True) d (N + 1) ps s2 = Some (ok, s')"
      using IH by (auto split: option.splits)
    show ?thesis
    proof (cases ok)
      case True
      then have k: "take N (dumppars s') = take N (dumppars s)" "dumppars s' ! N = dictionary d ! i" "N < length (dumppars s')"
        using IH r keep by auto
      have "take (length (p # ps)) (drop N (dumppars s')) = (dictionary d ! i) # take (length ps) (drop (N + 1) (dumppars s'))"
        using k(2,3) by (simp add: Cons_nth_drop_Suc [symmetric])
      then show ?thesis unfolding l using IH r True k(1) p i by simp
    next
      case False
      then show ?thesis unfolding l using IH r dp(2) p by simp
    qed
  qed
qed simp

text \<open>
  With memory available \<open>setdumppars\<close> stays inside its array, succeeds exactly on a non-empty list
  of known codes, and then the dump list names these codes in order; a refused list leaves the
  number of dumped parameters.
\<close>

theorem setdumppars_list:
  assumes "dict_ok d" "- 1 \<le> cursz s"
  shows "case setdumppars (\<lambda>_. True) d pars s of
      None \<Rightarrow> False
    | Some (ok, s') \<Rightarrow>
        ok = (pars \<noteq> [] \<and> list_all (\<lambda>p. p \<in> code ` set (dictionary d)) pars) \<and>
        (if ok then dumpsize s' = length pars \<and> map code (take (dumpsize s') (dumppars s')) = pars
         else dumpsize s' = dumpsize s)"
proof -
  have "\<not> chkdict d \<Longrightarrow> dictionary d = []" using assms(1) by (simp add: chkdict_def dict_ok_def)
  then show ?thesis
    using setdumppars_loop_result [OF assms, of 0 pars]
    by (cases pars) (auto simp: setdumppars_def split: option.splits if_splits)
qed

theorem setdumppars_list_witness:
  "dict_ok demo_d \<and> - 1 \<le> cursz no_dump \<and>
   (case setdumppars (\<lambda>_. True) demo_d [''A'', ''F00.01''] no_dump of
      Some (ok, s') \<Rightarrow> ok \<and> map code (take (dumpsize s') (dumppars s')) = [''A'', ''F00.01'']
    | None \<Rightarrow> False)"
proof -
  have c: "- 1 \<le> cursz no_dump" by code_simp
  have k: "list_all (\<lambda>p. p \<in> code ` set (dictionary demo_d)) [''A'', ''F00.01'']" by code_simp
  show ?thesis
    using setdumppars_list [OF demo_d_ok(1) c, of "[''A'', ''F00.01'']"] c k demo_d_ok(1)
    by (auto split: option.splits if_splits)
qed

end
