(* ===== verification/ModbusDump.thy ===== *)
theory ModbusDump
  imports ModbusIO
begin

text \<open>
  The dump thread of \<open>modbus_params/dictionary.c\<close> as a step relation: the server thread runs
  \<open>opendumpfile\<close>, \<open>rundump\<close> and \<open>closedumpfile\<close>, each dump thread runs \<open>dumpthread\<close>, and they
  share the atomic flags \<open>stopdump\<close> and \<open>isstopped\<close>. Every atomic load or store is a step.
\<close>

section \<open>State\<close>

text \<open>Program points of \<open>dumpthread\<close>: before its two stores, in the loop, behind it, returned.\<close>

datatype dump_pc = AtStart | AtClear | InLoop | AtEnd | Returned

text \<open>
  The server thread: idle, or in the waiting loop of \<open>closedumpfile\<close>, called by itself or by
  \<open>opendumpfile\<close> of a new name.
\<close>

datatype server_pc = Idle | Waiting "string option"

record dump_state =
  dumpfile :: "string option"
  dumpname :: "string option"
  stopdump :: bool
  isstopped :: bool
  dthreads :: "dump_pc list"
  server :: server_pc

definition dump_init :: dump_state where
  "dump_init = \<lparr>dumpfile = None, dumpname = None, stopdump = False, isstopped = True,
                dthreads = [], server = Idle\<rparr>"

section \<open>Operations\<close>

text \<open>The part of \<open>opendumpfile\<close> behind \<open>closedumpfile\<close>; \<open>opened\<close> tells whether \<open>fopen\<close> succeeds.\<close>

definition opendump_rest :: "string \<Rightarrow> bool \<Rightarrow> string \<Rightarrow> dump_state \<Rightarrow> dump_state" where
  "opendump_rest header opened name s =
     (if opened then s\<lparr>dumpfile := Some header, dumpname := Some name\<rparr> else s\<lparr>dumpfile := None\<rparr>)"

text \<open>Whether \<open>closedumpfile\<close> enters its waiting loop; otherwise it does nothing.\<close>

definition close_waits :: "dump_state \<Rightarrow> bool" where
  "close_waits s = (dumpfile s \<noteq> None \<and> \<not> isstopped s)"

text \<open>\<open>fclose(dumpfile); FREE(dumpname)\<close>: the pointer \<open>dumpfile\<close> itself is left.\<close>

definition close_rest :: "dump_state \<Rightarrow> dump_state" where
  "close_rest s = s\<lparr>dumpname := None\<rparr>"

definition rundump :: "bool \<Rightarrow> dump_state \<Rightarrow> bool \<times> dump_state" where
  "rundump created s =
     (if dumpfile s = None then (False, s)
      else if \<not> created then (False, s)
      else (True, s\<lparr>dthreads := dthreads s @ [AtStart]\<rparr>))"

text \<open>One step of a dump thread at program point \<open>pc\<close>; \<open>row\<close> is the row it prints in the loop.\<close>

definition thread_step :: "string \<Rightarrow> nat \<Rightarrow> dump_state \<Rightarrow> dump_state" where
  "thread_step row i s =
     (case dthreads s ! i of
        AtStart \<Rightarrow> s\<lparr>isstopped := False, dthreads := (dthreads s)[i := AtClear]\<rparr>
      | AtClear \<Rightarrow> s\<lparr>stopdump := False, dthreads := (dthreads s)[i := InLoop]\<rparr>
      | InLoop \<Rightarrow>
          if \<not> isstopped s then s\<lparr>dumpfile := map_option (\<lambda>f. f @ row) (dumpfile s)\<rparr>
          else s\<lparr>dthreads := (dthreads s)[i := AtEnd]\<rparr>
      | AtEnd \<Rightarrow> s\<lparr>isstopped := True, dthreads := (dthreads s)[i := Returned]\<rparr>
      | Returned \<Rightarrow> s)"

inductive dump_step :: "dumplist \<Rightarrow> dict \<Rightarrow> dump_state \<Rightarrow> dump_state \<Rightarrow> bool" for l d where
  open_now: "server s = Idle \<Longrightarrow> chkdict d \<Longrightarrow> \<not> dumpsize l < 1 \<Longrightarrow> \<not> close_waits s \<Longrightarrow>
    dump_step l d s (opendump_rest (dump_header l) opened name s)"
| open_wait: "server s = Idle \<Longrightarrow> chkdict d \<Longrightarrow> \<not> dumpsize l < 1 \<Longrightarrow> close_waits s \<Longrightarrow>
    dump_step l d s (s\<lparr>stopdump := True, server := Waiting (Some name)\<rparr>)"
| run: "server s = Idle \<Longrightarrow> dump_step l d s (snd (rundump created s))"
| close_wait: "server s = Idle \<Longrightarrow> close_waits s \<Longrightarrow>
    dump_step l d s (s\<lparr>stopdump := True, server := Waiting None\<rparr>)"
| close_done: "server s = Waiting None \<Longrightarrow> isstopped s \<Longrightarrow>
    dump_step l d s ((close_rest s)\<lparr>server := Idle\<rparr>)"
| reopen: "server s = Waiting (Some name) \<Longrightarrow> isstopped s \<Longrightarrow>
    dump_step l d s ((opendump_rest (dump_header l) opened name (close_rest s))\<lparr>server := Idle\<rparr>)"
| thread: "i < length (dthreads s) \<Longrightarrow> dump_step l d s (thread_step row i s)"

inductive_cases dump_stepE: "dump_step l d s s'"

abbreviation dump_steps :: "dumplist \<Rightarrow> dict \<Rightarrow> dump_state \<Rightarrow> dump_state \<Rightarrow> bool" where
  "dump_steps l d \<equiv> (dump_step l d)\<^sup>*\<^sup>*"

section \<open>The flag nobody sets\<close>

text \<open>
  While some thread has started, \<open>isstopped\<close> is clear: only a thread that has left its loop sets
  it, and a thread leaves its loop only when it is set.
\<close>

definition dump_inv :: "dump_state \<Rightarrow> bool" where
  "dump_inv s \<longleftrightarrow>
     AtEnd \<notin> set (dthreads s) \<and> Returned \<notin> set (dthreads s) \<and>
     (isstopped s \<longrightarrow> set (dthreads s) \<subseteq> {AtStart} \<and> server s = Idle)"

lemma dump_inv_init: "dump_inv dump_init"
  by (simp add: dump_inv_def dump_init_def)

lemma thread_step_inv:
  assumes "dump_inv s" "i < length (dthreads s)"
  shows "dump_inv (thread_step row i s) \<and> server (thread_step row i s) = server s \<and>
    (\<not> isstopped s \<longrightarrow> \<not> isstopped (thread_step row i s))"
proof -
  have mem: "dthreads s ! i \<in> set (dthreads s)" using assms(2) by simp
  have upd: "x = p \<or> x \<in> set (dthreads s)" if "x \<in> set ((dthreads s)[i := p])" for x p
    using that set_update_subset_insert by fastforce
  show ?thesis
  proof (cases "dthreads s ! i")
    case InLoop
    then have "\<not> isstopped s" using assms(1) mem by (auto simp: dump_inv_def)
    then show ?thesis using InLoop assms(1) by (simp add: thread_step_def dump_inv_def)
  qed (use assms(1) mem upd in \<open>auto simp: thread_step_def dump_inv_def\<close>)
qed

lemma dump_step_inv:
  assumes "dump_step l d s s'" "dump_inv s"
  shows "dump_inv s' \<and> (\<not> isstopped s \<longrightarrow> \<not> isstopped s') \<and> (server s \<noteq> Idle \<longrightarrow> server s' = server s)"
  using assms
proof cases
  case (thread i row)
  then show ?thesis using thread_step_inv [OF assms(2)] by metis
qed (auto simp: dump_inv_def opendump_rest_def rundump_def close_waits_def)

lemma dump_steps_inv:
  assumes "dump_steps l d s s'" "dump_inv s"
  shows "dump_inv s' \<and> (server s \<noteq> Idle \<longrightarrow> server s' = server s)"
  using assms
proof (induction rule: rtranclp_induct)
  case (step y z)
  then show ?case using dump_step_inv [of l d y z] by metis
qed simp

text \<open>
  Once \<open>closedumpfile\<close> (or \<open>opendumpfile\<close>, which calls it) has started to wait for a dump thread,
  it waits in every later state, and no dump thread ever leaves its loop: the loop tests
  \<open>isstopped\<close>, which only the end of the thread sets, and nobody reads \<open>stopdump\<close>.
\<close>

theorem dump_never_stops:
  assumes "dump_steps l d dump_init s" and "dump_steps l d s s'"
  shows "AtEnd \<notin> set (dthreads s') \<and> Returned \<notin> set (dthreads s') \<and> (server s = Idle \<or> server s' = server s)"
proof -
  have "dump_inv s" using dump_steps_inv [OF assms(1) dump_inv_init] by simp
  then show ?thesis using dump_steps_inv [OF assms(2)] by (auto simp: dump_inv_def)
qed

definition demo_list :: dumplist where
  "demo_list = (case setdumppars (\<lambda>_. True) demo_d [''A''] no_dump of Some (ok, s) \<Rightarrow> s)"

definition demo_running :: dump_state where
  "demo_running = thread_step [] 0 (thread_step [] 0
     (snd (rundump True (opendump_rest (dump_header demo_list) True ''log'' dump_init))))"

definition demo_closing :: dump_state where
  "demo_closing = demo_running\<lparr>stopdump := True, server := Waiting None\<rparr>"

lemma demo_closing_reachable: "dump_steps demo_list demo_d dump_init demo_closing"
proof -
  let ?step = "dump_step demo_list demo_d"
  let ?s1 = "opendump_rest (dump_header demo_list) True ''log'' dump_init"
  let ?s2 = "snd (rundump True ?s1)"
  have "?step dump_init ?s1" by (rule open_now; code_simp)
  moreover have "?step ?s1 ?s2" by (rule run; code_simp)
  moreover have "?step ?s2 (thread_step [] 0 ?s2)" by (rule thread; code_simp)
  moreover have "?step (thread_step [] 0 ?s2) demo_running"
    unfolding demo_running_def by (rule thread; code_simp)
  moreover have "?step demo_running demo_closing"
    unfolding demo_closing_def by (rule close_wait; code_simp)
  ultimately show ?thesis by (meson rtranclp.rtrancl_into_rtrancl rtranclp.rtrancl_refl)
qed

theorem dump_never_stops_witness:
  "dump_steps demo_list demo_d dump_init demo_closing \<and> server demo_closing = Waiting None \<and>
   server (thread_step ''row'' 0 demo_closing) = Waiting None"
proof -
  have "dump_step demo_list demo_d demo_closing (thread_step ''row'' 0 demo_closing)"
    by (rule thread; code_simp)
  then have s: "dump_steps demo_list demo_d demo_closing (thread_step ''row'' 0 demo_closing)" by blast
  have w: "server demo_closing = Waiting None" by code_simp
  then show ?thesis
    using dump_never_stops [OF demo_closing_reachable s] demo_closing_reachable by simp
qed

end
