(* ===== verification/ModbusServer.thy ===== *)
theory ModbusServer
  imports ModbusDump
begin

text \<open>
  The request handlers of \<open>modbus_params/server.c\<close>: register access by number, code or alias,
  and the listings. A handler gets the request, changes the device and the dictionary, sends
  messages to the client and returns a result code. The socket server that calls the handlers
  is the snippets library and not modelled.
\<close>

datatype hresult = RESULT_OK | RESULT_FAIL | RESULT_BADKEY | RESULT_BADVAL | RESULT_SILENCE

record 'm server_state =
  dev :: 'm
  sdict :: dict

section \<open>Handlers\<close>

text \<open>\<open>entry->value = v\<close> for the entry at position \<open>i\<close>.\<close>

definition set_val :: "nat \<Rightarrow> u16 \<Rightarrow> dict \<Rightarrow> dict" where
  "set_val i v d = d\<lparr>dictionary := (dictionary d)[i := (dictionary d ! i)\<lparr>val := v\<rparr>]\<rparr>"

definition find_key :: "key_lib \<Rightarrow> dict \<Rightarrow> string \<Rightarrow> nat option" where
  "find_key kl d key =
     (case sl_str2i kl key of
        Some N \<Rightarrow> findentry_by_reg d (word_of_int N)
      | None \<Rightarrow> findentry_by_code d key)"

definition getter :: "'m modbus_lib \<Rightarrow> key_lib \<Rightarrow> nat \<Rightarrow> string \<Rightarrow> 'm server_state
    \<Rightarrow> 'm server_state \<times> string list \<times> hresult" where
  "getter mb kl i key s =
     (case read_entry mb (dev s) (Some (dictionary (sdict s) ! i)) of
        (m', Some e, True) \<Rightarrow>
          (s\<lparr>dev := m', sdict := set_val i (val e) (sdict s)\<rparr>,
           [take (SL_VAL_LEN kl - 2) (key @ [CHR ''=''] @ fmt_u (unat (val e)) @ [NL])], RESULT_SILENCE)
      | (m', _) \<Rightarrow> (s\<lparr>dev := m'\<rparr>, [], RESULT_FAIL))"

text \<open>The value is stored into the entry before the write is tried.\<close>

definition setter :: "'m modbus_lib \<Rightarrow> key_lib \<Rightarrow> nat \<Rightarrow> string \<Rightarrow> 'm server_state
    \<Rightarrow> 'm server_state \<times> string list \<times> hresult" where
  "setter mb kl i v s =
     (case sl_str2i kl v of
        None \<Rightarrow> (s, [], RESULT_BADVAL)
      | Some N \<Rightarrow>
          (let d' = set_val i (word_of_int N) (sdict s) in
           case write_entry mb (dev s) (Some (dictionary d' ! i)) of
             (m', ok) \<Rightarrow> (s\<lparr>dev := m', sdict := d'\<rparr>, [], if ok then RESULT_OK else RESULT_FAIL)))"

text \<open>\<open>defhandler\<close>: an alias is handled by a recursive call, which need not end.\<close>

partial_function (option) defhandler :: "'m modbus_lib \<Rightarrow> key_lib \<Rightarrow> aliastab \<Rightarrow> string \<Rightarrow> 'm server_state
    \<Rightarrow> ('m server_state \<times> string list \<times> hresult) option" where
  "defhandler mb kl al req s =
     (case sl_get_keyval kl req of (n, key, v) \<Rightarrow>
        if n = 0 then Some (s, [], RESULT_BADKEY)
        else
          (case find_key kl (sdict s) key of
             None \<Rightarrow>
               (if n = 1 then
                  (case find_alias al key of
                     Some a \<Rightarrow> defhandler mb kl al (al_expr a) s
                   | None \<Rightarrow> Some (s, [], RESULT_BADKEY))
                else Some (s, [], RESULT_BADKEY))
           | Some i \<Rightarrow> Some (if n = 1 then getter mb kl i key s else setter mb kl i v s)))"

definition listdict :: "key_lib \<Rightarrow> dict \<Rightarrow> string option \<Rightarrow> string list \<times> hresult" where
  "listdict kl d req =
     (if dictsize d = 0 then ([], RESULT_FAIL)
      else
        (case req of
           None \<Rightarrow> (List.map_filter (\<lambda>i. dicentry_descrN d i BUFSIZ) [0..<dictsize d], RESULT_SILENCE)
         | Some r \<Rightarrow>
             (let e = (case findentry_by_code d r of
                         Some i \<Rightarrow> Some i
                       | None \<Rightarrow>
                           (case sl_str2i kl r of
                              None \<Rightarrow> None
                            | Some x \<Rightarrow> if is_u16 x then findentry_by_reg d (word_of_int x) else None))
              in case e of
                   None \<Rightarrow> ([], RESULT_BADVAL)
                 | Some i \<Rightarrow>
                     (case dicentry_descr (Some (dictionary d ! i)) BUFSIZ of
                        None \<Rightarrow> ([], RESULT_FAIL)
                      | Some buf \<Rightarrow> ([buf], RESULT_SILENCE)))))"

definition listaliases :: "aliastab \<Rightarrow> string option \<Rightarrow> string list \<times> hresult" where
  "listaliases al req =
     (if aliasessize al = 0 then ([], RESULT_FAIL)
      else
        (case req of
           None \<Rightarrow> (List.map_filter (\<lambda>i. alias_descrN al i BUFSIZ) [0..<aliasessize al], RESULT_SILENCE)
         | Some r \<Rightarrow>
             (case find_alias al r of
                None \<Rightarrow> ([], RESULT_FAIL)
              | Some a \<Rightarrow>
                  (case alias_descr (Some a) BUFSIZ of
                     None \<Rightarrow> ([], RESULT_FAIL)
                   | Some buf \<Rightarrow> ([buf], RESULT_SILENCE)))))"

lemma set_val_simps [simp]:
  "dictsize (set_val i v d) = dictsize d" "length (dictionary (set_val i v d)) = length (dictionary d)"
  "dictbycode (set_val i v d) = dictbycode d" "dictbyreg (set_val i v d) = dictbyreg d"
  by (simp_all add: set_val_def)

lemma set_val_nth:
  "i < length (dictionary d) \<Longrightarrow> j < length (dictionary d) \<Longrightarrow>
    dictionary (set_val i v d) ! j = (if i = j then (dictionary d ! i)\<lparr>val := v\<rparr> else dictionary d ! j)"
  by (simp add: set_val_def nth_list_update)

lemma set_val_keys:
  assumes "i < length (dictionary d)"
  shows "map code (dictionary (set_val i v d)) = map code (dictionary d)"
    "map reg (dictionary (set_val i v d)) = map reg (dictionary d)"
    "map readonly (dictionary (set_val i v d)) = map readonly (dictionary d)"
  by (rule nth_equalityI; use assms in \<open>simp add: set_val_nth\<close>)+

lemma dict_ok_set_val:
  assumes "dict_ok d" "i < length (dictionary d)"
  shows "dict_ok (set_val i v d)"
proof -
  have "map (\<lambda>j. code (dictionary (set_val i v d) ! j)) (dictbycode d) = map (\<lambda>j. code (dictionary d ! j)) (dictbycode d)"
    "map (\<lambda>j. uint (reg (dictionary (set_val i v d) ! j))) (dictbyreg d) = map (\<lambda>j. uint (reg (dictionary d ! j))) (dictbyreg d)"
    using assms perm_indices [of "dictbycode d" "dictsize d"] perm_indices [of "dictbyreg d" "dictsize d"]
    by (auto simp: dict_ok_def set_val_nth)
  then show ?thesis using assms(1) unfolding dict_ok_def by (simp only: set_val_simps simp_thms)
qed

lemma find_key_Some:
  "dict_ok d \<Longrightarrow> find_key kl d key = Some i \<Longrightarrow> i < length (dictionary d)"
  using findentry_by_reg_Some findentry_by_code_Some by (fastforce simp: find_key_def split: option.splits)

text \<open>The lookups depend on the keys only.\<close>

lemma binsearch_cong:
  "(\<And>m. m < high \<Longrightarrow> f (base ! m) = g (base ! m)) \<Longrightarrow> binsearch base f low high = binsearch base g low high"
proof (induction "high - low" arbitrary: low high rule: less_induct)
  case less
  show ?case
  proof (cases "low < high")
    case True
    let ?mid = "(high + low) div 2"
    have m: "?mid < high" "low \<le> ?mid" using True by auto
    have "binsearch base f low ?mid = binsearch base g low ?mid"
      using m less.prems by (intro less.hyps) auto
    moreover have "binsearch base f (?mid + 1) high = binsearch base g (?mid + 1) high"
      using m less.prems by (intro less.hyps) auto
    moreover have "f (base ! ?mid) = g (base ! ?mid)" using less.prems m by blast
    ultimately show ?thesis
      by (subst (1 2) binsearch.simps) (simp add: Let_def)
  qed (simp add: binsearch.simps)
qed

lemma find_key_set_val:
  assumes "dict_ok d" "i < length (dictionary d)"
  shows "find_key kl (set_val i v d) key = find_key kl d key"
proof -
  have ix: "m < dictsize d \<Longrightarrow> dictbycode d ! m < length (dictionary d)"
    "m < dictsize d \<Longrightarrow> dictbyreg d ! m < length (dictionary d)" for m
    using assms(1) perm_indices [of "dictbycode d" "dictsize d"] perm_indices [of "dictbyreg d" "dictsize d"] nth_mem
    by (fastforce simp: dict_ok_def)+
  have "findentry_by_code (set_val i v d) c = findentry_by_code d c" for c
    using assms(2) ix unfolding findentry_by_code_def chkdict_def
    by (auto simp: search_by_code_def set_val_nth intro!: arg_cong2 [where f = map_option] binsearch_cong)
  moreover have "findentry_by_reg (set_val i v d) r = findentry_by_reg d r" for r
    using assms(2) ix unfolding findentry_by_reg_def chkdict_def
    by (auto simp: search_by_reg_def set_val_nth intro!: arg_cong2 [where f = map_option] binsearch_cong)
  ultimately show ?thesis by (simp add: find_key_def split: option.splits)
qed

section \<open>Properties\<close>

text \<open>A request that is an alias of itself, and no register.\<close>

definition self_alias :: "key_lib \<Rightarrow> aliastab \<Rightarrow> dict \<Rightarrow> string \<Rightarrow> bool" where
  "self_alias kl al d req =
     (case sl_get_keyval kl req of (n, key, v) \<Rightarrow>
        n = 1 \<and> find_key kl d key = None \<and>
        (case find_alias al key of None \<Rightarrow> False | Some a \<Rightarrow> al_expr a = req))"

text \<open>Induction over the aliases a request that is answered goes through.\<close>

lemma defhandler_induct [consumes 1, case_names unknown entry via]:
  assumes result: "defhandler mb kl al req s = Some y"
    and unknown: "\<And>req n key v. sl_get_keyval kl req = (n, key, v) \<Longrightarrow>
      n = 0 \<or> find_key kl (sdict s) key = None \<and> (n \<noteq> 1 \<or> find_alias al key = None) \<Longrightarrow>
      P req (s, [], RESULT_BADKEY)"
    and entry: "\<And>req n key v i. sl_get_keyval kl req = (n, key, v) \<Longrightarrow> n \<noteq> 0 \<Longrightarrow>
      find_key kl (sdict s) key = Some i \<Longrightarrow>
      P req (if n = 1 then getter mb kl i key s else setter mb kl i v s)"
    and via: "\<And>req key v a y. sl_get_keyval kl req = (1, key, v) \<Longrightarrow> find_key kl (sdict s) key = None \<Longrightarrow>
      find_alias al key = Some a \<Longrightarrow> P (al_expr a) y \<Longrightarrow> P req y"
  shows "P req y"
proof -
  have "mb' = mb \<and> kl' = kl \<and> al' = al \<and> s' = s \<longrightarrow> P req' y'"
    if "defhandler mb' kl' al' req' s' = Some y'" for mb' kl' al' req' s' y'
  proof (rule defhandler.raw_induct [OF _ that], goal_cases)
    case (1 f mb' kl' al' req' s' y')
    note IH = "1"(1) and body = "1"(2)
    obtain n key v where kv: "sl_get_keyval kl' req' = (n, key, v)" by (cases "sl_get_keyval kl' req'")
    show ?case
    proof (intro impI, elim conjE)
      assume eq: "mb' = mb" "kl' = kl" "al' = al" "s' = s"
      consider "n = 0 \<or> find_key kl (sdict s) key = None \<and> (n \<noteq> 1 \<or> find_alias al key = None)"
        | i where "n \<noteq> 0" "find_key kl (sdict s) key = Some i"
        | a where "n = 1" "find_key kl (sdict s) key = None" "find_alias al key = Some a"
        by fastforce
      then show "P req' y'"
      proof cases
        case 1
        then show ?thesis using unknown [of req' n key v] kv body eq by (auto split: option.splits if_splits)
      next
        case (2 i)
        then show ?thesis using entry [of req' n key v i] kv body eq by auto
      next
        case (3 a)
        then show ?thesis using via [of req' key v a y'] kv body IH eq by simp
      qed
    qed
  qed
  then show ?thesis using result by blast
qed

lemma defhandler_Some_no_loop:
  assumes "defhandler mb kl al req s = Some y"
  shows "\<not> self_alias kl al (sdict s) req"
  using assms
proof (induction rule: defhandler_induct)
  case (via req key v a y)
  then show ?case by (auto simp: self_alias_def)
qed (auto simp: self_alias_def)

text \<open>
  A client request that is an alias of itself is never answered: the handler calls itself without end.
\<close>

theorem defhandler_alias_loop:
  assumes "self_alias kl al (sdict s) req"
  shows "defhandler mb kl al req s = None"
  using defhandler_Some_no_loop assms by (metis not_None_eq)

text \<open>
  C23. Every request is answered when the aliases can be ranked so that the key of an alias's
  expression ranks below its name, that is when no chain of aliases is circular.
\<close>

theorem defhandler_returns:
  fixes rank :: "string \<Rightarrow> nat"
  assumes rank: "\<And>key a. find_alias al key = Some a \<Longrightarrow> rank (fst (snd (sl_get_keyval kl (al_expr a)))) < rank key"
  shows "defhandler mb kl al req s \<noteq> None"
proof (induction "rank (fst (snd (sl_get_keyval kl req)))" arbitrary: req rule: less_induct)
  case less
  obtain n key v where kv: "sl_get_keyval kl req = (n, key, v)" by (cases "sl_get_keyval kl req")
  show ?case
  proof (cases "find_alias al key")
    case (Some a)
    then have "defhandler mb kl al (al_expr a) s \<noteq> None" using rank kv by (intro less) simp
    then show ?thesis by (subst defhandler.simps) (simp add: kv Some split: option.splits del: not_None_eq)
  next
    case None
    then show ?thesis by (subst defhandler.simps) (simp add: kv split: option.splits del: not_None_eq)
  qed
qed

lemma allowed_nth:
  assumes "i < length (dictionary d)"
  shows "allowed d (ReadReg (reg (dictionary d ! i)))"
    "readonly (dictionary d ! i) = 0 \<Longrightarrow> allowed d (WriteReg (reg (dictionary d ! i)) v)"
  using nth_mem [OF assms] by (auto simp: list_ex_iff)

lemma getter_effect:
  assumes "dict_ok (sdict s)" "i < length (dictionary (sdict s))" "getter mb kl i key s = (s', msgs, res)"
  shows "dev s' = device_access mb (ReadReg (reg (dictionary (sdict s) ! i))) (dev s) \<and>
    dict_ok (sdict s') \<and> map readonly (dictionary (sdict s')) = map readonly (dictionary (sdict s))"
  using assms dict_ok_set_val [OF assms(1,2)] set_val_keys [OF assms(2)]
  by (auto simp: getter_def read_entry_def split: prod.splits option.splits)

lemma setter_effect:
  assumes "dict_ok (sdict s)" "i < length (dictionary (sdict s))" "setter mb kl i v s = (s', msgs, res)"
  shows "(dev s' = dev s \<or> readonly (dictionary (sdict s) ! i) = 0 \<and>
      (\<exists>x. dev s' = device_access mb (WriteReg (reg (dictionary (sdict s) ! i)) x) (dev s))) \<and>
    dict_ok (sdict s') \<and> map readonly (dictionary (sdict s')) = map readonly (dictionary (sdict s))"
proof (cases "sl_str2i kl v")
  case None
  then show ?thesis using assms by (simp add: setter_def)
next
  case (Some N)
  let ?e = "dictionary (sdict s) ! i"
  obtain m' ok where w: "mb_write mb (dev s) (reg ?e) (word_of_int N) = (m', ok)" by fastforce
  have "sdict s' = set_val i (word_of_int N) (sdict s)"
      "dev s' = (if readonly ?e \<noteq> 0 then dev s else m')"
    using assms(2,3) Some w by (auto simp: setter_def write_entry_def set_val_nth Let_def split: if_splits)
  then show ?thesis
    using dict_ok_set_val [OF assms(1,2)] set_val_keys(3) [OF assms(2)] w
    by (auto intro!: exI [of _ "word_of_int N"])
qed

lemma defhandler_effect:
  assumes "defhandler mb kl al req s = Some (s', msgs, res)" "dict_ok (sdict s)"
  shows "\<exists>acc. list_all (allowed (sdict s)) acc \<and> length acc \<le> 1 \<and>
    dev s' = fold (device_access mb) acc (dev s) \<and> dict_ok (sdict s') \<and>
    map readonly (dictionary (sdict s')) = map readonly (dictionary (sdict s))"
proof -
  define d where "d = sdict s"
  have "\<exists>acc. list_all (allowed d) acc \<and> length acc \<le> 1 \<and>
      dev (fst y) = fold (device_access mb) acc (dev s) \<and> dict_ok (sdict (fst y)) \<and>
      map readonly (dictionary (sdict (fst y))) = map readonly (dictionary d)"
    if "defhandler mb kl al req s = Some y" for req y
    using that
  proof (induction rule: defhandler_induct)
    case (unknown req n key v)
    show ?case using assms(2) by (intro exI [of _ "[]"]) (simp add: d_def)
  next
    case (entry req n key v i)
    have i: "i < length (dictionary (sdict s))" using find_key_Some [OF assms(2) entry(3)] .
    obtain s1 m1 r1 where g: "getter mb kl i key s = (s1, m1, r1)" by (cases "getter mb kl i key s")
    obtain s2 m2 r2 where t: "setter mb kl i v s = (s2, m2, r2)" by (cases "setter mb kl i v s")
    show ?case
    proof (cases "n = 1")
      case True
      then show ?thesis using getter_effect [OF assms(2) i g] allowed_nth(1) [OF i] g
        by (intro exI [of _ "[ReadReg (reg (dictionary (sdict s) ! i))]"]) (simp add: d_def)
    next
      case False
      then consider "dev s2 = dev s" | x where "readonly (dictionary (sdict s) ! i) = 0"
          "dev s2 = device_access mb (WriteReg (reg (dictionary (sdict s) ! i)) x) (dev s)"
        using setter_effect [OF assms(2) i t] by blast
      then show ?thesis
      proof cases
        case 1
        then show ?thesis using False setter_effect [OF assms(2) i t] t
          by (intro exI [of _ "[]"]) (simp add: d_def)
      next
        case (2 x)
        then show ?thesis using False setter_effect [OF assms(2) i t] t allowed_nth(2) [OF i 2(1)]
          by (intro exI [of _ "[WriteReg (reg (dictionary (sdict s) ! i)) x]"]) (simp add: d_def)
      qed
    qed
  qed
  from this [OF assms(1)] show ?thesis by (simp add: d_def)
qed

text \<open>
  C7. A request that is answered made at most one access to the device, to a register of the
  dictionary and, for writing, to one that is not read-only, and keeps the tables consistent.
\<close>

theorem defhandler_access:
  assumes "defhandler mb kl al req s = Some (s', msgs, res)" "dict_ok (sdict s)"
  shows "\<exists>acc. list_all (allowed (sdict s)) acc \<and> length acc \<le> 1 \<and>
    dev s' = fold (device_access mb) acc (dev s) \<and> dict_ok (sdict s')"
  using defhandler_effect [OF assms] by blast

lemma defhandler_entry:
  assumes "sl_get_keyval kl req = (n, key, v)" "n \<noteq> 0" "find_key kl (sdict s) key = Some i"
  shows "defhandler mb kl al req s = Some (if n = 1 then getter mb kl i key s else setter mb kl i v s)"
  using assms by (subst defhandler.simps) simp

text \<open>
  Setting a read-only entry fails without an access to the device, but the refused value, cut
  to 16 bits, stays in the dictionary as the value of the entry.
\<close>

theorem defhandler_readonly_cached:
  assumes "dict_ok (sdict s)" "sl_get_keyval kl req = (2, key, v)" "find_key kl (sdict s) key = Some i"
    and "sl_str2i kl v = Some N" "readonly (dictionary (sdict s) ! i) \<noteq> 0"
  shows "defhandler mb kl al req s = Some (s\<lparr>sdict := set_val i (word_of_int N) (sdict s)\<rparr>, [], RESULT_FAIL)"
  using assms defhandler_entry [OF assms(2) _ assms(3), of mb al] find_key_Some [OF assms(1,3)]
  by (simp add: setter_def write_entry_def set_val_nth Let_def)

text \<open>
  C24. A request that sets a value and is answered OK has written the value, modulo 2^16, to the register of the key
  and into the dictionary. Whatever the device does then, the next request for the key reads that register: when the
  device answers, its answer is reported and kept in the dictionary, and when it does not the request fails and the
  dictionary keeps the value that was set. A value below 2^16 that the device returns unchanged is reported as it was
  set.
\<close>

theorem defhandler_set_get:
  assumes "dict_ok (sdict s)" "sl_get_keyval kl setreq = (2, key, v)" "sl_get_keyval kl getreq = (1, key, v')"
    and "find_key kl (sdict s) key = Some i" "sl_str2i kl v = Some N" "length key + 9 \<le> SL_VAL_LEN kl"
    and set_ok: "defhandler mb kl al setreq s = Some (s1, msgs, RESULT_OK)"
  defines "r \<equiv> reg (dictionary (sdict s) ! i)"
  shows "mb_write mb (dev s) r (word_of_int N) = (dev s1, True) \<and>
    sdict s1 = set_val i (word_of_int N) (sdict s) \<and>
    defhandler mb kl al getreq s1 =
      (case mb_read mb (dev s1) r of
         (m2, Some x) \<Rightarrow> Some (s1\<lparr>dev := m2, sdict := set_val i x (sdict s1)\<rparr>, [key @ [CHR ''=''] @ fmt_u (unat x) @ [NL]], RESULT_SILENCE)
       | (m2, None) \<Rightarrow> Some (s1\<lparr>dev := m2\<rparr>, [], RESULT_FAIL)) \<and>
    (0 \<le> N \<and> N < 65536 \<longrightarrow> fmt_u (unat (word_of_int N :: u16)) = fmt_d N)"
proof -
  let ?N = "word_of_int N :: u16"
  note i = find_key_Some [OF assms(1,4)]
  have "setter mb kl i v s = (s1, msgs, RESULT_OK)"
    using set_ok defhandler_entry [OF assms(2) _ assms(4), of mb al] by simp
  then have w: "mb_write mb (dev s) r ?N = (dev s1, True)" and s1: "sdict s1 = set_val i ?N (sdict s)"
    using assms(5) i by (auto simp: r_def setter_def write_entry_def set_val_nth Let_def split: prod.splits if_splits)
  have k: "find_key kl (sdict s1) key = Some i"
    using find_key_set_val [OF assms(1) i] assms(4) by (simp add: s1)
  have r: "reg (dictionary (sdict s1) ! i) = r" using i by (simp add: s1 set_val_nth r_def)
  have l: "length (fmt_u (unat x)) \<le> 5" for x :: u16 using unat_u16 [of x] by (auto intro!: fmt_u_length)
  have t: "take (SL_VAL_LEN kl - 2) (key @ CHR ''='' # fmt_u (unat x) @ [NL]) = key @ CHR ''='' # fmt_u (unat x) @ [NL]" for x :: u16
    using l [of x] assms(6) by (intro take_all) simp
  have "getter mb kl i key s1 =
      (case mb_read mb (dev s1) r of
         (m2, Some x) \<Rightarrow> (s1\<lparr>dev := m2, sdict := set_val i x (sdict s1)\<rparr>, [key @ [CHR ''=''] @ fmt_u (unat x) @ [NL]], RESULT_SILENCE)
       | (m2, None) \<Rightarrow> (s1\<lparr>dev := m2\<rparr>, [], RESULT_FAIL))"
    by (auto simp: getter_def read_entry_def r t simp del: take_append split: prod.split option.split)
  moreover have "fmt_u (unat ?N) = fmt_d N" if "0 \<le> N" "N < 65536"
  proof -
    have "uint ?N = N" using that by (simp add: uint_word_of_int)
    then have "unat ?N = nat N" unfolding unat_eq_nat_uint by simp
    then show ?thesis using that by (simp add: fmt_d_def)
  qed
  ultimately show ?thesis using w s1 defhandler_entry [OF assms(3) _ k, of mb al] by (auto split: prod.split option.split)
qed

section \<open>Examples\<close>

definition demo_server :: "(u16 \<times> u16) list server_state" where
  "demo_server = \<lparr>dev = [], sdict = demo_d\<rparr>"

definition demo_al :: aliastab where
  "demo_al = snd (openaliases demo_spaces (\<lambda>_. True) (Some (''go : F00.01=5'' @ [NL] @ ''x : x'')) no_aliases)"

definition demo_al_go :: aliastab where
  "demo_al_go = snd (openaliases demo_spaces (\<lambda>_. True) (Some ''go : F00.01=5'') no_aliases)"

theorem defhandler_alias_loop_witness:
  "self_alias demo_keys demo_al (sdict demo_server) ''x'' \<and>
   defhandler demo_bus demo_keys demo_al ''x'' demo_server = None"
proof -
  have l: "self_alias demo_keys demo_al (sdict demo_server) ''x''" by code_simp
  then show ?thesis using defhandler_alias_loop [OF l, of demo_bus] by simp
qed

theorem defhandler_returns_witness:
  "defhandler demo_bus demo_keys demo_al_go ''go'' demo_server \<noteq> None"
proof (rule defhandler_returns [where rank = "\<lambda>k. if k = ''go'' then 1 else 0"])
  fix key a assume f: "find_alias demo_al_go key = Some a"
  have "aliases_ok demo_al_go" by code_simp
  then have "a \<in> set (aliases demo_al_go) \<and> al_name a = key" using find_alias_lookup [of demo_al_go key] f by simp
  moreover have "aliases demo_al_go = [\<lparr>al_name = ''go'', al_expr = ''F00.01=5'', al_help = None\<rparr>]" by code_simp
  moreover have "fst (snd (sl_get_keyval demo_keys ''F00.01=5'')) = ''F00.01''" by code_simp
  ultimately show "(if fst (snd (sl_get_keyval demo_keys (al_expr a))) = ''go'' then 1 else 0 :: nat) <
      (if key = ''go'' then 1 else 0)" by auto
qed

lemma demo_set:
  "defhandler demo_bus demo_keys demo_al ''F00.01=5'' demo_server =
     Some (\<lparr>dev = [(61, 5)], sdict = set_val 0 5 demo_d\<rparr>, [], RESULT_OK)"
proof -
  have k: "sl_get_keyval demo_keys ''F00.01=5'' = (2, ''F00.01'', ''5'')" by code_simp
  have f: "find_key demo_keys (sdict demo_server) ''F00.01'' = Some 0" by code_simp
  have "setter demo_bus demo_keys 0 ''5'' demo_server = (\<lparr>dev = [(61, 5)], sdict = set_val 0 5 demo_d\<rparr>, [], RESULT_OK)"
    by code_simp
  then show ?thesis using defhandler_entry [OF k _ f, of demo_bus demo_al] by simp
qed

lemma demo_server_ok: "dict_ok (sdict demo_server)"
  using demo_d_ok by (simp add: demo_server_def)

theorem defhandler_access_witness:
  "\<exists>acc. list_all (allowed demo_d) acc \<and> fold (device_access demo_bus) acc [] = [(61, 5)] \<and>
     dict_ok (set_val 0 5 demo_d)"
  using defhandler_access [OF demo_set demo_server_ok] by (auto simp: demo_server_def)

theorem defhandler_readonly_cached_witness:
  "defhandler demo_bus demo_keys demo_al ''A=3'' demo_server =
     Some (\<lparr>dev = [], sdict = set_val 1 3 demo_d\<rparr>, [], RESULT_FAIL) \<and>
   map val (dictionary (set_val 1 3 demo_d)) = [0, 3]"
proof -
  have k: "sl_get_keyval demo_keys ''A=3'' = (2, ''A'', ''3'')" by code_simp
  have f: "find_key demo_keys (sdict demo_server) ''A'' = Some 1" by code_simp
  have n: "sl_str2i demo_keys ''3'' = Some 3" by code_simp
  have r: "readonly (dictionary (sdict demo_server) ! 1) \<noteq> 0" by code_simp
  have "map val (dictionary (set_val 1 3 demo_d)) = [0, 3]" by code_simp
  then show ?thesis
    using defhandler_readonly_cached [OF demo_server_ok k f n r, of demo_bus demo_al] by (simp add: demo_server_def)
qed

theorem defhandler_set_get_witness:
  "\<exists>s2. defhandler demo_bus demo_keys demo_al ''F00.01'' \<lparr>dev = [(61, 5)], sdict = set_val 0 5 demo_d\<rparr> =
     Some (s2, [''F00.01=5'' @ [NL]], RESULT_SILENCE)"
proof -
  have k: "sl_get_keyval demo_keys ''F00.01=5'' = (2, ''F00.01'', ''5'')"
    "sl_get_keyval demo_keys ''F00.01'' = (1, ''F00.01'', [])" by code_simp+
  have f: "find_key demo_keys (sdict demo_server) ''F00.01'' = Some 0" by code_simp
  have n: "sl_str2i demo_keys ''5'' = Some 5" by code_simp
  have l: "length ''F00.01'' + 9 \<le> SL_VAL_LEN demo_keys" by code_simp
  have p: "''F00.01'' @ [CHR ''=''] @ fmt_u (unat (5 :: u16)) @ [NL] = ''F00.01=5'' @ [NL]" by code_simp
  have r: "mb_read demo_bus [(61, 5)] (reg (dictionary (sdict demo_server) ! 0)) = ([(61, 5)], Some 5)" by code_simp
  show ?thesis using defhandler_set_get [OF demo_server_ok k f n l demo_set] unfolding p [symmetric] by (auto simp: r)
qed

end
