(* ===== verification/Tetris.thy ===== *)
theory Tetris
  imports CPrelude
begin

text \<open>
  The game of \<open>Tetris/\<close>: the cup and the figures of \<open>displaybuf.c\<close>, and the moves, the choice of
  the next figure and the game loop of \<open>main.c\<close>. The cup is the list of its rows from the bottom,
  each a list of colours, 0 for an empty cell. The falling figure is drawn into the cup itself,
  and every move clears and redraws it. The \<open>curses\<close> output is not modelled.
\<close>

section \<open>Cup and figures\<close>

abbreviation ROWS :: nat where "ROWS \<equiv> 30"
abbreviation COLS :: nat where "COLS \<equiv> 15"
abbreviation xmax :: int where "xmax \<equiv> 14"
abbreviation ymax :: int where "ymax \<equiv> 29"

type_synonym cup = "u8 list list"

record figure =
  f :: "u8 list"
  color :: u8

definition L :: figure where "L = \<lparr>f = [0x22, 0x23, 0x24, 0x32], color = 1\<rparr>"
definition J :: figure where "J = \<lparr>f = [0x22, 0x23, 0x24, 0x12], color = 2\<rparr>"
definition O4 :: figure where "O4 = \<lparr>f = [0x22, 0x23, 0x32, 0x33], color = 3\<rparr>"
definition I4 :: figure where "I4 = \<lparr>f = [0x21, 0x22, 0x23, 0x24], color = 4\<rparr>"

definition GETX :: "u8 \<Rightarrow> int" where
  "GETX u = uint (drop_bit 4 u) - 2"

definition GETY :: "u8 \<Rightarrow> int" where
  "GETY u = uint (u AND 0xf) - 2"

definition in_cup :: "int \<Rightarrow> int \<Rightarrow> bool" where
  "in_cup xn yn = (\<not> (xn < 0 \<or> xn > xmax \<or> yn < 0 \<or> yn > ymax))"

definition cell :: "cup \<Rightarrow> int \<Rightarrow> int \<Rightarrow> u8" where
  "cell c xn yn = c ! nat yn ! nat xn"

text \<open>A store outside of the array is undefined in C: it leaves no cup, \<open>[]\<close>, which no later step makes a cup again.\<close>

definition store_cell :: "u8 \<Rightarrow> int \<Rightarrow> int \<Rightarrow> cup \<Rightarrow> cup" where
  "store_cell v xn yn c =
     (if 0 \<le> yn \<and> nat yn < length c \<and> 0 \<le> xn \<and> nat xn < length (c ! nat yn)
      then c[nat yn := (c ! nat yn)[nat xn := v]] else [])"

definition set_cell :: "u8 \<Rightarrow> int \<Rightarrow> int \<Rightarrow> cup \<Rightarrow> cup" where
  "set_cell v xn yn c = (if in_cup xn yn then store_cell v xn yn c else c)"

fun chkcells :: "cup \<Rightarrow> int \<Rightarrow> int \<Rightarrow> u8 list \<Rightarrow> bool" where
  "chkcells c x y [] = True"
| "chkcells c x y (u # us) =
     (let xn = x + GETX u; yn = y + GETY u in
      if yn > ymax then chkcells c x y us
      else if xn < 0 \<or> xn > xmax \<or> yn < 0 then False
      else if cell c xn yn \<noteq> 0 then False
      else chkcells c x y us)"

definition chkfigure :: "int \<Rightarrow> int \<Rightarrow> figure \<Rightarrow> cup \<Rightarrow> bool" where
  "chkfigure x y F c =
     (if x < 0 \<or> x > xmax then False
      else if y < 0 then False
      else chkcells c x y (f F))"

definition clearfigure :: "int \<Rightarrow> int \<Rightarrow> figure \<Rightarrow> cup \<Rightarrow> cup" where
  "clearfigure x y F c = fold (\<lambda>u. set_cell 0 (x + GETX u) (y + GETY u)) (f F) c"

definition putfigure :: "int \<Rightarrow> int \<Rightarrow> figure \<Rightarrow> cup \<Rightarrow> cup" where
  "putfigure x y F c = fold (\<lambda>u. set_cell (color F) (x + GETX u) (y + GETY u)) (f F) c"

text \<open>The new coordinates are packed into a byte again.\<close>

definition rotate_cell :: "bool \<Rightarrow> u8 \<Rightarrow> u8" where
  "rotate_cell dir u =
     (let x = GETX u; y = GETY u;
          xn = (if dir then y else - y); yn = (if dir then - x else x)
      in word_of_int (push_bit 4 (xn + 2) OR (yn + 2)))"

definition rotatefigure :: "bool \<Rightarrow> figure \<Rightarrow> figure" where
  "rotatefigure dir F = F\<lparr>f := map (rotate_cell dir) (f F)\<rparr>"

section \<open>Full lines\<close>

definition count_cells :: "u8 list \<Rightarrow> nat" where
  "count_cells row = length (filter (\<lambda>v. v \<noteq> 0) row)"

text \<open>\<open>for(int yy = y; yy < upper; ++yy) memcpy(cup[yy], cup[yy+1], COLS)\<close>; no cup is left by a copy from behind the array.\<close>

definition copy_row :: "nat \<Rightarrow> cup \<Rightarrow> cup" where
  "copy_row yy c = (if yy + 1 < length c then c[yy := c ! (yy + 1)] else [])"

function roll :: "nat \<Rightarrow> int \<Rightarrow> cup \<Rightarrow> cup" where
  "roll yy upper c = (if int yy < upper then roll (yy + 1) upper (copy_row yy c) else c)"
  by pat_completeness auto
termination
  by (relation "measure (\<lambda>(yy, upper, c). nat (upper - int yy))") auto

declare roll.simps [simp del]

text \<open>The loop of \<open>checkandroll\<close> over the rows below \<open>n\<close>, from the top; \<open>upper\<close> may become -1.\<close>

fun roll_loop :: "nat \<Rightarrow> int \<Rightarrow> bool \<Rightarrow> cup \<Rightarrow> cup \<times> bool" where
  "roll_loop 0 upper ret c = (c, ret)"
| "roll_loop (Suc y) upper ret c =
     (let N = count_cells (c ! y);
          upper1 = (if N = 0 then int y else upper)
      in if N = COLS then roll_loop y (upper1 - 1) True (roll y upper1 c)
         else roll_loop y upper1 ret c)"

definition checkandroll :: "cup \<Rightarrow> cup \<times> bool" where
  "checkandroll c = roll_loop ROWS ymax False c"

section \<open>The game\<close>

record game =
  cup :: cup
  gx :: int
  gy :: int
  fig :: figure
  nxt :: figure

definition mvfig :: "int \<Rightarrow> int \<Rightarrow> game \<Rightarrow> game \<times> bool" where
  "mvfig dx dy g =
     (let xnew = gx g + dx; ynew = gy g + dy;
          c = clearfigure (gx g) (gy g) (fig g) (cup g)
      in if chkfigure xnew ynew (fig g) c
         then (g\<lparr>cup := putfigure xnew ynew (fig g) c, gx := xnew, gy := ynew\<rparr>, True)
         else (g\<lparr>cup := putfigure (gx g) (gy g) (fig g) c\<rparr>, False))"

definition rotfig :: "bool \<Rightarrow> game \<Rightarrow> game" where
  "rotfig dir g =
     (let newF = rotatefigure dir (fig g);
          c = clearfigure (gx g) (gy g) (fig g) (cup g);
          F = (if chkfigure (gx g) (gy g) newF c then newF else fig g)
      in g\<lparr>cup := putfigure (gx g) (gy g) F c, fig := F\<rparr>)"

text \<open>\<open>rand()\<close> as a function on the state of the generator.\<close>

record 's rng =
  rand :: "'s \<Rightarrow> nat \<times> 's"

definition getrand :: "'s rng \<Rightarrow> int \<times> int \<Rightarrow> 's \<Rightarrow> nat \<times> (int \<times> int) \<times> 's" where
  "getrand R old s =
     (let (r0, s0) = rand R s; r = r0 mod 4;
          (r, s) = (if int r = snd old then (let (q, s') = rand R s0 in (q mod 4, s')) else (r, s0));
          (r, s) = (if int r = fst old then (let (q, s') = rand R s in (q mod 4, s')) else (r, s))
      in (r, (snd old, int r), s))"

definition figures :: "figure list" where
  "figures = [L, J, O4, I4]"

datatype keycode = KEY_NONE | KEY_L | KEY_R | KEY_U | KEY_D | KEY_Q | KEY_0 | KEY_ROTL | KEY_ROTR

text \<open>\<open>F = *next\<close> at the top, and the next figure drawn; \<open>False\<close> is \<open>goto gameover\<close>.\<close>

definition spawn :: "figure \<Rightarrow> game \<Rightarrow> game \<times> bool" where
  "spawn newnext g =
     (let g1 = g\<lparr>gx := xmax div 2, gy := ymax, fig := nxt g, nxt := newnext\<rparr> in
      if \<not> chkfigure (gx g1) (gy g1) (fig g1) (cup g1) then (g1, False)
      else (g1\<lparr>cup := putfigure (gx g1) (gy g1) (fig g1) (cup g1)\<rparr>, True))"

text \<open>
  One turn of the game loop. The figure drawn by \<open>getrand()\<close>, should one be needed, is the
  argument \<open>newnext\<close>; the result says whether the game goes on.
\<close>

definition game_step :: "figure \<Rightarrow> keycode \<Rightarrow> game \<Rightarrow> game \<times> bool" where
  "game_step newnext n g =
     (case n of
        KEY_0 \<Rightarrow>
          (let g1 = g\<lparr>cup := clearfigure (gx g) (gy g) (fig g) (cup g), gx := xmax div 2, gy := ymax\<rparr> in
           if \<not> chkfigure (gx g1) (gy g1) (fig g1) (cup g1) then (g1, False)
           else (g1\<lparr>cup := putfigure (gx g1) (gy g1) (fig g1) (cup g1)\<rparr>, True))
      | KEY_D \<Rightarrow>
          (case mvfig 0 (- 1) g of
             (g1, True) \<Rightarrow> (g1, True)
           | (g1, False) \<Rightarrow> spawn newnext (g1\<lparr>cup := fst (checkandroll (cup g1))\<rparr>))
      | KEY_U \<Rightarrow> (fst (mvfig 0 1 g), True)
      | KEY_L \<Rightarrow> (fst (mvfig (- 1) 0 g), True)
      | KEY_R \<Rightarrow> (fst (mvfig 1 0 g), True)
      | KEY_ROTL \<Rightarrow> (rotfig False g, True)
      | KEY_ROTR \<Rightarrow> (rotfig True g, True)
      | KEY_Q \<Rightarrow> (g, False)
      | KEY_NONE \<Rightarrow> (g, True))"

definition empty_cup :: cup where
  "empty_cup = replicate ROWS (replicate COLS 0)"

definition new_game :: "figure \<Rightarrow> game" where
  "new_game next =
     \<lparr>cup = putfigure (xmax div 2) ymax L empty_cup, gx = xmax div 2, gy = ymax, fig = L, nxt = next\<rparr>"

text \<open>\<open>main()\<close> on a sequence of keys, until the game is over or the keys end.\<close>

fun play :: "'s rng \<Rightarrow> keycode list \<Rightarrow> (int \<times> int) \<Rightarrow> 's \<Rightarrow> game \<Rightarrow> game" where
  "play R [] old s g = g"
| "play R (k # ks) old s g =
     (let new_figure = (k = KEY_D \<and> \<not> snd (mvfig 0 (- 1) g));
          (r, old1, s1) = (if new_figure then getrand R old s else (0, old, s))
      in case game_step (figures ! r) k g of
           (g1, True) \<Rightarrow> play R ks old1 s1 g1
         | (g1, False) \<Rightarrow> g1)"

definition tetris :: "'s rng \<Rightarrow> 's \<Rightarrow> keycode list \<Rightarrow> game" where
  "tetris R s keys =
     (case getrand R (- 1, - 1) s of (r, old, s1) \<Rightarrow> play R keys old s1 (new_game (figures ! r)))"

section \<open>Cells\<close>

definition wf_cup :: "cup \<Rightarrow> bool" where
  "wf_cup c \<longleftrightarrow> length c = ROWS \<and> list_all (\<lambda>r. length r = COLS) c"

lemma wf_cup_nth: "wf_cup c \<Longrightarrow> y < ROWS \<Longrightarrow> length (c ! y) = COLS"
  by (simp add: wf_cup_def list_all_length)

lemma set_cell_wf: "wf_cup c \<Longrightarrow> set_cell v x y c = (if in_cup x y then c[nat y := (c ! nat y)[nat x := v]] else c)"
  using wf_cup_nth [of c "nat y"] by (auto simp: set_cell_def store_cell_def in_cup_def wf_cup_def)

lemma wf_set_cell [simp]: "wf_cup c \<Longrightarrow> wf_cup (set_cell v x y c)"
  by (simp add: set_cell_wf) (auto simp: wf_cup_def list_all_length nth_list_update in_cup_def)

lemma cell_set_cell:
  assumes "wf_cup c" "in_cup a b"
  shows "cell (set_cell v x y c) a b = (if (x, y) = (a, b) then v else cell c a b)"
proof (cases "in_cup x y")
  case True
  then have b: "nat y < length c" "nat x < length (c ! nat y)" "0 \<le> x" "0 \<le> y" "0 \<le> a" "0 \<le> b"
    using assms wf_cup_nth [OF assms(1), of "nat y"] by (auto simp: in_cup_def wf_cup_def)
  then show ?thesis using True by (auto simp: cell_def set_cell_wf [OF assms(1)] nth_list_update nat_eq_iff2)
next
  case False
  then show ?thesis using assms by (auto simp: set_cell_def)
qed

lemma cup_eqI:
  assumes "wf_cup c" "wf_cup d" "\<And>x y. in_cup x y \<Longrightarrow> cell c x y = cell d x y"
  shows "c = d"
proof (rule nth_equalityI)
  show "length c = length d" using assms by (simp add: wf_cup_def)
  fix i assume i: "i < length c"
  then have i30: "i < ROWS" using assms(1) by (simp add: wf_cup_def)
  show "c ! i = d ! i"
  proof (rule nth_equalityI)
    show "length (c ! i) = length (d ! i)" using wf_cup_nth i30 assms by simp
    fix j assume "j < length (c ! i)"
    then have "in_cup (int j) (int i)" using wf_cup_nth [OF assms(1) i30] i30 by (simp add: in_cup_def)
    from assms(3) [OF this] show "c ! i ! j = d ! i ! j" by (simp add: cell_def)
  qed
qed

text \<open>The places a list of cells takes at \<open>(x, y)\<close>.\<close>

definition places :: "int \<Rightarrow> int \<Rightarrow> u8 list \<Rightarrow> (int \<times> int) set" where
  "places x y us = (\<lambda>u. (x + GETX u, y + GETY u)) ` set us"

lemma fold_set_cell:
  assumes "wf_cup c"
  shows "wf_cup (fold (\<lambda>u. set_cell v (x + GETX u) (y + GETY u)) us c) \<and>
    (in_cup a b \<longrightarrow> cell (fold (\<lambda>u. set_cell v (x + GETX u) (y + GETY u)) us c) a b =
      (if (a, b) \<in> places x y us then v else cell c a b))"
  using assms
proof (induction us arbitrary: c)
  case (Cons u us)
  have "wf_cup (set_cell v (x + GETX u) (y + GETY u) c)" using Cons.prems by simp
  from Cons.IH [OF this] show ?case
    using cell_set_cell [OF Cons.prems, of a b v "x + GETX u" "y + GETY u"] by (auto simp: places_def)
qed (simp add: places_def)

lemma wf_figure [simp]:
  "wf_cup c \<Longrightarrow> wf_cup (putfigure x y F c)" "wf_cup c \<Longrightarrow> wf_cup (clearfigure x y F c)"
  by (simp_all add: putfigure_def clearfigure_def fold_set_cell)

lemma cell_putfigure:
  "wf_cup c \<Longrightarrow> in_cup a b \<Longrightarrow> cell (putfigure x y F c) a b = (if (a, b) \<in> places x y (f F) then color F else cell c a b)"
  by (simp add: putfigure_def fold_set_cell)

lemma cell_clearfigure:
  "wf_cup c \<Longrightarrow> in_cup a b \<Longrightarrow> cell (clearfigure x y F c) a b = (if (a, b) \<in> places x y (f F) then 0 else cell c a b)"
  by (simp add: clearfigure_def fold_set_cell)

lemma chkcells_iff:
  "chkcells c x y us \<longleftrightarrow> (\<forall>(a, b) \<in> places x y us. b > ymax \<or> in_cup a b \<and> cell c a b = 0)"
  by (induction us) (auto simp: places_def in_cup_def Let_def)

text \<open>Drawing a figure where there is room for it, and clearing it again.\<close>

lemma clear_put:
  assumes "wf_cup c" "chkfigure x y F c"
  shows "clearfigure x y F (putfigure x y F c) = c"
proof (rule cup_eqI)
  fix a b assume ab: "in_cup a b"
  have "(a, b) \<in> places x y (f F) \<Longrightarrow> cell c a b = 0"
    using assms(2) ab by (auto simp: chkfigure_def chkcells_iff in_cup_def split: if_splits)
  then show "cell (clearfigure x y F (putfigure x y F c)) a b = cell c a b"
    using assms(1) ab by (simp add: cell_clearfigure cell_putfigure)
qed (use assms in simp_all)

section \<open>Full lines are removed\<close>

lemma roll_effect:
  "yy \<le> u \<Longrightarrow> u < length c \<Longrightarrow>
     roll yy (int u) c = take yy c @ take (u - yy) (drop (yy + 1) c) @ drop u c"
proof (induction "u - yy" arbitrary: yy c)
  case 0
  then have "yy = u" by simp
  then show ?case by (subst roll.simps) simp
next
  case (Suc n)
  then have lt: "yy < u" by simp
  have step: "roll yy (int u) c = roll (yy + 1) (int u) (c[yy := c ! (yy + 1)])"
    using lt Suc.prems by (subst roll.simps) (simp add: copy_row_def)
  have "roll (yy + 1) (int u) (c[yy := c ! (yy + 1)]) =
      take (yy + 1) (c[yy := c ! (yy + 1)]) @ take (u - (yy + 1)) (drop (yy + 2) c) @ drop u c"
    using Suc lt by simp
  moreover have "take (yy + 1) (c[yy := c ! (yy + 1)]) = take yy c @ [c ! (yy + 1)]"
    using lt Suc.prems by (simp add: take_Suc_conv_app_nth)
  moreover have "drop (yy + 1) c = c ! (yy + 1) # drop (yy + 2) c"
    using lt Suc.prems by (simp add: Cons_nth_drop_Suc)
  moreover have "u - yy = Suc (u - (yy + 1))" using lt by simp
  ultimately show ?case by (simp add: step)
qed

definition full :: "u8 list \<Rightarrow> bool" where
  "full row = (count_cells row = COLS)"

definition bare :: "u8 list \<Rightarrow> bool" where
  "bare row = (count_cells row = 0)"

lemma roll_rows:
  assumes "y < u" "u < length c" "bare (c ! u)"
  shows "length (roll y (int u) c) = length c"
    "roll y (int u) c ! (u - 1) = c ! u"
    "take y (roll y (int u) c) = take y c"
    "filter (\<lambda>r. \<not> bare r) (drop y (roll y (int u) c)) = filter (\<lambda>r. \<not> bare r) (drop (y + 1) c)"
    "set (drop y (roll y (int u) c)) \<subseteq> set (drop (y + 1) c)"
proof -
  have r: "roll y (int u) c = take y c @ take (u - y) (drop (y + 1) c) @ drop u c"
    using assms by (intro roll_effect) auto
  have d: "drop u c = c ! u # drop (u + 1) c" using assms by (simp add: Cons_nth_drop_Suc)
  have s: "drop (y + 1) c = take (u - y) (drop (y + 1) c) @ drop (u + 1) c"
    using assms append_take_drop_id [of "u - y" "drop (y + 1) c"] by simp
  show "length (roll y (int u) c) = length c" using assms by (simp add: r)
  show "roll y (int u) c ! (u - 1) = c ! u"
  proof -
    have "\<not> u - 1 < y" "u - 1 - y < u - y" "y + 1 + (u - 1 - y) = u" using assms by auto
    then show ?thesis using assms by (simp add: r nth_append)
  qed
  show "take y (roll y (int u) c) = take y c" using assms by (simp add: r)
  have dy: "drop y (roll y (int u) c) = take (u - y) (drop (y + 1) c) @ c ! u # drop (u + 1) c"
    using assms d by (simp add: r)
  show "filter (\<lambda>r. \<not> bare r) (drop y (roll y (int u) c)) = filter (\<lambda>r. \<not> bare r) (drop (y + 1) c)"
    by (subst s) (simp add: dy assms(3))
  have "c ! u \<in> set (drop (y + 1) c)"
    using assms nth_mem [of "u - (y + 1)" "drop (y + 1) c"] by simp
  then show "set (drop y (roll y (int u) c)) \<subseteq> set (drop (y + 1) c)"
    unfolding dy using set_take_subset [of "u - y" "drop (y + 1) c"] set_drop_subset_set_drop [of "y + 1" "u + 1" c] assms(1)
    by auto
qed

lemma roll_loop_spec:
  "\<lbrakk>n \<le> u; u < length c; bare (c ! u); list_all (\<lambda>r. \<not> full r) (drop n c)\<rbrakk> \<Longrightarrow>
   case roll_loop n (int u) ret c of (c', ret') \<Rightarrow>
     length c' = length c \<and> set c' \<subseteq> set c \<and> list_all (\<lambda>r. \<not> full r) c' \<and>
     filter (\<lambda>r. \<not> bare r) c' =
       filter (\<lambda>r. \<not> bare r \<and> \<not> full r) (take n c) @ filter (\<lambda>r. \<not> bare r) (drop n c) \<and>
     ret' = (ret \<or> list_ex full (take n c))"
proof (induction n arbitrary: u ret c)
  case (Suc y)
  let ?row = "c ! y"
  have t: "take (Suc y) c = take y c @ [?row]" and d: "drop y c = ?row # drop (Suc y) c"
    using Suc.prems by (simp_all add: take_Suc_conv_app_nth Cons_nth_drop_Suc)
  consider "bare ?row" | "full ?row" | "\<not> bare ?row" "\<not> full ?row" by blast
  then show ?case
  proof cases
    case 1
    then have nf: "\<not> full ?row" by (simp add: bare_def full_def)
    have "roll_loop (Suc y) (int u) ret c = roll_loop y (int y) ret c"
      using 1 by (simp add: bare_def)
    then show ?thesis
      using Suc.IH [of y c ret] Suc.prems 1 nf by (simp add: t d split: prod.splits)
  next
    case 2
    let ?c = "roll y (int u) c"
    have yu: "y < u" "u < length c" "bare (c ! u)" using Suc.prems by simp_all
    note rr = roll_rows [OF yu]
    have "roll_loop (Suc y) (int u) ret c = roll_loop y (int (u - 1)) True ?c"
      using 2 yu by (simp add: full_def of_nat_diff Let_def)
    moreover have "list_all (\<lambda>r. \<not> full r) (drop y ?c)"
      using Suc.prems(4) rr(5) by (auto simp: list_all_iff)
    moreover have "\<not> bare ?row" using 2 by (simp add: bare_def full_def)
    moreover have "set ?c \<subseteq> set c"
    proof -
      have "set ?c = set (take y c) \<union> set (drop y ?c)"
        using arg_cong [OF append_take_drop_id [of y ?c], of set] rr(3) by (simp only: set_append)
      then show ?thesis using rr(5) set_take_subset [of y c] set_drop_subset [of "y + 1" c] by blast
    qed
    moreover have "case roll_loop y (int (u - 1)) True ?c of (c', ret') \<Rightarrow>
      length c' = length ?c \<and> set c' \<subseteq> set ?c \<and> list_all (\<lambda>r. \<not> full r) c' \<and>
      filter (\<lambda>r. \<not> bare r) c' =
        filter (\<lambda>r. \<not> bare r \<and> \<not> full r) (take y ?c) @ filter (\<lambda>r. \<not> bare r) (drop y ?c) \<and>
      ret' = (True \<or> list_ex full (take y ?c))"
      using yu rr(1,2) calculation(2) by (intro Suc.IH) auto
    ultimately show ?thesis
      using rr(1,3,4) 2 by (simp add: t case_prod_beta) blast
  next
    case 3
    then have "roll_loop (Suc y) (int u) ret c = roll_loop y (int u) ret c"
      by (simp add: bare_def full_def)
    then show ?thesis
      using Suc.IH [of u c ret] Suc.prems 3 by (simp add: t d split: prod.splits)
  qed
qed auto

lemma checkandroll_settled:
  assumes "wf_cup c" "bare (c ! 29)"
  shows "case checkandroll c of (c', ret) \<Rightarrow>
    length c' = length c \<and> set c' \<subseteq> set c \<and> list_all (\<lambda>r. \<not> full r) c' \<and>
    filter (\<lambda>r. \<not> bare r) c' = filter (\<lambda>r. \<not> bare r \<and> \<not> full r) c \<and>
    ret = list_ex full c"
proof -
  have len: "length c = Suc 29" using assms(1) by (simp add: wf_cup_def)
  then have c: "c = take 29 c @ [c ! 29]" by (metis lessI take_Suc_conv_app_nth take_all_iff order_refl)
  have nf: "\<not> full (c ! 29)" using assms(2) by (simp add: bare_def full_def)
  have "checkandroll c = roll_loop 29 (int 29) False c"
    using assms(2) unfolding checkandroll_def by (simp add: bare_def numeral_eq_Suc)
  moreover have "drop 29 c = [c ! 29]" using len Cons_nth_drop_Suc [of 29 c] by simp
  moreover have "filter P c = filter P (take 29 c) @ filter P [c ! 29]" for P
    by (subst c) (rule filter_append)
  moreover have "list_ex full c = list_ex full (take 29 c)"
    by (subst c) (simp add: nf)
  ultimately show ?thesis
    using roll_loop_spec [of 29 29 c False] len assms(2) nf by (simp add: case_prod_beta)
qed

text \<open>
  A full line in the topmost row is reported but not removed: the roll stops below \<open>upper\<close>, which
  starts at the top row.
\<close>

theorem checkandroll_top_row:
  assumes "wf_cup c" "full (c ! 29)"
  shows "fst (checkandroll c) ! 29 = c ! 29 \<and> snd (checkandroll c)"
proof -
  have roll: "roll yy u d ! 29 = d ! 29 \<and> length (roll yy u d) = length d" if "u \<le> 29" "length d = 30" for yy u d
    using that
  proof (induction yy u d rule: roll.induct)
    case (1 yy u d)
    then show ?case by (subst (1 2) roll.simps) (auto simp: copy_row_def)
  qed
  have loop: "fst (roll_loop n u ret d) ! 29 = d ! 29 \<and> (ret \<longrightarrow> snd (roll_loop n u ret d))"
    if "u \<le> 29" "n \<le> 30" "length d = 30" for n u ret d
    using that
  proof (induction n u ret d rule: roll_loop.induct)
    case (2 y u ret d)
    show ?case using 2 roll by (auto simp: Let_def)
  qed simp
  have "checkandroll c = roll_loop 29 28 True (roll 29 29 c)"
    using assms(2) by (simp add: checkandroll_def full_def numeral_eq_Suc Let_def)
  moreover have "roll 29 29 c = c" by (subst roll.simps) simp
  ultimately show ?thesis using loop [of 28 29 c True] assms(1) by (simp add: wf_cup_def)
qed

section \<open>Rotation\<close>

text \<open>Figures whose cells lie at most two steps from the centre.\<close>

definition small_cell :: "u8 \<Rightarrow> bool" where
  "small_cell u = (\<bar>GETX u\<bar> \<le> 2 \<and> \<bar>GETY u\<bar> \<le> 2)"

definition small_cells :: "u8 list" where
  "small_cells = filter small_cell (map of_nat [0..<256])"

lemma small_cells: "small_cell u \<Longrightarrow> u \<in> set small_cells"
  using unat_u8 [of u] by (auto simp: small_cells_def image_iff intro!: bexI [of _ "unat u"])

lemma rotate_cells_small:
  "list_all (\<lambda>u. small_cell (rotate_cell d u) \<and> rotate_cell (\<not> d) (rotate_cell d u) = u \<and>
     rotate_cell d (rotate_cell d (rotate_cell d (rotate_cell d u))) = u) small_cells"
  by (cases d) (simp_all only:, code_simp+)

lemma rotate_small:
  assumes "list_all small_cell (f F)"
  shows "list_all small_cell (f (rotatefigure d F)) \<and> rotatefigure (\<not> d) (rotatefigure d F) = F \<and>
    rotatefigure d (rotatefigure d (rotatefigure d (rotatefigure d F))) = F"
proof -
  have "small_cell (rotate_cell d u) \<and> rotate_cell (\<not> d) (rotate_cell d u) = u \<and>
     rotate_cell d (rotate_cell d (rotate_cell d (rotate_cell d u))) = u" if "u \<in> set (f F)" for u
    using rotate_cells_small [of d] small_cells that assms by (auto simp: list_all_iff)
  then show ?thesis by (auto simp: rotatefigure_def list_all_iff map_idI)
qed

section \<open>The settled board\<close>

text \<open>
  The specification: the cup holds only what has settled, and the falling figure is kept beside
  it. A move is a test and an assignment.
\<close>

definition fits_at :: "game \<Rightarrow> bool" where
  "fits_at a = chkfigure (gx a) (gy a) (fig a) (cup a)"

definition legal :: "game \<Rightarrow> bool" where
  "legal a \<longleftrightarrow> wf_cup (cup a) \<and> fits_at a"

definition drawn :: "game \<Rightarrow> game" where
  "drawn a = a\<lparr>cup := putfigure (gx a) (gy a) (fig a) (cup a)\<rparr>"

definition try_to :: "(game \<Rightarrow> game) \<Rightarrow> game \<Rightarrow> game" where
  "try_to change a = (if fits_at (change a) then change a else a)"

definition spec_step :: "figure \<Rightarrow> keycode \<Rightarrow> game \<Rightarrow> game \<times> bool" where
  "spec_step newnext n a =
     (case n of
        KEY_0 \<Rightarrow> (let a1 = a\<lparr>gx := 7, gy := 29\<rparr> in (a1, fits_at a1))
      | KEY_D \<Rightarrow>
          (let a1 = a\<lparr>gy := gy a - 1\<rparr>;
               a2 = a\<lparr>cup := fst (checkandroll (cup (drawn a))), gx := 7, gy := 29, fig := nxt a, nxt := newnext\<rparr>
           in if fits_at a1 then (a1, True) else (a2, fits_at a2))
      | KEY_U \<Rightarrow> (try_to (\<lambda>a. a\<lparr>gy := gy a + 1\<rparr>) a, True)
      | KEY_L \<Rightarrow> (try_to (\<lambda>a. a\<lparr>gx := gx a - 1\<rparr>) a, True)
      | KEY_R \<Rightarrow> (try_to (\<lambda>a. a\<lparr>gx := gx a + 1\<rparr>) a, True)
      | KEY_ROTL \<Rightarrow> (try_to (\<lambda>a. a\<lparr>fig := rotatefigure False (fig a)\<rparr>) a, True)
      | KEY_ROTR \<Rightarrow> (try_to (\<lambda>a. a\<lparr>fig := rotatefigure True (fig a)\<rparr>) a, True)
      | KEY_Q \<Rightarrow> (a, False)
      | KEY_NONE \<Rightarrow> (a, True))"

lemma clear_drawn: "legal a \<Longrightarrow> clearfigure (gx a) (gy a) (fig a) (cup (drawn a)) = cup a"
  by (simp add: legal_def fits_at_def drawn_def clear_put)

lemma drawn_simps [simp]: "gx (drawn a) = gx a" "gy (drawn a) = gy a" "fig (drawn a) = fig a" "nxt (drawn a) = nxt a"
  by (simp_all add: drawn_def)

lemma drawn_update [simp]: "(drawn a)\<lparr>cup := c\<rparr> = a\<lparr>cup := c\<rparr>"
  by (simp add: drawn_def)

lemma mvfig_drawn:
  assumes "legal a"
  shows "mvfig dx dy (drawn a) =
    (let a1 = a\<lparr>gx := gx a + dx, gy := gy a + dy\<rparr> in if fits_at a1 then (drawn a1, True) else (drawn a, False))"
  using assms by (simp add: mvfig_def clear_drawn Let_def fits_at_def) (simp add: drawn_def)

lemma rotfig_drawn:
  assumes "legal a"
  shows "rotfig d (drawn a) = drawn (try_to (\<lambda>a. a\<lparr>fig := rotatefigure d (fig a)\<rparr>) a)"
  using assms by (simp add: rotfig_def clear_drawn Let_def fits_at_def try_to_def) (simp add: drawn_def)

lemma roll_wf: "u < int (length c) \<Longrightarrow> length (roll yy u c) = length c \<and> (int yy \<le> u \<longrightarrow> set (roll yy u c) \<subseteq> set c)"
proof (induction yy u c rule: roll.induct)
  case (1 yy u c)
  show ?case
  proof (cases "int yy < u")
    case True
    have c: "copy_row yy c = c[yy := c ! (yy + 1)]" using True "1.prems" by (simp add: copy_row_def)
    have s: "roll yy u c = roll (yy + 1) u (c[yy := c ! (yy + 1)])" using True by (subst roll.simps) (simp add: c)
    have "set (c[yy := c ! (yy + 1)]) \<subseteq> set c"
      using set_update_subset_insert [of c yy "c ! (yy + 1)"] nth_mem [of "yy + 1" c] "1.prems" True by auto
    then show ?thesis using "1.IH" [OF True] "1.prems" True by (simp add: s c) (meson subset_trans)
  qed (simp add: roll.simps)
qed

lemma roll_loop_rows:
  "u < int (length c) \<Longrightarrow> n \<le> length c \<Longrightarrow>
     length (fst (roll_loop n u ret c)) = length c \<and> set (fst (roll_loop n u ret c)) \<subseteq> set c"
proof (induction n u ret c rule: roll_loop.induct)
  case (2 y u ret c)
  define v where "v = (if count_cells (c ! y) = 0 then int y else u)"
  have v: "v < int (length c)" using 2 by (simp add: v_def)
  have r: "length (roll y v c) = length c" "set (roll y v c) \<subseteq> set c"
    using roll_wf [of v c y] v by (cases "int y \<le> v"; simp add: roll.simps [of y v])+
  have "roll_loop (Suc y) u ret c =
      (if count_cells (c ! y) = COLS then roll_loop y (v - 1) True (roll y v c) else roll_loop y v ret c)"
    by (simp add: v_def Let_def)
  then show ?case
    using "2.IH"(1) [OF refl v_def] "2.IH"(2) [OF refl v_def] r v "2.prems" by auto
qed simp

lemma wf_checkandroll: "wf_cup c \<Longrightarrow> wf_cup (fst (checkandroll c))"
  using roll_loop_rows [of ymax c ROWS False] by (auto simp: wf_cup_def checkandroll_def list_all_iff)

text \<open>
  C1. The game that clears and redraws the figure in the cup plays the game in which the settled
  board and the figure are kept apart: from a drawn legal position every key leads to the drawn
  position the specification reaches, which is legal again, or ends the game when it does.
\<close>

theorem game_refines_spec:
  assumes "legal a"
  shows "case spec_step newnext n a of
      (a', True) \<Rightarrow> legal a' \<and> game_step newnext n (drawn a) = (drawn a', True)
    | (a', False) \<Rightarrow> \<not> snd (game_step newnext n (drawn a))"
proof -
  have wf: "wf_cup (cup a)" using assms by (simp add: legal_def)
  have wf2: "wf_cup (fst (checkandroll (cup (drawn a))))"
    using wf by (intro wf_checkandroll) (simp add: drawn_def)
  have t: "legal (try_to (\<lambda>a. a\<lparr>gy := gy a + 1\<rparr>) a)" "legal (try_to (\<lambda>a. a\<lparr>gx := gx a + d\<rparr>) a)"
      "legal (try_to (\<lambda>a. a\<lparr>gx := gx a - d\<rparr>) a)" "legal (try_to (\<lambda>a. a\<lparr>fig := rotatefigure r (fig a)\<rparr>) a)" for d r
    using assms by (simp_all add: try_to_def legal_def)
  show ?thesis
  proof (cases n)
    case KEY_D
    show ?thesis
    proof (cases "fits_at (a\<lparr>gy := gy a - 1\<rparr>)")
      case True
      then show ?thesis using KEY_D wf mvfig_drawn [OF assms, of 0 "- 1"]
        by (simp add: spec_step_def game_step_def legal_def Let_def)
    next
      case False
      then show ?thesis using KEY_D wf2 mvfig_drawn [OF assms, of 0 "- 1"]
        by (simp add: spec_step_def game_step_def legal_def Let_def spawn_def fits_at_def)
          (simp add: drawn_def)
    qed
  next
    case KEY_0
    then show ?thesis using wf clear_drawn [OF assms]
      by (simp add: spec_step_def game_step_def legal_def Let_def fits_at_def) (simp add: drawn_def)
  qed (use t assms mvfig_drawn [OF assms] rotfig_drawn [OF assms] in
      \<open>auto simp: spec_step_def game_step_def try_to_def Let_def\<close>)
qed

text \<open>
  With the top row empty \<open>checkandroll\<close> removes exactly the full lines: the other occupied rows stay
  in their order, no full row is left, and the result tells whether there was one.
\<close>

theorem checkandroll_removes_full:
  assumes "wf_cup c" "bare (c ! 29)"
  shows "case checkandroll c of (c', ret) \<Rightarrow>
    wf_cup c' \<and> list_all (\<lambda>r. \<not> full r) c' \<and>
    filter (\<lambda>r. \<not> bare r) c' = filter (\<lambda>r. \<not> bare r \<and> \<not> full r) c \<and>
    ret = list_ex full c"
  using checkandroll_settled [OF assms] wf_checkandroll [OF assms(1)] by (auto split: prod.splits)

definition demo_cup :: cup where
  "demo_cup = [replicate COLS 1, 2 # replicate 14 0, replicate COLS 3, 4 # replicate 14 0] @ replicate 26 (replicate COLS 0)"

theorem checkandroll_removes_full_witness:
  "wf_cup demo_cup \<and> bare (demo_cup ! 29) \<and>
   filter (\<lambda>r. \<not> bare r) (fst (checkandroll demo_cup)) = [2 # replicate 14 0, 4 # replicate 14 0] \<and>
   snd (checkandroll demo_cup)"
proof -
  have w: "wf_cup demo_cup" "bare (demo_cup ! 29)" by code_simp+
  have "filter (\<lambda>r. \<not> bare r \<and> \<not> full r) demo_cup = [2 # replicate 14 0, 4 # replicate 14 0]" "list_ex full demo_cup"
    by code_simp+
  then show ?thesis using checkandroll_removes_full [OF w] w by (auto split: prod.splits)
qed

theorem checkandroll_top_row_witness:
  "wf_cup (rev demo_cup) \<and> full (rev demo_cup ! 29) \<and> fst (checkandroll (rev demo_cup)) ! 29 = replicate COLS 1"
proof -
  have w: "wf_cup (rev demo_cup)" "full (rev demo_cup ! 29)" by code_simp+
  have "rev demo_cup ! 29 = replicate COLS 1" by code_simp
  then show ?thesis using checkandroll_top_row [OF w] w by simp
qed

text \<open>
  On figures of the game's size the two rotations undo each other and four of one kind are none;
  the packed coordinates stay in range.
\<close>

theorem rotate_group:
  assumes "list_all small_cell (f F)"
  shows "list_all small_cell (f (rotatefigure d F)) \<and> rotatefigure (\<not> d) (rotatefigure d F) = F \<and>
    rotatefigure d (rotatefigure d (rotatefigure d (rotatefigure d F))) = F"
  by (rule rotate_small [OF assms])

theorem rotate_group_witness:
  "list_all small_cell (f L) \<and> rotatefigure True (rotatefigure False L) = L \<and> rotatefigure False L \<noteq> L"
proof -
  have s: "list_all small_cell (f L)" by code_simp
  have "rotatefigure False L \<noteq> L" by code_simp
  then show ?thesis using rotate_group [OF s, of False] s by simp
qed

definition demo_game :: game where
  "demo_game = \<lparr>cup = empty_cup, gx = 7, gy = 29, fig = L, nxt = J\<rparr>"

lemma new_game_drawn: "new_game n = drawn (demo_game\<lparr>nxt := n\<rparr>)" "legal (demo_game\<lparr>nxt := n\<rparr>)"
proof -
  show "new_game n = drawn (demo_game\<lparr>nxt := n\<rparr>)" by (simp add: new_game_def drawn_def demo_game_def)
  have "wf_cup empty_cup" "chkfigure 7 29 L empty_cup" by code_simp+
  then show "legal (demo_game\<lparr>nxt := n\<rparr>)" by (simp add: legal_def fits_at_def demo_game_def)
qed

theorem game_refines_spec_witness:
  "legal demo_game \<and> game_step I4 KEY_L (drawn demo_game) = (drawn (demo_game\<lparr>gx := 6\<rparr>), True)"
proof -
  have l: "legal demo_game" using new_game_drawn(2) [of J] by (simp add: demo_game_def)
  have "fits_at (demo_game\<lparr>gx := 6\<rparr>)" by code_simp
  then have "spec_step I4 KEY_L demo_game = (demo_game\<lparr>gx := 6\<rparr>, True)"
    by (simp add: spec_step_def try_to_def demo_game_def)
  then show ?thesis using game_refines_spec [OF l, of I4 KEY_L] l by simp
qed

lemma wf_game_step: "wf_cup (cup g) \<Longrightarrow> wf_cup (cup (fst (game_step nn k g)))"
  by (cases k) (auto simp: game_step_def mvfig_def rotfig_def spawn_def Let_def wf_checkandroll split: prod.splits)

lemma wf_play: "wf_cup (cup g) \<Longrightarrow> wf_cup (cup (play R ks old s g))"
proof (induction R ks old s g rule: play.induct)
  case (2 R k ks old s g)
  obtain r old1 s1 where r: "(if k = KEY_D \<and> \<not> snd (mvfig 0 (- 1) g) then getrand R old s else (0, old, s)) = (r, old1, s1)"
    by (metis prod_cases3)
  obtain g1 go where st: "game_step (figures ! r) k g = (g1, go)" by (cases "game_step (figures ! r) k g")
  have "wf_cup (cup g1)" using wf_game_step [OF "2.prems", of "figures ! r" k] st by simp
  then show ?case using 2 r st by (cases go) (auto simp: Let_def)
qed simp

text \<open>
  C39. Whatever keys are pressed and whatever figures are drawn, no store of the game is outside of the array: the cup
  is always one of 30 rows of 15 cells.
\<close>

theorem tetris_cup_shape: "wf_cup (cup (tetris R s keys))"
proof -
  have "wf_cup (cup (new_game n))" for n
    using new_game_drawn [of n] by (simp add: legal_def drawn_def)
  then show ?thesis by (simp add: tetris_def wf_play split: prod.splits)
qed

end
