(* ===== verification/HeapQueue.thy ===== *)
theory HeapQueue
  imports CPrelude "HOL-Library.Monad_Syntax"
begin

text \<open>
  Linked lists on a heap: the message queue of \<open>thread_array_management/test.c\<close>
  (\<open>pushmessage\<close>, \<open>popmessage\<close>) and the buffer of \<open>_deprecated/fifo_lifo.c\<close> (\<open>push_tail\<close>, \<open>push\<close>,
  \<open>pop\<close>), whose nodes have the same shape: data, \<open>next\<close>, and \<open>last\<close>, which the head node uses to
  find the tail. Addresses are numbers handed out in order; a freed address is taken out of the
  heap and never used again, and an access to a NULL or freed address is the result \<open>None\<close>.
  \<open>MALLOC\<close> ends the program when there is no memory and is taken to succeed.
\<close>

section \<open>Heap\<close>

record 'd qnode =
  qdata :: 'd
  qnext :: "nat option"
  qlast :: "nat option"

record 'd qheap =
  cells :: "nat \<rightharpoonup> 'd qnode"
  brk :: nat

definition empty_heap :: "'d qheap" where
  "empty_heap = \<lparr>cells = Map.empty, brk = 0\<rparr>"

definition new_node :: "'d \<Rightarrow> 'd qheap \<Rightarrow> 'd qheap" where
  "new_node v h = h\<lparr>cells := (cells h)(brk h \<mapsto> \<lparr>qdata = v, qnext = None, qlast = None\<rparr>), brk := brk h + 1\<rparr>"

definition free_node :: "nat \<Rightarrow> 'd qheap \<Rightarrow> 'd qheap" where
  "free_node p h = h\<lparr>cells := (cells h)(p := None)\<rparr>"

text \<open>Stores through a pointer; \<open>None\<close> when it points nowhere.\<close>

definition set_next :: "nat \<Rightarrow> nat option \<Rightarrow> 'd qheap \<Rightarrow> 'd qheap option" where
  "set_next p q h = map_option (\<lambda>n. h\<lparr>cells := (cells h)(p \<mapsto> n\<lparr>qnext := q\<rparr>)\<rparr>) (cells h p)"

definition set_last :: "nat \<Rightarrow> nat option \<Rightarrow> 'd qheap \<Rightarrow> 'd qheap option" where
  "set_last p q h = map_option (\<lambda>n. h\<lparr>cells := (cells h)(p \<mapsto> n\<lparr>qlast := q\<rparr>)\<rparr>) (cells h p)"

type_synonym 'd qlist = "'d qheap \<times> nat option"

section \<open>Operations\<close>

text \<open>\<open>push_tail\<close>; the new heap, the new \<open>*lst\<close>, and the node returned.\<close>

definition push_tail :: "'d qlist \<Rightarrow> 'd \<Rightarrow> ('d qlist \<times> nat) option" where
  "push_tail q v = (case q of (h, lst) \<Rightarrow>
     (let node = brk h; h1 = new_node v h in
      case lst of
        None \<Rightarrow> do { h2 \<leftarrow> set_last node (Some node) h1; Some ((h2, Some node), node) }
      | Some r \<Rightarrow> do {
          rn \<leftarrow> cells h1 r;
          l \<leftarrow> qlast rn;
          h2 \<leftarrow> set_next l (Some node) h1;
          h3 \<leftarrow> set_last r (Some node) h2;
          Some ((h3, Some r), node) }))"

definition push :: "'d qlist \<Rightarrow> 'd \<Rightarrow> ('d qlist \<times> nat) option" where
  "push q v = (case q of (h, lst) \<Rightarrow>
     (let node = brk h; h1 = new_node v h in
      case lst of
        None \<Rightarrow> do { h2 \<leftarrow> set_last node (Some node) h1; Some ((h2, Some node), node) }
      | Some r \<Rightarrow> do {
          h2 \<leftarrow> set_next node (Some r) h1;
          rn \<leftarrow> cells h2 r;
          h3 \<leftarrow> set_last node (qlast rn) h2;
          Some ((h3, Some node), node) }))"

text \<open>\<open>pop\<close>; on an empty list it ends the program, the inner \<open>None\<close>.\<close>

definition pop :: "'d qlist \<Rightarrow> (('d qlist \<times> 'd) option) option" where
  "pop q = (case q of (h, lst) \<Rightarrow>
     (case lst of
        None \<Rightarrow> Some None
      | Some node \<Rightarrow> do {
          n \<leftarrow> cells h node;
          Some (Some ((free_node node h, qnext n), qdata n)) }))"

text \<open>\<open>pushmessage\<close>; \<open>dup\<close> tells whether \<open>strdup\<close> succeeds, and \<open>None\<close> in the result is its \<open>NULL\<close>.\<close>

definition pushmessage :: "bool \<Rightarrow> 'd qlist \<Rightarrow> 'd \<Rightarrow> ('d qlist \<times> nat option) option" where
  "pushmessage dup q v =
     (if \<not> dup then Some ((free_node (brk (fst q)) (new_node v (fst q)), snd q), None)
      else map_option (\<lambda>(q', node). (q', Some node)) (push_tail q v))"

definition popmessage :: "'d qlist \<Rightarrow> ('d qlist \<times> 'd option) option" where
  "popmessage q = (case q of (h, lst) \<Rightarrow>
     (case lst of
        None \<Rightarrow> Some (q, None)
      | Some node \<Rightarrow> do {
          n \<leftarrow> cells h node;
          h1 \<leftarrow> (case qnext n of None \<Rightarrow> Some h | Some s \<Rightarrow> set_last s (qlast n) h);
          Some ((free_node node h1, qnext n), Some (qdata n)) }))"

section \<open>Chains\<close>

text \<open>The nodes \<open>ps\<close>, linked by \<open>next\<close> from \<open>p\<close> to \<open>NULL\<close>, hold \<open>xs\<close>.\<close>

fun chain :: "'d qheap \<Rightarrow> nat option \<Rightarrow> nat list \<Rightarrow> 'd list \<Rightarrow> bool" where
  "chain h p [] xs = (p = None \<and> xs = [])"
| "chain h p (a # as) xs =
     (p = Some a \<and> (case cells h a of None \<Rightarrow> False | Some n \<Rightarrow>
        (case xs of [] \<Rightarrow> False | x # ys \<Rightarrow> qdata n = x \<and> chain h (qnext n) as ys)))"

definition addresses :: "'d qheap \<Rightarrow> nat list \<Rightarrow> bool" where
  "addresses h ps \<longleftrightarrow> distinct ps \<and> list_all (\<lambda>p. p < brk h) ps"

text \<open>A list with its tail pointer in the head node.\<close>

definition tailed :: "'d qlist \<Rightarrow> nat list \<Rightarrow> 'd list \<Rightarrow> bool" where
  "tailed q ps xs \<longleftrightarrow>
     chain (fst q) (snd q) ps xs \<and> addresses (fst q) ps \<and>
     (ps \<noteq> [] \<longrightarrow> map_option qlast (cells (fst q) (hd ps)) = Some (Some (last ps)))"

lemma chain_length: "chain h p ps xs \<Longrightarrow> length ps = length xs"
  by (induction ps arbitrary: p xs) (auto split: option.splits list.splits)

lemma chain_frame:
  "(\<And>a. a \<in> set ps \<Longrightarrow> map_option (\<lambda>n. (qdata n, qnext n)) (cells h' a) = map_option (\<lambda>n. (qdata n, qnext n)) (cells h a)) \<Longrightarrow>
     chain h' p ps xs = chain h p ps xs"
proof (induction ps arbitrary: p xs)
  case (Cons a ps)
  have "map_option (\<lambda>n. (qdata n, qnext n)) (cells h' a) = map_option (\<lambda>n. (qdata n, qnext n)) (cells h a)"
    using Cons.prems by simp
  then show ?case using Cons by (cases "cells h a"; cases "cells h' a"; cases xs) auto
qed simp

lemma chain_alive: "chain h p ps xs \<Longrightarrow> a \<in> set ps \<Longrightarrow> \<exists>n. cells h a = Some n"
  by (induction ps arbitrary: p xs) (auto split: option.splits list.splits)

text \<open>Appending a node by a store into the last one.\<close>

lemma chain_snoc:
  assumes "chain h p ps xs" "ps \<noteq> []" "distinct ps" "cells h b = Some m" "qnext m = None" "b \<notin> set ps"
  shows "\<exists>h'. set_next (last ps) (Some b) h = Some h' \<and> chain h' p (ps @ [b]) (xs @ [qdata m])"
  using assms
proof (induction ps arbitrary: p xs)
  case (Cons a ps)
  obtain n y ys where n: "p = Some a" "cells h a = Some n" "xs = y # ys" "qdata n = y" "chain h (qnext n) ps ys"
    using Cons.prems(1) by (auto split: option.splits list.splits)
  show ?case
  proof (cases ps)
    case Nil
    then show ?thesis using n Cons.prems by (auto simp: set_next_def)
  next
    case (Cons a2 ps2)
    then obtain h' where h': "set_next (last ps) (Some b) h = Some h'" "chain h' (qnext n) (ps @ [b]) (ys @ [qdata m])"
      using Cons.IH [OF n(5)] Cons.prems by auto
    have "last ps \<noteq> a" using Cons Cons.prems(3) by (metis distinct.simps(2) last_in_set list.distinct(1))
    then have "cells h' a = Some n" using h'(1) n(2) by (auto simp: set_next_def)
    then show ?thesis using Cons h' n by simp
  qed
qed simp

section \<open>The queue contract\<close>

text \<open>
  What a client of a queue relies on: \<open>enq\<close> and \<open>deq\<close> never fail on a queue that holds a list, and
  work at its two ends. A history of operations then answers as a list does.
\<close>

datatype 'd qop = Enq 'd | Deq

fun list_run :: "'d qop list \<Rightarrow> 'd list \<Rightarrow> 'd list \<times> 'd option list" where
  "list_run [] xs = (xs, [])"
| "list_run (Enq v # ops) xs = list_run ops (xs @ [v])"
| "list_run (Deq # ops) xs =
     (case xs of
        [] \<Rightarrow> (case list_run ops [] of (ys, out) \<Rightarrow> (ys, None # out))
      | x # xs' \<Rightarrow> (case list_run ops xs' of (ys, out) \<Rightarrow> (ys, Some x # out)))"

fun queue_run :: "('q \<Rightarrow> 'd \<Rightarrow> 'q option) \<Rightarrow> ('q \<Rightarrow> ('q \<times> 'd option) option) \<Rightarrow> 'd qop list \<Rightarrow> 'q
    \<Rightarrow> ('q \<times> 'd option list) option" where
  "queue_run enq deq [] q = Some (q, [])"
| "queue_run enq deq (Enq v # ops) q = do { q' \<leftarrow> enq q v; queue_run enq deq ops q' }"
| "queue_run enq deq (Deq # ops) q = do {
     (q', r) \<leftarrow> deq q;
     (q'', out) \<leftarrow> queue_run enq deq ops q';
     Some (q'', r # out) }"

locale fifo_queue =
  fixes enq :: "'q \<Rightarrow> 'd \<Rightarrow> 'q option"
    and deq :: "'q \<Rightarrow> ('q \<times> 'd option) option"
    and holds :: "'q \<Rightarrow> 'd list \<Rightarrow> bool"
  assumes enq_holds: "holds q xs \<Longrightarrow> \<exists>q'. enq q v = Some q' \<and> holds q' (xs @ [v])"
    and deq_empty: "holds q [] \<Longrightarrow> deq q = Some (q, None)"
    and deq_holds: "holds q (x # xs) \<Longrightarrow> \<exists>q'. deq q = Some (q', Some x) \<and> holds q' xs"
begin

lemma run_as_list:
  "holds q xs \<Longrightarrow> \<exists>q'. queue_run enq deq ops q = Some (q', snd (list_run ops xs)) \<and> holds q' (fst (list_run ops xs))"
proof (induction ops arbitrary: q xs)
  case (Cons op ops)
  show ?case
  proof (cases op)
    case (Enq v)
    obtain q1 where "enq q v = Some q1" "holds q1 (xs @ [v])" using enq_holds [OF Cons.prems] by blast
    then show ?thesis using Cons.IH Enq by simp
  next
    case Deq
    show ?thesis
    proof (cases xs)
      case Nil
      then have "deq q = Some (q, None)" using deq_empty Cons.prems by simp
      then show ?thesis using Cons.IH [of q xs] Cons.prems Nil Deq by (auto split: prod.splits)
    next
      case xs: (Cons x ys)
      then obtain q1 where q1: "deq q = Some (q1, Some x)" "holds q1 ys" using deq_holds Cons.prems by blast
      then show ?thesis using Cons.IH [OF q1(2)] xs Deq by (auto split: prod.splits)
    qed
  qed
qed simp

end

section \<open>The message queue\<close>

lemma addresses_new: "addresses h ps \<Longrightarrow> brk h \<notin> set ps"
  by (auto simp: addresses_def list_all_iff)

lemma tailed_empty: "tailed (h, None) [] []"
  by (simp add: tailed_def addresses_def)

lemma push_tail_tailed:
  assumes "tailed q ps xs"
  shows "\<exists>q'. push_tail q v = Some (q', brk (fst q)) \<and> tailed q' (ps @ [brk (fst q)]) (xs @ [v])"
proof -
  obtain h lst where q: "q = (h, lst)" by (cases q)
  let ?b = "brk h" and ?h1 = "new_node v h"
  have ch: "chain h lst ps xs" and ad: "addresses h ps" using assms by (simp_all add: tailed_def q)
  have new: "?b \<notin> set ps" by (rule addresses_new [OF ad])
  have ch1: "chain ?h1 lst ps xs" using ch new by (subst chain_frame [where h = h]) (auto simp: new_node_def)
  show ?thesis
  proof (cases ps)
    case Nil
    then show ?thesis using ch by (simp add: q push_tail_def new_node_def set_last_def tailed_def addresses_def Let_def)
  next
    case (Cons r rs)
    then have lst: "lst = Some r" and lr: "map_option qlast (cells h r) = Some (Some (last ps))"
      using ch assms by (auto simp: tailed_def q)
    obtain rn where rn: "cells ?h1 r = Some rn" "qlast rn = Some (last ps)"
      using lr new Cons by (auto simp: new_node_def)
    obtain h2 where h2: "set_next (last ps) (Some ?b) ?h1 = Some h2" "chain h2 lst (ps @ [?b]) (xs @ [v])"
      using chain_snoc [OF ch1, of ?b "\<lparr>qdata = v, qnext = None, qlast = None\<rparr>"] ad new Cons
      by (auto simp: new_node_def addresses_def)
    obtain rn2 where rn2: "cells h2 r = Some rn2" using h2(2) Cons by (auto split: option.splits)
    define h3 where "h3 = h2\<lparr>cells := (cells h2)(r \<mapsto> rn2\<lparr>qlast := Some ?b\<rparr>)\<rparr>"
    have s: "set_last r (Some ?b) h2 = Some h3" using rn2 by (simp add: set_last_def h3_def)
    have "push_tail q v = Some ((h3, Some r), ?b)"
      using rn h2(1) s by (simp add: q push_tail_def lst)
    moreover have "chain h3 lst (ps @ [?b]) (xs @ [v])"
      using h2(2) rn2 by (subst chain_frame [where h = h2]) (auto simp: h3_def)
    moreover have "brk h3 = ?b + 1" using h2(1) by (auto simp: h3_def set_next_def new_node_def)
    then have "addresses h3 (ps @ [?b])"
      using ad new by (auto simp: addresses_def list_all_iff less_Suc_eq)
    moreover have "map_option qlast (cells h3 (hd (ps @ [?b]))) = Some (Some (last (ps @ [?b])))"
      using Cons by (simp add: h3_def)
    ultimately show ?thesis
      by (intro exI [of _ "(h3, Some r)"]) (simp add: tailed_def q lst del: map_option_eq_Some)
  qed
qed

lemma popmessage_tailed:
  assumes "tailed q (a # ps) (x # xs)"
  shows "\<exists>q'. popmessage q = Some (q', Some x) \<and> tailed q' ps xs"
proof -
  obtain h lst where q: "q = (h, lst)" by (cases q)
  obtain n where n: "lst = Some a" "cells h a = Some n" "qdata n = x" "chain h (qnext n) ps xs" "qlast n = Some (last (a # ps))"
    using assms by (auto simp: tailed_def q split: option.splits)
  have ad: "a \<notin> set ps" "addresses h ps" using assms by (simp_all add: tailed_def q addresses_def)
  show ?thesis
  proof (cases ps)
    case Nil
    then show ?thesis using n by (auto simp: q popmessage_def free_node_def tailed_def addresses_def)
  next
    case (Cons b bs)
    obtain m where m: "qnext n = Some b" "cells h b = Some m" using n(4) Cons by (auto split: option.splits)
    define h1 where "h1 = h\<lparr>cells := (cells h)(b \<mapsto> m\<lparr>qlast := qlast n\<rparr>)\<rparr>"
    have ab: "a \<noteq> b" using ad Cons by auto
    have "popmessage q = Some ((free_node a h1, qnext n), Some x)"
      using n m by (simp add: q popmessage_def set_last_def h1_def)
    moreover have "chain (free_node a h1) (qnext n) ps xs"
      using n(4) m ad(1) by (subst chain_frame [where h = h]) (auto simp: free_node_def h1_def)
    moreover have "addresses (free_node a h1) ps" using ad(2) by (simp add: addresses_def free_node_def h1_def)
    moreover have "map_option qlast (cells (free_node a h1) (hd ps)) = Some (Some (last ps))"
      using Cons n(5) ab by (simp add: free_node_def h1_def)
    ultimately show ?thesis
      by (intro exI [of _ "(free_node a h1, qnext n)"]) (simp add: tailed_def del: map_option_eq_Some)
  qed
qed

definition holds_list :: "'d qlist \<Rightarrow> 'd list \<Rightarrow> bool" where
  "holds_list q xs \<longleftrightarrow> (\<exists>ps. tailed q ps xs)"

lemma tailed_Cons: "tailed q ps (x # xs) \<Longrightarrow> \<exists>a as. ps = a # as"
  by (cases ps) (auto simp: tailed_def)

interpretation msgq: fifo_queue "\<lambda>q v. map_option fst (pushmessage True q v)" popmessage holds_list
proof (unfold_locales, goal_cases)
  case (1 q xs v)
  then show ?case using push_tail_tailed by (fastforce simp: holds_list_def pushmessage_def)
next
  case (2 q)
  then have "snd q = None" using chain_length by (fastforce simp: holds_list_def tailed_def)
  then show ?case by (cases q) (simp add: popmessage_def)
next
  case (3 q x xs)
  then show ?case using popmessage_tailed tailed_Cons by (metis holds_list_def)
qed

text \<open>
  C2. Every history of \<open>pushmessage\<close> and \<open>popmessage\<close> on an empty queue runs without touching NULL or
  freed memory and returns the messages in the order they were pushed: the tail pointer kept in
  the head node survives every removal.
\<close>

theorem message_queue_fifo:
  "\<exists>q. queue_run (\<lambda>q v. map_option fst (pushmessage True q v)) popmessage ops (empty_heap, None) =
     Some (q, snd (list_run ops []))"
proof -
  have "holds_list (empty_heap, None) []" using tailed_empty by (auto simp: holds_list_def)
  from msgq.run_as_list [OF this] show ?thesis by blast
qed

section \<open>The buffer of fifo\_lifo.c\<close>

text \<open>Used as a stack, the buffer needs the chain only.\<close>

lemma push_chain:
  assumes "chain h lst ps xs" "addresses h ps"
  shows "\<exists>h'. push (h, lst) v = Some ((h', Some (brk h)), brk h) \<and>
    chain h' (Some (brk h)) (brk h # ps) (v # xs) \<and> addresses h' (brk h # ps)"
proof -
  have new: "brk h \<notin> set ps" by (rule addresses_new [OF assms(2)])
  show ?thesis
  proof (cases ps)
    case Nil
    then show ?thesis using assms by (simp add: push_def new_node_def set_last_def addresses_def Let_def)
  next
    case (Cons r rs)
    then obtain rn where r: "lst = Some r" "cells h r = Some rn" "r \<noteq> brk h"
      using assms(1) new by (auto split: option.splits)
    define h' where "h' = h\<lparr>cells := (cells h)(brk h \<mapsto> \<lparr>qdata = v, qnext = lst, qlast = qlast rn\<rparr>), brk := brk h + 1\<rparr>"
    have "push (h, lst) v = Some ((h', Some (brk h)), brk h)"
      using r by (simp add: push_def new_node_def set_last_def set_next_def h'_def Let_def)
    moreover have "chain h' lst ps xs" using assms(1) new by (subst chain_frame [where h = h]) (auto simp: h'_def)
    moreover have "addresses h' (brk h # ps)" using assms(2) new by (auto simp: addresses_def h'_def list_all_iff)
    ultimately show ?thesis by (intro exI [of _ h']) (simp add: h'_def)
  qed
qed

lemma pop_chain:
  assumes "chain h lst (a # ps) (x # xs)" "addresses h (a # ps)"
  shows "\<exists>h' lst'. pop (h, lst) = Some (Some ((h', lst'), x)) \<and> chain h' lst' ps xs \<and> addresses h' ps"
proof -
  obtain n where n: "lst = Some a" "cells h a = Some n" "qdata n = x" "chain h (qnext n) ps xs"
    using assms(1) by (auto split: option.splits)
  have "chain (free_node a h) (qnext n) ps xs"
    using n(4) assms(2) by (subst chain_frame [where h = h]) (auto simp: free_node_def addresses_def)
  then show ?thesis using n assms(2) by (simp add: pop_def free_node_def addresses_def)
qed

fun pop_all :: "nat \<Rightarrow> 'd qlist \<Rightarrow> 'd list option" where
  "pop_all 0 q = Some []"
| "pop_all (Suc n) q =
     (case pop q of Some (Some (q', x)) \<Rightarrow> map_option ((#) x) (pop_all n q') | _ \<Rightarrow> None)"

fun push_all :: "('d qlist \<Rightarrow> 'd \<Rightarrow> ('d qlist \<times> nat) option) \<Rightarrow> 'd list \<Rightarrow> 'd qlist \<Rightarrow> 'd qlist option" where
  "push_all p [] q = Some q"
| "push_all p (v # vs) q = do { (q', node) \<leftarrow> p q v; push_all p vs q' }"

lemma pop_all_chain: "chain h lst ps xs \<Longrightarrow> addresses h ps \<Longrightarrow> pop_all (length xs) (h, lst) = Some xs"
proof (induction xs arbitrary: h lst ps)
  case (Cons x xs)
  then obtain a as where "ps = a # as" by (cases ps) auto
  then show ?case using pop_chain [of h lst a as x xs] Cons by fastforce
qed simp

lemma push_all_chain:
  "chain h lst ps xs \<Longrightarrow> addresses h ps \<Longrightarrow>
     \<exists>h' lst' ps'. push_all push vs (h, lst) = Some (h', lst') \<and> chain h' lst' ps' (rev vs @ xs) \<and> addresses h' ps'"
proof (induction vs arbitrary: h lst ps xs)
  case (Cons v vs)
  obtain h1 where h1: "push (h, lst) v = Some ((h1, Some (brk h)), brk h)"
      "chain h1 (Some (brk h)) (brk h # ps) (v # xs)" "addresses h1 (brk h # ps)"
    using push_chain [OF Cons.prems, of v] by blast
  from Cons.IH [OF h1(2,3)] show ?case using h1(1) by simp
qed auto

lemma push_tail_all_tailed: "tailed q ps xs \<Longrightarrow> \<exists>q' ps'. push_all push_tail vs q = Some q' \<and> tailed q' ps' (xs @ vs)"
proof (induction vs arbitrary: q ps xs)
  case (Cons v vs)
  obtain q1 where q1: "push_tail q v = Some (q1, brk (fst q))" "tailed q1 (ps @ [brk (fst q)]) (xs @ [v])"
    using push_tail_tailed [OF Cons.prems] by blast
  then show ?case using Cons.IH [OF q1(2)] by simp
qed auto

text \<open>
  Filled with \<open>push\<close> the buffer returns its elements in reverse order, filled with \<open>push_tail\<close> in
  order, when it is only emptied afterwards.
\<close>

theorem lifo_and_fifo:
  "(push_all push vs (empty_heap, None) \<bind> pop_all (length vs)) = Some (rev vs) \<and>
   (push_all push_tail vs (empty_heap, None) \<bind> pop_all (length vs)) = Some vs"
proof -
  have e: "chain empty_heap None [] []" "addresses empty_heap []" by (simp_all add: addresses_def)
  obtain h l ps where p: "push_all push vs (empty_heap, None) = Some (h, l)" "chain h l ps (rev vs @ [])" "addresses h ps"
    using push_all_chain [OF e] by blast
  obtain q ps' where t: "push_all push_tail vs (empty_heap, None) = Some q" "tailed q ps' ([] @ vs)"
    using push_tail_all_tailed [OF tailed_empty] by blast
  show ?thesis
    using p t pop_all_chain [OF p(2,3)] pop_all_chain [of "fst q" "snd q" ps' vs] by (simp add: tailed_def)
qed

text \<open>After \<open>push_tail\<close> only the head node knows the tail.\<close>

definition head_only :: "'d qlist \<Rightarrow> nat list \<Rightarrow> bool" where
  "head_only q ps \<longleftrightarrow> list_all (\<lambda>p. map_option qlast (cells (fst q) p) = Some None) (tl ps)"

lemma set_next_qlast: "set_next p t h = Some h' \<Longrightarrow> map_option qlast (cells h' a) = map_option qlast (cells h a)"
  by (auto simp: set_next_def)

lemma set_last_other: "set_last p t h = Some h' \<Longrightarrow> a \<noteq> p \<Longrightarrow> cells h' a = cells h a"
  by (auto simp: set_last_def)

lemma push_tail_head_only:
  assumes t: "tailed q ps xs" and ho: "head_only q ps" and p: "push_tail q v = Some (q', b)"
  shows "head_only q' (ps @ [b])"
proof -
  obtain h lst where q: "q = (h, lst)" by (cases q)
  have b: "b = brk h" using push_tail_tailed [OF t, of v] p by (auto simp: q)
  have ad: "addresses h ps" using t by (simp add: tailed_def q)
  have new: "b \<notin> set ps" using addresses_new [OF ad] b by simp
  show ?thesis
  proof (cases ps)
    case (Cons r rs)
    then have "lst = Some r" using t by (simp add: tailed_def q)
    then obtain l h2 h3 where h: "set_next l (Some b) (new_node v h) = Some h2" "set_last r (Some b) h2 = Some h3" "fst q' = h3"
      using p by (auto simp: q push_tail_def b Let_def bind_eq_Some_conv)
    have "map_option qlast (cells h3 a) = Some None" if "a \<in> set (rs @ [b])" for a
    proof -
      have "map_option qlast (cells (new_node v h) a) = Some None"
      proof (cases "a = b")
        case False
        then have "map_option qlast (cells h a) = Some None"
          using ho that Cons by (simp add: head_only_def q list_all_iff)
        then show ?thesis using False b by (simp add: new_node_def)
      qed (simp add: new_node_def b)
      moreover have "a \<noteq> r" using that ad new Cons by (auto simp: addresses_def)
      ultimately show ?thesis using set_last_other [OF h(2), of a] set_next_qlast [OF h(1), of a] by simp
    qed
    then show ?thesis using Cons h(3) by (simp add: head_only_def list_all_iff)
  qed (simp add: head_only_def)
qed

lemma push_all_head_only:
  "tailed q ps xs \<Longrightarrow> head_only q ps \<Longrightarrow>
     \<exists>q' ps'. push_all push_tail vs q = Some q' \<and> tailed q' ps' (xs @ vs) \<and> head_only q' ps'"
proof (induction vs arbitrary: q ps xs)
  case (Cons v vs)
  obtain q1 where q1: "push_tail q v = Some (q1, brk (fst q))" "tailed q1 (ps @ [brk (fst q)]) (xs @ [v])"
    using push_tail_tailed [OF Cons.prems(1)] by blast
  then show ?case using Cons.IH [OF q1(2) push_tail_head_only [OF Cons.prems q1(1)]] by simp
qed auto

text \<open>
  A buffer filled with \<open>push_tail\<close> is broken by the first \<open>pop\<close> that leaves elements: the next
  \<open>push_tail\<close> follows the NULL \<open>last\<close> pointer of the new head, because \<open>pop\<close> does not hand the
  tail pointer on.
\<close>

theorem push_tail_after_pop:
  "\<exists>q q'. push_all push_tail (a # b # vs) (empty_heap, None) = Some q \<and>
     pop q = Some (Some (q', a)) \<and> push_tail q' v = None"
proof -
  obtain q ps where q: "push_all push_tail (a # b # vs) (empty_heap, None) = Some q"
      "tailed q ps (a # b # vs)" "head_only q ps"
    using push_all_head_only [OF tailed_empty, of empty_heap "a # b # vs"] by (auto simp: head_only_def)
  obtain r s ps' where ps: "ps = r # s # ps'"
    using chain_length [of "fst q" "snd q" ps "a # b # vs"] q(2)
    by (cases ps; cases "tl ps") (auto simp: tailed_def)
  obtain h lst where h: "q = (h, lst)" by (cases q)
  obtain n m where n: "lst = Some r" "cells h r = Some n" "qdata n = a" "qnext n = Some s" "cells h s = Some m"
    using q(2) by (auto simp: tailed_def ps h split: option.splits)
  have m: "qlast m = None" using q(3) n(5) by (simp add: head_only_def ps h)
  have ad: "s \<noteq> r" "s < brk h" using q(2) by (auto simp: tailed_def addresses_def ps h)
  have "pop q = Some (Some ((free_node r h, Some s), a))" using n by (simp add: pop_def h)
  moreover have "push_tail (free_node r h, Some s) v = None"
    using n(5) m ad by (simp add: push_tail_def new_node_def free_node_def Let_def)
  ultimately show ?thesis using q(1) by blast
qed

end
