(* ===== verification/ThreadArray.thy ===== *)
theory ThreadArray
  imports HeapQueue
begin

text \<open>
  The registry of named threads of \<open>thread_array_management/test.c\<close>: registration, removal, the
  two message queues of each thread with their mutexes, and the commands of \<open>procmesg\<close>. The list
  of threads is a list. A message queue is the list of its texts, which is what the heap structure
  of \<open>HeapQueue\<close> implements. A mutex that is left locked blocks every later call on it: such a
  call has the result \<open>None\<close>. \<open>dup\<close> tells whether \<open>strdup\<close> gets memory, \<open>created\<close> whether
  \<open>pthread_create\<close> succeeds.
\<close>

datatype msgidx = idxMOSI | idxMISO

record message =
  qtext :: "msgidx \<Rightarrow> string list"
  qlocked :: "msgidx \<Rightarrow> bool"

text \<open>Where the thread is in the loop of \<open>handler\<close>: about to poll, or to send its two replies.\<close>

datatype handler_pc = AtPoll | AtReceived | AtMore

record threadinfo =
  tname :: string
  mesg :: message
  tpc :: handler_pc

abbreviation THREADNAMEMAXLEN :: nat where "THREADNAMEMAXLEN \<equiv> 31"

section \<open>Messages\<close>

text \<open>\<open>mesgAddText\<close>: the text returned is that of the first message of the queue.\<close>

definition mesgAddText :: "bool \<Rightarrow> msgidx \<Rightarrow> message \<Rightarrow> string \<Rightarrow> (message \<times> string option) option" where
  "mesgAddText dup idx msg s =
     (if s = [] then Some (msg, None)
      else if qlocked msg idx then None
      else if \<not> dup then Some (msg\<lparr>qlocked := (qlocked msg)(idx := True)\<rparr>, None)
      else
        (let ts = qtext msg idx @ [s] in
         Some (msg\<lparr>qtext := (qtext msg)(idx := ts)\<rparr>, Some (hd ts))))"

definition mesgGetText :: "msgidx \<Rightarrow> message \<Rightarrow> (message \<times> string option) option" where
  "mesgGetText idx msg =
     (if qlocked msg idx then None
      else
        (case qtext msg idx of
           [] \<Rightarrow> Some (msg, None)
         | t # ts \<Rightarrow> Some (msg\<lparr>qtext := (qtext msg)(idx := ts)\<rparr>, Some t)))"

section \<open>The registry\<close>

definition findthread :: "threadinfo list \<Rightarrow> string \<Rightarrow> nat option" where
  "findthread ths nm =
     (if ths = [] then None
      else if length nm < 1 \<or> length nm > THREADNAMEMAXLEN then None
      else (case filter (\<lambda>i. tname (ths ! i) = nm) [0..<length ths] of [] \<Rightarrow> None | i # _ \<Rightarrow> Some i))"

text \<open>\<open>snprintf(ti->name, 31, "%s", name)\<close> keeps 30 characters.\<close>

definition new_thread :: "string \<Rightarrow> threadinfo" where
  "new_thread nm =
     \<lparr>tname = take 30 nm, mesg = \<lparr>qtext = (\<lambda>_. []), qlocked = (\<lambda>_. False)\<rparr>, tpc = AtPoll\<rparr>"

definition registerThread :: "bool \<Rightarrow> string \<Rightarrow> threadinfo list \<Rightarrow> threadinfo list \<times> bool" where
  "registerThread created nm ths =
     (if length nm < 1 then (ths, False)
      else if findthread ths nm \<noteq> None then (ths, False)
      else (ths @ [new_thread nm], created))"

text \<open>\<open>killThread\<close>: 0 when the thread was removed; it takes both mutexes of the thread.\<close>

fun kill_loop :: "string \<Rightarrow> threadinfo list \<Rightarrow> threadinfo list \<Rightarrow> (threadinfo list \<times> nat) option" where
  "kill_loop nm prev [] = Some (prev, 2)"
| "kill_loop nm prev (ti # rest) =
     (if tname ti \<noteq> nm then kill_loop nm (prev @ [ti]) rest
      else if qlocked (mesg ti) idxMOSI \<or> qlocked (mesg ti) idxMISO then None
      else Some (prev @ rest, 0))"

definition killThread :: "string \<Rightarrow> threadinfo list \<Rightarrow> (threadinfo list \<times> nat) option" where
  "killThread nm ths = (if ths = [] then Some (ths, 1) else kill_loop nm [] ths)"

section \<open>Commands\<close>

text \<open>The words \<open>strtok_r(s, " ")\<close> returns.\<close>

function strtok_words :: "string \<Rightarrow> string list" where
  "strtok_words s =
     (let s1 = dropWhile (\<lambda>c. c = SPACE) s in
      if s1 = [] then []
      else takeWhile (\<lambda>c. c \<noteq> SPACE) s1 # strtok_words (dropWhile (\<lambda>c. c \<noteq> SPACE) s1))"
  by pat_completeness auto
termination
proof (relation "measure length", goal_cases)
  case (2 s s1)
  obtain c r where c: "s1 = c # r" using 2(2) by (meson neq_Nil_conv)
  then have "c \<noteq> SPACE" using 2 by (metis (mono_tags) dropWhile_eq_Cons_conv)
  then have "length (dropWhile (\<lambda>c. c \<noteq> SPACE) s1) \<le> length r" by (simp add: c length_dropWhile_le)
  moreover have "length s1 \<le> length s" using 2 by (simp add: length_dropWhile_le)
  ultimately show ?case by (simp add: c)
qed simp

declare strtok_words.simps [simp del]

fun add_texts :: "bool \<Rightarrow> string list \<Rightarrow> message \<Rightarrow> message option" where
  "add_texts dup [] msg = Some msg"
| "add_texts dup (w # ws) msg = do { (msg', r) \<leftarrow> mesgAddText dup idxMOSI msg w; add_texts dup ws msg' }"

definition dividemessages :: "bool \<Rightarrow> message \<Rightarrow> string \<Rightarrow> message option" where
  "dividemessages dup msg longtext = add_texts dup (strtok_words longtext) msg"

definition send_to :: "bool \<Rightarrow> string \<Rightarrow> threadinfo \<Rightarrow> threadinfo option" where
  "send_to dup txt ti = map_option (\<lambda>m. ti\<lparr>mesg := m\<rparr>) (dividemessages dup (mesg ti) txt)"

fun broadcast :: "bool \<Rightarrow> string \<Rightarrow> threadinfo list \<Rightarrow> threadinfo list option" where
  "broadcast dup txt [] = Some []"
| "broadcast dup txt (ti # ths) = do {
     ti' \<leftarrow> send_to dup txt ti;
     ths' \<leftarrow> broadcast dup txt ths;
     Some (ti' # ths') }"

definition strcasecmp_eq :: "string \<Rightarrow> string \<Rightarrow> bool" where
  "strcasecmp_eq s t = (map tolower s = map tolower t)"

definition procmesg :: "bool \<Rightarrow> bool \<Rightarrow> string \<Rightarrow> threadinfo list \<Rightarrow> threadinfo list option" where
  "procmesg created dup txt ths =
     (case split_at SPACE txt of
        None \<Rightarrow> Some ths
      | Some (cmd, nxt) \<Rightarrow>
          if strcasecmp_eq cmd ''new'' then Some (fst (registerThread created nxt ths))
          else if strcasecmp_eq cmd ''del'' then map_option fst (killThread nxt ths)
          else if strcasecmp_eq cmd ''send'' then
            (case split_at SPACE nxt of
               None \<Rightarrow> Some ths
             | Some (who, data) \<Rightarrow>
                 if strcasecmp_eq who ''all'' then broadcast dup data ths
                 else
                   (case findthread ths who of
                      None \<Rightarrow> Some ths
                    | Some i \<Rightarrow> map_option (\<lambda>ti. ths[i := ti]) (send_to dup data (ths ! i))))
          else Some ths)"

text \<open>One step of the loop of \<open>handler\<close>.\<close>

definition handler_step :: "bool \<Rightarrow> threadinfo \<Rightarrow> threadinfo option" where
  "handler_step dup ti =
     (case tpc ti of
        AtPoll \<Rightarrow> do {
          (m, got) \<leftarrow> mesgGetText idxMOSI (mesg ti);
          Some (ti\<lparr>mesg := m, tpc := (if got = None then AtPoll else AtReceived)\<rparr>) }
      | AtReceived \<Rightarrow> do {
          (m, r) \<leftarrow> mesgAddText dup idxMISO (mesg ti) ''received'';
          Some (ti\<lparr>mesg := m, tpc := AtMore\<rparr>) }
      | AtMore \<Rightarrow> do {
          (m, r) \<leftarrow> mesgAddText dup idxMISO (mesg ti) ''need more'';
          Some (ti\<lparr>mesg := m, tpc := AtPoll\<rparr>) })"

text \<open>\<open>main()\<close> reading the replies of a thread until there is none.\<close>

function collect :: "threadinfo \<Rightarrow> (threadinfo \<times> string list) option" where
  "collect ti =
     (case mesgGetText idxMISO (mesg ti) of
        None \<Rightarrow> None
      | Some (m, None) \<Rightarrow> Some (ti\<lparr>mesg := m\<rparr>, [])
      | Some (m, Some t) \<Rightarrow> map_option (\<lambda>(ti', ts). (ti', t # ts)) (collect (ti\<lparr>mesg := m\<rparr>)))"
  by pat_completeness auto
termination
  by (relation "measure (\<lambda>ti. length (qtext (mesg ti) idxMISO))")
    (auto simp: mesgGetText_def split: if_splits list.splits)

declare collect.simps [simp del]

section \<open>Names\<close>

definition names_ok :: "threadinfo list \<Rightarrow> bool" where
  "names_ok ths \<longleftrightarrow> distinct (map tname ths) \<and> list_all (\<lambda>ti. tname ti \<noteq> [] \<and> length (tname ti) \<le> 30) ths"

lemma findthread_None:
  assumes "0 < length nm" "length nm \<le> 31"
  shows "findthread ths nm = None \<longleftrightarrow> nm \<notin> tname ` set ths"
proof -
  have "filter (\<lambda>i. tname (ths ! i) = nm) [0..<length ths] = [] \<longleftrightarrow> nm \<notin> tname ` set ths"
    by (simp add: filter_empty_conv image_iff Ball_def [symmetric] all_set_conv_all_nth) (metis atLeastLessThan_iff in_set_conv_nth le0)
  then show ?thesis using assms by (auto simp: findthread_def split: list.splits)
qed

lemma findthread_Some: "findthread ths nm = Some i \<Longrightarrow> i < length ths \<and> tname (ths ! i) = nm"
proof -
  assume "findthread ths nm = Some i"
  then obtain js where "filter (\<lambda>i. tname (ths ! i) = nm) [0..<length ths] = i # js"
    by (auto simp: findthread_def split: if_splits list.splits)
  then have "i \<in> set (filter (\<lambda>i. tname (ths ! i) = nm) [0..<length ths])" by simp
  then show ?thesis by simp
qed

lemma add_texts_result:
  "\<not> qlocked msg idxMOSI \<Longrightarrow> list_all (\<lambda>w. w \<noteq> []) ws \<Longrightarrow>
     add_texts True ws msg = Some (msg\<lparr>qtext := (qtext msg)(idxMOSI := qtext msg idxMOSI @ ws)\<rparr>)"
  by (induction ws arbitrary: msg) (simp_all add: mesgAddText_def Let_def)

lemma strtok_words_nonempty: "list_all (\<lambda>w. w \<noteq> []) (strtok_words s)"
proof (induction s rule: strtok_words.induct)
  case (1 s)
  let ?s = "dropWhile (\<lambda>c. c = SPACE) s"
  show ?case
  proof (cases "?s = []")
    case True
    then show ?thesis by (subst strtok_words.simps) simp
  next
    case False
    then have "takeWhile (\<lambda>c. c \<noteq> SPACE) ?s \<noteq> []" using hd_dropWhile [OF False] by (cases ?s) simp_all
    then show ?thesis using 1 [OF refl False] False by (subst strtok_words.simps) (simp add: Let_def)
  qed
qed

lemma send_to_name: "send_to dup txt ti = Some ti' \<Longrightarrow> tname ti' = tname ti"
  by (auto simp: send_to_def)

lemma broadcast_names: "broadcast dup txt ths = Some ths' \<Longrightarrow> map tname ths' = map tname ths"
  by (induction ths arbitrary: ths') (auto simp: bind_eq_Some_conv dest: send_to_name)

text \<open>The list without the first thread of a name.\<close>

fun without :: "string \<Rightarrow> threadinfo list \<Rightarrow> threadinfo list" where
  "without nm [] = []"
| "without nm (ti # ths) = (if tname ti = nm then ths else ti # without nm ths)"

lemma kill_loop_result:
  "kill_loop nm prev ths = Some (ths', r) \<Longrightarrow>
     ths' = prev @ without nm ths \<and> r = (if nm \<in> tname ` set ths then 0 else 2)"
  by (induction nm prev ths rule: kill_loop.induct) (auto split: if_splits)

lemma killThread_result: "killThread nm ths = Some (ths', r) \<Longrightarrow> ths' = without nm ths"
  using kill_loop_result [of nm "[]" ths ths' r] by (auto simp: killThread_def split: if_splits)

lemma names_ok_map:
  "names_ok ths \<longleftrightarrow> distinct (map tname ths) \<and> list_all (\<lambda>n. n \<noteq> [] \<and> length n \<le> 30) (map tname ths)"
  by (simp add: names_ok_def list.pred_map comp_def)

lemma names_ok_cong: "map tname ths' = map tname ths \<Longrightarrow> names_ok ths' = names_ok ths"
  by (simp only: names_ok_map)

lemma without_names: "map tname (without nm ths) = remove1 nm (map tname ths)"
  by (induction ths) auto

lemma without_names_ok: "names_ok ths \<Longrightarrow> names_ok (without nm ths)"
  using set_remove1_subset [of nm "map tname ths"]
  by (auto simp: names_ok_map without_names list_all_iff distinct_remove1 simp del: set_map)

lemma without_removes: "names_ok ths \<Longrightarrow> nm \<notin> tname ` set (without nm ths)"
  using arg_cong [OF without_names [of nm ths], of set] by (simp add: names_ok_def set_remove1_eq)

text \<open>
  C36. The names in the registry stay different, non-empty and at most 30 characters long under every command, but for
  exactly one: a \<open>new\<close> with a name of more than 30 characters, of which the first 30 are the name of a thread already
  there, adds a second thread of that name.
\<close>

theorem procmesg_names:
  assumes "names_ok ths" "procmesg created dup txt ths = Some ths'"
  shows "names_ok ths' \<longleftrightarrow>
    \<not> (\<exists>cmd nm. split_at SPACE txt = Some (cmd, nm) \<and> strcasecmp_eq cmd ''new'' \<and> 30 < length nm \<and> take 30 nm \<in> tname ` set ths)"
proof -
  have reg: "names_ok (fst (registerThread created nm ths)) \<longleftrightarrow> \<not> (30 < length nm \<and> take 30 nm \<in> tname ` set ths)" for nm
  proof (cases "30 < length nm")
    case True
    have "findthread ths nm = None"
    proof (cases "findthread ths nm")
      case (Some i)
      then show ?thesis using assms(1) findthread_Some [of ths nm i] True by (auto simp: names_ok_def list_all_length)
    qed
    then show ?thesis using assms(1) True by (auto simp: registerThread_def names_ok_def new_thread_def)
  next
    case False
    then show ?thesis using assms(1) findthread_None [of nm ths]
      by (auto simp: registerThread_def names_ok_def new_thread_def)
  qed
  have send: "names_ok (ths[i := ti])" if "i < length ths" "send_to dup s (ths ! i) = Some ti" for i s ti
    using that assms(1) send_to_name [OF that(2)]
    by (subst names_ok_cong [of _ ths]) (auto intro!: nth_equalityI simp: nth_list_update)
  show ?thesis
  proof (cases "split_at SPACE txt")
    case None
    then show ?thesis using assms by (simp add: procmesg_def)
  next
    case (Some p)
    then obtain cmd nxt where p: "split_at SPACE txt = Some (cmd, nxt)" by (cases p) simp
    consider "strcasecmp_eq cmd ''new''" | "strcasecmp_eq cmd ''del''" "\<not> strcasecmp_eq cmd ''new''"
      | "\<not> strcasecmp_eq cmd ''new''" "\<not> strcasecmp_eq cmd ''del''" by blast
    then show ?thesis
    proof cases
      case 1
      then show ?thesis using assms p reg [of nxt] by (simp add: procmesg_def)
    next
      case 2
      then show ?thesis using assms p without_names_ok [of ths nxt] killThread_result
        by (auto simp: procmesg_def)
    next
      case 3
      have "names_ok ths'" using assms p 3 names_ok_cong [OF broadcast_names] send findthread_Some
        by (auto simp: procmesg_def split: if_splits option.splits)
      then show ?thesis using p 3 by simp
    qed
  qed
qed

abbreviation demo_threads :: "threadinfo list" where
  "demo_threads \<equiv> [new_thread ''one'', new_thread ''two'']"

theorem procmesg_names_witness:
  "names_ok demo_threads \<and> procmesg True True ''NEW three'' demo_threads = Some (demo_threads @ [new_thread ''three'']) \<and>
   names_ok (demo_threads @ [new_thread ''three''])"
proof -
  have n: "names_ok demo_threads" by (simp add: names_ok_def new_thread_def)
  have t: "strcasecmp_eq ''NEW'' ''new''" by code_simp
  have p: "procmesg True True ''NEW three'' demo_threads = Some (demo_threads @ [new_thread ''three''])"
    using t by (simp add: procmesg_def registerThread_def findthread_def new_thread_def)
  have "split_at SPACE ''NEW three'' = Some (''NEW'', ''three'')" by code_simp
  then show ?thesis using n p procmesg_names [OF n p] by simp
qed

text \<open>
  A name of more than 30 characters is cut when it is stored and therefore never found again: it
  can be registered any number of times, each time with the same stored name.
\<close>

theorem registerThread_long_name:
  assumes "names_ok ths" "30 < length nm"
  shows "registerThread created nm ths = (ths @ [new_thread nm], created) \<and>
    registerThread created nm (ths @ [new_thread nm]) = (ths @ [new_thread nm, new_thread nm], created) \<and>
    findthread (ths @ [new_thread nm]) nm = None"
proof -
  have f: "findthread l nm = None" if "list_all (\<lambda>ti. length (tname ti) \<le> 30) l" for l
    using that assms(2) findthread_Some [of l nm] by (cases "findthread l nm") (auto simp: list_all_length)
  have l: "list_all (\<lambda>ti. length (tname ti) \<le> 30) ths" using assms(1) by (simp add: names_ok_def list_all_iff)
  then have "list_all (\<lambda>ti. length (tname ti) \<le> 30) (ths @ [new_thread nm])" by (simp add: new_thread_def)
  moreover have "\<not> length nm < 1" using assms(2) by linarith
  ultimately show ?thesis using f l by (simp add: registerThread_def)
qed

theorem registerThread_long_name_witness:
  "names_ok demo_threads \<and>
   map tname (fst (registerThread True (replicate 31 CHR ''x'') (demo_threads @ [new_thread (replicate 31 CHR ''x'')]))) =
     [''one'', ''two'', replicate 30 CHR ''x'', replicate 30 CHR ''x'']"
proof -
  have n: "names_ok demo_threads" by (simp add: names_ok_def new_thread_def)
  have l: "30 < length (replicate 31 CHR ''x'')" by simp
  show ?thesis using registerThread_long_name [OF n l, of True] n by (simp add: new_thread_def)
qed

lemma findthread_exists:
  "0 < length nm \<Longrightarrow> length nm \<le> 31 \<Longrightarrow> nm \<in> tname ` set ths \<Longrightarrow> \<exists>i. findthread ths nm = Some i"
  using findthread_None [of nm ths] by auto

text \<open>
  A \<open>send\<close> command puts the words of its text, in order, at the end of the queue of the thread it
  names, and changes nothing else.
\<close>

theorem send_delivers:
  assumes "names_ok ths" "i < length ths" "SPACE \<notin> set (tname (ths ! i))" "\<not> strcasecmp_eq (tname (ths ! i)) ''all''"
    and "\<not> qlocked (mesg (ths ! i)) idxMOSI"
  shows "procmesg created True (''send '' @ tname (ths ! i) @ [SPACE] @ data) ths =
    Some (ths[i := (ths ! i)\<lparr>mesg := (mesg (ths ! i))\<lparr>qtext := (qtext (mesg (ths ! i)))
      (idxMOSI := qtext (mesg (ths ! i)) idxMOSI @ strtok_words data)\<rparr>\<rparr>])"
proof -
  let ?nm = "tname (ths ! i)"
  have "?nm \<noteq> []" "length ?nm \<le> 30" using assms(1,2) by (simp_all add: names_ok_def list_all_length)
  then have nm: "0 < length ?nm" "length ?nm \<le> 31" "?nm \<in> tname ` set ths" using nth_mem [OF assms(2)] by auto
  obtain j where j: "findthread ths ?nm = Some j" using findthread_exists [OF nm] by blast
  then have "j < length ths" "tname (ths ! j) = ?nm" using findthread_Some by auto
  then have ji: "j = i" using assms(1,2) nth_eq_iff_index_eq [of "map tname ths" j i] by (simp add: names_ok_def)
  have s: "split_at SPACE (''send '' @ ?nm @ [SPACE] @ data) = Some (''send'', ?nm @ SPACE # data)" by simp
  have s2: "split_at SPACE (?nm @ SPACE # data) = Some (?nm, data)" using assms(3) by simp
  have c: "\<not> strcasecmp_eq ''send'' ''new''" "\<not> strcasecmp_eq ''send'' ''del''" "strcasecmp_eq ''send'' ''send''"
    by code_simp+
  have "send_to True data (ths ! i) = Some ((ths ! i)\<lparr>mesg := (mesg (ths ! i))\<lparr>qtext := (qtext (mesg (ths ! i)))
      (idxMOSI := qtext (mesg (ths ! i)) idxMOSI @ strtok_words data)\<rparr>\<rparr>)"
    using assms(5) by (simp add: send_to_def dividemessages_def add_texts_result strtok_words_nonempty)
  then show ?thesis unfolding procmesg_def s using c s2 j ji assms(4) by simp
qed

theorem send_delivers_witness:
  "names_ok demo_threads \<and>
   map_option (map (\<lambda>ti. qtext (mesg ti) idxMOSI)) (procmesg True True ''send two a  bc'' demo_threads) = Some [[], [''a'', ''bc'']]"
proof -
  have n: "names_ok demo_threads" by (simp add: names_ok_def new_thread_def)
  have h: "1 < length demo_threads" "SPACE \<notin> set (tname (demo_threads ! 1))" "\<not> qlocked (mesg (demo_threads ! 1)) idxMOSI"
    by (simp_all add: new_thread_def)
  have a: "\<not> strcasecmp_eq (tname (demo_threads ! 1)) ''all''" by code_simp
  have w: "strtok_words ''a  bc'' = [''a'', ''bc'']" by code_simp
  show ?thesis using send_delivers [OF n h(1,2) a h(3), of True "''a  bc''"] n w by (simp add: new_thread_def)
qed

text \<open>
  When \<open>strdup\<close> fails, \<open>mesgAddText\<close> returns without releasing the mutex, and every later call on
  that queue blocks.
\<close>

theorem failed_add_blocks:
  assumes "s \<noteq> []" "\<not> qlocked msg idx"
  shows "\<exists>msg'. mesgAddText False idx msg s = Some (msg', None) \<and> mesgGetText idx msg' = None \<and>
    (t = [] \<or> mesgAddText dup idx msg' t = None)"
  using assms by (auto simp: mesgAddText_def mesgGetText_def)

theorem failed_add_blocks_witness:
  "\<exists>msg'. mesgAddText False idxMOSI (mesg (new_thread ''one'')) ''a'' = Some (msg', None) \<and> mesgGetText idxMOSI msg' = None"
  using failed_add_blocks [of "''a''" "mesg (new_thread ''one'')" idxMOSI "[]" True] by (auto simp: new_thread_def)

lemma handler_one:
  assumes "tpc ti = AtPoll" "qtext (mesg ti) idxMOSI = w # ws" "\<not> qlocked (mesg ti) idxMOSI" "\<not> qlocked (mesg ti) idxMISO"
  shows "(handler_step True ti \<bind> handler_step True \<bind> handler_step True) =
    Some (ti\<lparr>mesg := (mesg ti)\<lparr>qtext := (qtext (mesg ti))
      (idxMOSI := ws, idxMISO := qtext (mesg ti) idxMISO @ [''received'', ''need more''])\<rparr>\<rparr>)"
  using assms by (simp add: handler_step_def mesgGetText_def mesgAddText_def Let_def fun_upd_twist)

fun handler_run :: "nat \<Rightarrow> threadinfo \<Rightarrow> threadinfo option" where
  "handler_run 0 ti = Some ti"
| "handler_run (Suc n) ti = do { ti' \<leftarrow> handler_step True ti; handler_run n ti' }"

text \<open>
  A thread's handler takes every waiting message in three steps each, returns to its poll, and
  leaves two replies per message behind the replies that were already there.
\<close>

theorem handler_answers:
  "tpc ti = AtPoll \<Longrightarrow> \<not> qlocked (mesg ti) idxMOSI \<Longrightarrow> \<not> qlocked (mesg ti) idxMISO \<Longrightarrow>
   \<exists>ti'. handler_run (3 * length (qtext (mesg ti) idxMOSI)) ti = Some ti' \<and> tpc ti' = AtPoll \<and>
     qtext (mesg ti') idxMOSI = [] \<and>
     qtext (mesg ti') idxMISO = qtext (mesg ti) idxMISO @
       concat (replicate (length (qtext (mesg ti) idxMOSI)) [''received'', ''need more''])"
proof (induction "qtext (mesg ti) idxMOSI" arbitrary: ti)
  case Nil
  then show ?case by simp
next
  case (Cons w ws)
  define ti3 where "ti3 = ti\<lparr>mesg := (mesg ti)\<lparr>qtext := (qtext (mesg ti))
      (idxMOSI := ws, idxMISO := qtext (mesg ti) idxMISO @ [''received'', ''need more''])\<rparr>\<rparr>"
  have "handler_run (3 + n) ti = handler_run n ti3" for n
    using handler_one [OF Cons.prems(1) Cons.hyps(2) [symmetric] Cons.prems(2,3)]
    by (auto simp: ti3_def numeral_3_eq_3 bind_eq_Some_conv)
  moreover have "3 * length (qtext (mesg ti) idxMOSI) = 3 + 3 * length ws"
    using Cons.hyps(2) [symmetric] by simp
  moreover have "\<exists>ti'. handler_run (3 * length ws) ti3 = Some ti' \<and> tpc ti' = AtPoll \<and> qtext (mesg ti') idxMOSI = [] \<and>
      qtext (mesg ti') idxMISO = qtext (mesg ti3) idxMISO @ concat (replicate (length ws) [''received'', ''need more''])"
    using Cons.hyps(1) [of ti3] Cons.prems by (simp add: ti3_def)
  ultimately show ?case using Cons.hyps(2) [symmetric] by (auto simp: ti3_def)
qed

theorem handler_answers_witness:
  "\<exists>ti'. handler_run 3 ((new_thread ''one'')\<lparr>mesg := \<lparr>qtext = (\<lambda>_. [])(idxMOSI := [''a'']), qlocked = (\<lambda>_. False)\<rparr>\<rparr>) = Some ti' \<and>
     qtext (mesg ti') idxMISO = [''received'', ''need more'']"
  using handler_answers [of "(new_thread ''one'')\<lparr>mesg := \<lparr>qtext = (\<lambda>_. [])(idxMOSI := [''a'']), qlocked = (\<lambda>_. False)\<rparr>\<rparr>"]
  by (auto simp: new_thread_def)

text \<open>
  The reading loop of \<open>main()\<close> ends, returns all replies of a thread in order and empties the queue.
\<close>

theorem collect_all:
  "\<not> qlocked (mesg ti) idxMISO \<Longrightarrow>
   collect ti = Some (ti\<lparr>mesg := (mesg ti)\<lparr>qtext := (qtext (mesg ti))(idxMISO := [])\<rparr>\<rparr>, qtext (mesg ti) idxMISO)"
proof (induction "qtext (mesg ti) idxMISO" arbitrary: ti)
  case Nil
  then show ?case by (subst collect.simps) (simp add: mesgGetText_def fun_upd_idem)
next
  case (Cons t ts)
  let ?ti = "ti\<lparr>mesg := (mesg ti)\<lparr>qtext := (qtext (mesg ti))(idxMISO := ts)\<rparr>\<rparr>"
  have "collect ?ti = Some (ti\<lparr>mesg := (mesg ti)\<lparr>qtext := (qtext (mesg ti))(idxMISO := [])\<rparr>\<rparr>, ts)"
    using Cons.hyps(1) [of ?ti] Cons.prems by simp
  then show ?case using Cons.prems Cons.hyps(2) [symmetric] by (subst collect.simps) (simp add: mesgGetText_def)
qed

theorem collect_all_witness:
  "map_option snd (collect ((new_thread ''one'')\<lparr>mesg := \<lparr>qtext = (\<lambda>_. [''x'', ''y'']), qlocked = (\<lambda>_. False)\<rparr>\<rparr>)) = Some [''x'', ''y'']"
  using collect_all [of "(new_thread ''one'')\<lparr>mesg := \<lparr>qtext = (\<lambda>_. [''x'', ''y'']), qlocked = (\<lambda>_. False)\<rparr>\<rparr>"] by simp

end
