(* ===== verification/Json.thy ===== *)
theory Json
  imports Numerals
begin

text \<open>
  The JSON reader of \<open>_deprecated/json/json.c\<close>. The parser works in place on a copy of the text
  and ends names and values by storing NUL bytes; here a pointer is the text it points to, up to
  the next NUL. Memory is taken to be available. \<open>strtod\<close> on the text of a number is not modelled.
\<close>

datatype json_type = json_type_object | json_type_obj_array | json_type_data_array
  | json_type_number | json_type_string

record json_pair =
  jname :: string
  jvalue :: string
  jtype :: json_type
  jlen :: int

section \<open>Scanning\<close>

definition is_blank :: "char \<Rightarrow> bool" where
  "is_blank c = (c = CR \<or> c = NL \<or> c = TAB \<or> c = SPACE)"

definition skipspaces :: "string \<Rightarrow> string" where
  "skipspaces s = dropWhile is_blank s"

text \<open>\<open>find_obj_end\<close>: the text before the closing brace and the text behind it.\<close>

fun find_end :: "int \<Rightarrow> string \<Rightarrow> (string \<times> string) option" where
  "find_end opening [] = None"
| "find_end opening (c # s) =
     (let op = (if c = CHR ''{'' then opening + 1 else if c = CHR ''}'' then opening - 1 else opening) in
      if op = - 1 then Some ([], s) else map_option (\<lambda>(a, b). (c # a, b)) (find_end op s))"

definition find_obj_end :: "string \<Rightarrow> (string \<times> string) option" where
  "find_obj_end s = find_end 0 s"

text \<open>The counters of \<open>count_objs\<close>.\<close>

record counts =
  a_closing :: int
  o_opening :: int
  commas :: int
  objects :: int
  valstart :: bool
  vals :: int

definition count_char :: "char \<Rightarrow> counts \<Rightarrow> counts" where
  "count_char c n =
     (if c = CHR ''{'' then n\<lparr>o_opening := o_opening n + 1, valstart := False\<rparr>
      else if c = CHR ''}'' then
        n\<lparr>o_opening := o_opening n - 1, objects := (if o_opening n - 1 = 0 then objects n + 1 else objects n)\<rparr>
      else if c = CHR ''['' then n\<lparr>a_closing := a_closing n - 1\<rparr>
      else if c = CHR '']'' then n\<lparr>a_closing := a_closing n + 1\<rparr>
      else if c = CHR '','' then
        (if o_opening n = 0 then n\<lparr>commas := commas n + 1, valstart := True\<rparr> else n)
      else if is_blank c then n
      else n\<lparr>vals := (if valstart n then vals n + 1 else vals n), valstart := False\<rparr>)"

fun count_loop :: "counts \<Rightarrow> string \<Rightarrow> (string \<times> string \<times> counts) option" where
  "count_loop n [] = None"
| "count_loop n (c # s) =
     (let n' = count_char c n in
      if a_closing n' = 1 then Some ([], s, n')
      else map_option (\<lambda>(a, b, m). (c # a, b, m)) (count_loop n' s))"

text \<open>\<open>count_objs\<close>: the text of the array, the text behind it, the length and the type.\<close>

definition count_objs :: "string \<Rightarrow> (string \<times> string \<times> int \<times> json_type) option" where
  "count_objs s =
     (case count_loop \<lparr>a_closing = 0, o_opening = 0, commas = 0, objects = 0, valstart = True, vals = 0\<rparr> s of
        None \<Rightarrow> None
      | Some (a, b, n) \<Rightarrow>
          if (objects n \<noteq> 0 \<and> commas n < objects n - 1) \<or> (vals n \<noteq> 0 \<and> commas n < vals n - 1) then None
          else if objects n \<noteq> 0 \<and> vals n \<noteq> 0 then None
          else Some (a, b, objects n + vals n, if objects n \<noteq> 0 then json_type_obj_array else json_type_data_array))"

definition is_numchar :: "char \<Rightarrow> bool" where
  "is_numchar c = (decdigit c \<noteq> None \<or> c = CHR ''.'' \<or> c = CHR ''e'' \<or> c = CHR ''E'' \<or> c = CHR ''-'' \<or> c = CHR ''+'')"

definition skipnumbers :: "string \<Rightarrow> string" where
  "skipnumbers s = dropWhile is_numchar s"

section \<open>Pairs\<close>

definition head_is :: "char \<Rightarrow> string \<Rightarrow> bool" where
  "head_is c s = (s \<noteq> [] \<and> hd s = c)"

text \<open>
  The value of a pair: the pair's fields and the text behind. For a number the value still runs
  on into the text behind, and the character in front of that text is no NUL: it is the last
  component.
\<close>

definition json_value :: "string \<Rightarrow> (string \<times> json_type \<times> int \<times> string \<times> char option) option" where
  "json_value s =
     (if head_is CHR 0x22 s then
        (case split_at CHR 0x22 (tl s) of
           None \<Rightarrow> None
         | Some (v, rest) \<Rightarrow> Some (v, json_type_string, 0, rest, None))
      else if head_is CHR ''{'' s then
        (case find_obj_end (skipspaces (tl s)) of
           None \<Rightarrow> None
         | Some (v, rest) \<Rightarrow> Some (v, json_type_object, 0, rest, None))
      else if head_is CHR ''['' s then
        (case count_objs (skipspaces (tl s)) of
           None \<Rightarrow> None
         | Some (v, rest, n, ty) \<Rightarrow> Some (v, ty, n, rest, None))
      else
        (let rest = skipnumbers s; num = takeWhile is_numchar s in
         if num = [] then None else Some (num, json_type_number, 0, rest, Some (last num))))"

text \<open>What \<open>json_add_object\<close> returns: -1, 0, or 1 with the pair and the new \<open>*data\<close>.\<close>

datatype add_result = Bad | NoMore | Added json_pair string

definition json_add_object :: "string \<Rightarrow> add_result" where
  "json_add_object data =
     (if data = [] then NoMore
      else
        (let str = skipspaces data in
         if head_is CHR ''}'' str then NoMore
         else if \<not> head_is CHR 0x22 str then Bad
         else
           (case split_at CHR 0x22 (tl str) of
              None \<Rightarrow> Bad
            | Some (nm, rest) \<Rightarrow>
                (let str = skipspaces rest in
                 if \<not> head_is CHR '':'' str then Bad
                 else
                   (case json_value (skipspaces (tl str)) of
                      None \<Rightarrow> Bad
                    | Some (v, ty, n, rest, front) \<Rightarrow>
                        (let blanks = takeWhile is_blank rest; str = skipspaces rest;
                             comma = head_is CHR '','' str;
                             blanks2 = takeWhile is_blank (tl str);
                             str2 = (if comma then skipspaces (tl str) else str);
                             front2 = (if comma then (if blanks2 = [] then None else Some (last blanks2))
                                       else if blanks \<noteq> [] then Some (last blanks) else front);
                             val = (if ty = json_type_number then v @ blanks @ (if comma then [] else str2) else v);
                             pair = \<lparr>jname = nm, jvalue = val, jtype = ty, jlen = n\<rparr>
                         in if head_is CHR ''}'' str2 then
                              Added pair (case front2 of None \<Rightarrow> [] | Some c \<Rightarrow> c # str2)
                            else if \<not> comma \<and> str2 \<noteq> [] then Bad
                            else Added pair str2))))))"

lemma split_at_length: "split_at c s = Some (a, b) \<Longrightarrow> length b < length s"
  by (auto simp: split_at_Some)

lemma find_end_Some: "find_end op s = Some (a, b) \<Longrightarrow> 0 \<le> op \<Longrightarrow> s = a @ CHR ''}'' # b"
proof (induction op s arbitrary: a rule: find_end.induct)
  case (2 op c s)
  then show ?case by (auto simp: Let_def split: if_splits)
qed simp

lemma count_loop_length: "count_loop n s = Some (a, b, m) \<Longrightarrow> length b < length s"
proof (induction n s arbitrary: a rule: count_loop.induct)
  case (2 n c s)
  then show ?case by (fastforce simp: Let_def split: if_splits)
qed simp

lemma skipspaces_length: "length (skipspaces s) \<le> length s"
  by (simp add: skipspaces_def length_dropWhile_le)

lemma count_objs_length: "count_objs s = Some (a, b, n, ty) \<Longrightarrow> length b < length s"
  by (auto simp: count_objs_def split: if_splits option.splits dest: count_loop_length)

lemma find_obj_end_length: "find_obj_end s = Some (a, b) \<Longrightarrow> length b < length s"
  using find_end_Some [of 0 s a b] by (simp add: find_obj_end_def)

lemma json_value_length:
  assumes "json_value s = Some (v, ty, n, rest, front)"
  shows "length rest < length s"
proof -
  have t: "length (skipspaces (tl s)) \<le> length s" "length (tl s) \<le> length s"
    using skipspaces_length [of "tl s"] by simp_all
  consider "\<exists>v. split_at CHR 0x22 (tl s) = Some (v, rest)" | "\<exists>v. find_obj_end (skipspaces (tl s)) = Some (v, rest)"
    | "\<exists>v n ty. count_objs (skipspaces (tl s)) = Some (v, rest, n, ty)"
    | "rest = skipnumbers s" "takeWhile is_numchar s \<noteq> []"
    using assms by (auto simp: json_value_def Let_def split: if_splits option.splits prod.splits)
  then show ?thesis
  proof cases
    case 4
    then show ?thesis using takeWhile_dropWhile_length [of is_numchar s]
      by (cases "takeWhile is_numchar s") (auto simp: skipnumbers_def)
  qed (use t in \<open>auto dest!: split_at_length find_obj_end_length count_objs_length\<close>)
qed

lemma json_add_object_shorter: "json_add_object data = Added pair data' \<Longrightarrow> length data' < length data"
proof -
  assume a: "json_add_object data = Added pair data'"
  let ?str = "skipspaces data"
  obtain nm rest where s: "split_at CHR 0x22 (tl ?str) = Some (nm, rest)"
    using a by (auto simp: json_add_object_def Let_def split: if_splits option.splits)
  obtain v ty n r front where jv: "json_value (skipspaces (tl (skipspaces rest))) = Some (v, ty, n, r, front)"
    using a s by (auto simp: json_add_object_def Let_def split: if_splits option.splits)
  have ne: "?str \<noteq> []" "skipspaces rest \<noteq> []"
    using a s by (auto simp: json_add_object_def Let_def head_is_def split: if_splits)
  have "length data' \<le> Suc (length r)"
  proof -
    have "length (skipspaces (tl (skipspaces r))) \<le> length r" "length (skipspaces r) \<le> length r"
      using skipspaces_length [of "tl (skipspaces r)"] skipspaces_length [of r] by simp_all
    then show ?thesis using a s jv
      by (auto simp: json_add_object_def Let_def split: if_splits option.splits)
  qed
  moreover have "length r < length (skipspaces (tl (skipspaces rest)))" by (rule json_value_length [OF jv])
  moreover have "length (skipspaces (tl (skipspaces rest))) \<le> length rest - 1"
    using skipspaces_length [of "tl (skipspaces rest)"] skipspaces_length [of rest] by simp
  moreover have "length rest < length (tl ?str)" by (rule split_at_length [OF s])
  moreover have "length (tl ?str) < length data"
    using ne(1) skipspaces_length [of data] by (cases ?str) simp_all
  ultimately show ?thesis by linarith
qed

section \<open>Objects\<close>

text \<open>\<open>json_collect\<close>: the pairs of the object, or \<open>NULL\<close>.\<close>

function collect_loop :: "string \<Rightarrow> json_pair list \<Rightarrow> json_pair list option" where
  "collect_loop data obj =
     (case json_add_object data of
        Bad \<Rightarrow> None
      | NoMore \<Rightarrow> Some obj
      | Added pair data' \<Rightarrow> collect_loop data' (obj @ [pair]))"
  by pat_completeness auto
termination
  by (relation "measure (\<lambda>(data, obj). length data)") (auto dest: json_add_object_shorter)

declare collect_loop.simps [simp del]

definition json_collect :: "string \<Rightarrow> json_pair list option" where
  "json_collect data = collect_loop (skipspaces data) []"

definition json_tokener_parse :: "string \<Rightarrow> json_pair list option" where
  "json_tokener_parse data =
     (let s = skipspaces data in
      if \<not> head_is CHR ''{'' s then None
      else (case find_obj_end (tl s) of None \<Rightarrow> None | Some (inner, rest) \<Rightarrow> json_collect inner))"

definition json_pair_get_string :: "json_pair \<Rightarrow> string option" where
  "json_pair_get_string pair = (if jtype pair \<noteq> json_type_string then None else Some (jvalue pair))"

definition json_pair_get_object :: "json_pair \<Rightarrow> json_pair list option" where
  "json_pair_get_object pair = (if jtype pair \<noteq> json_type_object then None else json_collect (jvalue pair))"

definition json_object_get_pair :: "json_pair list \<Rightarrow> string \<Rightarrow> json_pair option" where
  "json_object_get_pair obj nm = find (\<lambda>p. strcmp nm (jname p) = 0) obj"

section \<open>Arrays\<close>

text \<open>What the array functions do: return a value, return \<open>NULL\<close>, or follow a NULL pointer.\<close>

datatype 'x access = Value 'x | Null | NullDeref

text \<open>
  The loop of \<open>json_array_get_object\<close>: \<open>start\<close> is the text since the opening brace of the object
  asked for, and \<open>obj\<close> the result of \<open>json_collect\<close> on it.
\<close>

fun array_obj_loop :: "int \<Rightarrow> string \<Rightarrow> int \<Rightarrow> int \<Rightarrow> string option \<Rightarrow> json_pair list option
    \<Rightarrow> int \<times> string option \<times> json_pair list option" where
  "array_obj_loop idx [] opening curidx start obj = (opening, start, obj)"
| "array_obj_loop idx (c # s) opening curidx start obj =
     (if curidx > idx then (opening, start, obj)
      else if c = CHR ''{'' then
        array_obj_loop idx s (opening + 1) curidx
          (if opening + 1 = 1 \<and> curidx = idx then Some [] else map_option (\<lambda>t. t @ [c]) start) obj
      else if c = CHR ''}'' then
        (if opening - 1 = 0 then
           array_obj_loop idx s (opening - 1) (curidx + 1) (map_option (\<lambda>t. t @ [c]) start)
             (case start of None \<Rightarrow> obj | Some t \<Rightarrow> json_collect t)
         else array_obj_loop idx s (opening - 1) curidx (map_option (\<lambda>t. t @ [c]) start) obj)
      else array_obj_loop idx s opening curidx (map_option (\<lambda>t. t @ [c]) start) obj)"

text \<open>
  Behind the loop: \<open>obj->original_data\<close> is read although \<open>obj\<close> may be \<open>NULL\<close>, and \<open>json_free_obj\<close>
  reads through it too.
\<close>

definition json_array_get_object :: "json_pair \<Rightarrow> int \<Rightarrow> json_pair list access" where
  "json_array_get_object pair idx =
     (if jtype pair \<noteq> json_type_obj_array then Null
      else if jlen pair < 1 \<or> idx < 0 \<or> idx > jlen pair then Null
      else
        (case array_obj_loop idx (jvalue pair) 0 0 None None of
           (opening, start, obj) \<Rightarrow>
             (case obj of
                None \<Rightarrow> NullDeref
              | Some ps \<Rightarrow> if start = None \<or> opening \<noteq> 0 then Null else Value ps)))"

text \<open>\<open>json_array_get_data\<close>; \<open>strchr\<close> finding no comma leaves a NULL pointer that is read.\<close>

function array_data_loop :: "int \<Rightarrow> int \<Rightarrow> string \<Rightarrow> string access" where
  "array_data_loop idx curidx data =
     (if data = [] \<or> curidx > idx then Null
      else
        (let s = skipspaces data in
         if s = [] then Null
         else if hd s \<noteq> CHR '','' then
           (if curidx = idx then
              (if hd s = CHR 0x22 then
                 (case split_at CHR 0x22 (tl s) of None \<Rightarrow> Null | Some (v, rest) \<Rightarrow> Value v)
               else
                 (let num = takeWhile is_numchar s in if num = [] then Null else Value num))
            else
              (case split_at CHR '','' s of
                 None \<Rightarrow> NullDeref
               | Some (v, rest) \<Rightarrow> array_data_loop idx curidx (CHR '','' # rest)))
         else array_data_loop idx (curidx + 1) (dropWhile (\<lambda>c. is_blank c \<or> c = CHR '','') (tl s))))"
  by pat_completeness auto
termination
proof (relation "measure (\<lambda>(idx, curidx, data). 2 * length data + (if head_is CHR '','' data then 0 else 1))", goal_cases)
  case (2 idx curidx data s p v rest)
  then have "s = v @ CHR '','' # rest" "v \<noteq> []" by (auto simp: split_at_Some)
  moreover have "length s \<le> length data" using 2 skipspaces_length by simp
  ultimately show ?case by (cases v) (auto simp: head_is_def)
next
  case (3 idx curidx data s)
  have "length (dropWhile (\<lambda>c. is_blank c \<or> c = CHR '','') (tl s)) \<le> length (tl s)" by (rule length_dropWhile_le)
  moreover have "length s \<le> length data" using 3 skipspaces_length by simp
  moreover have "s \<noteq> []" using 3 by simp
  ultimately show ?case by (cases s) auto
qed simp

declare array_data_loop.simps [simp del]

definition json_array_get_data :: "json_pair \<Rightarrow> int \<Rightarrow> string access" where
  "json_array_get_data pair idx =
     (if jtype pair \<noteq> json_type_data_array then Null
      else if jlen pair < 1 \<or> idx < 0 \<or> idx > jlen pair then Null
      else array_data_loop idx 0 (jvalue pair))"

section \<open>Braces\<close>

text \<open>The nesting depth behind a text, \<open>None\<close> when a brace closes what was not opened.\<close>

definition brace :: "char \<Rightarrow> int" where
  "brace c = (if c = CHR ''{'' then 1 else if c = CHR ''}'' then - 1 else 0)"

fun depth :: "int \<Rightarrow> string \<Rightarrow> int option" where
  "depth d [] = Some d"
| "depth d (c # s) = (if d + brace c < 0 then None else depth (d + brace c) s)"

definition balanced :: "string \<Rightarrow> bool" where
  "balanced s \<longleftrightarrow> depth 0 s = Some 0"

lemma depth_nonneg: "depth d s = Some d' \<Longrightarrow> 0 \<le> d \<Longrightarrow> 0 \<le> d'"
  by (induction d s rule: depth.induct) (auto split: if_splits)

lemma depth_shift: "depth d s = Some d' \<Longrightarrow> 0 \<le> k \<Longrightarrow> depth (d + k) s = Some (d' + k)"
proof (induction d s rule: depth.induct)
  case (2 d c s)
  then show ?case by (auto simp: add.commute add.left_commute split: if_splits)
qed simp

lemma depth_append: "depth d (s @ t) = (case depth d s of None \<Rightarrow> None | Some e \<Rightarrow> depth e t)"
  by (induction d s rule: depth.induct) auto

lemma find_end_step:
  "0 \<le> op \<Longrightarrow> find_end op (c # s) =
     (if op + brace c = - 1 then Some ([], s) else map_option (\<lambda>(a, b). (c # a, b)) (find_end (op + brace c) s))"
  by (simp add: brace_def Let_def)

lemma find_end_depth:
  "depth d s = Some d' \<Longrightarrow> 0 \<le> d \<Longrightarrow> find_end d (s @ r) = map_option (\<lambda>(a, b). (s @ a, b)) (find_end d' r)"
proof (induction d s rule: depth.induct)
  case (1 d)
  then show ?case by (simp add: option.map_ident case_prod_beta)
next
  case (2 d c s)
  then show ?case
    by (auto simp: find_end_step option.map_comp comp_def case_prod_beta split: if_splits simp del: find_end.simps)
qed

lemma find_end_sound: "find_end d s = Some (a, b) \<Longrightarrow> 0 \<le> d \<Longrightarrow> s = a @ CHR ''}'' # b \<and> depth d a = Some 0"
proof (induction s arbitrary: d a)
  case (Cons c s)
  show ?case
  proof (cases "d + brace c = - 1")
    case True
    then have "a = []" "b = s" "d = 0" "c = CHR ''}''" using Cons.prems by (auto simp: brace_def Let_def split: if_splits)
    then show ?thesis by simp
  next
    case False
    then obtain a' where a: "a = c # a'" "find_end (d + brace c) s = Some (a', b)"
      using Cons.prems by (auto simp: find_end_step simp del: find_end.simps)
    have "0 \<le> d + brace c" using False Cons.prems(2) by (auto simp: brace_def split: if_splits)
    then show ?thesis using Cons.IH [OF a(2)] a(1) by simp
  qed
qed simp

lemma find_obj_end_iff:
  "find_obj_end s = Some (a, b) \<longleftrightarrow> s = a @ CHR ''}'' # b \<and> balanced a"
proof
  assume "find_obj_end s = Some (a, b)"
  then show "s = a @ CHR ''}'' # b \<and> balanced a"
    using find_end_sound [of 0 s a b] by (simp add: find_obj_end_def balanced_def)
next
  assume "s = a @ CHR ''}'' # b \<and> balanced a"
  then show "find_obj_end s = Some (a, b)"
    using find_end_depth [of 0 a 0 "CHR ''}'' # b"] by (simp add: find_obj_end_def balanced_def)
qed

lemma find_obj_end_balanced: "balanced a \<Longrightarrow> find_obj_end (a @ CHR ''}'' # b) = Some (a, b)"
  by (simp add: find_obj_end_iff)

text \<open>
  \<open>find_obj_end\<close> cuts an object exactly at its matching brace: the text before it is the shortest one
  with balanced braces that a closing brace follows.
\<close>

theorem find_obj_end_matches:
  "find_obj_end s = Some (a, b) \<longleftrightarrow> s = a @ CHR ''}'' # b \<and> balanced a"
  by (rule find_obj_end_iff)

section \<open>Round trip\<close>

datatype jval = JStr string | JNum string | JObj string

definition good_text :: "string \<Rightarrow> bool" where
  "good_text s \<longleftrightarrow> list_all (\<lambda>c. c \<noteq> CHR 0x22 \<and> c \<noteq> CHR ''{'' \<and> c \<noteq> CHR ''}'') s"

fun good_value :: "jval \<Rightarrow> bool" where
  "good_value (JStr s) = good_text s"
| "good_value (JNum s) = (s \<noteq> [] \<and> list_all is_numchar s)"
| "good_value (JObj s) = (balanced s \<and> (s = [] \<or> \<not> is_blank (hd s)))"

fun show_value :: "jval \<Rightarrow> string" where
  "show_value (JStr s) = CHR 0x22 # s @ [CHR 0x22]"
| "show_value (JNum s) = s"
| "show_value (JObj s) = CHR ''{'' # s @ [CHR ''}'']"

fun pair_of :: "string \<times> jval \<Rightarrow> json_pair" where
  "pair_of (n, JStr s) = \<lparr>jname = n, jvalue = s, jtype = json_type_string, jlen = 0\<rparr>"
| "pair_of (n, JNum s) = \<lparr>jname = n, jvalue = s, jtype = json_type_number, jlen = 0\<rparr>"
| "pair_of (n, JObj s) = \<lparr>jname = n, jvalue = s, jtype = json_type_object, jlen = 0\<rparr>"

definition show_pair :: "string \<times> jval \<Rightarrow> string" where
  "show_pair p = CHR 0x22 # fst p @ [CHR 0x22, CHR '':''] @ show_value (snd p)"

fun show_pairs :: "(string \<times> jval) list \<Rightarrow> string" where
  "show_pairs [] = []"
| "show_pairs [p] = show_pair p"
| "show_pairs (p # q # ps) = show_pair p @ CHR '','' # show_pairs (q # ps)"

definition good_pair :: "string \<times> jval \<Rightarrow> bool" where
  "good_pair p \<longleftrightarrow> good_text (fst p) \<and> good_value (snd p)"

lemma is_blank_simps [simp]:
  "\<not> is_blank CHR 0x22" "\<not> is_blank CHR '':''" "\<not> is_blank CHR '',''" "\<not> is_blank CHR ''{''" "\<not> is_blank CHR ''}''"
  by (simp_all add: is_blank_def)

lemma skipspaces_Cons [simp]: "\<not> is_blank c \<Longrightarrow> skipspaces (c # s) = c # s" "skipspaces [] = []"
  by (simp_all add: skipspaces_def)

lemma numchar_facts: "is_numchar c \<Longrightarrow> \<not> is_blank c \<and> c \<noteq> CHR 0x22 \<and> c \<noteq> CHR ''{'' \<and> c \<noteq> CHR ''['' \<and> c \<noteq> CHR '','' \<and> c \<noteq> CHR ''}''"
  by (auto simp: is_numchar_def is_blank_def decdigit_def schar_def split: if_splits)

lemma not_numchar [simp]: "\<not> is_numchar CHR '',''"
  using numchar_facts by blast

lemma head_is_simps [simp]: "head_is c (d # s) = (d = c)" "\<not> head_is c []"
  by (auto simp: head_is_def)

lemma quote_free: "good_text s \<Longrightarrow> CHR 0x22 \<notin> set s"
  by (auto simp: good_text_def list_all_iff)

text \<open>Reading a value up to the end of the text or a comma.\<close>

lemma json_value_show:
  assumes "good_value v" "t = [] \<or> head_is CHR '','' t"
  shows "json_value (show_value v @ t) =
    Some (jvalue (pair_of (n, v)), jtype (pair_of (n, v)), 0, t, case v of JNum s \<Rightarrow> Some (last s) | _ \<Rightarrow> None)"
proof (cases v)
  case (JStr s)
  then show ?thesis using assms(1) quote_free by (simp add: json_value_def)
next
  case (JObj s)
  have "skipspaces (s @ CHR ''}'' # t) = s @ CHR ''}'' # t"
    using assms(1) JObj by (cases s) auto
  then show ?thesis using assms(1) JObj by (simp add: json_value_def find_obj_end_balanced)
next
  case (JNum s)
  then obtain c s' where s: "s = c # s'" "is_numchar c" using assms(1) by (cases s) auto
  have all: "\<And>x. x \<in> set s \<Longrightarrow> is_numchar x" using assms(1) JNum by (auto simp: list_all_iff)
  have tw: "takeWhile is_numchar (s @ t) = s" and dw: "dropWhile is_numchar (s @ t) = t"
    using all assms(2) by (cases t; auto simp: takeWhile_append2 dropWhile_append2)+
  show ?thesis using JNum s numchar_facts [OF s(2)] tw dw
    by (simp add: json_value_def skipnumbers_def Let_def)
qed

lemma json_add_object_show:
  assumes "good_pair p" "t = [] \<or> (\<exists>r. t = CHR '','' # CHR 0x22 # r)"
  shows "json_add_object (show_pair p @ t) = Added (pair_of p) (case t of [] \<Rightarrow> [] | _ # r \<Rightarrow> r)"
proof -
  obtain n v where p: "p = (n, v)" by (cases p)
  have n: "CHR 0x22 \<notin> set n" and v: "good_value v" using assms(1) quote_free by (auto simp: good_pair_def p)
  have nb: "skipspaces (show_value v @ t) = show_value v @ t"
  proof (cases v)
    case (JNum s)
    then show ?thesis using v numchar_facts by (cases s) auto
  qed simp_all
  have jv: "json_value (show_value v @ t) =
      Some (jvalue (pair_of (n, v)), jtype (pair_of (n, v)), 0, t, case v of JNum s \<Rightarrow> Some (last s) | _ \<Rightarrow> None)"
    using assms(2) by (intro json_value_show [OF v]) auto
  have sp: "split_at CHR 0x22 (n @ CHR 0x22 # CHR '':'' # show_value v @ t) = Some (n, CHR '':'' # show_value v @ t)"
    using n by simp
  have name: "jname (pair_of (n, v)) = n" "jlen (pair_of (n, v)) = 0" by (cases v; simp)+
  show ?thesis
  proof (cases t)
    case Nil
    then show ?thesis using jv nb sp name by (simp add: json_add_object_def show_pair_def p Let_def)
  next
    case (Cons c r)
    then have "t = CHR '','' # r" "\<exists>r'. r = CHR 0x22 # r'" using assms(2) by auto
    then show ?thesis using jv nb sp name by (auto simp: json_add_object_def show_pair_def p Let_def)
  qed
qed

lemma show_pairs_head: "ps \<noteq> [] \<Longrightarrow> \<exists>r. show_pairs ps = CHR 0x22 # r"
  by (cases ps rule: show_pairs.cases) (auto simp: show_pair_def)

lemma collect_show:
  "list_all good_pair ps \<Longrightarrow> collect_loop (show_pairs ps) obj = Some (obj @ map pair_of ps)"
proof (induction ps arbitrary: obj rule: show_pairs.induct)
  case 1
  show ?case by (subst collect_loop.simps) (simp add: json_add_object_def)
next
  case (2 p)
  then have "json_add_object (show_pair p) = Added (pair_of p) []"
    using json_add_object_show [of p "[]"] by simp
  moreover have "collect_loop [] o' = Some o'" for o'
    by (subst collect_loop.simps) (simp add: json_add_object_def)
  ultimately show ?case by (subst collect_loop.simps) simp
next
  case (3 p q ps)
  obtain r where r: "show_pairs (q # ps) = CHR 0x22 # r" using show_pairs_head by blast
  have "json_add_object (show_pairs (p # q # ps)) = Added (pair_of p) (show_pairs (q # ps))"
    using 3(2) json_add_object_show [of p "CHR '','' # show_pairs (q # ps)"] r by simp
  then show ?case using 3 by (subst collect_loop.simps) simp
qed

lemma json_collect_show: "list_all good_pair ps \<Longrightarrow> json_collect (show_pairs ps) = Some (map pair_of ps)"
proof -
  assume "list_all good_pair ps"
  moreover have "skipspaces (show_pairs ps) = show_pairs ps" using show_pairs_head [of ps] by (cases "ps = []") auto
  ultimately show ?thesis using collect_show [of ps "[]"] by (simp add: json_collect_def)
qed

lemma balanced_flat: "list_all (\<lambda>c. c \<noteq> CHR ''{'' \<and> c \<noteq> CHR ''}'') s \<Longrightarrow> balanced s"
  by (induction s) (auto simp: balanced_def brace_def)

lemma balanced_append: "balanced s \<Longrightarrow> balanced t \<Longrightarrow> balanced (s @ t)"
  by (simp add: balanced_def depth_append)

lemma balanced_wrap: "balanced s \<Longrightarrow> balanced (CHR ''{'' # s @ [CHR ''}''])"
  using depth_shift [of 0 s 0 1] by (simp add: balanced_def depth_append brace_def)

lemma balanced_show_pair:
  assumes "good_pair p"
  shows "balanced (show_pair p)"
proof -
  obtain n v where p: "p = (n, v)" by (cases p)
  have n: "balanced (CHR 0x22 # n @ [CHR 0x22, CHR '':''])"
    using assms by (intro balanced_flat) (auto simp: good_pair_def p good_text_def list_all_iff)
  have "balanced (show_value v)"
  proof (cases v)
    case (JStr s)
    then show ?thesis using assms by (intro balanced_flat) (auto simp: good_pair_def p good_text_def list_all_iff)
  next
    case (JNum s)
    then show ?thesis using assms numchar_facts by (intro balanced_flat) (auto simp: good_pair_def p list_all_iff)
  next
    case (JObj s)
    then show ?thesis using assms balanced_wrap [of s] by (simp add: good_pair_def p)
  qed
  from balanced_append [OF n this] show ?thesis by (simp add: show_pair_def p)
qed

lemma balanced_show_pairs: "list_all good_pair ps \<Longrightarrow> balanced (show_pairs ps)"
proof (induction ps rule: show_pairs.induct)
  case 1
  show ?case by (simp add: balanced_def)
next
  case (3 p q ps)
  have "balanced (CHR '','' # show_pairs (q # ps))" using 3 by (simp add: balanced_def brace_def)
  then show ?case using 3(2) balanced_append [OF balanced_show_pair [of p]] by simp
qed (simp add: balanced_show_pair)

text \<open>
  C18. An object written with names and strings free of quotes and braces, numbers, and nested objects
  is read back pair by pair: names, values, types and order.
\<close>

theorem json_roundtrip:
  assumes "list_all good_pair ps"
  shows "json_tokener_parse (CHR ''{'' # show_pairs ps @ CHR ''}'' # rest) = Some (map pair_of ps)"
  using json_collect_show [OF assms] balanced_show_pairs [OF assms]
  by (simp add: json_tokener_parse_def find_obj_end_balanced)

lemma collect_nested: "list_all good_pair ps \<Longrightarrow> json_pair_get_object (pair_of (n, JObj (show_pairs ps))) = Some (map pair_of ps)"
  by (simp add: json_pair_get_object_def json_collect_show)

section \<open>Arrays\<close>

lemma objects_mono: "objects n \<le> objects (count_char c n)"
  by (simp add: count_char_def)

lemma count_loop_objects: "count_loop n s = Some (a, b, m) \<Longrightarrow> objects n \<le> objects m"
proof (induction n s arbitrary: a rule: count_loop.induct)
  case (2 n c s)
  then show ?case using objects_mono [of n c] by (fastforce simp: Let_def split: if_splits)
qed simp

lemma array_obj_none:
  "\<lbrakk>count_loop n s = Some (a, b, m); objects m \<le> idx; start \<noteq> None \<longrightarrow> objects n = idx\<rbrakk> \<Longrightarrow>
     snd (snd (array_obj_loop idx a (o_opening n) (objects n) start None)) = None"
proof (induction n s arbitrary: a start rule: count_loop.induct)
  case (2 n c s)
  let ?n = "count_char c n"
  show ?case
  proof (cases "a_closing ?n = 1")
    case True
    then show ?thesis using 2 by simp
  next
    case False
    then obtain a' where a: "a = c # a'" "count_loop ?n s = Some (a', b, m)" using 2(2) by auto
    have le: "objects ?n \<le> idx" "objects n \<le> idx"
      using count_loop_objects [OF a(2)] 2(3) objects_mono [of n c] by linarith+
    have IH: "snd (snd (array_obj_loop idx a' (o_opening ?n) (objects ?n) st None)) = None"
      if "st \<noteq> None \<longrightarrow> objects ?n = idx" for st
      using 2(1) [OF refl False a(2) 2(3) that] .
    consider "c = CHR ''{''" | "c = CHR ''}''" "o_opening n - 1 = 0" | "c = CHR ''}''" "o_opening n - 1 \<noteq> 0"
      | "c \<noteq> CHR ''{''" "c \<noteq> CHR ''}''" by blast
    then show ?thesis
    proof cases
      case 1
      then show ?thesis using a(1) le IH 2(4) by (simp add: count_char_def)
    next
      case h: 2
      then have "objects ?n = objects n + 1" by (simp add: count_char_def)
      then have "start = None" using 2(4) le by auto
      then show ?thesis using h a(1) le IH [of None] by (simp add: count_char_def)
    next
      case 3
      then show ?thesis using a(1) le IH [of "map_option (\<lambda>t. t @ [c]) start"] 2(4) by (simp add: count_char_def)
    next
      case 4
      then have "o_opening ?n = o_opening n" "objects ?n = objects n" by (simp_all add: count_char_def)
      then show ?thesis using 4 a(1) le IH [of "map_option (\<lambda>t. t @ [c]) start"] 2(4) by simp
    qed
  qed
qed simp

text \<open>
  Asking an array of objects for the element at index \<open>len\<close> follows a NULL pointer: the bound is
  checked with \<open>idx > pair->len\<close>, and the failure path frees an object that was never made.
\<close>

theorem array_index_at_length:
  assumes "count_objs s = Some (v, rest, n, json_type_obj_array)"
  shows "json_array_get_object \<lparr>jname = nm, jvalue = v, jtype = json_type_obj_array, jlen = n\<rparr> n = NullDeref"
proof -
  let ?n0 = "\<lparr>a_closing = 0, o_opening = 0, commas = 0, objects = 0, valstart = True, vals = 0\<rparr>"
  obtain m where m: "count_loop ?n0 s = Some (v, rest, m)" "objects m \<noteq> 0" "n = objects m + vals m" "vals m = 0"
    using assms by (auto simp: count_objs_def split: option.splits if_splits)
  have "0 \<le> objects m" using count_loop_objects [OF m(1)] by simp
  then have "1 \<le> n" using m by simp
  moreover have "snd (snd (array_obj_loop n v 0 0 None None)) = None"
    using array_obj_none [OF m(1), of n None] m by simp
  ultimately show ?thesis by (auto simp: json_array_get_object_def split: prod.splits)
qed

abbreviation demo_pairs :: "(string \<times> jval) list" where
  "demo_pairs \<equiv> [(''a'', JStr ''x y''), (''b'', JNum ''-1.5e3''), (''c'', JObj (show_pairs [(''d'', JNum ''7'')]))]"

theorem json_roundtrip_witness:
  "list_all good_pair demo_pairs \<and>
   map_option (map jvalue) (json_tokener_parse (CHR ''{'' # show_pairs demo_pairs @ CHR ''}'' # [])) =
     Some [''x y'', ''-1.5e3'', CHR 0x22 # ''d'' @ CHR 0x22 # '':7'']"
proof -
  have g: "list_all good_pair demo_pairs" by code_simp
  have "show_pairs [(''d'', JNum ''7'')] = CHR 0x22 # ''d'' @ CHR 0x22 # '':7''" by code_simp
  then show ?thesis using json_roundtrip [OF g, of "[]"] g by simp
qed

theorem array_index_at_length_witness:
  "count_objs ''{}, {} ] tail'' = Some (''{}, {} '', '' tail'', 2, json_type_obj_array) \<and>
   json_array_get_object \<lparr>jname = ''list'', jvalue = ''{}, {} '', jtype = json_type_obj_array, jlen = 2\<rparr> 2 = NullDeref"
proof -
  have c: "count_objs ''{}, {} ] tail'' = Some (''{}, {} '', '' tail'', 2, json_type_obj_array)" by code_simp
  then show ?thesis using array_index_at_length [OF c, of "''list''"] by simp
qed

text \<open>
  A string value that holds an opening brace makes the whole text unreadable, because braces are
  counted without regard to strings.
\<close>

theorem json_brace_in_string:
  "json_tokener_parse (''{'' @ [CHR 0x22] @ ''a'' @ [CHR 0x22] @ '':'' @ [CHR 0x22] @ ''{'' @ [CHR 0x22] @ ''}'') = None"
  by code_simp

end
