(* ===== verification/FilterWheel.thy ===== *)
theory FilterWheel
  imports CPrelude
begin

text \<open>
  The filter wheel control of \<open>HSFW_management/hsfw.c\<close>: the register protocol over a HID device,
  clearing of errors, homing, moving and renaming, and the selection of wheel and filter from the
  command line. \<open>ioctl\<close> with \<open>HIDIOCSFEATURE\<close> and \<open>HIDIOCGFEATURE\<close> is a pair of functions on the
  state of the hardware, which return the result code and the buffer; \<open>find_wheels\<close>, which asks
  udev, gives the list of wheels. The program ends with an \<open>exit_reason\<close> and the hardware as it then is, where
  the code calls \<open>ERRX\<close> or \<open>exit\<close>. Delays and messages are left out.
\<close>

datatype exit_reason =
    TriesExceeded | ErrorOccured | Cycling | HomeFailed | CantRename | NameTooLong | NothingToRename
  | ManyWheels | WheelNotFound | BadWheelId | BadFilterId | FilterNotFound | BadPosition | NullName
  | NoTurrets | NoAccess

type_synonym 'h exiting = "exit_reason \<times> 'h"

record 'h hid =
  set_feature :: "int \<Rightarrow> 'h \<Rightarrow> u8 list \<Rightarrow> 'h \<times> int \<times> u8 list"
  get_feature :: "int \<Rightarrow> 'h \<Rightarrow> u8 list \<Rightarrow> 'h \<times> int \<times> u8 list"

text \<open>The hardware and the static counter \<open>Nruns\<close> of \<open>go_home\<close>.\<close>

record 'h turret =
  hw :: 'h
  nruns :: nat

abbreviation REG_CLERR :: u8 where "REG_CLERR \<equiv> 0x02"
abbreviation REG_STATUS :: u8 where "REG_STATUS \<equiv> 0x0a"
abbreviation REG_INFO :: u8 where "REG_INFO \<equiv> 0x0b"
abbreviation REG_GOTO :: u8 where "REG_GOTO \<equiv> 0x14"
abbreviation REG_HOME :: u8 where "REG_HOME \<equiv> 0x15"
abbreviation REG_NAME :: u8 where "REG_NAME \<equiv> 0x16"
abbreviation REG_STATUS_LEN :: nat where "REG_STATUS_LEN \<equiv> 6"
abbreviation REG_INFO_LEN :: nat where "REG_INFO_LEN \<equiv> 7"
abbreviation REG_NAME_LEN :: nat where "REG_NAME_LEN \<equiv> 14"

text \<open>\<open>buf[i]\<close>, 0 where the answer is shorter than the cleared buffer.\<close>

definition byte :: "u8 list \<Rightarrow> nat \<Rightarrow> u8" where
  "byte buf i = (if i < length buf then buf ! i else 0)"

section \<open>Registers\<close>

text \<open>Both return the new hardware state, the buffer and whether there was an error.\<close>

definition writereg :: "'h hid \<Rightarrow> int \<Rightarrow> u8 list \<Rightarrow> 'h \<Rightarrow> 'h \<times> u8 list \<times> bool" where
  "writereg lib fd buf h =
     (case set_feature lib fd h buf of (h', r, buf') \<Rightarrow> (h', buf', r < 0 \<or> byte buf' 0 \<noteq> byte buf 0))"

definition readreg :: "'h hid \<Rightarrow> int \<Rightarrow> u8 \<Rightarrow> nat \<Rightarrow> 'h \<Rightarrow> 'h \<times> u8 list \<times> bool" where
  "readreg lib fd reg l h =
     (case get_feature lib fd h (reg # replicate (l - 1) 0) of
        (h', r, buf) \<Rightarrow> (h', buf, r < 0 \<or> byte buf 0 \<noteq> reg))"

text \<open>\<open>poll_regstatus\<close>: at most \<open>n\<close> polls (300 in the code); the result is \<open>buf[4]\<close> of the last one.\<close>

fun poll_loop :: "'h hid \<Rightarrow> int \<Rightarrow> nat \<Rightarrow> u8 list \<Rightarrow> 'h \<Rightarrow> 'h exiting + 'h \<times> u8 list" where
  "poll_loop lib fd 0 buf h = Inr (h, buf)"
| "poll_loop lib fd (Suc n) buf h =
     (case readreg lib fd REG_STATUS REG_STATUS_LEN h of
        (h', b, err) \<Rightarrow>
          if byte b 5 \<noteq> 0 then Inl (ErrorOccured, h')
          else if err \<or> byte b 2 = 0xff \<or> byte b 3 = 0xff then poll_loop lib fd n b h'
          else Inr (h', b))"

definition poll_regstatus :: "'h hid \<Rightarrow> int \<Rightarrow> 'h turret \<Rightarrow> 'h exiting + 'h turret \<times> u8" where
  "poll_regstatus lib fd s =
     (case poll_loop lib fd 300 [] (hw s) of
        Inl e \<Rightarrow> Inl e
      | Inr (h, b) \<Rightarrow> Inr (s\<lparr>hw := h\<rparr>, byte b 4))"

section \<open>Errors and homing\<close>

text \<open>The first loop of \<open>check_and_clear_err\<close> with \<open>n\<close> turns left; the last component is what is left.\<close>

fun status_loop :: "'h hid \<Rightarrow> int \<Rightarrow> nat \<Rightarrow> u8 list \<Rightarrow> 'h \<Rightarrow> 'h \<times> u8 list \<times> nat" where
  "status_loop lib fd 0 buf h = (h, buf, 0)"
| "status_loop lib fd (Suc n) buf h =
     (case readreg lib fd REG_STATUS REG_STATUS_LEN h of
        (h', b, err) \<Rightarrow> if err then status_loop lib fd n b h' else (h', b, n))"

fun clear_loop :: "'h hid \<Rightarrow> int \<Rightarrow> nat \<Rightarrow> 'h \<Rightarrow> 'h" where
  "clear_loop lib fd 0 h = h"
| "clear_loop lib fd (Suc n) h =
     (case writereg lib fd [REG_CLERR, 0] h of
        (h1, b1, err1) \<Rightarrow>
          if err1 then clear_loop lib fd n h1
          else
            (case readreg lib fd REG_STATUS REG_STATUS_LEN h1 of
               (h2, b2, err2) \<Rightarrow> if err2 \<or> byte b2 5 \<noteq> 0 then clear_loop lib fd n h2 else h2))"

text \<open>
  The loop of \<open>go_home\<close> and of \<open>move_wheel\<close> with the command \<open>cmd\<close> (the register and its
  argument): it is repeated until the device answers 0xff; \<open>False\<close> when the turns are used up.
\<close>

fun command_loop :: "'h hid \<Rightarrow> int \<Rightarrow> nat \<Rightarrow> u8 list \<Rightarrow> 'h \<Rightarrow> 'h \<times> bool" where
  "command_loop lib fd 0 cmd h = (h, False)"
| "command_loop lib fd (Suc n) cmd h =
     (case writereg lib fd cmd h of
        (h1, b1, err1) \<Rightarrow>
          if err1 then command_loop lib fd n cmd h1
          else
            (case readreg lib fd (byte cmd 0) 3 h1 of
               (h2, b2, err2) \<Rightarrow>
                 if err2 \<or> byte b2 1 \<noteq> 0xff then command_loop lib fd n cmd h2
                 else (fst (readreg lib fd (byte cmd 0) 3 h2), True)))"

lemma poll_nruns: "poll_regstatus lib fd s = Inr (s', pos) \<Longrightarrow> nruns s' = nruns s"
  by (auto simp: poll_regstatus_def split: sum.splits)

text \<open>
  \<open>check_and_clear_err\<close> and \<open>go_home\<close> call each other; \<open>Nruns\<close> bounds the recursion. With all ten
  turns of the first loop used the program ends, even when the last one succeeded.
\<close>

function check_and_clear_err :: "'h hid \<Rightarrow> int \<Rightarrow> 'h turret \<Rightarrow> 'h exiting + 'h turret"
  and go_home :: "'h hid \<Rightarrow> int \<Rightarrow> 'h turret \<Rightarrow> 'h exiting + 'h turret" where
  "check_and_clear_err lib fd s =
     (case status_loop lib fd 10 [] (hw s) of
        (h, buf, left) \<Rightarrow>
          if left = 0 then Inl (TriesExceeded, h)
          else if byte buf 1 = 0xff then Inr (s\<lparr>hw := h\<rparr>)
          else
            (let h1 = (if byte buf 5 \<noteq> 0 then clear_loop lib fd 10 h else h) in
             case readreg lib fd REG_STATUS REG_STATUS_LEN h1 of
               (h2, b2, err2) \<Rightarrow>
                 if byte b2 1 = 0xff then Inr (s\<lparr>hw := h2\<rparr>)
                 else
                   (case go_home lib fd (s\<lparr>hw := h2\<rparr>) of
                      Inl e \<Rightarrow> Inl e
                    | Inr s' \<Rightarrow> Inr (s'\<lparr>hw := fst (readreg lib fd REG_STATUS REG_STATUS_LEN (hw s'))\<rparr>))))"
| "go_home lib fd s =
     (if nruns s + 1 > 10 then Inl (Cycling, hw s)
      else
        (case poll_regstatus lib fd (s\<lparr>nruns := nruns s + 1\<rparr>) of
           Inl e \<Rightarrow> Inl e
         | Inr (s1, pos) \<Rightarrow>
             (case command_loop lib fd 10 [REG_HOME, 0, 0] (hw s1) of
                (h2, False) \<Rightarrow> Inl (HomeFailed, h2)
              | (h2, True) \<Rightarrow>
                  (case poll_regstatus lib fd (s1\<lparr>hw := h2\<rparr>) of
                     Inl e \<Rightarrow> Inl e
                   | Inr (s3, pos) \<Rightarrow> check_and_clear_err lib fd s3))))"
  by pat_completeness auto

termination
  by (relation "measure (\<lambda>x. case x of Inl (lib, fd, s) \<Rightarrow> 2 * (11 - nruns s) + 1 | Inr (lib, fd, s) \<Rightarrow> 2 * (11 - nruns s))")
    (auto dest!: poll_nruns)

declare check_and_clear_err.simps [simp del] go_home.simps [simp del]

section \<open>Moving\<close>

definition move_wheel :: "'h hid \<Rightarrow> int \<Rightarrow> int \<Rightarrow> 'h turret \<Rightarrow> 'h exiting + 'h turret \<times> nat" where
  "move_wheel lib wheel_fd filter_pos s =
     (if wheel_fd < 0 then Inr (s, 1)
      else
        (case poll_regstatus lib wheel_fd s of
           Inl e \<Rightarrow> Inl e
         | Inr (s1, pos) \<Rightarrow>
             if filter_pos = uint pos then Inr (s1, 0)
             else
               (case command_loop lib wheel_fd 10 [REG_GOTO, word_of_int filter_pos, 0] (hw s1) of
                  (h2, False) \<Rightarrow> Inr (s1\<lparr>hw := h2\<rparr>, 1)
                | (h2, True) \<Rightarrow>
                    (case poll_regstatus lib wheel_fd (s1\<lparr>hw := h2\<rparr>) of
                       Inl e \<Rightarrow> Inl e
                     | Inr (s3, pos) \<Rightarrow>
                         (case check_and_clear_err lib wheel_fd s3 of
                            Inl e \<Rightarrow> Inl e
                          | Inr s4 \<Rightarrow> Inr (s4, 0))))))"

section \<open>Names\<close>

record wheel_descr =
  wfd :: int
  wserial :: string
  wID :: char
  wname :: string
  wmaxpos :: int

text \<open>The name in an answer: the bytes from 6 on, up to a NUL or a space; \<open>None\<close> when it is empty.\<close>

definition name_in :: "u8 list \<Rightarrow> string option" where
  "name_in buf =
     (if byte buf 6 = 0 then None
      else Some (takeWhile (\<lambda>c. c \<noteq> SPACE)
        (map (\<lambda>b. char_of (unat b)) (takeWhile (\<lambda>b. b \<noteq> 0) (drop 6 buf)))))"

definition char_byte :: "char \<Rightarrow> u8" where
  "char_byte c = of_char c"

definition get_filter_name :: "'h hid \<Rightarrow> wheel_descr \<Rightarrow> int \<Rightarrow> 'h \<Rightarrow> 'h \<times> string option" where
  "get_filter_name lib wheel pos h =
     (if wfd wheel < 0 then (h, None)
      else if pos < 1 \<or> pos > wmaxpos wheel then (h, None)
      else
        (case writereg lib (wfd wheel) ([REG_NAME, 3, char_byte (wID wheel), word_of_int pos] @ replicate 10 0) h of
           (h1, b1, err1) \<Rightarrow>
             if err1 then (h1, None)
             else
               (case readreg lib (wfd wheel) REG_NAME REG_NAME_LEN h1 of
                  (h2, b2, err2) \<Rightarrow>
                    if err2 \<or> byte b2 2 \<noteq> 0 then (h2, None) else (h2, name_in b2))))"

text \<open>\<open>getwname\<close> of \<open>list_props\<close>.\<close>

definition getwname :: "'h hid \<Rightarrow> int \<Rightarrow> char \<Rightarrow> 'h \<Rightarrow> 'h \<times> string option" where
  "getwname lib fd c h =
     (case writereg lib fd ([REG_NAME, 5, char_byte c] @ replicate 11 0) h of
        (h1, b1, err1) \<Rightarrow>
          if err1 then (h1, None)
          else
            (case readreg lib fd REG_NAME REG_NAME_LEN h1 of
               (h2, b2, err2) \<Rightarrow> if err2 then (h2, None) else (h2, name_in b2)))"

definition get_max_pos :: "char \<Rightarrow> int" where
  "get_max_pos c =
     (if schar c \<ge> 65 \<and> schar c \<le> 69 then 5
      else if schar c > 69 \<and> schar c \<le> 72 then 8
      else 0)"

datatype listing = LIST_NONE | LIST_ALL | LIST_PRES | LIST_SHORT

text \<open>The names of the filters of one wheel, read for a listing; what was read is printed.\<close>

fun names_loop :: "'h hid \<Rightarrow> wheel_descr \<Rightarrow> int list \<Rightarrow> 'h \<Rightarrow> 'h" where
  "names_loop lib w [] h = h"
| "names_loop lib w (i # rest) h = names_loop lib w rest (fst (get_filter_name lib w i h))"

text \<open>The filters of one record of the EEPROM: the first one without a name ends the wheel.\<close>

fun record_loop :: "'h hid \<Rightarrow> wheel_descr \<Rightarrow> int list \<Rightarrow> 'h turret \<Rightarrow> 'h exiting + 'h turret" where
  "record_loop lib wl [] s = Inr s"
| "record_loop lib wl (i # rest) s =
     (case get_filter_name lib wl i (hw s) of
        (h, Some nm) \<Rightarrow> record_loop lib wl rest (s\<lparr>hw := h\<rparr>)
      | (h, None) \<Rightarrow>
          (case check_and_clear_err lib (wfd wl) (s\<lparr>hw := h\<rparr>) of
             Inl e \<Rightarrow> Inl e
           | Inr s1 \<Rightarrow>
               (case writereg lib (wfd wl) (REG_NAME # replicate 13 0) (hw s1) of
                  (h2, b2, err2) \<Rightarrow> Inr (s1\<lparr>hw := fst (readreg lib (wfd wl) REG_NAME REG_NAME_LEN h2)\<rparr>))))"

fun eeprom_loop :: "'h hid \<Rightarrow> wheel_descr \<Rightarrow> char list \<Rightarrow> 'h turret \<Rightarrow> 'h exiting + 'h turret" where
  "eeprom_loop lib wheel [] s = Inr s"
| "eeprom_loop lib wheel (c # cs) s =
     (let h = fst (getwname lib (wfd wheel) c (hw s)); wl = wheel\<lparr>wID := c, wmaxpos := get_max_pos c\<rparr> in
      case record_loop lib wl [1..wmaxpos wl] (s\<lparr>hw := h\<rparr>) of
        Inl e \<Rightarrow> Inl e
      | Inr s1 \<Rightarrow> eeprom_loop lib wheel cs s1)"

text \<open>\<open>list_props(verblevl, wheel)\<close>: the fields of the wheel are read from the device.\<close>

definition list_props :: "'h hid \<Rightarrow> listing \<Rightarrow> wheel_descr \<Rightarrow> 'h turret \<Rightarrow> 'h exiting + 'h turret \<times> wheel_descr" where
  "list_props lib verblevl wheel s =
     (if wfd wheel < 0 then Inr (s, wheel)
      else
        (case check_and_clear_err lib (wfd wheel) s of
           Inl e \<Rightarrow> Inl e
         | Inr s1 \<Rightarrow>
             (case readreg lib (wfd wheel) REG_INFO REG_INFO_LEN (hw s1) of
                (h2, b, err) \<Rightarrow>
                  if err then Inr (s1\<lparr>hw := h2\<rparr>, wheel)
                  else
                    (let w = wheel\<lparr>wID := char_of (unat (byte b 5)), wmaxpos := uint (byte b 4)\<rparr> in
                     if verblevl = LIST_ALL then
                       (case eeprom_loop lib w ''ABCDEFGH'' (s1\<lparr>hw := h2\<rparr>) of
                          Inl e \<Rightarrow> Inl e
                        | Inr s3 \<Rightarrow> Inr (s3, w))
                     else
                       (let (h3, nm) = getwname lib (wfd w) (wID w) h2;
                            w1 = (case nm of Some n \<Rightarrow> w\<lparr>wname := take 9 n\<rparr> | None \<Rightarrow> w);
                            h4 = (if verblevl = LIST_PRES then names_loop lib w1 [1..wmaxpos w1] h3 else h3)
                        in if verblevl = LIST_NONE then Inr (s1\<lparr>hw := h3\<rparr>, w1)
                           else
                             (case poll_regstatus lib (wfd w1) (s1\<lparr>hw := h4\<rparr>) of
                                Inl e \<Rightarrow> Inl e
                              | Inr (s5, pos) \<Rightarrow> Inr (s5, w1)))))))"

fun props_loop :: "'h hid \<Rightarrow> listing \<Rightarrow> wheel_descr list \<Rightarrow> 'h turret \<Rightarrow> 'h exiting + 'h turret \<times> wheel_descr list" where
  "props_loop lib listed [] s = Inr (s, [])"
| "props_loop lib listed (w # ws) s =
     (case list_props lib listed w s of
        Inl e \<Rightarrow> Inl e
      | Inr (s1, w1) \<Rightarrow>
          (case props_loop lib listed ws s1 of
             Inl e \<Rightarrow> Inl e
           | Inr (s2, ws2) \<Rightarrow> Inr (s2, w1 # ws2)))"

definition list_hw :: "'h hid \<Rightarrow> listing \<Rightarrow> wheel_descr list \<Rightarrow> 'h turret \<Rightarrow> 'h exiting + 'h turret \<times> wheel_descr list" where
  "list_hw lib listed found s =
     (if found = [] then Inl (NoTurrets, hw s)
      else if \<not> list_ex (\<lambda>w. wfd w > 0) found then Inl (NoAccess, hw s)
      else props_loop lib listed found s)"

text \<open>
  \<open>find_wheels\<close> on what udev enumerates: for each \<open>hidraw\<close> device the path of its node and, when it
  has a parent on the USB, the attributes of that. \<open>open_dev\<close> is \<open>open(2)\<close>; the fields that are
  not set have what the allocated memory holds, \<open>raw\<close>.
\<close>

record usb_parent =
  idVendor :: string
  idProduct :: string
  usb_serial :: string

fun find_wheels :: "(string \<Rightarrow> int) \<Rightarrow> (nat \<Rightarrow> wheel_descr) \<Rightarrow> (string \<times> usb_parent option) list \<Rightarrow> wheel_descr list \<Rightarrow> wheel_descr list" where
  "find_wheels open_dev raw [] Found = Found"
| "find_wheels open_dev raw ((devpath, None) # devs) Found = find_wheels open_dev raw devs Found"
| "find_wheels open_dev raw ((devpath, Some dev) # devs) Found =
     (if idVendor dev = ''10c4'' \<and> idProduct dev = ''82cd'' then
        (let fd = open_dev devpath in
         find_wheels open_dev raw devs
           (Found @ [(raw (length Found))\<lparr>wfd := (if fd < 0 then - 1 else fd), wserial := usb_serial dev\<rparr>]))
      else find_wheels open_dev raw devs Found)"

section \<open>Selection\<close>

record glob_pars =
  G_wheelID :: "string option"
  G_wheelName :: "string option"
  G_serial :: "string option"
  G_filterPos :: int
  G_filterName :: "string option"
  G_filterId :: "string option"
  reName :: bool
  setdef :: bool
  gohome :: bool
  showpos :: bool

record selection =
  wheel_id :: int
  filter_pos :: int
  max_pos :: int
  wheel_fd :: int
  wheel_chosen :: "nat option"

definition no_selection :: selection where
  "no_selection = \<lparr>wheel_id = - 1, filter_pos = - 1, max_pos = - 1, wheel_fd = - 1, wheel_chosen = None\<rparr>"

definition set_cur_wheel :: "wheel_descr list \<Rightarrow> nat \<Rightarrow> selection \<Rightarrow> selection" where
  "set_cur_wheel wheels idx sel =
     (let w = wheels ! idx in
      sel\<lparr>wheel_chosen := Some idx, wheel_id := schar (wID w), wheel_fd := wfd w, max_pos := wmaxpos w\<rparr>)"

text \<open>The loops that look for a wheel: a second match ends the program.\<close>

fun match_loop :: "(wheel_descr \<Rightarrow> bool) \<Rightarrow> wheel_descr list \<Rightarrow> nat list \<Rightarrow> selection \<Rightarrow> exit_reason + selection" where
  "match_loop P wheels [] sel = Inr sel"
| "match_loop P wheels (i # rest) sel =
     (if P (wheels ! i) then
        (if wheel_fd sel > 0 then Inl ManyWheels else match_loop P wheels rest (set_cur_wheel wheels i sel))
      else match_loop P wheels rest sel)"

definition by_serial :: "glob_pars \<Rightarrow> wheel_descr list \<Rightarrow> selection \<Rightarrow> exit_reason + selection" where
  "by_serial G wheels sel =
     (case G_serial G of
        None \<Rightarrow> Inr sel
      | Some sn \<Rightarrow>
          (case match_loop (\<lambda>w. wserial w = sn) wheels [0..<length wheels] sel of
             Inl e \<Rightarrow> Inl e
           | Inr sel1 \<Rightarrow> if wheel_fd sel1 < 0 then Inl WheelNotFound else Inr sel1))"

definition by_id :: "glob_pars \<Rightarrow> wheel_descr list \<Rightarrow> selection \<Rightarrow> exit_reason + selection" where
  "by_id G wheels sel =
     (let given = (case G_wheelID G of Some w \<Rightarrow> w | None \<Rightarrow> the (G_filterId G)); wID' = cat given 0 in
      if (wID' < 65 \<or> wID' > 72) \<or> (G_wheelID G \<noteq> None \<and> length (the (G_wheelID G)) \<noteq> 1) then Inl BadWheelId
      else if G_filterId G \<noteq> None \<and> length (the (G_filterId G)) \<noteq> 2 then Inl BadFilterId
      else
        (let sel1 = sel\<lparr>wheel_id := wID'\<rparr> in
         case (if reName G then Inr sel1
               else match_loop (\<lambda>w. schar (wID w) = wID') wheels [0..<length wheels] sel1) of
           Inl e \<Rightarrow> Inl e
         | Inr sel2 \<Rightarrow>
             if wheel_fd sel2 < 0 then Inl WheelNotFound
             else Inr (case G_filterId G of
                         Some fi \<Rightarrow> sel2\<lparr>filter_pos := cat fi 1 - 48\<rparr>
                       | None \<Rightarrow> sel2)))"

definition by_name :: "glob_pars \<Rightarrow> wheel_descr list \<Rightarrow> string \<Rightarrow> selection \<Rightarrow> exit_reason + selection" where
  "by_name G wheels nm sel =
     (case match_loop (\<lambda>w. wname w = nm) wheels [0..<length wheels] sel of
        Inl e \<Rightarrow> Inl e
      | Inr sel1 \<Rightarrow> if wheel_fd sel1 < 0 \<and> \<not> reName G then Inl WheelNotFound else Inr sel1)"

text \<open>\<open>search_f\<close>: the position of a filter name in a wheel; comparing with a missing name follows \<open>NULL\<close>.\<close>

fun search_loop :: "'h hid \<Rightarrow> string \<Rightarrow> wheel_descr \<Rightarrow> int list \<Rightarrow> 'h \<Rightarrow> 'h exiting + 'h \<times> int option" where
  "search_loop lib nm w [] h = Inr (h, None)"
| "search_loop lib nm w (i # rest) h =
     (case get_filter_name lib w i h of
        (h', None) \<Rightarrow> Inl (NullName, h')
      | (h', Some n) \<Rightarrow> if nm = n then Inr (h', Some i) else search_loop lib nm w rest h')"

definition search_f :: "'h hid \<Rightarrow> string \<Rightarrow> wheel_descr \<Rightarrow> 'h \<Rightarrow> 'h exiting + 'h \<times> int option" where
  "search_f lib nm w h = search_loop lib nm w [1..wmaxpos w] h"

fun search_all :: "'h hid \<Rightarrow> string \<Rightarrow> wheel_descr list \<Rightarrow> nat list \<Rightarrow> bool \<Rightarrow> 'h \<Rightarrow> selection
    \<Rightarrow> 'h exiting + 'h \<times> bool \<times> selection" where
  "search_all lib nm wheels [] found h sel = Inr (h, found, sel)"
| "search_all lib nm wheels (i # rest) found h sel =
     (case search_f lib nm (wheels ! i) h of
        Inl e \<Rightarrow> Inl e
      | Inr (h', None) \<Rightarrow> search_all lib nm wheels rest found h' sel
      | Inr (h', Some p) \<Rightarrow>
          if wheel_fd sel > 0 then Inl (ManyWheels, h')
          else search_all lib nm wheels rest True h' (set_cur_wheel wheels i (sel\<lparr>filter_pos := p\<rparr>)))"

definition by_filter_name :: "'h hid \<Rightarrow> wheel_descr list \<Rightarrow> string \<Rightarrow> 'h \<Rightarrow> selection \<Rightarrow> 'h exiting + 'h \<times> selection" where
  "by_filter_name lib wheels nm h sel =
     (case (case wheel_chosen sel of
              Some i \<Rightarrow>
                (case search_f lib nm (wheels ! i) h of
                   Inl e \<Rightarrow> Inl e
                 | Inr (h', None) \<Rightarrow> Inr (h', False, sel)
                 | Inr (h', Some p) \<Rightarrow> Inr (h', True, sel\<lparr>filter_pos := p\<rparr>))
            | None \<Rightarrow> search_all lib nm wheels [0..<length wheels] False h sel) of
        Inl e \<Rightarrow> Inl e
      | Inr (h', found, sel') \<Rightarrow> if found then Inr (h', sel') else Inl (FilterNotFound, h'))"

text \<open>\<open>check_args()\<close> behind \<open>list_hw\<close>, when no listing was asked for.\<close>

definition choose_wheel :: "glob_pars \<Rightarrow> wheel_descr list \<Rightarrow> exit_reason + selection" where
  "choose_wheel G wheels =
     (case by_serial G wheels no_selection of
        Inl e \<Rightarrow> Inl e
      | Inr sel \<Rightarrow>
          if G_wheelID G \<noteq> None \<or> G_filterId G \<noteq> None then by_id G wheels sel
          else (case G_wheelName G of Some nm \<Rightarrow> by_name G wheels nm sel | None \<Rightarrow> Inr sel))"

text \<open>The only turret is taken when none was selected; then the position, by number or by name.\<close>

definition choose_filter :: "'h hid \<Rightarrow> glob_pars \<Rightarrow> wheel_descr list \<Rightarrow> 'h \<Rightarrow> selection \<Rightarrow> 'h exiting + 'h \<times> selection" where
  "choose_filter lib G wheels h sel =
     (let sel1 = (if length wheels = 1 \<and> wheel_id sel < 0 then set_cur_wheel wheels 0 sel else sel);
          sel2 = (if G_filterPos G \<noteq> 0 then sel1\<lparr>filter_pos := G_filterPos G\<rparr> else sel1)
      in if filter_pos sel2 < 1 \<and> G_filterName G \<noteq> None \<and> \<not> reName G
         then by_filter_name lib wheels (the (G_filterName G)) h sel2 else Inr (h, sel2))"

text \<open>The last part, behind the selection of the wheel and of the filter.\<close>

definition final_checks :: "glob_pars \<Rightarrow> 'h \<times> selection \<Rightarrow> 'h exiting + 'h \<times> glob_pars \<times> selection" where
  "final_checks G x =
     (case x of (h', sel3) \<Rightarrow>
        if wheel_fd sel3 < 0 then Inl (WheelNotFound, h')
        else
          (let G1 = (if reName G \<and> G_wheelID G = None
                     then G\<lparr>G_wheelID := Some [char_of (nat (wheel_id sel3 mod 256))]\<rparr> else G);
               G2 = (if filter_pos sel3 < 1 \<and> \<not> gohome G1 then G1\<lparr>showpos := True\<rparr> else G1)
           in if showpos G2 \<or> setdef G2 \<or> gohome G2 then Inr (h', G2, sel3)
              else
                (let sel4 = (if reName G2
                             then sel3\<lparr>max_pos := get_max_pos (char_of (nat (wheel_id sel3 mod 256)))\<rparr> else sel3)
                 in if filter_pos sel4 < 1 \<or> filter_pos sel4 > max_pos sel4 then Inl (BadPosition, h')
                    else Inr (h', G2, sel4))))"

definition check_args :: "'h hid \<Rightarrow> glob_pars \<Rightarrow> wheel_descr list \<Rightarrow> 'h \<Rightarrow> 'h exiting + 'h \<times> glob_pars \<times> selection" where
  "check_args lib G wheels h =
     (case choose_wheel G wheels of
        Inl e \<Rightarrow> Inl (e, h)
      | Inr sel \<Rightarrow>
          (case choose_filter lib G wheels h sel of
             Inl e \<Rightarrow> Inl e
           | Inr x \<Rightarrow> final_checks G x))"

section \<open>Renaming\<close>

definition name_bytes :: "string \<Rightarrow> u8 list" where
  "name_bytes nm = map char_byte nm"

text \<open>The buffer of a rename: the command, the wheel, the position and the name from byte 4 on.\<close>

definition rename_buf :: "u8 \<Rightarrow> selection \<Rightarrow> string \<Rightarrow> u8 list \<Rightarrow> u8 list" where
  "rename_buf cmd sel nm buf =
     (let b1 = buf[0 := REG_NAME, 1 := cmd];
          b2 = (if cmd \<noteq> 1 then take 4 (b1[2 := word_of_int (wheel_id sel)]) @ name_bytes nm @ drop (4 + length nm) b1 else b1)
      in if cmd = 2 then b2[3 := word_of_int (filter_pos sel)] else b2)"

fun rename_loop :: "'h hid \<Rightarrow> u8 \<Rightarrow> string \<Rightarrow> selection \<Rightarrow> nat \<Rightarrow> u8 list \<Rightarrow> 'h turret \<Rightarrow> 'h exiting + 'h turret" where
  "rename_loop lib cmd nm sel 0 buf s = Inl (CantRename, hw s)"
| "rename_loop lib cmd nm sel (Suc n) buf s =
     (case writereg lib (wheel_fd sel) (rename_buf cmd sel nm buf) (hw s) of
        (h1, b1, err1) \<Rightarrow>
          if err1 then rename_loop lib cmd nm sel n b1 (s\<lparr>hw := h1\<rparr>)
          else
            (case readreg lib (wheel_fd sel) REG_NAME REG_NAME_LEN h1 of
               (h2, b2, err2) \<Rightarrow>
                 if err2 then rename_loop lib cmd nm sel n b2 (s\<lparr>hw := h2\<rparr>)
                 else if byte b2 2 \<noteq> 0 then
                   (case check_and_clear_err lib (wheel_fd sel) (s\<lparr>hw := h2\<rparr>) of
                      Inl e \<Rightarrow> Inl e
                    | Inr s3 \<Rightarrow> rename_loop lib cmd nm sel n b2 s3)
                 else if take (length nm) (drop 6 b2) \<noteq> name_bytes nm then
                   rename_loop lib cmd nm sel n b2 (s\<lparr>hw := h2\<rparr>)
                 else Inr (s\<lparr>hw := h2\<rparr>)))"

definition rename_hw :: "'h hid \<Rightarrow> glob_pars \<Rightarrow> selection \<Rightarrow> 'h turret \<Rightarrow> 'h exiting + 'h turret" where
  "rename_hw lib G sel s =
     (case check_and_clear_err lib (wheel_fd sel) s of
        Inl e \<Rightarrow> Inl e
      | Inr s1 \<Rightarrow>
          (let (cmd, nm) =
             (if setdef G then (1, [])
              else if G_filterName G \<noteq> None \<and> (G_filterId G \<noteq> None \<or> G_filterPos G \<noteq> 0) then (2, the (G_filterName G))
              else if G_wheelName G \<noteq> None \<and> (G_wheelID G \<noteq> None \<or> G_filterId G \<noteq> None) then (4, the (G_wheelName G))
              else (0, []))
           in if length nm > 8 then Inl (NameTooLong, hw s1)
              else if cmd = 0 then Inl (NothingToRename, hw s1)
              else rename_loop lib cmd nm sel 10 (replicate REG_NAME_LEN 0) s1))"

text \<open>\<open>process_args()\<close>; the position that is printed is the last component.\<close>

definition process_args :: "'h hid \<Rightarrow> glob_pars \<Rightarrow> selection \<Rightarrow> 'h turret \<Rightarrow> 'h exiting + 'h turret \<times> nat \<times> u8 option" where
  "process_args lib G sel s =
     (if wheel_id sel < 0 then Inr (s, 1, None)
      else if reName G \<or> setdef G then
        (case rename_hw lib G sel s of Inl e \<Rightarrow> Inl e | Inr s' \<Rightarrow> Inr (s', 0, None))
      else if showpos G then
        (case poll_regstatus lib (wheel_fd sel) s of Inl e \<Rightarrow> Inl e | Inr (s', p) \<Rightarrow> Inr (s', 0, Some p))
      else if gohome G then
        (case go_home lib (wheel_fd sel) s of Inl e \<Rightarrow> Inl e | Inr s' \<Rightarrow> Inr (s', 0, None))
      else if filter_pos sel < 0 then Inr (s, 1, None)
      else
        (case move_wheel lib (wheel_fd sel) (filter_pos sel) s of
           Inl e \<Rightarrow> Inl e
         | Inr (s', r) \<Rightarrow> Inr (s', r, None)))"

text \<open>\<open>main()\<close> behind \<open>parse_args\<close>: with a listing, \<open>check_args\<close> returns with no wheel selected.\<close>

definition hsfw_main :: "'h hid \<Rightarrow> listing \<Rightarrow> glob_pars \<Rightarrow> wheel_descr list \<Rightarrow> 'h turret \<Rightarrow> 'h exiting + 'h turret \<times> nat \<times> u8 option" where
  "hsfw_main lib listNms G found s =
     (case list_hw lib listNms found s of
        Inl e \<Rightarrow> Inl e
      | Inr (s1, wheels) \<Rightarrow>
          if listNms \<noteq> LIST_NONE then process_args lib G no_selection s1
          else
            (case check_args lib G wheels (hw s1) of
               Inl e \<Rightarrow> Inl e
             | Inr (h2, G2, sel) \<Rightarrow> process_args lib G2 sel (s1\<lparr>hw := h2\<rparr>)))"

section \<open>What is sent\<close>

text \<open>An invariant of the hardware that reading keeps, and writing the commands \<open>cmds\<close>.\<close>

locale command_invariant =
  fixes lib :: "'h hid" and I :: "'h \<Rightarrow> bool" and cmds :: "u8 list set"
  assumes get_keeps: "I h \<Longrightarrow> I (fst (get_feature lib fd h buf))"
    and set_keeps: "I h \<Longrightarrow> buf \<in> cmds \<Longrightarrow> I (fst (set_feature lib fd h buf))"
begin

lemma readreg_keeps: "I h \<Longrightarrow> readreg lib fd r l h = (h', b, e) \<Longrightarrow> I h'"
  using get_keeps [of h fd "r # replicate (l - 1) 0"] by (auto simp: readreg_def split: prod.splits)

lemma writereg_keeps: "I h \<Longrightarrow> buf \<in> cmds \<Longrightarrow> writereg lib fd buf h = (h', b, e) \<Longrightarrow> I h'"
  using set_keeps [of h buf fd] by (auto simp: writereg_def split: prod.splits)

lemma poll_loop_keeps:
  "I h \<Longrightarrow> case poll_loop lib fd n buf h of Inl (e, h') \<Rightarrow> I h' | Inr (h', b) \<Rightarrow> I h'"
proof (induction n arbitrary: buf h)
  case (Suc n)
  obtain h1 b1 e1 where r: "readreg lib fd REG_STATUS REG_STATUS_LEN h = (h1, b1, e1)" by (metis prod_cases3)
  then have i: "I h1" using readreg_keeps Suc.prems by blast
  then show ?case using r Suc.IH [OF i, of b1] by simp
qed simp

lemma poll_keeps: "I (hw s) \<Longrightarrow> poll_regstatus lib fd s = Inr (s', p) \<Longrightarrow> I (hw s')"
  using poll_loop_keeps [of "hw s" fd 300 "[]"] by (auto simp: poll_regstatus_def split: sum.splits)

lemma poll_exit_keeps: "I (hw s) \<Longrightarrow> poll_regstatus lib fd s = Inl (e, h') \<Longrightarrow> I h'"
  using poll_loop_keeps [of "hw s" fd 300 "[]"] by (auto simp: poll_regstatus_def split: sum.splits)

lemma status_loop_keeps: "I h \<Longrightarrow> status_loop lib fd n buf h = (h', b, k) \<Longrightarrow> I h'"
proof (induction n arbitrary: buf h)
  case (Suc n)
  obtain h1 b1 e1 where r: "readreg lib fd REG_STATUS REG_STATUS_LEN h = (h1, b1, e1)" by (metis prod_cases3)
  then have i: "I h1" using readreg_keeps Suc.prems by blast
  then show ?case using Suc.prems r Suc.IH [OF i, of b1] by (cases e1) simp_all
qed simp

lemma clear_loop_keeps: "[REG_CLERR, 0] \<in> cmds \<Longrightarrow> I h \<Longrightarrow> I (clear_loop lib fd n h)"
proof (induction n arbitrary: h)
  case (Suc n)
  obtain h1 b1 e1 where w: "writereg lib fd [REG_CLERR, 0] h = (h1, b1, e1)" by (metis prod_cases3)
  obtain h2 b2 e2 where r: "readreg lib fd REG_STATUS REG_STATUS_LEN h1 = (h2, b2, e2)" by (metis prod_cases3)
  have i1: "I h1" using writereg_keeps Suc.prems w by blast
  have i2: "I h2" using readreg_keeps i1 r by blast
  show ?case using w r i2 Suc.IH [OF Suc.prems(1) i1] Suc.IH [OF Suc.prems(1) i2] by simp
qed simp

lemma command_loop_keeps: "cmd \<in> cmds \<Longrightarrow> I h \<Longrightarrow> command_loop lib fd n cmd h = (h', ok) \<Longrightarrow> I h'"
proof (induction n arbitrary: h)
  case (Suc n)
  obtain h1 b1 e1 where w: "writereg lib fd cmd h = (h1, b1, e1)" by (metis prod_cases3)
  obtain h2 b2 e2 where r: "readreg lib fd (byte cmd 0) 3 h1 = (h2, b2, e2)" by (metis prod_cases3)
  obtain h3 b3 e3 where r3: "readreg lib fd (byte cmd 0) 3 h2 = (h3, b3, e3)" by (metis prod_cases3)
  have i1: "I h1" using writereg_keeps Suc.prems w by blast
  have i2: "I h2" using readreg_keeps i1 r by blast
  have i3: "I h3" using readreg_keeps i2 r3 by blast
  consider "e1" | "\<not> e1" "e2 \<or> byte b2 1 \<noteq> 0xff" | "\<not> e1" "\<not> (e2 \<or> byte b2 1 \<noteq> 0xff)" by blast
  then show ?case
  proof cases
    case 1
    then show ?thesis using Suc.IH [OF Suc.prems(1) i1] Suc.prems(3) w by simp
  next
    case 2
    then show ?thesis using Suc.IH [OF Suc.prems(1) i2] Suc.prems(3) w r by simp
  next
    case 3
    then show ?thesis using i3 Suc.prems(3) w r r3 by simp
  qed
qed simp

end

text \<open>What a return of \<open>go_home\<close> went through.\<close>

lemma go_home_returns:
  assumes e: "go_home lib fd s = Inr s'"
  obtains s1 p1 h2 s3 p3 where "\<not> nruns s + 1 > 10"
    "poll_regstatus lib fd (s\<lparr>nruns := nruns s + 1\<rparr>) = Inr (s1, p1)"
    "command_loop lib fd 10 [REG_HOME, 0, 0] (hw s1) = (h2, True)"
    "poll_regstatus lib fd (s1\<lparr>hw := h2\<rparr>) = Inr (s3, p3)" "check_and_clear_err lib fd s3 = Inr s'"
proof -
  have n: "\<not> nruns s + 1 > 10" using e by (auto simp: go_home.simps)
  obtain s1 p1 where p1: "poll_regstatus lib fd (s\<lparr>nruns := nruns s + 1\<rparr>) = Inr (s1, p1)"
    using e n by (auto simp: go_home.simps split: sum.splits)
  obtain h2 where c: "command_loop lib fd 10 [REG_HOME, 0, 0] (hw s1) = (h2, True)"
    using e n p1 by (auto simp: go_home.simps split: sum.splits prod.splits bool.splits)
  obtain s3 p3 where p3: "poll_regstatus lib fd (s1\<lparr>hw := h2\<rparr>) = Inr (s3, p3)"
    using e n p1 c by (auto simp: go_home.simps split: sum.splits)
  have k: "check_and_clear_err lib fd s3 = Inr s'" using e n p1 c p3 by (simp add: go_home.simps)
  show ?thesis using that [OF n p1 c p3 k] .
qed

text \<open>The hardware when a function has returned or the program has ended.\<close>

definition left_hw :: "'h exiting + 'h turret \<Rightarrow> 'h" where
  "left_hw r = (case r of Inl (e, h) \<Rightarrow> h | Inr s \<Rightarrow> hw s)"

definition end_hw :: "'h exiting + 'h turret \<times> 'a \<Rightarrow> 'h" where
  "end_hw r = (case r of Inl (e, h) \<Rightarrow> h | Inr (s, x) \<Rightarrow> hw s)"

lemma left_hw_simps [simp]: "left_hw (Inl (e, h)) = h" "left_hw (Inr s) = hw s"
  by (simp_all add: left_hw_def)

lemma end_hw_simps [simp]: "end_hw (Inl (e, h)) = h" "end_hw (Inr (s, x)) = hw s"
  by (simp_all add: end_hw_def)

lemma check_home_keeps:
  fixes lib lib' :: "'h hid"
  shows
  "command_invariant lib I cmds \<longrightarrow> {[REG_CLERR, 0], [REG_HOME, 0, 0]} \<subseteq> cmds \<longrightarrow> I (hw s) \<longrightarrow>
      I (left_hw (check_and_clear_err lib fd s))"
  "command_invariant lib' I cmds \<longrightarrow> {[REG_CLERR, 0], [REG_HOME, 0, 0]} \<subseteq> cmds \<longrightarrow> I (hw t) \<longrightarrow>
      I (left_hw (go_home lib' fd' t))"
proof (induction lib fd s and lib' fd' t rule: check_and_clear_err_go_home.induct)
  case (1 lib fd s)
  show ?case
  proof (intro impI)
    assume a: "command_invariant lib I cmds" "{[REG_CLERR, 0], [REG_HOME, 0, 0]} \<subseteq> cmds" "I (hw s)"
    obtain h buf left where l: "status_loop lib fd 10 [] (hw s) = (h, buf, left)" by (metis prod_cases3)
    define h1 where "h1 = (if byte buf 5 \<noteq> 0 then clear_loop lib fd 10 h else h)"
    obtain h2 b2 err2 where r: "readreg lib fd REG_STATUS REG_STATUS_LEN h1 = (h2, b2, err2)" by (metis prod_cases3)
    have i: "I h" using command_invariant.status_loop_keeps a(1,3) l by metis
    have i1: "I h1" using command_invariant.clear_loop_keeps [OF a(1)] i a(2) by (simp add: h1_def)
    have i2: "I h2" using command_invariant.readreg_keeps a(1) i1 r by metis
    show "I (left_hw (check_and_clear_err lib fd s))"
    proof (cases "left = 0 \<or> byte buf 1 = 0xff \<or> byte b2 1 = 0xff")
      case True
      then show ?thesis using l r i i2
        by (simp add: check_and_clear_err.simps [of lib] h1_def [symmetric] Let_def) auto
    next
      case False
      then have ih: "I (left_hw (go_home lib fd (s\<lparr>hw := h2\<rparr>)))"
        using "1.IH" [OF l [symmetric] refl _ _ h1_def r [symmetric] refl] a i2 by auto
      have rd: "I (fst (readreg lib fd REG_STATUS REG_STATUS_LEN g))" if "I g" for g
        using command_invariant.readreg_keeps [OF a(1) that] by (metis prod_cases3 fst_conv)
      show ?thesis
      proof (cases "go_home lib fd (s\<lparr>hw := h2\<rparr>)")
        case (Inl eh)
        then show ?thesis using False l r ih
          by (cases eh) (simp add: check_and_clear_err.simps [of lib] h1_def [symmetric] Let_def)
      next
        case (Inr s')
        then show ?thesis using False l r ih rd
          by (simp add: check_and_clear_err.simps [of lib] h1_def [symmetric] Let_def)
      qed
    qed
  qed
next
  case (2 lib fd s)
  show ?case
  proof (intro impI)
    assume a: "command_invariant lib I cmds" "{[REG_CLERR, 0], [REG_HOME, 0, 0]} \<subseteq> cmds" "I (hw s)"
    note out = command_invariant.poll_exit_keeps [OF a(1)] and on = command_invariant.poll_keeps [OF a(1)]
    let ?s = "s\<lparr>nruns := nruns s + 1\<rparr>"
    show "I (left_hw (go_home lib fd s))"
    proof (cases "nruns s + 1 > 10 \<or> (\<exists>e h. poll_regstatus lib fd ?s = Inl (e, h))")
      case True
      then show ?thesis using out [of ?s] a(3) by (auto simp: go_home.simps)
    next
      case False
      then obtain s1 p1 where n: "\<not> nruns s + 1 > 10" and p1: "poll_regstatus lib fd ?s = Inr (s1, p1)"
        by (cases "poll_regstatus lib fd ?s") auto
      have i1: "I (hw s1)" using on [OF _ p1] a(3) by simp
      obtain h2 ok where c: "command_loop lib fd 10 [REG_HOME, 0, 0] (hw s1) = (h2, ok)" by fastforce
      then have i2: "I h2" using command_invariant.command_loop_keeps [OF a(1) _ i1] a(2) by blast
      show ?thesis
      proof (cases "ok \<and> (\<exists>s3 p3. poll_regstatus lib fd (s1\<lparr>hw := h2\<rparr>) = Inr (s3, p3))")
        case True
        then obtain s3 p3 where k: "ok" "poll_regstatus lib fd (s1\<lparr>hw := h2\<rparr>) = Inr (s3, p3)" by blast
        then have i3: "I (hw s3)" using on [OF _ k(2)] i2 by simp
        show ?thesis using "2.IH" [OF n p1 refl _ _ k(2)] c k n p1 i3 a by (simp add: go_home.simps)
      next
        case False
        then show ?thesis using out [of "s1\<lparr>hw := h2\<rparr>"] n p1 c i2
          by (auto simp: go_home.simps split: sum.splits bool.splits)
      qed
    qed
  qed
qed

text \<open>A device that records the commands that it is sent.\<close>

definition logged :: "'h hid \<Rightarrow> ('h \<times> u8 list list) hid" where
  "logged lib =
     \<lparr>set_feature = \<lambda>fd h buf. (case set_feature lib fd (fst h) buf of (h', r, b) \<Rightarrow> ((h', snd h @ [buf]), r, b)),
      get_feature = \<lambda>fd h buf. (case get_feature lib fd (fst h) buf of (h', r, b) \<Rightarrow> ((h', snd h), r, b))\<rparr>"

definition sent_only :: "u8 list set \<Rightarrow> 'h \<times> u8 list list \<Rightarrow> bool" where
  "sent_only cmds h \<longleftrightarrow> set (snd h) \<subseteq> cmds"

interpretation logged: command_invariant "logged lib" "sent_only cmds" cmds for lib cmds
  by unfold_locales (auto simp: logged_def sent_only_def split: prod.splits)

lemma logged_check_home:
  assumes "{[REG_CLERR, 0], [REG_HOME, 0, 0]} \<subseteq> cmds" "sent_only cmds (hw s)"
  shows "sent_only cmds (left_hw (check_and_clear_err (logged lib) fd s))"
    and "sent_only cmds (left_hw (go_home (logged lib) fd s))"
  using check_home_keeps assms logged.command_invariant_axioms by blast+

lemma logged_poll: "sent_only cmds (hw s) \<Longrightarrow> sent_only cmds (end_hw (poll_regstatus (logged lib) fd s))"
proof (cases "poll_regstatus (logged lib) fd s")
  case (Inl eh)
  then show "sent_only cmds (hw s) \<Longrightarrow> ?thesis" using logged.poll_exit_keeps by (cases eh) fastforce
next
  case (Inr sp)
  then show "sent_only cmds (hw s) \<Longrightarrow> ?thesis" using logged.poll_keeps by (cases sp) fastforce
qed

lemma logged_move:
  assumes c: "{[REG_CLERR, 0], [REG_HOME, 0, 0], [REG_GOTO, word_of_int pos, 0]} \<subseteq> cmds" "sent_only cmds (hw s)"
  shows "sent_only cmds (end_hw (move_wheel (logged lib) fd pos s))"
proof (cases "fd < 0 \<or> (\<exists>e h. poll_regstatus (logged lib) fd s = Inl (e, h))")
  case True
  then show ?thesis
  proof (elim disjE exE)
    fix e h assume "poll_regstatus (logged lib) fd s = Inl (e, h)"
    then show ?thesis using logged.poll_exit_keeps [OF c(2)] c(2) by (cases "fd < 0") (simp_all add: move_wheel_def)
  qed (use c(2) in \<open>simp add: move_wheel_def\<close>)
next
  case False
  then obtain s1 p where p1: "\<not> fd < 0" "poll_regstatus (logged lib) fd s = Inr (s1, p)"
    by (cases "poll_regstatus (logged lib) fd s") auto
  then have i1: "sent_only cmds (hw s1)" using logged.poll_keeps c by blast
  obtain h2 ok where l: "command_loop (logged lib) fd 10 [REG_GOTO, word_of_int pos, 0] (hw s1) = (h2, ok)" by fastforce
  then have i2: "sent_only cmds h2" using logged.command_loop_keeps [OF _ i1 l] c by simp
  show ?thesis
  proof (cases "pos \<noteq> uint p \<and> ok \<and> (\<exists>s3 q. poll_regstatus (logged lib) fd (s1\<lparr>hw := h2\<rparr>) = Inr (s3, q))")
    case True
    then obtain s3 q where k: "pos \<noteq> uint p" "ok" "poll_regstatus (logged lib) fd (s1\<lparr>hw := h2\<rparr>) = Inr (s3, q)" by blast
    then have i3: "sent_only cmds (hw s3)" using logged.poll_keeps [OF _ k(3)] i2 by simp
    define r where "r = check_and_clear_err (logged lib) fd s3"
    have "sent_only cmds (left_hw r)" using logged_check_home(1) [OF _ i3] c(1) by (simp add: r_def)
    then show ?thesis using p1 l k by (cases r; cases "projl r") (simp_all add: move_wheel_def r_def [symmetric])
  next
    case False
    define r where "r = poll_regstatus (logged lib) fd (s1\<lparr>hw := h2\<rparr>)"
    have "r = Inl (e, h) \<Longrightarrow> sent_only cmds h" for e h
      using logged.poll_exit_keeps [of cmds "s1\<lparr>hw := h2\<rparr>"] i2 by (auto simp: r_def)
    moreover have "pos = uint p \<or> \<not> ok \<or> (\<exists>e h. r = Inl (e, h))"
      using False [folded r_def] by (cases r) auto
    ultimately show ?thesis using p1 l i1 i2
      by (elim disjE exE) (simp_all add: move_wheel_def r_def [symmetric] split: bool.split)
  qed
qed

lemma final_checks_result:
  assumes "final_checks G x = Inr (h', G', sel)"
  shows "wheel_fd sel \<ge> 0 \<and> reName G' = reName G \<and> setdef G' = setdef G \<and> gohome G' = gohome G \<and>
    (showpos G' \<or> setdef G' \<or> gohome G' \<or> (1 \<le> filter_pos sel \<and> filter_pos sel \<le> max_pos sel))"
proof -
  obtain h3 sel3 where x: "x = (h3, sel3)" by fastforce
  define G1 where "G1 = (if reName G \<and> G_wheelID G = None
    then G\<lparr>G_wheelID := Some [char_of (nat (wheel_id sel3 mod 256))]\<rparr> else G)"
  define G2 where "G2 = (if filter_pos sel3 < 1 \<and> \<not> gohome G1 then G1\<lparr>showpos := True\<rparr> else G1)"
  have g: "reName G2 = reName G" "setdef G2 = setdef G" "gohome G2 = gohome G" by (simp_all add: G1_def G2_def)
  show ?thesis using assms unfolding final_checks_def x G1_def [symmetric] Let_def prod.case G2_def [symmetric]
    by (simp split: if_split_asm; use g in force)
qed

text \<open>Without a request for renaming, \<open>process_args\<close> does one of four things to the device.\<close>

lemma process_args_result:
  assumes "\<not> reName G" "\<not> setdef G"
  shows "end_hw (process_args lib G sel s) \<in>
    {hw s, end_hw (poll_regstatus lib (wheel_fd sel) s), left_hw (go_home lib (wheel_fd sel) s)} \<or>
    (\<not> showpos G \<and> \<not> gohome G \<and>
     end_hw (process_args lib G sel s) = end_hw (move_wheel lib (wheel_fd sel) (filter_pos sel) s))"
  using assms
  by (cases "wheel_id sel < 0"; cases "showpos G"; cases "gohome G"; cases "filter_pos sel < 0")
    (auto simp: process_args_def split: sum.splits)

lemma check_args_result:
  assumes "check_args lib G wheels h = Inr (h', G', sel)"
  shows "wheel_fd sel \<ge> 0 \<and> reName G' = reName G \<and> setdef G' = setdef G \<and> gohome G' = gohome G \<and>
    (showpos G' \<or> setdef G' \<or> gohome G' \<or> (1 \<le> filter_pos sel \<and> filter_pos sel \<le> max_pos sel))"
proof -
  obtain x where "final_checks G x = Inr (h', G', sel)"
    using assms unfolding check_args_def by (auto split: sum.splits)
  then show ?thesis by (rule final_checks_result)
qed

text \<open>
  C13. When neither a new name nor the reset of the names is asked for: whether \<open>process_args\<close> returns or ends the
  program, every command that it has sent by then clears an error, moves home, or moves the wheel to the position that
  \<open>check_args\<close> selected, and that position is between 1 and the number of positions of the wheel. The device
  records what it is sent.
\<close>

theorem process_args_commands:
  assumes a: "check_args lib0 G wheels h0 = Inr (h', G', sel)" and n: "\<not> reName G" "\<not> setdef G"
    and l: "snd (hw s) = []"
  shows "\<forall>cmd \<in> set (snd (end_hw (process_args (logged lib) G' sel s))).
           cmd = [REG_CLERR, 0] \<or> cmd = [REG_HOME, 0, 0] \<or>
           (cmd = [REG_GOTO, word_of_int (filter_pos sel), 0] \<and> 1 \<le> filter_pos sel \<and> filter_pos sel \<le> max_pos sel)"
proof -
  let ?goto = "[REG_GOTO, word_of_int (filter_pos sel), 0]"
  let ?inrange = "1 \<le> filter_pos sel \<and> filter_pos sel \<le> max_pos sel"
  let ?cmds = "{[REG_CLERR, 0], [REG_HOME, 0, 0]} \<union> (if ?inrange then {?goto} else {})"
  let ?out = "end_hw (process_args (logged lib) G' sel s)"
  have s0: "sent_only ?cmds (hw s)" using l by (simp add: sent_only_def)
  have rs: "\<not> reName G'" "\<not> setdef G'" using check_args_result [OF a] n by auto
  have "sent_only ?cmds ?out" using process_args_result [OF rs, of "logged lib" sel s]
  proof (elim disjE conjE)
    assume "\<not> showpos G'" "\<not> gohome G'" and e: "?out = end_hw (move_wheel (logged lib) (wheel_fd sel) (filter_pos sel) s)"
    then have "?inrange" using check_args_result [OF a] rs by auto
    then have c: "{[REG_CLERR, 0], [REG_HOME, 0, 0], ?goto} \<subseteq> ?cmds" by simp
    show ?thesis unfolding e by (rule logged_move [OF c s0])
  qed (use s0 logged_poll [OF s0] logged_check_home(2) [OF Un_upper1 s0] in auto)
  then show ?thesis by (auto simp: sent_only_def split: if_split_asm)
qed

text \<open>
  A turret with five positions for the examples: it is at home, answers 0xff to \<open>GOTO\<close>, and moves at
  once. Its state is the position.
\<close>

definition sim_turret :: "u8 hid" where
  "sim_turret =
     \<lparr>set_feature = \<lambda>fd pos buf. (if byte buf 0 = REG_GOTO then byte buf 1 else pos, 0, buf),
      get_feature = \<lambda>fd pos buf.
        (pos, 0,
         if byte buf 0 = REG_STATUS then [REG_STATUS, 0xff, 0, 0, pos, 0]
         else if byte buf 0 = REG_INFO then [REG_INFO, 0, 0, 0, 5, 65, 0]
         else if byte buf 0 = REG_NAME then REG_NAME # replicate 5 0 @ [66 + pos, 0]
         else [byte buf 0, 0xff, 0])\<rparr>"

definition sim_wheel :: wheel_descr where
  "sim_wheel = \<lparr>wfd = 3, wserial = ''001'', wID = CHR ''A'', wname = ''W'', wmaxpos = 5\<rparr>"

definition no_pars :: glob_pars where
  "no_pars = \<lparr>G_wheelID = None, G_wheelName = None, G_serial = None, G_filterPos = 0, G_filterName = None,
     G_filterId = None, reName = False, setdef = False, gohome = False, showpos = False\<rparr>"

definition sim_sel :: selection where
  "sim_sel = \<lparr>wheel_id = 65, filter_pos = 4, max_pos = 5, wheel_fd = 3, wheel_chosen = Some 0\<rparr>"

lemma sim_check_args:
  "check_args sim_turret (no_pars\<lparr>G_filterPos := 4\<rparr>) [sim_wheel] 1 = Inr (1, no_pars\<lparr>G_filterPos := 4\<rparr>, sim_sel)"
  by code_simp

lemma sim_process:
  "process_args (logged sim_turret) (no_pars\<lparr>G_filterPos := 4\<rparr>) sim_sel \<lparr>hw = (1, []), nruns = 0\<rparr> =
     Inr (\<lparr>hw = (4, [[REG_GOTO, 4, 0]]), nruns = 0\<rparr>, 0, None)"
  by code_simp

text \<open>The same turret, whose status has an error after the move: the program ends, with the command sent.\<close>

definition stuck_turret :: "u8 hid" where
  "stuck_turret = sim_turret\<lparr>get_feature := \<lambda>fd pos buf.
     (pos, 0, if byte buf 0 = REG_STATUS then [REG_STATUS, 0xff, 0, 0, pos, if pos = 1 then 0 else 7] else [byte buf 0, 0xff, 0])\<rparr>"

lemma stuck_process:
  "process_args (logged stuck_turret) (no_pars\<lparr>G_filterPos := 4\<rparr>) sim_sel \<lparr>hw = (1, []), nruns = 0\<rparr> =
     Inl (ErrorOccured, (4, [[REG_GOTO, 4, 0]]))"
  by code_simp

theorem process_args_commands_witness:
  "snd (end_hw (process_args (logged sim_turret) (no_pars\<lparr>G_filterPos := 4\<rparr>) sim_sel \<lparr>hw = (1, []), nruns = 0\<rparr>)) = [[REG_GOTO, 4, 0]] \<and>
   snd (end_hw (process_args (logged stuck_turret) (no_pars\<lparr>G_filterPos := 4\<rparr>) sim_sel \<lparr>hw = (1, []), nruns = 0\<rparr>)) = [[REG_GOTO, 4, 0]] \<and>
   [REG_GOTO, 4, 0] = [REG_GOTO, word_of_int (filter_pos sim_sel), 0 :: u8] \<and> filter_pos sim_sel \<le> max_pos sim_sel"
proof -
  have "\<forall>cmd \<in> set [[REG_GOTO, 4, 0 :: u8]]. cmd = [REG_CLERR, 0] \<or> cmd = [REG_HOME, 0, 0] \<or>
      (cmd = [REG_GOTO, word_of_int (filter_pos sim_sel), 0] \<and> 1 \<le> filter_pos sim_sel \<and> filter_pos sim_sel \<le> max_pos sim_sel)"
    using process_args_commands [OF sim_check_args, of "\<lparr>hw = (1, []), nruns = 0\<rparr>" stuck_turret]
    unfolding stuck_process by (simp add: no_pars_def)
  then show ?thesis by (simp add: sim_process stuck_process)
qed

section \<open>Homing\<close>

text \<open>A device that never reports 0xff in byte 1 is not at home.\<close>

lemma status_loop_read:
  "status_loop lib fd n buf h = (h', b, Suc k) \<Longrightarrow> \<exists>h0. b = fst (snd (readreg lib fd REG_STATUS REG_STATUS_LEN h0))"
proof (induction n arbitrary: buf h)
  case (Suc n)
  obtain h1 b1 e1 where r: "readreg lib fd REG_STATUS REG_STATUS_LEN h = (h1, b1, e1)" by (metis prod_cases3)
  show ?case
  proof (cases e1)
    case True
    then show ?thesis using Suc.IH [of b1 h1] Suc.prems r by simp
  next
    case False
    then show ?thesis using Suc.prems r by (intro exI [of _ h]) simp
  qed
qed simp

lemma never_home_check:
  fixes lib lib' :: "'h hid"
  shows
  "(\<forall>h. byte (fst (snd (readreg lib fd REG_STATUS REG_STATUS_LEN h))) 1 \<noteq> 0xff) \<longrightarrow> (\<exists>e. check_and_clear_err lib fd s = Inl e)"
  "(\<forall>h. byte (fst (snd (readreg lib' fd' REG_STATUS REG_STATUS_LEN h))) 1 \<noteq> 0xff) \<longrightarrow> (\<exists>e. go_home lib' fd' t = Inl e)"
proof (induction lib fd s and lib' fd' t rule: check_and_clear_err_go_home.induct)
  case (1 lib fd s)
  show ?case
  proof
    assume a: "\<forall>h. byte (fst (snd (readreg lib fd REG_STATUS REG_STATUS_LEN h))) 1 \<noteq> 0xff"
    obtain h buf left where l: "status_loop lib fd 10 [] (hw s) = (h, buf, left)" by (metis prod_cases3)
    define h1 where "h1 = (if byte buf 5 \<noteq> 0 then clear_loop lib fd 10 h else h)"
    obtain h2 b2 err2 where r: "readreg lib fd REG_STATUS REG_STATUS_LEN h1 = (h2, b2, err2)" by (metis prod_cases3)
    have b2: "byte b2 1 \<noteq> 0xff" using a r by (metis fst_conv snd_conv)
    show "\<exists>e. check_and_clear_err lib fd s = Inl e"
    proof (cases left)
      case 0
      then show ?thesis using l by (simp add: check_and_clear_err.simps [of lib])
    next
      case (Suc k)
      then have b: "byte buf 1 \<noteq> 0xff" using a status_loop_read l by metis
      then obtain e where "go_home lib fd (s\<lparr>hw := h2\<rparr>) = Inl e"
        using "1.IH" [OF l [symmetric] refl _ _ h1_def r [symmetric] refl] b2 a Suc by auto
      then show ?thesis using l r b b2 Suc
        by (simp add: check_and_clear_err.simps [of lib] h1_def [symmetric] Let_def)
    qed
  qed
next
  case (2 lib fd s)
  show ?case
  proof (rule impI, rule ccontr)
    assume a: "\<forall>h. byte (fst (snd (readreg lib fd REG_STATUS REG_STATUS_LEN h))) 1 \<noteq> 0xff"
      and ne: "\<nexists>e. go_home lib fd s = Inl e"
    then obtain s' where e: "go_home lib fd s = Inr s'" by (cases "go_home lib fd s") auto
    from e obtain s1 p1 h2 s3 p3 where n: "\<not> nruns s + 1 > 10"
      and p1: "poll_regstatus lib fd (s\<lparr>nruns := nruns s + 1\<rparr>) = Inr (s1, p1)"
      and c: "command_loop lib fd 10 [REG_HOME, 0, 0] (hw s1) = (h2, True)"
      and p3: "poll_regstatus lib fd (s1\<lparr>hw := h2\<rparr>) = Inr (s3, p3)"
      and k: "check_and_clear_err lib fd s3 = Inr s'" by (rule go_home_returns)
    show False using "2.IH" [OF n p1 refl c [symmetric] refl p3 refl] a k by simp
  qed
qed

text \<open>
  Clearing of errors and homing call each other, but end: with a turret that never reports that it is at
  home, whatever else it answers, the program ends with an error.
\<close>

theorem never_home_exits:
  assumes "\<And>h. byte (fst (snd (readreg lib fd REG_STATUS REG_STATUS_LEN h))) 1 \<noteq> 0xff"
  shows "\<exists>e. check_and_clear_err lib fd s = Inl e"
  using never_home_check(1) assms by blast

text \<open>A turret that always reports that it is not at home, and takes every command.\<close>

definition lost_turret :: "nat hid" where
  "lost_turret =
     \<lparr>set_feature = \<lambda>fd n buf. (n, 0, buf),
      get_feature = \<lambda>fd n buf. (n + 1, 0, if byte buf 0 = REG_STATUS then [REG_STATUS, 0, 0, 0, 1, 0] else [byte buf 0, 0xff, 0])\<rparr>"

theorem never_home_exits_witness: "\<exists>e. check_and_clear_err lost_turret 3 \<lparr>hw = 0, nruns = 0\<rparr> = Inl e"
  using never_home_exits [of lost_turret 3 "\<lparr>hw = 0, nruns = 0\<rparr>"] by (simp add: lost_turret_def readreg_def byte_def)

section \<open>The tenth try\<close>

lemma status_loop_lost:
  "\<forall>i<n. snd (snd (readreg lib fd REG_STATUS REG_STATUS_LEN
      (((\<lambda>h. fst (readreg lib fd REG_STATUS REG_STATUS_LEN h)) ^^ i) h))) \<Longrightarrow>
   \<exists>h' b. status_loop lib fd (Suc n) buf h = (h', b, 0)"
proof (induction n arbitrary: buf h)
  case 0
  then show ?case by (auto split: prod.splits)
next
  case (Suc n)
  obtain h1 b1 e1 where r: "readreg lib fd REG_STATUS REG_STATUS_LEN h = (h1, b1, e1)" by (metis prod_cases3)
  have "e1" using Suc.prems [rule_format, of 0] r by simp
  moreover have "\<exists>h' b. status_loop lib fd (Suc n) b1 h1 = (h', b, 0)"
  proof (rule Suc.IH, intro allI impI)
    fix i assume "i < n"
    then show "snd (snd (readreg lib fd REG_STATUS REG_STATUS_LEN
        (((\<lambda>h. fst (readreg lib fd REG_STATUS REG_STATUS_LEN h)) ^^ i) h1)))"
      using Suc.prems [rule_format, of "Suc i"] r by (simp add: funpow_Suc_right del: funpow.simps)
  qed
  ultimately show ?case using r by (subst status_loop.simps) simp
qed

text \<open>
  When the first nine reads of the status fail the program ends with \<open>TriesExceeded\<close>, whatever the
  tenth read returns: the loop ends with \<open>i == 10\<close> also when its last turn succeeded.
\<close>

theorem tenth_try_lost:
  assumes "\<forall>i<9. snd (snd (readreg lib fd REG_STATUS REG_STATUS_LEN
      (((\<lambda>h. fst (readreg lib fd REG_STATUS REG_STATUS_LEN h)) ^^ i) (hw s))))"
  shows "\<exists>h. check_and_clear_err lib fd s = Inl (TriesExceeded, h)"
proof -
  obtain h b where "status_loop lib fd 10 [] (hw s) = (h, b, 0)"
    using status_loop_lost [OF assms, of "[]"] by (simp add: eval_nat_numeral del: status_loop.simps) auto
  then show ?thesis by (simp add: check_and_clear_err.simps)
qed

text \<open>A turret whose first nine answers are errors; from the tenth on it is at home and without error.\<close>

definition slow_turret :: "nat hid" where
  "slow_turret =
     \<lparr>set_feature = \<lambda>fd n buf. (n, 0, buf),
      get_feature = \<lambda>fd n buf. (n + 1, if n < 9 then -1 else 0, [REG_STATUS, 0xff, 0, 0, 1, 0])\<rparr>"

theorem tenth_try_lost_witness:
  "readreg slow_turret 3 REG_STATUS REG_STATUS_LEN 9 = (10, [REG_STATUS, 0xff, 0, 0, 1, 0], False) \<and>
   (\<exists>h. check_and_clear_err slow_turret 3 \<lparr>hw = 0, nruns = 0\<rparr> = Inl (TriesExceeded, h))"
proof -
  have "((\<lambda>h. fst (readreg slow_turret 3 REG_STATUS REG_STATUS_LEN h)) ^^ i) 0 = i" for i
    by (induction i) (simp_all add: slow_turret_def readreg_def)
  then show ?thesis
    using tenth_try_lost [of slow_turret 3 "\<lparr>hw = 0, nruns = 0\<rparr>"] by (simp add: slow_turret_def readreg_def byte_def)
qed

text \<open>
  A serial number together with a wheel identifier does the opposite of what it asks for, with one turret
  connected that has the serial: the wheel that the turret has is refused as found more than once, and
  any other identifier from A to H is accepted and the turret is used with it.
\<close>

theorem serial_and_id:
  assumes "wfd w > 0" "schar c \<ge> 65" "schar c \<le> 72"
    "G_serial G = Some (wserial w)" "G_wheelID G = Some [c]" "G_filterId G = None" "\<not> reName G"
  shows "choose_wheel G [w] =
    (if wID w = c then Inl ManyWheels
     else Inr \<lparr>wheel_id = schar c, filter_pos = -1, max_pos = wmaxpos w, wheel_fd = wfd w, wheel_chosen = Some 0\<rparr>)"
  using assms by (auto simp: schar_inj choose_wheel_def by_serial_def by_id_def no_selection_def set_cur_wheel_def Let_def)

theorem serial_and_id_witness:
  "choose_wheel (no_pars\<lparr>G_serial := Some ''001'', G_wheelID := Some ''A''\<rparr>) [sim_wheel] = Inl ManyWheels \<and>
   choose_wheel (no_pars\<lparr>G_serial := Some ''001'', G_wheelID := Some ''B''\<rparr>) [sim_wheel] =
     Inr \<lparr>wheel_id = 66, filter_pos = -1, max_pos = 5, wheel_fd = 3, wheel_chosen = Some 0\<rparr>"
  using serial_and_id [of sim_wheel "CHR ''A''" "no_pars\<lparr>G_serial := Some ''001'', G_wheelID := Some ''A''\<rparr>"]
    serial_and_id [of sim_wheel "CHR ''B''" "no_pars\<lparr>G_serial := Some ''001'', G_wheelID := Some ''B''\<rparr>"]
  by (simp add: sim_wheel_def no_pars_def schar_def)

section \<open>The selected wheel\<close>

definition selected :: "wheel_descr list \<Rightarrow> selection \<Rightarrow> bool" where
  "selected wheels sel =
     (case wheel_chosen sel of
        None \<Rightarrow> wheel_fd sel = - 1
      | Some i \<Rightarrow> i < length wheels \<and> wheel_fd sel = wfd (wheels ! i) \<and> max_pos sel = wmaxpos (wheels ! i))"

lemma selected_upd [simp]:
  "selected wheels no_selection"
  "i < length wheels \<Longrightarrow> selected wheels (set_cur_wheel wheels i sel)"
  "selected wheels (sel\<lparr>wheel_id := x\<rparr>) = selected wheels sel"
  "selected wheels (sel\<lparr>filter_pos := x\<rparr>) = selected wheels sel"
  by (simp_all add: selected_def no_selection_def set_cur_wheel_def Let_def split: option.splits)

lemma match_loop_selected:
  "\<forall>i \<in> set is. i < length wheels \<Longrightarrow> selected wheels sel \<Longrightarrow> match_loop P wheels is sel = Inr sel' \<Longrightarrow> selected wheels sel'"
  by (induction "is" arbitrary: sel) (auto split: if_split_asm, metis selected_upd(2))

lemma by_serial_selected: "by_serial G wheels sel = Inr sel' \<Longrightarrow> selected wheels sel \<Longrightarrow> selected wheels sel'"
  using match_loop_selected [of "[0..<length wheels]" wheels sel]
  by (auto simp: by_serial_def split: option.splits sum.splits if_split_asm)

lemma by_id_selected: "by_id G wheels sel = Inr sel' \<Longrightarrow> selected wheels sel \<Longrightarrow> selected wheels sel'"
  using match_loop_selected [of "[0..<length wheels]" wheels "sel\<lparr>wheel_id := _\<rparr>"]
  by (auto simp: by_id_def Let_def split: option.splits sum.splits if_split_asm)

lemma by_name_selected: "by_name G wheels nm sel = Inr sel' \<Longrightarrow> selected wheels sel \<Longrightarrow> selected wheels sel'"
  using match_loop_selected [of "[0..<length wheels]" wheels sel]
  by (auto simp: by_name_def split: sum.splits if_split_asm)

lemma choose_wheel_selected:
  assumes "choose_wheel G wheels = Inr sel"
  shows "selected wheels sel"
proof -
  obtain sel0 where s: "by_serial G wheels no_selection = Inr sel0"
    using assms by (auto simp: choose_wheel_def split: sum.splits)
  then have "selected wheels sel0" using by_serial_selected selected_upd(1) by blast
  then show ?thesis using assms s by_id_selected by_name_selected
    by (auto simp: choose_wheel_def split: if_split_asm option.splits)
qed

lemma search_all_selected:
  "\<forall>i \<in> set is. i < length wheels \<Longrightarrow> selected wheels sel \<Longrightarrow>
   search_all lib nm wheels is fnd h sel = Inr (h', fnd', sel') \<Longrightarrow> selected wheels sel'"
  by (induction "is" arbitrary: sel fnd h) (auto split: if_split_asm sum.splits prod.splits option.splits, metis selected_upd(2))

lemma by_filter_name_selected:
  assumes "by_filter_name lib wheels nm h sel = Inr (h', sel')" "selected wheels sel"
  shows "selected wheels sel'"
proof (cases "wheel_chosen sel")
  case None
  then show ?thesis using assms search_all_selected [of "[0..<length wheels]" wheels sel]
    by (auto simp: by_filter_name_def split: sum.splits if_split_asm)
next
  case (Some i)
  then show ?thesis using assms
    by (auto simp: by_filter_name_def split: sum.splits if_split_asm option.splits)
qed

lemma choose_filter_selected:
  assumes "choose_filter lib G wheels h sel = Inr (h', sel')" "selected wheels sel"
  shows "selected wheels sel'"
proof -
  define sel1 where "sel1 = (if length wheels = 1 \<and> wheel_id sel < 0 then set_cur_wheel wheels 0 sel else sel)"
  define sel2 where "sel2 = (if G_filterPos G \<noteq> 0 then sel1\<lparr>filter_pos := G_filterPos G\<rparr> else sel1)"
  have "selected wheels sel2" using assms(2) by (simp add: sel1_def sel2_def)
  then show ?thesis using assms(1) by_filter_name_selected
    unfolding choose_filter_def sel1_def [symmetric] Let_def sel2_def [symmetric] by (auto split: if_split_asm)
qed

lemma final_checks_selection:
  "final_checks G (h3, sel3) = Inr (h', G', sel) \<Longrightarrow> \<not> reName G \<Longrightarrow> sel = sel3"
  by (auto simp: final_checks_def Let_def split: if_split_asm)

text \<open>
  C22. When \<open>check_args\<close> returns and no renaming was asked for, an open wheel of the list is selected, its
  descriptor is the one that is used, and the position lies in the range of that very wheel unless the
  position is only shown, the wheel moves home or the names are reset.
\<close>

theorem check_args_position:
  assumes c: "check_args lib G wheels h = Inr (h', G', sel)" and n: "\<not> reName G"
  shows "\<exists>i < length wheels. wheel_chosen sel = Some i \<and> wheel_fd sel = wfd (wheels ! i) \<and> wfd (wheels ! i) \<ge> 0 \<and>
    (showpos G' \<or> setdef G' \<or> gohome G' \<or> (1 \<le> filter_pos sel \<and> filter_pos sel \<le> wmaxpos (wheels ! i)))"
proof -
  obtain sel1 h3 sel3 where w: "choose_wheel G wheels = Inr sel1" and f: "choose_filter lib G wheels h sel1 = Inr (h3, sel3)"
    and l: "final_checks G (h3, sel3) = Inr (h', G', sel)"
    using c by (auto simp: check_args_def split: sum.splits)
  have "selected wheels sel"
    using choose_filter_selected [OF f choose_wheel_selected [OF w]] final_checks_selection [OF l n] by simp
  then show ?thesis using check_args_result [OF c] by (auto simp: selected_def split: option.splits)
qed

theorem check_args_position_witness:
  "\<exists>i < 1. wheel_chosen sim_sel = Some i \<and> wheel_fd sim_sel = wfd ([sim_wheel] ! i)"
  using check_args_position [OF sim_check_args] by (auto simp: no_pars_def)

end
