(* ===== verification/BinMorph.thy ===== *)
theory BinMorph
  imports CPrelude "HOL-Library.Monad_Syntax"
begin

text \<open>
  Morphological operations on packed binary images, \<open>_deprecated/erosion-dilation/binmorph.c\<close> with the
  loop bodies that it includes from \<open>dilation.h\<close> and \<open>fc_filter.h\<close>. A packed image is the array of its
  bytes, \<open>W\<close> bytes per row, the leftmost pixel in the top bit. Every access through a pointer is
  checked: \<open>None\<close> is an access outside of the array. The parallel loops write disjoint rows and are
  taken in order.
\<close>

unbundle bit_operations_syntax

datatype morph_error = TooSmall | OutOfArray

section \<open>Arrays\<close>

definition at :: "'a list \<Rightarrow> int \<Rightarrow> 'a option" where
  "at im i = (if 0 \<le> i \<and> i < int (length im) then Some (im ! nat i) else None)"

definition put :: "'a list \<Rightarrow> int \<Rightarrow> 'a \<Rightarrow> 'a list option" where
  "put im i v = (if 0 \<le> i \<and> i < int (length im) then Some (im[nat i := v]) else None)"

definition checked :: "'a option \<Rightarrow> morph_error + 'a" where
  "checked r = (case r of None \<Rightarrow> Inl OutOfArray | Some x \<Rightarrow> Inr x)"

section \<open>Tables\<close>

text \<open>\<open>morph_init\<close>: the tables of one byte, for erosion and dilation along the row.\<close>

definition ER :: "u8 list" where
  "ER = map (\<lambda>n. let i = of_nat n in i AND (push_bit 1 i OR 1) AND (drop_bit 1 i OR 0x80)) [0..<256]"

definition DIL :: "u8 list" where
  "DIL = map (\<lambda>n. let i = of_nat n in i OR push_bit 1 i OR drop_bit 1 i) [0..<256]"

section \<open>Conversion\<close>

text \<open>One row of \<open>bool2char\<close>: bytes of eight pixels, the last one filled with zeros.\<close>

fun pack_bits :: "nat \<Rightarrow> bool list \<Rightarrow> u8 \<Rightarrow> u8 \<times> bool list" where
  "pack_bits 0 px b = (b, px)"
| "pack_bits (Suc i) [] b = (b, [])"
| "pack_bits (Suc i) (p # px) b = pack_bits i px (b OR push_bit i (of_bool p))"

fun pack_row :: "nat \<Rightarrow> bool list \<Rightarrow> u8 list" where
  "pack_row 0 px = []"
| "pack_row (Suc n) px = (case pack_bits 8 px 0 of (b, rest) \<Rightarrow> b # pack_row n rest)"

definition bool2char :: "bool list \<Rightarrow> nat \<Rightarrow> nat \<Rightarrow> morph_error + u8 list \<times> nat" where
  "bool2char im W H =
     (if W < 2 \<or> H < 2 then Inl TooSmall
      else (let W0 = (W + 7) div 8 in Inr (concat (map (\<lambda>y. pack_row W0 (take W (drop (y * W) im))) [0..<H]), W0)))"

text \<open>One row of \<open>char2bool\<close> and of \<open>char2st\<close>: at most \<open>n\<close> more pixels.\<close>

fun unpack_bits :: "nat \<Rightarrow> nat \<Rightarrow> u8 \<Rightarrow> bool list" where
  "unpack_bits 0 n b = []"
| "unpack_bits (Suc i) 0 b = []"
| "unpack_bits (Suc i) (Suc n) b = (drop_bit i b AND 1 \<noteq> 0) # unpack_bits i n b"

fun unpack_row :: "u8 list \<Rightarrow> nat \<Rightarrow> bool list" where
  "unpack_row [] n = []"
| "unpack_row (b # bs) n = unpack_bits 8 n b @ unpack_row bs (n - 8)"

definition char2bool :: "u8 list \<Rightarrow> nat \<Rightarrow> nat \<Rightarrow> nat \<Rightarrow> bool list" where
  "char2bool img W H W0 = concat (map (\<lambda>y. unpack_row (take W0 (drop (y * W0) img)) W) [0..<H])"

definition char2st :: "u8 list \<Rightarrow> nat \<Rightarrow> nat \<Rightarrow> nat \<Rightarrow> nat list" where
  "char2st img W H W0 = map of_bool (char2bool img W H W0)"

section \<open>Rows\<close>

text \<open>
  The shape of the three loop bodies: the first byte of the row, the bytes 1 to \<open>W - 2\<close>, and the byte
  behind them; each is computed from its index and written there.
\<close>

fun mid_loop :: "(int \<Rightarrow> u8 option) \<Rightarrow> nat \<Rightarrow> int \<Rightarrow> u8 list \<Rightarrow> (u8 list \<times> int) option" where
  "mid_loop f 0 i ret = Some (ret, i)"
| "mid_loop f (Suc n) i ret = do { p \<leftarrow> f i; ret1 \<leftarrow> put ret i p; mid_loop f n (i + 1) ret1 }"

definition row_scan :: "(int \<Rightarrow> u8 option) \<Rightarrow> (int \<Rightarrow> u8 option) \<Rightarrow> (int \<Rightarrow> u8 option) \<Rightarrow> nat \<Rightarrow> nat \<Rightarrow> u8 list \<Rightarrow> u8 list option" where
  "row_scan f0 f1 f2 W y ret = do {
     p \<leftarrow> f0 (int (W * y));
     ret1 \<leftarrow> put ret (int (W * y)) p;
     (ret2, i) \<leftarrow> mid_loop f1 (W - 2) (int (W * y) + 1) ret1;
     q \<leftarrow> f2 i;
     put ret2 i q }"

fun rows :: "(nat \<Rightarrow> u8 list \<Rightarrow> u8 list option) \<Rightarrow> nat list \<Rightarrow> u8 list \<Rightarrow> u8 list option" where
  "rows f [] ret = Some ret"
| "rows f (y # ys) ret = do { ret1 \<leftarrow> f y ret; rows f ys ret1 }"

text \<open>The bits that come in from the bytes to the right and to the left.\<close>

definition right_in :: "u8 list \<Rightarrow> int \<Rightarrow> u8 \<Rightarrow> u8 option" where
  "right_in im i p = do { r \<leftarrow> at im (i + 1); Some (if r AND 0x80 \<noteq> 0 then p OR 1 else p) }"

definition left_in :: "u8 list \<Rightarrow> int \<Rightarrow> u8 \<Rightarrow> u8 option" where
  "left_in im i p = do { l \<leftarrow> at im (i - 1); Some (if l AND 1 \<noteq> 0 then p OR 0x80 else p) }"

section \<open>Dilation\<close>

text \<open>\<open>dilation.h\<close>, with \<open>IM_UP\<close> and \<open>IM_DOWN\<close> for the first and the last row.\<close>

definition dil_p :: "bool \<Rightarrow> bool \<Rightarrow> u8 list \<Rightarrow> nat \<Rightarrow> int \<Rightarrow> u8 option" where
  "dil_p up down im W i = do {
     c \<leftarrow> at im i;
     u \<leftarrow> (if up then Some 0 else at im (i - int W));
     d \<leftarrow> (if down then Some 0 else at im (i + int W));
     Some (DIL ! unat c OR u OR d) }"

definition dil_row :: "bool \<Rightarrow> bool \<Rightarrow> u8 list \<Rightarrow> nat \<Rightarrow> nat \<Rightarrow> u8 list \<Rightarrow> u8 list option" where
  "dil_row up down im W =
     row_scan (\<lambda>i. do { p \<leftarrow> dil_p up down im W i; right_in im i p })
       (\<lambda>i. do { p \<leftarrow> dil_p up down im W i; p1 \<leftarrow> right_in im i p; left_in im i p1 })
       (\<lambda>i. do { p \<leftarrow> dil_p up down im W i; left_in im i p }) W"

definition dilation :: "u8 list \<Rightarrow> nat \<Rightarrow> nat \<Rightarrow> morph_error + u8 list" where
  "dilation img W H =
     (if W < 2 \<or> H < 2 then Inl TooSmall
      else checked (do {
        r1 \<leftarrow> dil_row True False img W 0 (replicate (W * H) 0);
        r2 \<leftarrow> rows (dil_row False False img W) [1..<H - 1] r1;
        dil_row False True img W (H - 1) r2 }))"

section \<open>Removal of single pixels\<close>

text \<open>\<open>fc_filter.h\<close> and \<open>FC_filter\<close>; the guard lets rows of one byte through.\<close>

definition fc_p :: "bool \<Rightarrow> bool \<Rightarrow> u8 list \<Rightarrow> nat \<Rightarrow> int \<Rightarrow> u8 option" where
  "fc_p up down im W i = do {
     c \<leftarrow> at im i;
     u \<leftarrow> (if up then Some 0 else at im (i - int W));
     d \<leftarrow> (if down then Some 0 else at im (i + int W));
     Some (push_bit 1 c OR drop_bit 1 c OR u OR d) }"

definition masked :: "u8 list \<Rightarrow> int \<Rightarrow> u8 \<Rightarrow> u8 option" where
  "masked im i p = do { c \<leftarrow> at im i; Some (p AND c) }"

definition fc_row :: "bool \<Rightarrow> bool \<Rightarrow> u8 list \<Rightarrow> nat \<Rightarrow> nat \<Rightarrow> u8 list \<Rightarrow> u8 list option" where
  "fc_row up down im W =
     row_scan (\<lambda>i. do { p \<leftarrow> fc_p up down im W i; p1 \<leftarrow> right_in im i p; masked im i p1 })
       (\<lambda>i. do { p \<leftarrow> fc_p up down im W i; p1 \<leftarrow> right_in im i p; p2 \<leftarrow> left_in im i p1; masked im i p2 })
       (\<lambda>i. do { p \<leftarrow> fc_p up down im W i; p1 \<leftarrow> left_in im i p; masked im i p1 }) W"

definition FC_filter :: "u8 list \<Rightarrow> nat \<Rightarrow> nat \<Rightarrow> morph_error + u8 list" where
  "FC_filter img W H =
     (if W < 1 \<or> H < 2 then Inl TooSmall
      else checked (do {
        r1 \<leftarrow> fc_row True False img W 0 (replicate (W * H) 0);
        r2 \<leftarrow> rows (fc_row False False img W) [1..<H - 1] r1;
        fc_row False True img W (H - 1) r2 }))"

section \<open>Erosion\<close>

text \<open>The first and the last row stay zero.\<close>

definition er_p :: "u8 list \<Rightarrow> nat \<Rightarrow> u8 \<Rightarrow> int \<Rightarrow> u8 option" where
  "er_p im W m i = do {
     c \<leftarrow> at im i;
     u \<leftarrow> at im (i - int W);
     d \<leftarrow> at im (i + int W);
     Some (ER ! unat c AND m AND u AND d) }"

definition right_out :: "u8 list \<Rightarrow> int \<Rightarrow> u8 \<Rightarrow> u8 option" where
  "right_out im i p = do { r \<leftarrow> at im (i + 1); Some (if r AND 0x80 = 0 then p AND 0xfe else p) }"

definition left_out :: "u8 list \<Rightarrow> int \<Rightarrow> u8 \<Rightarrow> u8 option" where
  "left_out im i p = do { l \<leftarrow> at im (i - 1); Some (if l AND 1 = 0 then p AND 0x7f else p) }"

definition er_row :: "u8 list \<Rightarrow> nat \<Rightarrow> nat \<Rightarrow> u8 list \<Rightarrow> u8 list option" where
  "er_row im W =
     row_scan (\<lambda>i. do { p \<leftarrow> er_p im W 0x7f i; right_out im i p })
       (\<lambda>i. do { p \<leftarrow> er_p im W 0xff i; p1 \<leftarrow> left_out im i p; right_out im i p1 })
       (\<lambda>i. do { p \<leftarrow> er_p im W 0xfe i; left_out im i p }) W"

definition erosion :: "u8 list \<Rightarrow> nat \<Rightarrow> nat \<Rightarrow> morph_error + u8 list" where
  "erosion img W H =
     (if W < 2 \<or> H < 2 then Inl TooSmall
      else checked (rows (er_row img W) [1..<H - 1] (replicate (W * H) 0)))"

section \<open>Logical operations\<close>

definition imand :: "u8 list \<Rightarrow> u8 list \<Rightarrow> nat \<Rightarrow> nat \<Rightarrow> u8 list option" where
  "imand im1 im2 W H =
     those (map (\<lambda>i. do { a \<leftarrow> at im1 (int i); b \<leftarrow> at im2 (int i); Some (a AND b) }) [0..<W * H])"

definition substim :: "u8 list \<Rightarrow> u8 list \<Rightarrow> nat \<Rightarrow> nat \<Rightarrow> u8 list option" where
  "substim im1 im2 W H =
     those (map (\<lambda>i. do { a \<leftarrow> at im1 (int i); b \<leftarrow> at im2 (int i); Some (a AND NOT b) }) [0..<W * H])"

section \<open>Arrays and loops\<close>

lemma at_in [simp]: "j < length im \<Longrightarrow> at im (int j) = Some (im ! j)"
  by (simp add: at_def)

lemma put_in [simp]: "j < length im \<Longrightarrow> put im (int j) v = Some (im[j := v])"
  by (simp add: put_def)

lemma at_nat: "i = int j \<Longrightarrow> j < length im \<Longrightarrow> at im i = Some (im ! j)"
  by simp

lemma mid_loop_result:
  assumes "\<And>x. j \<le> x \<Longrightarrow> x < j + n \<Longrightarrow> f (int x) = Some (g x)" "j + n \<le> length ret"
  shows "\<exists>ret'. mid_loop f n (int j) ret = Some (ret', int (j + n)) \<and> length ret' = length ret \<and>
    (\<forall>x < length ret. ret' ! x = (if j \<le> x \<and> x < j + n then g x else ret ! x))"
  using assms
proof (induction n arbitrary: j ret)
  case (Suc n)
  have "\<exists>ret'. mid_loop f n (int (Suc j)) (ret[j := g j]) = Some (ret', int (Suc j + n)) \<and>
      length ret' = length (ret[j := g j]) \<and> (\<forall>x < length (ret[j := g j]).
        ret' ! x = (if Suc j \<le> x \<and> x < Suc j + n then g x else ret[j := g j] ! x))"
    using Suc.prems by (intro Suc.IH) auto
  then obtain ret' where r: "mid_loop f n (int (Suc j)) (ret[j := g j]) = Some (ret', int (Suc j + n))"
    "length ret' = length ret"
    "\<forall>x < length ret. ret' ! x = (if Suc j \<le> x \<and> x < Suc j + n then g x else ret[j := g j] ! x)" by auto
  have "mid_loop f (Suc n) (int j) ret = Some (ret', int (j + Suc n))"
    using Suc.prems(1) [of j] Suc.prems(2) r(1) by (simp add: add.commute)
  then show ?case using r(2,3) by (auto simp: nth_list_update Suc_le_eq dest: le_antisym)
qed auto

text \<open>A row of at least two bytes is written with the values at its indices, and nothing else is.\<close>

lemma row_scan_result:
  assumes W: "W \<ge> 2" and l: "W * y + W \<le> length ret"
    and f0: "f0 (int (W * y)) = Some (g (W * y))"
    and f1: "\<And>x. W * y < x \<Longrightarrow> x < W * y + W - 1 \<Longrightarrow> f1 (int x) = Some (g x)"
    and f2: "f2 (int (W * y + W - 1)) = Some (g (W * y + W - 1))"
  shows "\<exists>ret'. row_scan f0 f1 f2 W y ret = Some ret' \<and> length ret' = length ret \<and>
    (\<forall>x < length ret. ret' ! x = (if W * y \<le> x \<and> x < W * y + W then g x else ret ! x))"
proof -
  have "\<exists>r. mid_loop f1 (W - 2) (int (W * y + 1)) (ret[W * y := g (W * y)]) = Some (r, int (W * y + 1 + (W - 2))) \<and>
      length r = length (ret[W * y := g (W * y)]) \<and> (\<forall>x < length (ret[W * y := g (W * y)]).
        r ! x = (if W * y + 1 \<le> x \<and> x < W * y + 1 + (W - 2) then g x else ret[W * y := g (W * y)] ! x))"
    by (rule mid_loop_result) (use f1 l W in auto)
  then obtain r where r: "mid_loop f1 (W - 2) (int (W * y + 1)) (ret[W * y := g (W * y)]) = Some (r, int (W * y + 1 + (W - 2)))"
    "length r = length ret"
    "\<forall>x < length ret. r ! x = (if W * y + 1 \<le> x \<and> x < W * y + 1 + (W - 2) then g x else ret[W * y := g (W * y)] ! x)"
    by auto
  have e: "W * y + 1 + (W - 2) = W * y + W - 1" using W by simp
  have "row_scan f0 f1 f2 W y ret = Some (r[W * y + W - 1 := g (W * y + W - 1)])"
  proof -
    have p: "put ret (int (W * y)) (g (W * y)) = Some (ret[W * y := g (W * y)])"
      "put r (int (W * y + W - 1)) (g (W * y + W - 1)) = Some (r[W * y + W - 1 := g (W * y + W - 1)])"
      by (rule put_in; use l W r(2) in simp)+
    have i: "int (W * y) + 1 = int (W * y + 1)" by simp
    show ?thesis unfolding row_scan_def i using f0 f2 r(1) [unfolded e] p by (simp del: of_nat_add of_nat_mult of_nat_diff of_nat_Suc One_nat_def)
  qed
  moreover have "r[W * y + W - 1 := g (W * y + W - 1)] ! x = (if W * y \<le> x \<and> x < W * y + W then g x else ret ! x)"
    if "x < length ret" for x
  proof -
    consider "x = W * y + W - 1" | "x = W * y" | "W * y + 1 \<le> x" "x < W * y + 1 + (W - 2)" | "x < W * y" | "W * y + W \<le> x"
      using W by linarith
    then show ?thesis by cases (use that r(2,3) W in \<open>auto simp: nth_list_update\<close>)
  qed
  ultimately show ?thesis using r(2) by simp
qed

text \<open>Rows that do what \<open>g\<close> says, one after the other.\<close>

lemma rows_result:
  assumes "\<And>y ret. y \<in> set ys \<Longrightarrow> length ret = n \<Longrightarrow> \<exists>ret'. f y ret = Some ret' \<and> length ret' = n \<and>
      (\<forall>x < n. ret' ! x = (if W * y \<le> x \<and> x < W * y + W then g x else ret ! x))"
    and "length ret = n"
  shows "\<exists>ret'. rows f ys ret = Some ret' \<and> length ret' = n \<and>
    (\<forall>x < n. ret' ! x = (if \<exists>y \<in> set ys. W * y \<le> x \<and> x < W * y + W then g x else ret ! x))"
  using assms
proof (induction ys arbitrary: ret)
  case (Cons y ys)
  obtain r1 where r1: "f y ret = Some r1" "length r1 = n"
    "\<forall>x < n. r1 ! x = (if W * y \<le> x \<and> x < W * y + W then g x else ret ! x)" using Cons.prems by force
  have "\<exists>ret'. rows f ys r1 = Some ret' \<and> length ret' = n \<and>
      (\<forall>x < n. ret' ! x = (if \<exists>y \<in> set ys. W * y \<le> x \<and> x < W * y + W then g x else r1 ! x))"
    using Cons.prems r1(2) by (intro Cons.IH) auto
  then show ?case using r1 by auto
qed auto

section \<open>Pixels\<close>

text \<open>The neighbours of bit \<open>k\<close> of byte \<open>j\<close>; there are no pixels outside of the image.\<close>

definition lft :: "u8 list \<Rightarrow> nat \<Rightarrow> nat \<Rightarrow> nat \<Rightarrow> bool" where
  "lft im W j k = (if k < 7 then bit (im ! j) (k + 1) else 0 < j mod W \<and> bit (im ! (j - 1)) 0)"

definition rgt :: "u8 list \<Rightarrow> nat \<Rightarrow> nat \<Rightarrow> nat \<Rightarrow> bool" where
  "rgt im W j k = (if 0 < k then bit (im ! j) (k - 1) else j mod W < W - 1 \<and> bit (im ! (j + 1)) 7)"

definition upn :: "u8 list \<Rightarrow> nat \<Rightarrow> nat \<Rightarrow> nat \<Rightarrow> bool" where
  "upn im W j k = (0 < j div W \<and> bit (im ! (j - W)) k)"

definition dwn :: "u8 list \<Rightarrow> nat \<Rightarrow> nat \<Rightarrow> nat \<Rightarrow> nat \<Rightarrow> bool" where
  "dwn im W H j k = (j div W < H - 1 \<and> bit (im ! (j + W)) k)"

lemma u8_cases: "(k::nat) < 8 \<Longrightarrow> k = 0 \<or> k = 1 \<or> k = 2 \<or> k = 3 \<or> k = 4 \<or> k = 5 \<or> k = 6 \<or> k = 7"
  by auto

lemma top_bit: "(c :: u8) AND 0x80 \<noteq> 0 \<longleftrightarrow> bit c 7" "(c :: u8) AND 0x80 = 0 \<longleftrightarrow> \<not> bit c 7"
proof -
  have "c AND 0x80 = of_bool (bit c 7) * 0x80" 
    by (rule bit_word_eqI) (auto simp: bit_simps dest!: u8_cases)
  then show "(c :: u8) AND 0x80 \<noteq> 0 \<longleftrightarrow> bit c 7" "(c :: u8) AND 0x80 = 0 \<longleftrightarrow> \<not> bit c 7" by auto
qed

lemma low_bit: "(c :: u8) AND 1 \<noteq> 0 \<longleftrightarrow> bit c 0" "(c :: u8) AND 1 = 0 \<longleftrightarrow> \<not> bit c 0"
  by (simp_all add: and_one_eq odd_iff_mod_2_eq_one bit_0 even_iff_mod_2_eq_zero)

lemma unat_lt256: "unat (c :: u8) < 256"
proof -
  have "unat c < 2 ^ LENGTH(8)" by (rule unsigned_less)
  then show ?thesis by simp
qed

text \<open>The bits of the words that the sources combine.\<close>

lemma u8_bits:
  "bit (push_bit 1 (c :: u8)) k \<longleftrightarrow> 0 < k \<and> k < 8 \<and> bit c (k - 1)"
  "bit (drop_bit 1 c) k \<longleftrightarrow> bit c (k + 1)"
  "bit (1 :: u8) k \<longleftrightarrow> k = 0"
  "bit (0x80 :: u8) k \<longleftrightarrow> k = 7" "bit (0xff :: u8) k \<longleftrightarrow> k < 8"
  "bit (0xfe :: u8) k \<longleftrightarrow> 0 < k \<and> k < 8" "bit (0x7f :: u8) k \<longleftrightarrow> k < 7"
proof -
  have k: "k < 8" if "bit (c :: u8) k" for c using bit_imp_le_length [OF that] by simp
  show "bit (push_bit 1 (c :: u8)) k \<longleftrightarrow> 0 < k \<and> k < 8 \<and> bit c (k - 1)" by (subst bit_push_bit_iff) auto
  show "bit (drop_bit 1 c) k \<longleftrightarrow> bit c (k + 1)" by (simp add: bit_drop_bit_eq)
  show "bit (1 :: u8) k \<longleftrightarrow> k = 0" by (simp add: bit_1_iff)
  show "bit (0x80 :: u8) k \<longleftrightarrow> k = 7" using k [of "0x80"] by (cases "k < 8") (auto dest!: u8_cases)
  show "bit (0xff :: u8) k \<longleftrightarrow> k < 8" using k [of "0xff"] by (cases "k < 8") (auto dest!: u8_cases)
  show "bit (0xfe :: u8) k \<longleftrightarrow> 0 < k \<and> k < 8" using k [of "0xfe"] by (cases "k < 8") (auto dest!: u8_cases)
  show "bit (0x7f :: u8) k \<longleftrightarrow> k < 7" using k [of "0x7f"] by (cases "k < 8") (auto dest!: u8_cases)
qed

lemma bit_if: "bit (if P then a else b) k = (if P then bit a k else bit b k)"
  by simp

lemma bit_8: "\<not> bit (c :: u8) 8"
  using bit_imp_le_length [of c 8] by auto

lemmas bytewise = u8_bits bit_if bit_or_iff bit_and_iff bit_0_eq bot_fun_def lft_def rgt_def upn_def dwn_def

lemma DIL_nth: "DIL ! unat c = c OR push_bit 1 c OR drop_bit 1 c"
  using unat_lt256 [of c] by (simp add: DIL_def Let_def)

lemma ER_nth: "ER ! unat c = c AND (push_bit 1 c OR 1) AND (drop_bit 1 c OR 0x80)"
  using unat_lt256 [of c] by (simp add: ER_def Let_def)

text \<open>What is written at index \<open>j\<close>.\<close>

definition dil_val :: "u8 list \<Rightarrow> nat \<Rightarrow> nat \<Rightarrow> nat \<Rightarrow> u8" where
  "dil_val im W H j =
     (DIL ! unat (im ! j) OR (if 0 < j div W then im ! (j - W) else 0) OR (if j div W < H - 1 then im ! (j + W) else 0))
     OR (if j mod W < W - 1 \<and> bit (im ! (j + 1)) 7 then 1 else 0) OR (if 0 < j mod W \<and> bit (im ! (j - 1)) 0 then 0x80 else 0)"

definition fc_val :: "u8 list \<Rightarrow> nat \<Rightarrow> nat \<Rightarrow> nat \<Rightarrow> u8" where
  "fc_val im W H j =
     (push_bit 1 (im ! j) OR drop_bit 1 (im ! j) OR (if 0 < j div W then im ! (j - W) else 0) OR (if j div W < H - 1 then im ! (j + W) else 0)
     OR (if j mod W < W - 1 \<and> bit (im ! (j + 1)) 7 then 1 else 0) OR (if 0 < j mod W \<and> bit (im ! (j - 1)) 0 then 0x80 else 0)) AND im ! j"

definition er_val :: "u8 list \<Rightarrow> nat \<Rightarrow> nat \<Rightarrow> nat \<Rightarrow> u8" where
  "er_val im W H j =
     ER ! unat (im ! j) AND im ! (j - W) AND im ! (j + W)
     AND (if j mod W < W - 1 \<and> bit (im ! (j + 1)) 7 then 0xff else 0xfe) AND (if 0 < j mod W \<and> bit (im ! (j - 1)) 0 then 0xff else 0x7f)"

lemma bit_dil_val:
  "k < 8 \<Longrightarrow> bit (dil_val im W H j) k \<longleftrightarrow>
     bit (im ! j) k \<or> lft im W j k \<or> rgt im W j k \<or> upn im W j k \<or> dwn im W H j k"
  unfolding dil_val_def DIL_nth bytewise by (cases "k = 7"; cases "k = 0") (auto simp: bit_8)

lemma bit_fc_val:
  "k < 8 \<Longrightarrow> bit (fc_val im W H j) k \<longleftrightarrow>
     bit (im ! j) k \<and> (lft im W j k \<or> rgt im W j k \<or> upn im W j k \<or> dwn im W H j k)"
  unfolding fc_val_def bytewise by (cases "k = 7"; cases "k = 0") (auto simp: bit_8)

lemma bit_er_val:
  "k < 8 \<Longrightarrow> 0 < j div W \<Longrightarrow> j div W < H - 1 \<Longrightarrow> bit (er_val im W H j) k \<longleftrightarrow>
     bit (im ! j) k \<and> lft im W j k \<and> rgt im W j k \<and> upn im W j k \<and> dwn im W H j k"
  unfolding er_val_def ER_nth bytewise by (cases "k = 7"; cases "k = 0") (auto simp: bit_8)

section \<open>The operations byte by byte\<close>

text \<open>A byte of the image and the ones around it are in the array.\<close>

lemma around:
  assumes l: "length im = W * H" and W: "2 \<le> W" and y: "y < H" and j: "W * y \<le> j" "j < W * y + W"
  shows "j < length im" "j div W = y" "j mod W = j - W * y"
    "0 < y \<Longrightarrow> at im (int j - int W) = Some (im ! (j - W))"
    "y < H - 1 \<Longrightarrow> at im (int j + int W) = Some (im ! (j + W))"
    "j \<noteq> W * y \<Longrightarrow> at im (int j - 1) = Some (im ! (j - 1))"
    "j \<noteq> W * y + W - 1 \<Longrightarrow> at im (int j + 1) = Some (im ! (j + 1))"
proof -
  have m: "W * y + W \<le> W * H" using y by (metis Suc_leI mult_Suc_right mult_le_mono2 add.commute)
  show jl: "j < length im" using j(2) m l by simp
  show d: "j div W = y" using j W by (intro div_nat_eqI) (auto simp: algebra_simps)
  show "j mod W = j - W * y" using d by (simp add: minus_mult_div_eq_mod [symmetric])
  show "at im (int j - int W) = Some (im ! (j - W))" if "0 < y"
  proof (rule at_nat)
    have "W \<le> W * y" using that by simp
    then have "W \<le> j" using j(1) by (rule le_trans)
    then show "int j - int W = int (j - W)" by (simp add: of_nat_diff)
    show "j - W < length im" using jl by simp
  qed
  show "at im (int j + int W) = Some (im ! (j + W))" if "y < H - 1"
  proof (rule at_nat)
    have "W * (y + 2) \<le> W * H" using that by (intro mult_le_mono2) simp
    then show "j + W < length im" using j(2) l by (simp add: algebra_simps)
  qed simp
  show "at im (int j - 1) = Some (im ! (j - 1))" if "j \<noteq> W * y"
    by (rule at_nat) (use that j jl in auto)
  show "at im (int j + 1) = Some (im ! (j + 1))" if "j \<noteq> W * y + W - 1"
    by (rule at_nat) (use that j m l in auto)
qed

text \<open>What the three positions of a row have to give for a value at every index.\<close>

lemma row_written:
  assumes l: "length im = W * H" and W: "2 \<le> W" and y: "y < H" and r: "length ret = W * H"
    and f: "\<And>j. W * y \<le> j \<Longrightarrow> j < W * y + W \<Longrightarrow> j = W * y \<Longrightarrow> f0 (int j) = Some (g j)"
      "\<And>j. W * y \<le> j \<Longrightarrow> j < W * y + W \<Longrightarrow> j \<noteq> W * y \<Longrightarrow> j \<noteq> W * y + W - 1 \<Longrightarrow> f1 (int j) = Some (g j)"
      "\<And>j. W * y \<le> j \<Longrightarrow> j < W * y + W \<Longrightarrow> j = W * y + W - 1 \<Longrightarrow> f2 (int j) = Some (g j)"
  shows "\<exists>ret'. row_scan f0 f1 f2 W y ret = Some ret' \<and> length ret' = W * H \<and>
    (\<forall>x < W * H. ret' ! x = (if W * y \<le> x \<and> x < W * y + W then g x else ret ! x))"
proof -
  have m: "W * y + W \<le> W * H" using y by (metis Suc_leI mult_Suc_right mult_le_mono2 add.commute)
  have "\<exists>ret'. row_scan f0 f1 f2 W y ret = Some ret' \<and> length ret' = length ret \<and>
      (\<forall>x < length ret. ret' ! x = (if W * y \<le> x \<and> x < W * y + W then g x else ret ! x))"
    by (rule row_scan_result) (use W m r f in auto)
  then show ?thesis using r by simp
qed

text \<open>The bits that come in or go out, as one operation on the byte.\<close>

lemma edge_bits:
  "at im (i + 1) = Some r \<Longrightarrow> right_in im i p = Some (p OR (if bit r 7 then 1 else 0))"
  "at im (i - 1) = Some r \<Longrightarrow> left_in im i p = Some (p OR (if bit r 0 then 0x80 else 0))"
  "at im (i + 1) = Some r \<Longrightarrow> right_out im i p = Some (p AND (if bit r 7 then - 1 else 0xfe))"
  "at im (i - 1) = Some r \<Longrightarrow> left_out im i p = Some (p AND (if bit r 0 then - 1 else 0x7f))"
  by (simp_all add: right_in_def left_in_def right_out_def left_out_def top_bit low_bit)

lemma dil_row_written:
  assumes "length im = W * H" "2 \<le> W" "y < H" "length ret = W * H" "up = (y = 0)" "down = (y = H - 1)"
  shows "\<exists>ret'. dil_row up down im W y ret = Some ret' \<and> length ret' = W * H \<and>
    (\<forall>x < W * H. ret' ! x = (if W * y \<le> x \<and> x < W * y + W then dil_val im W H x else ret ! x))"
  unfolding dil_row_def
proof (rule row_written [OF assms(1-4)])
  fix j assume j: "W * y \<le> j" "j < W * y + W"
  note a = around [OF assms(1-3) j]
  define P where "P = DIL ! unat (im ! j) OR (if 0 < y then im ! (j - W) else 0) OR (if y < H - 1 then im ! (j + W) else 0)"
  have p: "dil_p up down im W (int j) = Some P"
    unfolding dil_p_def P_def using a(1,4,5) assms(3,5,6) by (cases up; cases down) auto
  have v: "dil_val im W H j = P OR (if j \<noteq> W * y + W - 1 \<and> bit (im ! (j + 1)) 7 then 1 else 0)
      OR (if j \<noteq> W * y \<and> bit (im ! (j - 1)) 0 then 0x80 else 0)"
    unfolding dil_val_def P_def a(2,3) using j assms(2) by (intro arg_cong2 [where f = "(OR)"] if_cong) auto
  have n: "W * y \<noteq> W * y + W - 1" using assms(2) by linarith
  show "(dil_p up down im W (int j) \<bind> right_in im (int j)) = Some (dil_val im W H j)" if "j = W * y"
    unfolding p v using edge_bits(1) [OF a(7)] that n by simp
  show "(dil_p up down im W (int j) \<bind> left_in im (int j)) = Some (dil_val im W H j)" if "j = W * y + W - 1"
    unfolding p v using edge_bits(2) [OF a(6)] that n by simp
  show "(dil_p up down im W (int j) \<bind> (\<lambda>p. right_in im (int j) p \<bind> left_in im (int j))) = Some (dil_val im W H j)"
    if "j \<noteq> W * y" "j \<noteq> W * y + W - 1"
    unfolding p v bind.bind_lunit edge_bits(1) [OF a(7) [OF that(2)]] edge_bits(2) [OF a(6) [OF that(1)]]
    using that by (simp only: or.assoc simp_thms)
qed

lemma fc_row_written:
  assumes "length im = W * H" "2 \<le> W" "y < H" "length ret = W * H" "up = (y = 0)" "down = (y = H - 1)"
  shows "\<exists>ret'. fc_row up down im W y ret = Some ret' \<and> length ret' = W * H \<and>
    (\<forall>x < W * H. ret' ! x = (if W * y \<le> x \<and> x < W * y + W then fc_val im W H x else ret ! x))"
  unfolding fc_row_def
proof (rule row_written [OF assms(1-4)])
  fix j assume j: "W * y \<le> j" "j < W * y + W"
  note a = around [OF assms(1-3) j]
  define P where "P = push_bit 1 (im ! j) OR drop_bit 1 (im ! j) OR (if 0 < y then im ! (j - W) else 0) OR (if y < H - 1 then im ! (j + W) else 0)"
  have p: "fc_p up down im W (int j) = Some P"
    unfolding fc_p_def P_def using a(1,4,5) assms(3,5,6) by (cases up; cases down) auto
  have v: "fc_val im W H j = (P OR (if j \<noteq> W * y + W - 1 \<and> bit (im ! (j + 1)) 7 then 1 else 0)
      OR (if j \<noteq> W * y \<and> bit (im ! (j - 1)) 0 then 0x80 else 0)) AND im ! j"
    unfolding fc_val_def P_def a(2,3) or.assoc using j assms(2)
    by (intro arg_cong2 [where f = "(AND)"] arg_cong2 [where f = "(OR)"] if_cong) auto
  have m: "masked im (int j) q = Some (q AND im ! j)" for q using a(1) by (simp add: masked_def)
  have n: "W * y \<noteq> W * y + W - 1" using assms(2) by linarith
  show "(fc_p up down im W (int j) \<bind> (\<lambda>p. right_in im (int j) p \<bind> masked im (int j))) = Some (fc_val im W H j)" if "j = W * y"
    unfolding p v using edge_bits(1) [OF a(7)] that n m by simp
  show "(fc_p up down im W (int j) \<bind> (\<lambda>p. left_in im (int j) p \<bind> masked im (int j))) = Some (fc_val im W H j)" if "j = W * y + W - 1"
    unfolding p v using edge_bits(2) [OF a(6)] that n m by simp
  show "(fc_p up down im W (int j) \<bind> (\<lambda>p. right_in im (int j) p \<bind> (\<lambda>p. left_in im (int j) p \<bind> masked im (int j)))) = Some (fc_val im W H j)"
    if "j \<noteq> W * y" "j \<noteq> W * y + W - 1"
    unfolding p v bind.bind_lunit edge_bits(1) [OF a(7) [OF that(2)]] edge_bits(2) [OF a(6) [OF that(1)]] m
    using that by (simp only: or.assoc simp_thms)
qed

lemma er_row_written:
  assumes "length im = W * H" "2 \<le> W" "0 < y" "y < H - 1" "length ret = W * H"
  shows "\<exists>ret'. er_row im W y ret = Some ret' \<and> length ret' = W * H \<and>
    (\<forall>x < W * H. ret' ! x = (if W * y \<le> x \<and> x < W * y + W then er_val im W H x else ret ! x))"
proof -
  have y: "y < H" using assms(4) by simp
  show ?thesis unfolding er_row_def
  proof (rule row_written [OF assms(1,2) y assms(5)])
    fix j assume j: "W * y \<le> j" "j < W * y + W"
    note a = around [OF assms(1,2) y j]
    define P where "P = ER ! unat (im ! j) AND im ! (j - W) AND im ! (j + W)"
    have p: "er_p im W m (int j) = Some (P AND m)" for m
      unfolding er_p_def P_def using a(1,4,5) assms(3,4) by (simp add: and.commute and.left_commute)
    have v: "er_val im W H j = P AND (if j \<noteq> W * y + W - 1 \<and> bit (im ! (j + 1)) 7 then 0xff else 0xfe)
       AND (if j \<noteq> W * y \<and> bit (im ! (j - 1)) 0 then 0xff else 0x7f)"
      unfolding er_val_def P_def a(2,3) and.assoc using j assms(2) by (intro arg_cong2 [where f = "(AND)"] if_cong) auto
    have n: "W * y \<noteq> W * y + W - 1" using assms(2) by linarith
    have f: "(0xff :: u8) = - 1" by simp
    show "(er_p im W 0x7f (int j) \<bind> right_out im (int j)) = Some (er_val im W H j)" if "j = W * y"
      unfolding p v f using edge_bits(3) [OF a(7)] that n by (simp add: and.assoc and.commute)
    show "(er_p im W 0xfe (int j) \<bind> left_out im (int j)) = Some (er_val im W H j)" if "j = W * y + W - 1"
      unfolding p v f using edge_bits(4) [OF a(6)] that n by (simp add: and.assoc)
    show "(er_p im W 0xff (int j) \<bind> (\<lambda>p. left_out im (int j) p \<bind> right_out im (int j))) = Some (er_val im W H j)"
      if "j \<noteq> W * y" "j \<noteq> W * y + W - 1"
      unfolding p v f bind.bind_lunit edge_bits(4) [OF a(6) [OF that(1)]] edge_bits(3) [OF a(7) [OF that(2)]]
      using that by (simp only: and.assoc and.right_neutral simp_thms) (simp add: and.commute and.left_commute)
  qed
qed

lemma in_some_row:
  assumes "2 \<le> (W::nat)"
  shows "j < W * H \<Longrightarrow> j div W < H" "W * (j div W) \<le> j" "j < W * (j div W) + W"
proof -
  show "j < W * H \<Longrightarrow> j div W < H" using assms by (simp add: less_mult_imp_div_less mult.commute)
  show "W * (j div W) \<le> j" by simp
  have "j mod W < W" using assms by simp
  then show "j < W * (j div W) + W" by (metis mult_div_mod_eq nat_add_left_cancel_less)
qed

text \<open>First row, rows between, last row: the values at all indices.\<close>

lemma three_parts:
  assumes W: "2 \<le> W" and H: "2 \<le> H"
    and f: "\<And>up down y ret. y < H \<Longrightarrow> length ret = W * H \<Longrightarrow> up = (y = 0) \<Longrightarrow> down = (y = H - 1) \<Longrightarrow>
      \<exists>ret'. f up down y ret = Some ret' \<and> length ret' = W * H \<and>
        (\<forall>x < W * H. ret' ! x = (if W * y \<le> x \<and> x < W * y + W then g x else ret ! x))"
  shows "\<exists>r. (f True False 0 (replicate (W * H) 0) \<bind> (\<lambda>r1. rows (f False False) [1..<H - 1] r1 \<bind> f False True (H - 1))) = Some r \<and>
    length r = W * H \<and> (\<forall>j < W * H. r ! j = g j)"
proof -
  have "\<exists>r. f True False 0 (replicate (W * H) 0) = Some r \<and> length r = W * H \<and>
      (\<forall>x < W * H. r ! x = (if W * 0 \<le> x \<and> x < W * 0 + W then g x else replicate (W * H) 0 ! x))"
    by (rule f) (use H in auto)
  then obtain r1 where r1: "f True False 0 (replicate (W * H) 0) = Some r1" "length r1 = W * H"
    "\<forall>x < W * H. r1 ! x = (if W * 0 \<le> x \<and> x < W * 0 + W then g x else replicate (W * H) 0 ! x)"
    by blast
  have "\<exists>r. rows (f False False) [1..<H - 1] r1 = Some r \<and> length r = W * H \<and>
      (\<forall>x < W * H. r ! x = (if \<exists>y \<in> set [1..<H - 1]. W * y \<le> x \<and> x < W * y + W then g x else r1 ! x))"
    by (rule rows_result) (rule f | use r1(2) in auto)+
  then obtain r2 where r2: "rows (f False False) [1..<H - 1] r1 = Some r2" "length r2 = W * H"
    "\<forall>x < W * H. r2 ! x = (if \<exists>y \<in> set [1..<H - 1]. W * y \<le> x \<and> x < W * y + W then g x else r1 ! x)"
    by blast
  have "\<exists>r. f False True (H - 1) r2 = Some r \<and> length r = W * H \<and>
      (\<forall>x < W * H. r ! x = (if W * (H - 1) \<le> x \<and> x < W * (H - 1) + W then g x else r2 ! x))"
    by (rule f) (use H r2(2) in auto)
  then obtain r3 where r3: "f False True (H - 1) r2 = Some r3" "length r3 = W * H"
    "\<forall>x < W * H. r3 ! x = (if W * (H - 1) \<le> x \<and> x < W * (H - 1) + W then g x else r2 ! x)"
    by blast
  have "r3 ! j = g j" if j: "j < W * H" for j
  proof -
    note d = in_some_row(1) [OF W j] in_some_row(2,3) [OF W, of j]
    consider "j div W = 0" | "j div W = H - 1" | "j div W \<in> set [1..<H - 1]" using d(1) by fastforce
    then show ?thesis
    proof cases
      case 1
      then have "j < W" using d(3) by simp
      then show ?thesis using r1(3) r2(3) r3(3) j by simp
    next
      case 2
      then show ?thesis using r3(3) d j by simp
    next
      case 3
      then have "r2 ! j = g j" using r2(3) d j by metis
      then show ?thesis using r3(3) j by simp
    qed
  qed
  then show ?thesis using r1(1) r2(1) r3(1,2) by simp
qed

lemma dilation_bytes:
  assumes "length im = W * H" "2 \<le> W" "2 \<le> H"
  shows "\<exists>r. dilation im W H = Inr r \<and> length r = W * H \<and> (\<forall>j < W * H. r ! j = dil_val im W H j)"
proof -
  have "\<exists>r. (dil_row True False im W 0 (replicate (W * H) 0) \<bind>
      (\<lambda>r1. rows (dil_row False False im W) [1..<H - 1] r1 \<bind> dil_row False True im W (H - 1))) = Some r \<and>
    length r = W * H \<and> (\<forall>j < W * H. r ! j = dil_val im W H j)"
    by (rule three_parts [OF assms(2,3)]) (rule dil_row_written [OF assms(1,2)])
  then show ?thesis using assms by (auto simp: dilation_def checked_def)
qed

lemma FC_filter_bytes:
  assumes "length im = W * H" "2 \<le> W" "2 \<le> H"
  shows "\<exists>r. FC_filter im W H = Inr r \<and> length r = W * H \<and> (\<forall>j < W * H. r ! j = fc_val im W H j)"
proof -
  have "\<exists>r. (fc_row True False im W 0 (replicate (W * H) 0) \<bind>
      (\<lambda>r1. rows (fc_row False False im W) [1..<H - 1] r1 \<bind> fc_row False True im W (H - 1))) = Some r \<and>
    length r = W * H \<and> (\<forall>j < W * H. r ! j = fc_val im W H j)"
    by (rule three_parts [OF assms(2,3)]) (rule fc_row_written [OF assms(1,2)])
  then show ?thesis using assms by (auto simp: FC_filter_def checked_def)
qed

lemma erosion_bytes:
  assumes "length im = W * H" "2 \<le> W" "2 \<le> H"
  shows "\<exists>r. erosion im W H = Inr r \<and> length r = W * H \<and>
    (\<forall>j < W * H. r ! j = (if 0 < j div W \<and> j div W < H - 1 then er_val im W H j else 0))"
proof -
  have "\<exists>r. rows (er_row im W) [1..<H - 1] (replicate (W * H) 0) = Some r \<and> length r = W * H \<and>
      (\<forall>x < W * H. r ! x = (if \<exists>y \<in> set [1..<H - 1]. W * y \<le> x \<and> x < W * y + W then er_val im W H x else replicate (W * H) 0 ! x))"
    by (rule rows_result) (use er_row_written [OF assms(1,2)] in auto)
  then obtain r where r: "rows (er_row im W) [1..<H - 1] (replicate (W * H) 0) = Some r" "length r = W * H"
    "\<forall>x < W * H. r ! x = (if \<exists>y \<in> set [1..<H - 1]. W * y \<le> x \<and> x < W * y + W then er_val im W H x else replicate (W * H) 0 ! x)"
    by blast
  have "(\<exists>y \<in> set [1..<H - 1]. W * y \<le> j \<and> j < W * y + W) \<longleftrightarrow> 0 < j div W \<and> j div W < H - 1" for j
  proof
    assume "\<exists>y \<in> set [1..<H - 1]. W * y \<le> j \<and> j < W * y + W"
    then obtain y where y: "y \<in> set [1..<H - 1]" "W * y \<le> j" "j < W * y + W" by blast
    then have "j div W = y" by (intro div_nat_eqI) (auto simp: algebra_simps)
    then show "0 < j div W \<and> j div W < H - 1" using y(1) by auto
  next
    assume "0 < j div W \<and> j div W < H - 1"
    then show "\<exists>y \<in> set [1..<H - 1]. W * y \<le> j \<and> j < W * y + W" using in_some_row(2,3) [OF assms(2), of j]
      by (intro bexI [of _ "j div W"]) auto
  qed
  then show ?thesis using r assms by (auto simp: erosion_def checked_def)
qed

section \<open>The operations pixel by pixel\<close>

text \<open>The pixel in row \<open>y\<close> and column \<open>X\<close> of a packed image; outside of the image there is none.\<close>

definition pix :: "u8 list \<Rightarrow> nat \<Rightarrow> nat \<Rightarrow> int \<Rightarrow> int \<Rightarrow> bool" where
  "pix im W H y X \<longleftrightarrow> 0 \<le> y \<and> y < int H \<and> 0 \<le> X \<and> X < 8 * int W \<and>
     bit (im ! nat (int W * y + X div 8)) (nat (7 - X mod 8))"

lemma pix_nat:
  "y < H \<Longrightarrow> X < 8 * W \<Longrightarrow> pix im W H (int y) (int X) \<longleftrightarrow> bit (im ! (W * y + X div 8)) (7 - X mod 8)"
proof -
  assume a: "y < H" "X < 8 * W"
  have "nat (int W * int y + int X div 8) = W * y + X div 8" by (metis nat_int of_nat_add of_nat_mult zdiv_int of_nat_numeral)
  moreover have "nat (7 - int X mod 8) = 7 - X mod 8"
    by (metis nat_int nat_diff_distrib' of_nat_mod of_nat_numeral of_nat_0_le_iff nat_numeral zero_le_numeral)
  ultimately show ?thesis using a by (simp add: pix_def)
qed

lemma pix_neighbours:
  assumes "2 \<le> W" "y < H" "X < 8 * W"
  defines "j \<equiv> W * y + X div 8" and "k \<equiv> 7 - X mod 8"
  shows "pix im W H (int y) (int X - 1) = lft im W j k"
    "pix im W H (int y) (int X + 1) = rgt im W j k"
    "pix im W H (int y - 1) (int X) = upn im W j k"
    "pix im W H (int y + 1) (int X) = dwn im W H j k"
proof -
  have x: "X div 8 < W" using assms(3) by (simp add: less_mult_imp_div_less mult.commute)
  then have dm: "j div W = y" "j mod W = X div 8" by (simp_all add: j_def)
  show "pix im W H (int y) (int X - 1) = lft im W j k"
  proof (cases X)
    case 0
    then show ?thesis by (simp add: pix_def lft_def k_def dm)
  next
    case (Suc Z)
    have "pix im W H (int y) (int X - 1) \<longleftrightarrow> bit (im ! (W * y + Z div 8)) (7 - Z mod 8)"
      using pix_nat [of y H Z W im] assms Suc by simp
    moreover have "Z mod 8 = 7 \<and> X div 8 = Suc (Z div 8) \<and> X mod 8 = 0 \<or> Z mod 8 < 7 \<and> X div 8 = Z div 8 \<and> X mod 8 = Suc (Z mod 8)"
      unfolding Suc by (simp add: div_Suc mod_Suc) linarith
    moreover have "j - 1 = W * y + Z div 8 \<and> k = 7 \<and> 7 - Z mod 8 = 0 \<and> 0 < j mod W" if "Z mod 8 = 7" "X div 8 = Suc (Z div 8)" "X mod 8 = 0"
      unfolding dm(2) using that by (simp add: j_def k_def)
    moreover have "j = W * y + Z div 8 \<and> k < 7 \<and> k + 1 = 7 - Z mod 8" if "Z mod 8 < 7" "X div 8 = Z div 8" "X mod 8 = Suc (Z mod 8)"
      using that by (simp add: j_def k_def) linarith
    ultimately show ?thesis unfolding lft_def by (metis less_irrefl)
  qed
  show "pix im W H (int y) (int X + 1) = rgt im W j k"
  proof (cases "Suc X < 8 * W")
    case False
    then have "X = 8 * W - 1" using assms(3) by simp
    then have "X div 8 = W - 1 \<and> X mod 8 = 7" using assms(1) by (simp add: div_nat_eqI mod_nat_eqI)
    then show ?thesis using False by (auto simp: pix_def rgt_def k_def dm)
  next
    case True
    have "pix im W H (int y) (int X + 1) \<longleftrightarrow> bit (im ! (W * y + Suc X div 8)) (7 - Suc X mod 8)"
      using pix_nat [of y H "Suc X" W im] assms True by (simp add: add.commute)
    moreover have "X mod 8 = 7 \<and> Suc X div 8 = Suc (X div 8) \<and> Suc X mod 8 = 0 \<or> X mod 8 < 7 \<and> Suc X div 8 = X div 8 \<and> Suc X mod 8 = Suc (X mod 8)"
      by (simp add: div_Suc mod_Suc) linarith
    moreover have "j + 1 = W * y + Suc X div 8 \<and> k = 0 \<and> 7 - Suc X mod 8 = 7 \<and> j mod W < W - 1" if "X mod 8 = 7" "Suc X div 8 = Suc (X div 8)" "Suc X mod 8 = 0"
      unfolding dm(2) using that True less_mult_imp_div_less [of "Suc X" W 8] by (simp add: j_def k_def mult.commute)
    moreover have "j = W * y + Suc X div 8 \<and> 0 < k \<and> k - 1 = 7 - Suc X mod 8" if "X mod 8 < 7" "Suc X div 8 = X div 8" "Suc X mod 8 = Suc (X mod 8)"
      using that by (simp add: j_def k_def)
    ultimately show ?thesis unfolding rgt_def by (metis less_irrefl)
  qed
  show "pix im W H (int y - 1) (int X) = upn im W j k"
  proof (cases y)
    case 0
    then show ?thesis by (simp add: pix_def upn_def dm)
  next
    case (Suc z)
    have "j - W = W * z + X div 8" by (simp add: j_def Suc)
    then show ?thesis using pix_nat [of z H X W im] assms(2,3) Suc unfolding upn_def dm(1) k_def by simp
  qed
  show "pix im W H (int y + 1) (int X) = dwn im W H j k"
  proof (cases "Suc y < H")
    case False
    then have "\<not> y < H - 1" by simp
    then show ?thesis using False by (simp add: pix_def dwn_def dm)
  next
    case True
    have e: "W * Suc y + X div 8 = j + W" by (simp add: j_def)
    have "y < H - 1" using True by simp
    then show ?thesis using pix_nat [of "Suc y" H X W im] assms(3) True
      unfolding e by (simp add: dwn_def dm k_def add.commute)
  qed
qed

section \<open>Packing\<close>

lemma pack_bits_result:
  "i \<le> 8 \<Longrightarrow> snd (pack_bits i px b) = drop i px \<and>
     (\<forall>k. bit (fst (pack_bits i px b)) k \<longleftrightarrow> bit b k \<or> (k < i \<and> i - 1 - k < length px \<and> px ! (i - 1 - k)))"
proof (induction i px b rule: pack_bits.induct)
  case (3 i p px b)
  have "bit (b OR push_bit i (of_bool p)) k \<longleftrightarrow> bit b k \<or> (p \<and> k = i)" for k
    using 3(2) by (auto simp: bit_or_iff bit_push_bit_iff bit_of_bool_iff)
  moreover have "k < Suc i \<and> i - k < Suc (length px) \<and> (p # px) ! (i - k) \<longleftrightarrow> (p \<and> k = i) \<or> (k < i \<and> i - 1 - k < length px \<and> px ! (i - 1 - k))" for k
  proof (cases "k < i")
    case True
    then have "i - k = Suc (i - 1 - k)" by simp
    then show ?thesis using True by simp
  qed auto
  ultimately show ?case using 3 by auto
qed auto

lemma pack_row_result:
  "length (pack_row n px) = n \<and>
   (\<forall>x < n. \<forall>k < 8. bit (pack_row n px ! x) k \<longleftrightarrow> 8 * x + (7 - k) < length px \<and> px ! (8 * x + (7 - k)))"
proof (induction n arbitrary: px)
  case (Suc n)
  obtain b rest where b: "pack_bits 8 px 0 = (b, rest)" by fastforce
  have "rest = drop 8 px" "\<And>k. bit b k \<longleftrightarrow> k < 8 \<and> 7 - k < length px \<and> px ! (7 - k)"
    using pack_bits_result [of 8 px 0] b by auto
  then show ?case using Suc b by (auto simp: nth_Cons less_Suc_eq_0_disj add.commute split: nat.splits)
qed simp

lemma unpack_bits_result: "unpack_bits i n b = map (\<lambda>t. bit b (i - 1 - t)) [0..<min i n]"
proof (induction i n b rule: unpack_bits.induct)
  case (3 i n b)
  have "drop_bit i b AND 1 \<noteq> 0 \<longleftrightarrow> bit b i" by (simp add: low_bit bit_drop_bit_eq)
  moreover have "[0..<min (Suc i) (Suc n)] = 0 # map Suc [0..<min i n]" by (simp add: upt_conv_Cons map_Suc_upt del: upt_Suc)
  ultimately show ?case using 3 by simp
qed auto

lemma unpack_row_result:
  "length (unpack_row bs n) = min (8 * length bs) n \<and>
   (\<forall>X < min (8 * length bs) n. unpack_row bs n ! X \<longleftrightarrow> bit (bs ! (X div 8)) (7 - X mod 8))"
proof (induction bs n rule: unpack_row.induct)
  case (2 b bs n)
  have l: "length (unpack_bits 8 n b) = min 8 n" by (simp add: unpack_bits_result)
  have "unpack_row (b # bs) n ! X \<longleftrightarrow> bit ((b # bs) ! (X div 8)) (7 - X mod 8)" if X: "X < min (8 * length (b # bs)) n" for X
  proof (cases "X < 8")
    case True
    then show ?thesis using X l by (simp add: nth_append unpack_bits_result)
  next
    case False
    then have "X div 8 = Suc ((X - 8) div 8)" "X mod 8 = (X - 8) mod 8" by (simp_all add: le_div_geq le_mod_geq)
    moreover have "X - 8 < min (8 * length bs) (n - 8)" using X False by auto
    ultimately show ?thesis using X l False 2 by (simp add: nth_append)
  qed
  then show ?case using 2 l by auto
qed simp

lemma concat_rows:
  assumes "\<And>y. y < H \<Longrightarrow> length (f y) = n"
  shows "length (concat (map f [0..<H])) = H * n"
    "y < H \<Longrightarrow> x < n \<Longrightarrow> concat (map f [0..<H]) ! (y * n + x) = f y ! x"
proof -
  have *: "length (concat (map f [0..<h])) = h * n" if "h \<le> H" for h
    using that assms by (induction h) auto
  show "length (concat (map f [0..<H])) = H * n" using * by blast
  show "concat (map f [0..<H]) ! (y * n + x) = f y ! x" if "y < H" "x < n"
  proof -
    have "[0..<H] = [0..<y] @ y # [Suc y..<H]" using that(1) by (metis append_Cons le_add1 less_imp_add_positive upt_add_eq_append upt_conv_Cons add_0 zero_le)
    then show ?thesis using * [of y] assms [OF that(1)] that by (simp add: nth_append)
  qed
qed

text \<open>The pixels of an unpacked image, and the three operations on them.\<close>

definition px :: "bool list \<Rightarrow> nat \<Rightarrow> nat \<Rightarrow> int \<Rightarrow> int \<Rightarrow> bool" where
  "px im W H y X \<longleftrightarrow> 0 \<le> y \<and> y < int H \<and> 0 \<le> X \<and> X < int W \<and> im ! nat (y * int W + X)"

definition reference :: "(bool \<Rightarrow> bool \<Rightarrow> bool \<Rightarrow> bool \<Rightarrow> bool \<Rightarrow> bool) \<Rightarrow> bool list \<Rightarrow> nat \<Rightarrow> nat \<Rightarrow> bool list" where
  "reference op im W H =
     map (\<lambda>i. let y = int (i div W); X = int (i mod W) in
       op (px im W H y X) (px im W H y (X - 1)) (px im W H y (X + 1)) (px im W H (y - 1) X) (px im W H (y + 1) X)) [0..<H * W]"

lemma pixel_at: "y < H \<Longrightarrow> X < W \<Longrightarrow> px im W H (int y) (int X) = im ! (y * W + X)"
  by (simp add: px_def flip: of_nat_mult of_nat_add)

lemma bool2char_pixels:
  assumes l: "length im = W * H" and W: "2 \<le> W" and H: "2 \<le> H"
  shows "\<exists>p. bool2char im W H = Inr (p, (W + 7) div 8) \<and> length p = (W + 7) div 8 * H \<and>
    (\<forall>y X. pix p ((W + 7) div 8) H y X = px im W H y X)"
proof -
  let ?W = "(W + 7) div 8" let ?f = "\<lambda>y. pack_row ?W (take W (drop (y * W) im))"
  define p where "p = concat (map ?f [0..<H])"
  have r: "length (take W (drop (y * W) im)) = W" if "y < H" for y
  proof -
    have "Suc y * W \<le> H * W" using that by (intro mult_le_mono1) simp
    then show ?thesis using l by (simp add: mult.commute)
  qed
  have c: "length p = H * ?W" "\<And>y x. y < H \<Longrightarrow> x < ?W \<Longrightarrow> p ! (y * ?W + x) = ?f y ! x"
    unfolding p_def by (rule concat_rows; simp add: pack_row_result)+
  have n: "pix p ?W H (int y) (int X) = px im W H (int y) (int X)" if y: "y < H" and X: "X < 8 * ?W" for y X
  proof -
    have x: "X div 8 < ?W" using X by (simp add: less_mult_imp_div_less mult.commute)
    have "pix p ?W H (int y) (int X) \<longleftrightarrow> bit (?f y ! (X div 8)) (7 - X mod 8)"
      using pix_nat [OF y X, of p] c(2) [OF y x] by (simp add: mult.commute)
    also have "\<dots> \<longleftrightarrow> X < W \<and> take W (drop (y * W) im) ! X"
    proof -
      have "8 * (X div 8) + (7 - (7 - X mod 8)) = X" by simp
      then show ?thesis using pack_row_result [of ?W "take W (drop (y * W) im)"] x r [OF y] by auto
    qed
    also have "\<dots> \<longleftrightarrow> px im W H (int y) (int X)"
    proof (cases "X < W")
      case True
      then show ?thesis using pixel_at [OF y True, of im] r [OF y] by (simp add: add.commute)
    qed (simp add: px_def)
    finally show ?thesis .
  qed
  have "pix p ?W H y X = px im W H y X" for y X
  proof (cases "0 \<le> y \<and> y < int H \<and> 0 \<le> X \<and> X < int (8 * ?W)")
    case True
    then show ?thesis using n [of "nat y" "nat X"] by auto
  next
    case False
    have "W \<le> 8 * ?W" by simp
    then show ?thesis using False by (auto simp: pix_def px_def)
  qed
  then show ?thesis using W H c(1) by (simp add: bool2char_def p_def [symmetric] Let_def mult.commute)
qed

lemma char2bool_pixels:
  assumes l: "length r = W0 * H" and W: "W \<le> 8 * W0" "0 < W"
  shows "char2bool r W H W0 = map (\<lambda>i. pix r W0 H (int (i div W)) (int (i mod W))) [0..<H * W]"
proof -
  let ?f = "\<lambda>y. unpack_row (take W0 (drop (y * W0) r)) W"
  have t: "length (take W0 (drop (y * W0) r)) = W0" if "y < H" for y
  proof -
    have "Suc y * W0 \<le> H * W0" using that by (intro mult_le_mono1) simp
    then show ?thesis using l by (simp add: mult.commute)
  qed
  have u: "length (?f y) = W" "X < W \<Longrightarrow> ?f y ! X = bit (r ! (W0 * y + X div 8)) (7 - X mod 8)" if "y < H" for y X
  proof -
    show "length (?f y) = W" using unpack_row_result [of "take W0 (drop (y * W0) r)" W] t [OF that] W by simp
    assume X: "X < W"
    then have "X div 8 < W0" using W by (simp add: less_mult_imp_div_less mult.commute)
    then show "?f y ! X = bit (r ! (W0 * y + X div 8)) (7 - X mod 8)"
      using unpack_row_result [of "take W0 (drop (y * W0) r)" W] t [OF that] W X by (simp add: mult.commute add.commute)
  qed
  show ?thesis
  proof (rule nth_equalityI)
    show "length (char2bool r W H W0) = length (map (\<lambda>i. pix r W0 H (int (i div W)) (int (i mod W))) [0..<H * W])"
      unfolding char2bool_def using concat_rows(1) [of H ?f W] u(1) by simp
    fix i assume "i < length (char2bool r W H W0)"
    then have i: "i < H * W" unfolding char2bool_def using concat_rows(1) [of H ?f W] u(1) by simp
    then have y: "i div W < H" and x: "i mod W < W" using W by (simp_all add: less_mult_imp_div_less)
    have "char2bool r W H W0 ! (i div W * W + i mod W) = ?f (i div W) ! (i mod W)"
      unfolding char2bool_def by (rule concat_rows(2)) (use u(1) y x in auto)
    then show "char2bool r W H W0 ! i = map (\<lambda>i. pix r W0 H (int (i div W)) (int (i mod W))) [0..<H * W] ! i"
      using i u(2) [OF y x] pix_nat [OF y, of "i mod W" W0 r] x W by simp
  qed
qed

section \<open>Equivalence with the pixel operations\<close>

text \<open>An operation that sets each byte so that its bits are \<open>op\<close> of the pixel and its neighbours.\<close>

lemma by_pixels:
  assumes l: "length im = W * H" and W: "9 \<le> W" and H: "2 \<le> H"
    and f: "\<And>p W0. length p = W0 * H \<Longrightarrow> 2 \<le> W0 \<Longrightarrow> \<exists>r. f p W0 H = Inr r \<and> length r = W0 * H \<and>
      (\<forall>j < W0 * H. \<forall>k < 8. bit (r ! j) k = op (bit (p ! j) k) (lft p W0 j k) (rgt p W0 j k) (upn p W0 j k) (dwn p W0 H j k))"
  shows "\<exists>p W0 r. bool2char im W H = Inr (p, W0) \<and> f p W0 H = Inr r \<and> char2bool r W H W0 = reference op im W H"
proof -
  let ?W = "(W + 7) div 8"
  obtain p where p: "bool2char im W H = Inr (p, ?W)" "length p = ?W * H" "\<And>y X. pix p ?W H y X = px im W H y X"
    using bool2char_pixels [OF l _ H] W by auto
  have W0: "2 \<le> ?W" "W \<le> 8 * ?W" using W by auto
  obtain r where r: "f p ?W H = Inr r" "length r = ?W * H"
    "\<forall>j < ?W * H. \<forall>k < 8. bit (r ! j) k = op (bit (p ! j) k) (lft p ?W j k) (rgt p ?W j k) (upn p ?W j k) (dwn p ?W H j k)"
    using f [OF p(2) W0(1)] by blast
  have "pix r ?W H (int y) (int X) = op (px im W H (int y) (int X)) (px im W H (int y) (int X - 1)) (px im W H (int y) (int X + 1))
      (px im W H (int y - 1) (int X)) (px im W H (int y + 1) (int X))" if y: "y < H" and "X < W" for y X
  proof -
    have X: "X < 8 * ?W" using that(2) W0(2) by linarith
    then have "X div 8 < ?W" by (simp add: less_mult_imp_div_less mult.commute)
    moreover have "?W * Suc y \<le> ?W * H" using y by (intro mult_le_mono2) simp
    ultimately have "?W * y + X div 8 < ?W * H" by simp
    then show ?thesis
      unfolding p(3) [symmetric] pix_nat [OF y X] pix_neighbours [OF W0(1) y X] using r(3) by simp
  qed
  then have "char2bool r W H ?W = reference op im W H"
    unfolding char2bool_pixels [OF r(2) W0(2) less_le_trans [OF _ W], OF zero_less_numeral] reference_def Let_def
    using W by (intro map_cong refl) (auto simp: less_mult_imp_div_less)
  then show ?thesis using p(1) r(1) by blast
qed

text \<open>
  C5. For an image of at least nine columns and two rows, packing it, the table driven \<open>dilation\<close> of the
  packed bytes and unpacking gives exactly the dilation of the pixels by the cross of the four
  neighbours; no access leaves an array.
\<close>

theorem dilation_pixels:
  assumes "length im = W * H" "9 \<le> W" "2 \<le> H"
  shows "\<exists>p W0 r. bool2char im W H = Inr (p, W0) \<and> dilation p W0 H = Inr r \<and>
    char2bool r W H W0 = reference (\<lambda>c l r u d. c \<or> l \<or> r \<or> u \<or> d) im W H"
proof (rule by_pixels [OF assms])
  fix p :: "u8 list" and W0 assume "length p = W0 * H" "2 \<le> W0"
  from dilation_bytes [OF this assms(3)] show "\<exists>r. dilation p W0 H = Inr r \<and> length r = W0 * H \<and>
      (\<forall>j < W0 * H. \<forall>k < 8. bit (r ! j) k = (bit (p ! j) k \<or> lft p W0 j k \<or> rgt p W0 j k \<or> upn p W0 j k \<or> dwn p W0 H j k))"
    by (auto simp: bit_dil_val)
qed

text \<open>
  C6. In the same way the table driven \<open>erosion\<close> is exactly the erosion of the pixels by the cross, with no
  pixels outside of the image.
\<close>

theorem erosion_pixels:
  assumes "length im = W * H" "9 \<le> W" "2 \<le> H"
  shows "\<exists>p W0 r. bool2char im W H = Inr (p, W0) \<and> erosion p W0 H = Inr r \<and>
    char2bool r W H W0 = reference (\<lambda>c l r u d. c \<and> l \<and> r \<and> u \<and> d) im W H"
proof (rule by_pixels [OF assms])
  fix p :: "u8 list" and W0 assume p: "length p = W0 * H" "2 \<le> W0"
  have "\<not> (upn p W0 j k \<and> dwn p W0 H j k)" if "\<not> (0 < j div W0 \<and> j div W0 < H - 1)" for j k
    using that by (auto simp: upn_def dwn_def)
  with erosion_bytes [OF p assms(3)] show "\<exists>r. erosion p W0 H = Inr r \<and> length r = W0 * H \<and>
      (\<forall>j < W0 * H. \<forall>k < 8. bit (r ! j) k = (bit (p ! j) k \<and> lft p W0 j k \<and> rgt p W0 j k \<and> upn p W0 j k \<and> dwn p W0 H j k))"
    by (smt (verit, best) bit_er_val bit_0_eq bot_apply bot_bool_def)
qed

text \<open>
  \<open>FC_filter\<close> keeps exactly the pixels that have one of the four neighbours, when a row takes at least
  two bytes.
\<close>

theorem FC_filter_pixels:
  assumes "length im = W * H" "9 \<le> W" "2 \<le> H"
  shows "\<exists>p W0 r. bool2char im W H = Inr (p, W0) \<and> FC_filter p W0 H = Inr r \<and>
    char2bool r W H W0 = reference (\<lambda>c l r u d. c \<and> (l \<or> r \<or> u \<or> d)) im W H"
proof (rule by_pixels [OF assms])
  fix p :: "u8 list" and W0 assume "length p = W0 * H" "2 \<le> W0"
  from FC_filter_bytes [OF this assms(3)] show "\<exists>r. FC_filter p W0 H = Inr r \<and> length r = W0 * H \<and>
      (\<forall>j < W0 * H. \<forall>k < 8. bit (r ! j) k = (bit (p ! j) k \<and> (lft p W0 j k \<or> rgt p W0 j k \<or> upn p W0 j k \<or> dwn p W0 H j k)))"
    by (auto simp: bit_fc_val)
qed

text \<open>Packing and unpacking an image of at least two pixels in each direction gives it back.\<close>

text \<open>
  Unpacking with \<open>char2bool\<close> gives back every image that \<open>bool2char\<close> packs, also when the width is no
  multiple of eight.
\<close>

theorem pack_roundtrip:
  assumes "length im = W * H" "2 \<le> W" "2 \<le> H"
  shows "\<exists>p W0. bool2char im W H = Inr (p, W0) \<and> char2bool p W H W0 = im"
proof -
  obtain p where p: "bool2char im W H = Inr (p, (W + 7) div 8)" "length p = (W + 7) div 8 * H"
    "\<And>y X. pix p ((W + 7) div 8) H y X = px im W H y X" using bool2char_pixels [OF assms] by auto
  have W: "W \<le> 8 * ((W + 7) div 8)" "0 < W" using assms(2) by auto
  have "im ! i = px im W H (int (i div W)) (int (i mod W))" if "i < H * W" for i
    using pixel_at [of "i div W" H "i mod W" W im] that assms(2) by (simp add: less_mult_imp_div_less)
  then have "char2bool p W H ((W + 7) div 8) = im"
    unfolding char2bool_pixels [OF p(2) W] p(3) using assms(1) by (intro nth_equalityI) (auto simp: mult.commute)
  then show ?thesis using p(1) by blast
qed

text \<open>A row of one byte: the body writes two bytes per row, the last one behind the array.\<close>

text \<open>
  An image whose rows take one byte passes the guard of \<open>FC_filter\<close>, which then leaves the array; the
  labelling of four connected components calls it for every image of at most eight columns.
\<close>

theorem FC_filter_one_byte:
  assumes "length im = H" "2 \<le> H"
  shows "FC_filter im 1 H = Inl OutOfArray"
proof -
  have "right_in im (int (H - 1)) p = None" for p
    using assms by (simp add: right_in_def at_def of_nat_diff)
  then have "fc_row False True im 1 (H - 1) r = None" for r
    by (simp add: fc_row_def row_scan_def bind_eq_None_conv)
  then show ?thesis using assms(2) by (simp add: FC_filter_def checked_def bind_eq_None_conv split: option.splits)
qed

definition spot :: "bool list" where
  "spot = replicate 12 False @ [True] @ replicate 5 False @ [True, True] @ replicate 7 False"

theorem dilation_pixels_witness:
  "length spot = 9 * 3 \<and> (\<exists>p W0 r. bool2char spot 9 3 = Inr (p, W0) \<and> dilation p W0 3 = Inr r \<and>
    char2bool r 9 3 W0 = reference (\<lambda>c l r u d. c \<or> l \<or> r \<or> u \<or> d) spot 9 3)"
  using dilation_pixels [of spot 9 3] by (simp add: spot_def)

theorem erosion_pixels_witness:
  "length spot = 9 * 3 \<and> (\<exists>p W0 r. bool2char spot 9 3 = Inr (p, W0) \<and> erosion p W0 3 = Inr r \<and>
    char2bool r 9 3 W0 = reference (\<lambda>c l r u d. c \<and> l \<and> r \<and> u \<and> d) spot 9 3)"
  using erosion_pixels [of spot 9 3] by (simp add: spot_def)

theorem FC_filter_pixels_witness:
  "length spot = 9 * 3 \<and> (\<exists>p W0 r. bool2char spot 9 3 = Inr (p, W0) \<and> FC_filter p W0 3 = Inr r \<and>
    char2bool r 9 3 W0 = reference (\<lambda>c l r u d. c \<and> (l \<or> r \<or> u \<or> d)) spot 9 3)"
  using FC_filter_pixels [of spot 9 3] by (simp add: spot_def)

theorem pack_roundtrip_witness: "\<exists>p W0. bool2char spot 9 3 = Inr (p, W0) \<and> char2bool p 9 3 W0 = spot"
  using pack_roundtrip [of spot 9 3] by (simp add: spot_def)

theorem FC_filter_one_byte_witness: "FC_filter [0x18, 0x18] 1 2 = Inl OutOfArray"
  using FC_filter_one_byte [of "[0x18, 0x18]" 2] by simp

end
