(* ===== verification/CCLabel.thy ===== *)
theory CCLabel
  imports BinMorph
begin

text \<open>
  The labelling of connected components of \<open>binmorph.c\<close>, with the body \<open>cclabling_1.h\<close> of
  \<open>cclabel4_1\<close> and \<open>cclabel8_1\<close>. \<open>labels\<close> is the unpacked image, \<open>assoc\<close> maps provisional labels to
  components and has room for a quarter of the pixels; every access is checked. The time that is
  printed is left out, and so is what the functions return: a null pointer, with \<open>*Nobj\<close> unset.
\<close>

record ccl =
  labels :: "nat list"
  assoc :: "nat list"
  last_assoc_idx :: nat
  currentnum :: nat
  label_N :: nat

section \<open>Merging\<close>

text \<open>The loop of \<open>remark\<close> over the indices \<open>i\<close>.\<close>

fun remark_loop :: "nat \<Rightarrow> nat \<Rightarrow> nat list \<Rightarrow> nat list \<Rightarrow> nat list option" where
  "remark_loop Old New [] a = Some a"
| "remark_loop Old New (i # is) a = do {
     m \<leftarrow> at a (int i);
     a1 \<leftarrow> (if m < Old then Some a else if m = Old then put a (int i) New else put a (int i) (m - 1));
     remark_loop Old New is a1 }"

definition remark :: "nat \<Rightarrow> nat \<Rightarrow> ccl \<Rightarrow> ccl option" where
  "remark old new s = do {
     New0 \<leftarrow> at (assoc s) (int new);
     Old0 \<leftarrow> at (assoc s) (int old);
     if Old0 = New0 then Some s
     else do {
       a \<leftarrow> remark_loop (max Old0 New0) (min Old0 New0) [1..<last_assoc_idx s] (assoc s);
       Some (s\<lparr>assoc := a, currentnum := currentnum s - 1\<rparr>) } }"

section \<open>One pixel\<close>

text \<open>A read behind a condition that the code tests first.\<close>

definition at_if :: "bool \<Rightarrow> nat list \<Rightarrow> int \<Rightarrow> nat option" where
  "at_if c l i = (if c then at l i else Some 0)"

text \<open>The mark from the row above of a pixel that starts a run: the state and \<open>upmark\<close>, 0 for none.\<close>

definition from_above :: "bool \<Rightarrow> nat \<Rightarrow> nat \<Rightarrow> nat \<Rightarrow> ccl \<Rightarrow> (ccl \<times> nat) option" where
  "from_above eight W x ptr s =
     (let up = int ptr - int W in do {
        ul \<leftarrow> at_if (eight \<and> x > 0) (labels s) (up - 1);
        u \<leftarrow> at_if (ul = 0) (labels s) up;
        let upmark = (if ul \<noteq> 0 then ul else u);
        ur \<leftarrow> at_if (eight \<and> x < W - 1) (labels s) (up + 1);
        if ur \<noteq> 0 then
          (if upmark \<noteq> 0 then do { s1 \<leftarrow> remark ur upmark s; Some (s1, upmark) } else Some (s, ur))
        else Some (s, upmark) })"

text \<open>A pixel without a neighbour.\<close>

definition hermit :: "bool \<Rightarrow> nat \<Rightarrow> nat \<Rightarrow> nat \<Rightarrow> nat \<Rightarrow> nat \<Rightarrow> nat list \<Rightarrow> bool option" where
  "hermit eight W H x y ptr l =
     (let p = int ptr; D = (y < H - 1) in
      if eight then do {
        dl \<leftarrow> at_if (x > 0 \<and> D) l (p + int W - 1);
        dr \<leftarrow> at_if (x < W - 1 \<and> D) l (p + int W + 1);
        r \<leftarrow> at_if (x < W - 1) l (p + 1);
        d \<leftarrow> at_if D l (p + int W);
        Some (dl = 0 \<and> dr = 0 \<and> r = 0 \<and> d = 0) }
      else do {
        d \<leftarrow> at_if D l (p + int W);
        r \<leftarrow> at_if (x < W - 1) l (p + 1);
        Some (D \<and> d = 0 \<and> x < W - 1 \<and> r = 0) })"

definition label_pixel :: "bool \<Rightarrow> nat \<Rightarrow> nat \<Rightarrow> nat \<Rightarrow> nat \<Rightarrow> ccl \<times> bool \<times> nat \<Rightarrow> (ccl \<times> bool \<times> nat) option" where
  "label_pixel eight W H y x st =
     (case st of (s, found, curmark) \<Rightarrow>
       let ptr = y * W + x in do {
         curval \<leftarrow> at (labels s) (int ptr);
         if curval = 0 then Some (s, False, curmark)
         else if \<not> found then do {
           (s1, upmark) \<leftarrow> (if y > 0 then from_above eight W x ptr s else Some (s, 0));
           if upmark \<noteq> 0 then do {
             l \<leftarrow> put (labels s1) (int ptr) upmark;
             Some (s1\<lparr>labels := l\<rparr>, True, upmark) }
           else do {
             h \<leftarrow> hermit eight W H x y ptr (labels s1);
             if h then do { l \<leftarrow> put (labels s1) (int ptr) 0; Some (s1\<lparr>labels := l\<rparr>, True, curmark) }
             else do {
               let n = label_N s1 + 1;
               a \<leftarrow> put (assoc s1) (int n) (currentnum s1 + 1);
               l \<leftarrow> put (labels s1) (int ptr) n;
               Some (s1\<lparr>labels := l, assoc := a, last_assoc_idx := n + 1, currentnum := currentnum s1 + 1, label_N := n\<rparr>, True, n) } } }
         else do {
           ur \<leftarrow> at_if (y > 0 \<and> x < W - 1) (labels s) (int ptr - int W + 1);
           s1 \<leftarrow> (if ur \<noteq> 0 then remark ur curmark s else Some s);
           l \<leftarrow> put (labels s1) (int ptr) curmark;
           Some (s1\<lparr>labels := l\<rparr>, True, curmark) } })"

section \<open>The image\<close>

fun label_row :: "bool \<Rightarrow> nat \<Rightarrow> nat \<Rightarrow> nat \<Rightarrow> nat list \<Rightarrow> ccl \<times> bool \<times> nat \<Rightarrow> ccl option" where
  "label_row eight W H y [] st = Some (fst st)"
| "label_row eight W H y (x # xs) st = do { st1 \<leftarrow> label_pixel eight W H y x st; label_row eight W H y xs st1 }"

fun label_rows :: "bool \<Rightarrow> nat \<Rightarrow> nat \<Rightarrow> nat list \<Rightarrow> ccl \<Rightarrow> ccl option" where
  "label_rows eight W H [] s = Some s"
| "label_rows eight W H (y # ys) s = do { s1 \<leftarrow> label_row eight W H y [0..<W] (s, False, 0); label_rows eight W H ys s1 }"

definition rename_label :: "nat list \<Rightarrow> nat \<Rightarrow> nat option" where
  "rename_label a p = (if p = 0 then Some 0 else at a (int p))"

text \<open>The body: the labels at the end and the number of components that is printed.\<close>

definition cclabling_1 :: "bool \<Rightarrow> u8 list \<Rightarrow> nat \<Rightarrow> nat \<Rightarrow> nat \<Rightarrow> (nat list \<times> nat) option" where
  "cclabling_1 eight I W H W0 = do {
     s \<leftarrow> label_rows eight W H [0..<H]
       \<lparr>labels = char2st I W H W0, assoc = replicate (W * H div 4) 0, last_assoc_idx = 0, currentnum = 0, label_N = 0\<rparr>;
     l \<leftarrow> those (map (rename_label (assoc s)) (labels s));
     Some (l, currentnum s) }"

definition cclabel4_1 :: "u8 list \<Rightarrow> nat \<Rightarrow> nat \<Rightarrow> nat \<Rightarrow> morph_error + nat list \<times> nat" where
  "cclabel4_1 Img W H W0 =
     (case FC_filter Img W0 H of
        Inl e \<Rightarrow> Inl e
      | Inr I \<Rightarrow> checked (cclabling_1 False I W H W0))"

definition cclabel8_1 :: "u8 list \<Rightarrow> nat \<Rightarrow> nat \<Rightarrow> nat \<Rightarrow> morph_error + nat list \<times> nat" where
  "cclabel8_1 I W H W0 = checked (cclabling_1 True I W H W0)"

section \<open>Four connected components\<close>

text \<open>Two pixels of an unpacked image of width \<open>W\<close> are connected through their four neighbours.\<close>

inductive conn4 :: "bool list \<Rightarrow> nat \<Rightarrow> nat \<Rightarrow> int \<times> int \<Rightarrow> int \<times> int \<Rightarrow> bool" for im W H where
  conn4_refl: "px im W H y x \<Longrightarrow> conn4 im W H (y, x) (y, x)"
| conn4_step: "conn4 im W H p (y, x) \<Longrightarrow> px im W H y' x' \<Longrightarrow> \<bar>y' - y\<bar> + \<bar>x' - x\<bar> = 1 \<Longrightarrow> conn4 im W H p (y', x')"

lemma conn4_stays:
  assumes "conn4 im W H p q" "p \<in> S"
    and "\<And>y x y' x'. (y, x) \<in> S \<Longrightarrow> px im W H y' x' \<Longrightarrow> \<bar>y' - y\<bar> + \<bar>x' - x\<bar> = 1 \<Longrightarrow> (y', x') \<in> S"
  shows "q \<in> S"
  using assms by (induction rule: conn4.induct) blast+

text \<open>Two bars that touch at a corner, and a corner of three pixels, in images of nine columns.\<close>

definition corner_bars :: "bool list" where
  "corner_bars = [False, False, True, True, False, False, False, False, False,
                  True, True, False, False, False, False, False, False, False]"

definition corner_three :: "bool list" where
  "corner_three = [False, False, True, False, False, False, False, False, False,
                   False, True, True, False, False, False, False, False, False]"

lemma labels_corner_bars:
  "bool2char corner_bars 9 2 = Inr ([0x30, 0, 0xc0, 0], 2)"
  "cclabel4_1 [0x30, 0, 0xc0, 0] 9 2 2 = Inr ([0, 0, 1, 1, 0, 0, 0, 0, 0, 1, 1, 0, 0, 0, 0, 0, 0, 0], 1)"
  by code_simp+

lemma labels_corner_three:
  "bool2char corner_three 9 2 = Inr ([0x20, 0, 0x60, 0], 2)"
  "cclabel4_1 [0x20, 0, 0x60, 0] 9 2 2 = Inr ([0, 0, 1, 0, 0, 0, 0, 0, 0, 0, 2, 2, 0, 0, 0, 0, 0, 0], 2)"
  by code_simp+

lemma corner_bars_apart: "\<not> conn4 corner_bars 9 2 (0, 2) (1, 1)"
proof
  assume "conn4 corner_bars 9 2 (0, 2) (1, 1)"
  then have "(1, 1) \<in> {(0 :: int, 2 :: int), (0, 3)}"
  proof (rule conn4_stays)
    have b: "px corner_bars 9 2 y x \<Longrightarrow> (y, x) \<in> {(0, 2), (0, 3), (1, 0), (1, 1)}" for y x
    proof -
      assume p: "px corner_bars 9 2 y x"
      then have "y = 0 \<or> y = 1" "x = 0 \<or> x = 1 \<or> x = 2 \<or> x = 3 \<or> x = 4 \<or> x = 5 \<or> x = 6 \<or> x = 7 \<or> x = 8"
        unfolding px_def by (simp; linarith)+
      then show ?thesis using p by (elim disjE) (simp_all add: px_def corner_bars_def)
    qed
    show "(y', x') \<in> {(0, 2), (0, 3)}" if "(y, x) \<in> {(0, 2), (0, 3)}" "px corner_bars 9 2 y' x'" "\<bar>y' - y\<bar> + \<bar>x' - x\<bar> = 1" for y x y' x' :: int
      using b [OF that(2)] that(1,3) by auto
  qed simp
  then show False by simp
qed

lemma corner_three_connected: "conn4 corner_three 9 2 (0, 2) (1, 1)"
proof -
  have p: "px corner_three 9 2 0 2" "px corner_three 9 2 1 2" "px corner_three 9 2 1 1"
    by (simp_all add: px_def corner_three_def)
  show ?thesis using conn4_step [OF conn4_step [OF conn4_refl [OF p(1)] p(2)] p(3)] by simp
qed

text \<open>
  The labelling \<open>cclabel4_1\<close> of four connected components is neither sound nor complete: it gives two bars
  that only touch at a corner one label, and the pixels of a connected corner two labels. Behind the
  first pixel of a run it looks at the pixel above to the right, whether the run goes on or not, and
  never at the one above the second pixel.
\<close>

theorem cclabel4_1_wrong:
  "(\<exists>p l. bool2char corner_bars 9 2 = Inr (p, 2) \<and> cclabel4_1 p 9 2 2 = Inr (l, 1) \<and>
      l ! 2 = l ! 10 \<and> \<not> conn4 corner_bars 9 2 (0, 2) (1, 1)) \<and>
   (\<exists>p l. bool2char corner_three 9 2 = Inr (p, 2) \<and> cclabel4_1 p 9 2 2 = Inr (l, 2) \<and>
      l ! 2 \<noteq> l ! 10 \<and> conn4 corner_three 9 2 (0, 2) (1, 1))"
  using labels_corner_bars labels_corner_three corner_bars_apart corner_three_connected by simp

text \<open>More runs than a quarter of the pixels: nine columns of height two in an image of seventeen.\<close>

definition comb :: "bool list" where
  "comb = concat (replicate 2 (True # concat (replicate 8 [False, True])))"

text \<open>
  The table of the labels has room for a quarter of the pixels, which is not enough: an image of seventeen
  columns and two rows with every other column set makes the labelling write behind it.
\<close>

theorem comb_leaves_assoc:
  "\<exists>p. bool2char comb 17 2 = Inr (p, 3) \<and> cclabel4_1 p 17 2 3 = Inl OutOfArray"
proof -
  have "bool2char comb 17 2 = Inr ([0xaa, 0xaa, 0x80, 0xaa, 0xaa, 0x80], 3)"
    "cclabel4_1 [0xaa, 0xaa, 0x80, 0xaa, 0xaa, 0x80] 17 2 3 = Inl OutOfArray" by code_simp+
  then show ?thesis by blast
qed

end
