(* ===== verification/Gps.thy ===== *)
theory Gps
  imports CPrelude
begin

text \<open>
  The GPS reader \<open>_deprecated/GPS/main.c\<close>: NMEA sentences with their checksum, the dispatch of what was
  received, and the UBX configuration packets with their acknowledgement. The terminal is a parameter:
  \<open>write_tty\<close> on a state of its own, and the chunks of bytes that \<open>read_tty\<close> finds one after the other.
  What the handlers of the sentences print, and the floating point statistics, are left out.
\<close>

section \<open>Checksums of NMEA sentences\<close>

definition xor_bytes :: "u8 \<Rightarrow> string \<Rightarrow> u8" where
  "xor_bytes = foldl (\<lambda>s c. s XOR of_char c)"

definition HEX :: "nat \<Rightarrow> char" where
  "HEX n = ''0123456789ABCDEF'' ! n"

text \<open>What \<open>snprintf\<close> makes of a byte with \<open>%X\<close> and with \<open>%02X\<close>.\<close>

definition fmt_X :: "u8 \<Rightarrow> string" where
  "fmt_X b = (if unat b < 16 then [HEX (unat b)] else [HEX (unat b div 16), HEX (unat b mod 16)])"

definition fmt_02X :: "u8 \<Rightarrow> string" where
  "fmt_02X b = [HEX (unat b div 16), HEX (unat b mod 16)]"

text \<open>
  The loop of \<open>write_with_checksum\<close>: the test is behind the body, so the first byte is taken whatever it
  is; \<open>None\<close> when it is the terminating NUL and the loop goes on behind it.
\<close>

fun sum_loop :: "string \<Rightarrow> u8 \<Rightarrow> u8 option" where
  "sum_loop [] s = None"
| "sum_loop (c # cs) s =
     (if cs = [] \<or> hd cs = CHR ''*'' then Some (s XOR of_char c) else sum_loop cs (s XOR of_char c))"

text \<open>The two bytes that are written from \<open>CS\<close>: a checksum of one digit leaves the NUL behind it.\<close>

definition cs_bytes :: "u8 \<Rightarrow> string" where
  "cs_bytes s = take 2 (fmt_X s @ [CHR 0x00])"

text \<open>\<open>write_tty\<close> returns the new state and whether there was an error.\<close>

definition write_with_checksum :: "('h \<Rightarrow> string \<Rightarrow> 'h \<times> bool) \<Rightarrow> string \<Rightarrow> 'h \<Rightarrow> ('h \<times> bool) option" where
  "write_with_checksum write_tty buf h =
     (if cat buf 0 \<noteq> 36 then Some (h, False)
      else
        (case write_tty h buf of
           (h1, True) \<Rightarrow> Some (h1, False)
         | (h1, False) \<Rightarrow>
             (case sum_loop (tl buf) 0 of
                None \<Rightarrow> None
              | Some s \<Rightarrow>
                  (case write_tty h1 (cs_bytes s) of
                     (h2, True) \<Rightarrow> Some (h2, False)
                   | (h2, False) \<Rightarrow>
                       (case write_tty h2 [CR, NL] of (h3, e) \<Rightarrow> Some (h3, \<not> e))))))"

definition checksum :: "string \<Rightarrow> bool" where
  "checksum buf =
     (cat buf 0 = 36 \<and>
      (case split_at (CHR ''*'') buf of
         None \<Rightarrow> False
       | Some (s, rest) \<Rightarrow> take 2 rest = fmt_02X (xor_bytes 0 (tl s))))"

text \<open>\<open>nmea_fieldrate\<close>, for the rates 0 and 1 that are used; \<open>None\<close> is the return value -1.\<close>

definition fieldrate_cmd :: "string \<Rightarrow> bool \<Rightarrow> string" where
  "fieldrate_cmd field on = ''$PUBX,40,'' @ field @ '',0,'' @ (if on then ''1'' else ''0'') @ '',0,0*''"

definition nmea_fieldrate :: "('h \<Rightarrow> string \<Rightarrow> 'h \<times> bool) \<Rightarrow> string \<Rightarrow> bool \<Rightarrow> 'h \<Rightarrow> ('h \<times> bool) option" where
  "nmea_fieldrate write_tty field on h = write_with_checksum write_tty (fieldrate_cmd field on) h"

definition GPmsgs :: "string list" where
  "GPmsgs = [''GSV'', ''RMC'', ''GSA'', ''GGA'', ''GLL'', ''VTG'']"

section \<open>Received sentences\<close>

text \<open>The next field: behind the \<open>pos\<close>-th comma from here.\<close>

fun skip_commas :: "nat \<Rightarrow> string \<Rightarrow> string option" where
  "skip_commas 0 buf = Some buf"
| "skip_commas (Suc n) buf = (case split_at (CHR '','') buf of None \<Rightarrow> None | Some (a, rest) \<Rightarrow> skip_commas n rest)"

definition nextpos :: "string \<Rightarrow> int \<Rightarrow> string option" where
  "nextpos buf pos = skip_commas (if pos < 1 then 1 else nat pos) buf"


text \<open>\<open>strncmp(buf, s, n) == 0\<close> with the length of the literal.\<close>

definition starts :: "string \<Rightarrow> string \<Rightarrow> bool" where
  "starts s buf = (take (length s) buf = s)"




section \<open>UBX packets\<close>

text \<open>The two sums over the bytes behind the header.\<close>

definition ubx_sums :: "u8 list \<Rightarrow> u8 \<times> u8" where
  "ubx_sums = foldl (\<lambda>(a, b) x. (a + x, b + (a + x))) (0, 0)"

text \<open>A packet: header, class and identifier, length and payload, and the sums.\<close>

definition ubx_packet :: "u8 list \<Rightarrow> u8 list" where
  "ubx_packet body = (case ubx_sums body of (a, b) \<Rightarrow> [0xb5, 0x62] @ body @ [a, b])"

definition stat_packet :: "u8 list" where
  "stat_packet = ubx_packet ([0x06, 0x24, 36, 0, 1, 0, 2] @ replicate 33 0)"

definition prec_packet :: "u8 list" where
  "prec_packet = ubx_packet ((([0x06, 0x23, 40, 0, 0, 0, 0, 0x20] @ replicate 36 0)[30 := 1]))"

definition ack_packet :: "u8 list \<Rightarrow> u8 list" where
  "ack_packet conf = ubx_packet [0x05, 0x01, 2, 0, conf ! 2, conf ! 3]"

text \<open>\<open>read_tty\<close>: at most \<open>n\<close> bytes of what has arrived; \<open>[]\<close> is a read that finds nothing.\<close>

fun read_tty :: "nat \<Rightarrow> u8 list list \<Rightarrow> u8 list \<times> u8 list list" where
  "read_tty n [] = ([], [])"
| "read_tty n (c # cs) = (if length c \<le> n then (c, cs) else (take n c, drop n c # cs))"

text \<open>The comparison of a chunk with the rest of the acknowledgement: \<open>None\<close> on a difference.\<close>

fun match_chunk :: "u8 list \<Rightarrow> u8 list \<Rightarrow> u8 list option" where
  "match_chunk [] cmp = Some cmp"
| "match_chunk (x # xs) [] = None"
| "match_chunk (x # xs) (c # cmp) = (if x = c then match_chunk xs cmp else None)"

text \<open>
  \<open>get_ACK\<close> with the \<open>n\<close> reads of the three seconds that it waits, and the terminal behind it: the bytes
  behind a difference in the same chunk are dropped.
\<close>

fun ack_loop :: "nat \<Rightarrow> u8 list \<Rightarrow> u8 list \<Rightarrow> u8 list list \<Rightarrow> bool \<times> u8 list list" where
  "ack_loop 0 ack cmp tty = (cmp = [], tty)"
| "ack_loop (Suc n) ack cmp tty =
     (if cmp = [] then (True, tty)
      else
        (case read_tty (length cmp) tty of
           (got, tty1) \<Rightarrow>
             ack_loop n ack (case match_chunk got cmp of None \<Rightarrow> ack | Some cmp1 \<Rightarrow> cmp1) tty1))"

definition get_ACK :: "nat \<Rightarrow> u8 list \<Rightarrow> u8 list list \<Rightarrow> bool \<times> u8 list list" where
  "get_ACK n conf tty = ack_loop n (ack_packet conf) (ack_packet conf) tty"

text \<open>A packet is written until it is acknowledged, at most \<open>k\<close> times (eleven in the code).\<close>

fun send_loop :: "('h \<Rightarrow> u8 list \<Rightarrow> 'h) \<Rightarrow> nat \<Rightarrow> u8 list \<Rightarrow> nat \<Rightarrow> 'h \<Rightarrow> u8 list list \<Rightarrow> 'h \<times> u8 list list" where
  "send_loop wr n pkt 0 h tty = (h, tty)"
| "send_loop wr n pkt (Suc k) h tty =
     (case get_ACK n pkt tty of
        (True, tty1) \<Rightarrow> (wr h pkt, tty1)
      | (False, tty1) \<Rightarrow> send_loop wr n pkt k (wr h pkt) tty1)"

definition cfg_stationary :: "('h \<Rightarrow> u8 list \<Rightarrow> 'h) \<Rightarrow> nat \<Rightarrow> 'h \<Rightarrow> u8 list list \<Rightarrow> 'h \<times> u8 list list" where
  "cfg_stationary wr n h tty =
     (case send_loop wr n stat_packet 11 h tty of (h1, tty1) \<Rightarrow> send_loop wr n prec_packet 11 h1 tty1)"

section \<open>Sending and checking\<close>

lemma HEX_inj: "i < 16 \<Longrightarrow> j < 16 \<Longrightarrow> HEX i = HEX j \<longleftrightarrow> i = j"
proof -
  have "distinct ''0123456789ABCDEF''" by simp
  moreover assume "i < 16" "j < 16"
  ultimately show ?thesis unfolding HEX_def by (subst nth_eq_iff_index_eq) auto
qed

lemma fmt_02X_inj: "fmt_02X a = fmt_02X b \<longleftrightarrow> a = b"
proof
  assume "fmt_02X a = fmt_02X b"
  then have "unat a div 16 = unat b div 16" "unat a mod 16 = unat b mod 16"
    using unat_u8 [of a] unat_u8 [of b] HEX_inj by (simp_all add: fmt_02X_def)
  then have "unat a = unat b" by (metis mult_div_mod_eq)
  then show "a = b" by (simp add: word_unat_eq_iff)
qed simp

lemma sum_loop_star:
  "cs \<noteq> [] \<Longrightarrow> CHR ''*'' \<notin> set cs \<Longrightarrow> sum_loop (cs @ [CHR ''*'']) s = Some (xor_bytes s cs)"
proof (induction cs arbitrary: s)
  case (Cons c cs)
  then show ?case by (cases cs) (auto simp: xor_bytes_def)
qed simp

lemma checksum_line:
  "CHR ''*'' \<notin> set body \<Longrightarrow> checksum (''$'' @ body @ ''*'' @ cs) \<longleftrightarrow> take 2 cs = fmt_02X (xor_bytes 0 body)"
  by (simp add: checksum_def cat_def schar_def)

lemma cs_bytes_ok: "cs_bytes s = fmt_02X s \<longleftrightarrow> 16 \<le> unat s"
  using HEX_inj [of "unat s" "unat s div 16"] by (auto simp: cs_bytes_def fmt_X_def fmt_02X_def HEX_def)

text \<open>
  A message that \<open>write_with_checksum\<close> writes goes out with two bytes for its checksum, and passes the
  \<open>checksum\<close> of the receiving side exactly when its sum is at least 16: a sum of one hexadecimal digit is
  written as that digit and a NUL byte.
\<close>

theorem written_checksum:
  assumes w: "\<And>h s. write_tty h s = (h @ s, False)" and b: "body \<noteq> []" "CHR ''*'' \<notin> set body"
  shows "\<exists>cs. write_with_checksum write_tty (''$'' @ body @ ''*'') h = Some (h @ ''$'' @ body @ ''*'' @ cs @ [CR, NL], True) \<and>
    length cs = 2 \<and> (checksum (''$'' @ body @ ''*'' @ cs) \<longleftrightarrow> 16 \<le> unat (xor_bytes 0 body))"
proof -
  let ?s = "xor_bytes 0 body"
  have "write_with_checksum write_tty (''$'' @ body @ ''*'') h = Some (h @ ''$'' @ body @ ''*'' @ cs_bytes ?s @ [CR, NL], True)"
    using sum_loop_star [OF b] by (simp add: write_with_checksum_def w cat_def schar_def)
  moreover have "length (cs_bytes ?s) = 2" by (simp add: cs_bytes_def fmt_X_def)
  moreover from this have "checksum (''$'' @ body @ ''*'' @ cs_bytes ?s) \<longleftrightarrow> 16 \<le> unat ?s"
    by (simp only: checksum_line [OF b(2)] cs_bytes_ok [symmetric]) simp
  ultimately show ?thesis by blast
qed

text \<open>The commands that the program sends are accepted.\<close>

text \<open>
  The commands that switch the sentences on and off, for all six sentences, are written with a checksum
  that is accepted.
\<close>

theorem fieldrate_ok:
  assumes w: "\<And>h s. write_tty h s = (h @ s, False)" and f: "field \<in> set GPmsgs"
  shows "\<exists>cs. nmea_fieldrate write_tty field on [] = Some (fieldrate_cmd field on @ cs @ [CR, NL], True) \<and>
    checksum (fieldrate_cmd field on @ cs)"
proof -
  define body where "body = ''PUBX,40,'' @ field @ '',0,'' @ (if on then ''1'' else ''0'') @ '',0,0''"
  have e: "fieldrate_cmd field on = ''$'' @ body @ ''*''" by (simp add: fieldrate_cmd_def body_def)
  have "16 \<le> unat (xor_bytes 0 body)" "body \<noteq> []" "CHR ''*'' \<notin> set body"
    using f by (cases on; auto simp: GPmsgs_def body_def xor_bytes_def of_char_def)+
  then show ?thesis using written_checksum [OF w, of body "[]"] unfolding nmea_fieldrate_def e by auto
qed

section \<open>Receiving\<close>

definition line_of :: "string \<Rightarrow> string" where
  "line_of body = ''$'' @ body @ ''*'' @ fmt_02X (xor_bytes 0 body)"

lemma xor_bytes_append: "xor_bytes s (a @ b) = xor_bytes (xor_bytes s a) b"
  by (simp add: xor_bytes_def)

lemma xor_bytes_shift: "xor_bytes s a = s XOR xor_bytes 0 a"
proof (induction a arbitrary: s)
  case (Cons c a)
  have "xor_bytes s (c # a) = (s XOR of_char c) XOR xor_bytes 0 a" using Cons.IH [of "s XOR of_char c"] by (simp add: xor_bytes_def)
  also have "\<dots> = s XOR xor_bytes 0 (c # a)" using Cons.IH [of "of_char c"] by (simp add: xor_bytes_def xor.assoc)
  finally show ?case .
qed (simp add: xor_bytes_def)

lemma of_char_u8_inj: "(of_char c :: u8) = of_char d \<longleftrightarrow> c = d"
proof
  have u: "unat (of_char c :: u8) = of_char c" for c
  proof -
    have "(of_char c :: nat) mod 256 = of_char c" by simp
    then have "(of_char c :: nat) < 256" by (metis mod_less_divisor zero_less_numeral)
    moreover have "(of_char c :: u8) = of_nat (of_char c)" by (simp add: of_nat_of_char)
    ultimately show ?thesis by (simp only: unat_of_nat) simp
  qed
  assume "(of_char c :: u8) = of_char d"
  then have "(of_char c :: nat) = of_char d" using u by metis
  then show "c = d" by simp
qed simp

lemma xor_bytes_upd:
  assumes "i < length body" "c \<noteq> body ! i"
  shows "xor_bytes 0 (body[i := c]) \<noteq> xor_bytes 0 body"
proof
  have e: "xor_bytes 0 (a @ d # b) = of_char d XOR (xor_bytes 0 a XOR xor_bytes 0 b)" for a b d
    using xor_bytes_shift [of "xor_bytes 0 a XOR of_char d" b]
    by (simp add: xor_bytes_append) (simp add: xor_bytes_def xor.commute xor.left_commute)
  let ?r = "xor_bytes 0 (take i body) XOR xor_bytes 0 (drop (Suc i) body)"
  assume "xor_bytes 0 (body[i := c]) = xor_bytes 0 body"
  then have "of_char c XOR ?r = of_char (body ! i) XOR ?r"
    using assms(1) e [of "take i body" "body ! i" "drop (Suc i) body"] e [of "take i body" c "drop (Suc i) body"]
    by (simp add: upd_conv_take_nth_drop id_take_nth_drop [symmetric])
  then have "(of_char c XOR ?r) XOR ?r = (of_char (body ! i) XOR ?r) XOR ?r" by simp
  then have "(of_char c :: u8) = of_char (body ! i)" by (simp add: xor.assoc)
  then show False using assms(2) by (simp add: of_char_u8_inj)
qed

text \<open>
  A sentence with its checksum is accepted, and rejected when any one of its bytes is changed.
\<close>

theorem checksum_detects:
  assumes "i < length body" "c \<noteq> body ! i" "c \<noteq> CHR ''*''" "CHR ''*'' \<notin> set body"
  shows "checksum (line_of body) \<and> \<not> checksum (''$'' @ body[i := c] @ ''*'' @ fmt_02X (xor_bytes 0 body))"
proof -
  have n: "CHR ''*'' \<notin> set (body[i := c])" using assms set_update_subset_insert [of body i c] by auto
  have f: "take 2 (fmt_02X s) = fmt_02X s" for s by (simp add: fmt_02X_def)
  show ?thesis unfolding line_of_def checksum_line [OF assms(4)] checksum_line [OF n] f fmt_02X_inj
    using xor_bytes_upd [OF assms(1,2)] by simp
qed














lemma starts_append: "starts (a @ b) (a @ s) \<longleftrightarrow> starts b s"
  by (simp add: starts_def)







section \<open>Acknowledgement\<close>

lemma ubx_packet_length: "length (ubx_packet body) = length body + 4"
  by (simp add: ubx_packet_def split: prod.splits)

text \<open>The length and the sums of the two packets and of the acknowledgement, which arrive as they are sent.\<close>

lemma match_chunk_prefix: "match_chunk got (got @ cmp) = Some cmp"
  by (induction got) auto

lemma ack_loop_chunks:
  "concat chunks = cmp \<Longrightarrow> fst (ack_loop (length chunks) ack cmp (chunks @ rest))"
proof (induction chunks arbitrary: cmp)
  case (Cons c cs)
  show ?case
  proof (cases "cmp = []")
    case False
    have "length c \<le> length cmp" using Cons.prems by auto
    moreover have "match_chunk c cmp = Some (concat cs)" using Cons.prems match_chunk_prefix by auto
    ultimately show ?thesis using Cons.IH [OF refl] False by simp
  qed simp
qed simp

text \<open>
  An acknowledgement that arrives cut into chunks in any way is recognised, with one read per chunk.
\<close>

theorem get_ACK_chunks:
  assumes "concat chunks = ack_packet conf"
  shows "fst (get_ACK (length chunks) conf (chunks @ rest))"
  unfolding get_ACK_def using ack_loop_chunks [OF assms] by simp

lemma ack_loop_nothing: "cmp \<noteq> [] \<Longrightarrow> \<not> fst (ack_loop n ack cmp [])"
  by (induction n) auto

text \<open>One stray byte in front of it, in the same chunk, and the acknowledgement is missed.\<close>

text \<open>
  An acknowledgement behind one other byte in the same chunk is never recognised: what is left of a chunk
  behind a byte that differs is dropped.
\<close>

theorem get_ACK_noise:
  assumes "x \<noteq> 0xb5"
  shows "\<not> fst (get_ACK n conf [x # ack_packet conf])"
proof (cases n)
  case 0
  then show ?thesis by (simp add: get_ACK_def ack_packet_def ubx_packet_def split: prod.splits)
next
  case (Suc m)
  obtain a b where s: "ubx_sums [0x05, 0x01, 2, 0, conf ! 2, conf ! 3] = (a, b)" by fastforce
  have p: "ack_packet conf = [0xb5, 0x62, 0x05, 0x01, 2, 0, conf ! 2, conf ! 3, a, b]"
    by (simp add: ack_packet_def ubx_packet_def s)
  have "\<not> fst (ack_loop m (ack_packet conf) (ack_packet conf) [[b]])"
  proof (cases m)
    case 0
    then show ?thesis by (simp add: p)
  next
    case (Suc k)
    then show ?thesis
      using ack_loop_nothing [of "ack_packet conf" k "ack_packet conf"] ack_loop_nothing [of "tl (ack_packet conf)" k "ack_packet conf"]
      by (cases "b = 0xb5") (simp_all add: p)
  qed
  then show ?thesis using Suc assms by (simp add: get_ACK_def p)
qed

text \<open>The configuration writes each packet at most eleven times, and once when it is acknowledged.\<close>

lemma send_loop_writes:
  "\<exists>k' \<le> k. fst (send_loop (\<lambda>h p. h @ [p]) n pkt k h tty) = h @ replicate k' pkt"
proof (induction k arbitrary: h tty)
  case (Suc k)
  obtain ok tty1 where g: "get_ACK n pkt tty = (ok, tty1)" by fastforce
  obtain k' where k': "k' \<le> k" "fst (send_loop (\<lambda>h p. h @ [p]) n pkt k (h @ [pkt]) tty1) = h @ [pkt] @ replicate k' pkt"
    using Suc.IH [of "h @ [pkt]" tty1] by auto
  show ?case
  proof (cases ok)
    case True
    then show ?thesis using g by (intro exI [of _ 1]) simp
  next
    case False
    then show ?thesis using g k' by (intro exI [of _ "Suc k'"]) simp
  qed
qed simp

text \<open>
  The configuration ends, and writes the two packets in their order and each of them at most eleven times,
  whatever the receiver answers.
\<close>

theorem cfg_stationary_writes:
  "\<exists>i j. i \<le> 11 \<and> j \<le> 11 \<and>
     fst (cfg_stationary (\<lambda>h p. h @ [p]) n [] tty) = replicate i stat_packet @ replicate j prec_packet"
proof -
  obtain h1 tty1 where s: "send_loop (\<lambda>h p. h @ [p]) n stat_packet 11 [] tty = (h1, tty1)" by fastforce
  obtain i where i: "i \<le> 11" "h1 = replicate i stat_packet" using send_loop_writes [of 11 n stat_packet "[]" tty] s by auto
  obtain j where "j \<le> 11" "fst (send_loop (\<lambda>h p. h @ [p]) n prec_packet 11 h1 tty1) = h1 @ replicate j prec_packet"
    using send_loop_writes [of 11 n prec_packet h1 tty1] by auto
  then show ?thesis using i s by (auto simp: cfg_stationary_def)
qed

section \<open>Examples\<close>

theorem written_checksum_witness:
  "\<exists>cs. write_with_checksum (\<lambda>h s. (h @ s, False)) ''$AB*'' [] = Some (''$AB*'' @ cs @ [CR, NL], True) \<and>
    length cs = 2 \<and> (checksum (''$AB*'' @ cs) \<longleftrightarrow> 16 \<le> unat (xor_bytes 0 ''AB'')) \<and> unat (xor_bytes 0 ''AB'') = 3"
  using written_checksum [of "\<lambda>h s. (h @ s, False)" "''AB''" "[]"] by (auto simp: xor_bytes_def of_char_def)

theorem fieldrate_ok_witness:
  "\<exists>cs. nmea_fieldrate (\<lambda>h s. (h @ s, False)) ''RMC'' True [] = Some (fieldrate_cmd ''RMC'' True @ cs @ [CR, NL], True) \<and>
    checksum (fieldrate_cmd ''RMC'' True @ cs)"
  using fieldrate_ok [of "\<lambda>h s. (h @ s, False)" "''RMC''" True] by (simp add: GPmsgs_def)

theorem checksum_detects_witness:
  "checksum (line_of ''GPGSV,1'') \<and> \<not> checksum (''$'' @ ''GPGSV,1''[6 := CHR ''2''] @ ''*'' @ fmt_02X (xor_bytes 0 ''GPGSV,1''))"
  using checksum_detects [of 6 "''GPGSV,1''" "CHR ''2''"] by (simp only: list.size nth.simps) simp


theorem get_ACK_chunks_witness:
  "fst (get_ACK (length [take 3 (ack_packet stat_packet), drop 3 (ack_packet stat_packet)]) stat_packet
    ([take 3 (ack_packet stat_packet), drop 3 (ack_packet stat_packet)] @ [[0x24]]))"
  using get_ACK_chunks [of "[take 3 (ack_packet stat_packet), drop 3 (ack_packet stat_packet)]" stat_packet "[[0x24]]"]
  by (simp only: concat.simps append_take_drop_id append_Nil2)

theorem get_ACK_noise_witness: "\<not> fst (get_ACK 30 stat_packet [0x24 # ack_packet stat_packet])"
  using get_ACK_noise [of "0x24" 30 stat_packet] by simp

end
