(* ===== verification/I2C.thy ===== *)
theory I2C
  imports CPrelude
begin

text \<open>
  The access to the I2C bus, \<open>I2Csensors/i2c.c\<close>. The \<open>ioctl\<close> calls of the kernel are parameters, functions
  on a state of the bus; the file descriptor and \<open>lastaddr\<close> are the static variables of the file. A read
  gives the bytes read, \<open>None\<close> for the result \<open>FALSE\<close>.
\<close>

record i2c_msg =
  m_addr :: u8
  m_rd :: bool
  m_len :: nat
  m_buf :: "u8 list"

text \<open>
  \<open>I2C_RDWR\<close> gives the bytes of its read message, \<open>I2C_SMBUS\<close> reads or writes behind a command byte, and
  \<open>I2C_SLAVE\<close> sets the address that \<open>I2C_SMBUS\<close> goes to.
\<close>

record 'h i2c_io =
  io_rdwr :: "'h \<Rightarrow> i2c_msg list \<Rightarrow> 'h \<times> u8 list option"
  io_smbus_read :: "'h \<Rightarrow> u8 \<Rightarrow> 'h \<times> u8 option"
  io_smbus_write :: "'h \<Rightarrow> u8 \<Rightarrow> u8 list \<Rightarrow> 'h \<times> bool"
  io_slave :: "'h \<Rightarrow> u8 \<Rightarrow> 'h \<times> bool"

record 'h i2c =
  bus :: 'h
  I2Cfd :: int
  lastaddr :: u8

section \<open>Raw transfers\<close>

definition i2c_rw :: "'h i2c_io \<Rightarrow> u8 list \<Rightarrow> nat \<Rightarrow> bool \<Rightarrow> 'h i2c \<Rightarrow> 'h i2c \<times> u8 list option" where
  "i2c_rw io buf len rd s =
     (case io_rdwr io (bus s) [\<lparr>m_addr = lastaddr s, m_rd = rd, m_len = len, m_buf = buf\<rparr>] of
        (h, r) \<Rightarrow> (s\<lparr>bus := h\<rparr>, r))"

definition i2c_write_raw :: "'h i2c_io \<Rightarrow> u8 list \<Rightarrow> 'h i2c \<Rightarrow> 'h i2c \<times> bool" where
  "i2c_write_raw io buf s =
     (if I2Cfd s < 1 \<or> length buf < 1 then (s, False)
      else (case i2c_rw io buf (length buf) False s of (s', r) \<Rightarrow> (s', r \<noteq> None)))"

definition i2c_read_raw :: "'h i2c_io \<Rightarrow> nat \<Rightarrow> 'h i2c \<Rightarrow> 'h i2c \<times> u8 list option" where
  "i2c_read_raw io len s =
     (if I2Cfd s < 1 \<or> len < 1 then (s, None) else i2c_rw io [] len True s)"

section \<open>Registers\<close>

definition i2c_read_reg8 :: "'h i2c_io \<Rightarrow> u8 \<Rightarrow> 'h i2c \<Rightarrow> 'h i2c \<times> u8 option" where
  "i2c_read_reg8 io regaddr s =
     (if I2Cfd s < 1 then (s, None)
      else (case io_smbus_read io (bus s) regaddr of (h, r) \<Rightarrow> (s\<lparr>bus := h\<rparr>, r)))"

definition i2c_write_reg8 :: "'h i2c_io \<Rightarrow> u8 \<Rightarrow> u8 \<Rightarrow> 'h i2c \<Rightarrow> 'h i2c \<times> bool" where
  "i2c_write_reg8 io regaddr b s =
     (if I2Cfd s < 1 then (s, False)
      else (case io_smbus_write io (bus s) regaddr [b] of (h, r) \<Rightarrow> (s\<lparr>bus := h\<rparr>, r)))"

text \<open>A 16-bit address goes out with its high byte first, and so do the data.\<close>

definition hi_byte :: "u16 \<Rightarrow> u8" where
  "hi_byte w = ucast (drop_bit 8 w)"

definition lo_byte :: "u16 \<Rightarrow> u8" where
  "lo_byte w = ucast w"

definition join_bytes :: "u8 \<Rightarrow> u8 \<Rightarrow> u16" where
  "join_bytes a b = push_bit 8 (ucast a) OR ucast b"

definition i2c_read_reg16 :: "'h i2c_io \<Rightarrow> u16 \<Rightarrow> 'h i2c \<Rightarrow> 'h i2c \<times> u16 option" where
  "i2c_read_reg16 io regaddr s =
     (if I2Cfd s < 1 then (s, None)
      else
        (case io_rdwr io (bus s)
           [\<lparr>m_addr = lastaddr s, m_rd = False, m_len = 2, m_buf = [hi_byte regaddr, lo_byte regaddr]\<rparr>,
            \<lparr>m_addr = lastaddr s, m_rd = True, m_len = 2, m_buf = []\<rparr>] of
           (h, None) \<Rightarrow> (s\<lparr>bus := h\<rparr>, None)
         | (h, Some d) \<Rightarrow> (s\<lparr>bus := h\<rparr>, Some (join_bytes (d ! 0) (d ! 1)))))"

definition i2c_write_reg16 :: "'h i2c_io \<Rightarrow> u16 \<Rightarrow> u16 \<Rightarrow> 'h i2c \<Rightarrow> 'h i2c \<times> bool" where
  "i2c_write_reg16 io regaddr d s =
     (if I2Cfd s < 1 then (s, False)
      else
        (case io_smbus_write io (bus s) (hi_byte regaddr) [lo_byte regaddr, hi_byte d, lo_byte d] of
           (h, r) \<Rightarrow> (s\<lparr>bus := h\<rparr>, r)))"

definition i2c_read_data16 :: "'h i2c_io \<Rightarrow> u16 \<Rightarrow> nat \<Rightarrow> 'h i2c \<Rightarrow> 'h i2c \<times> u8 list option" where
  "i2c_read_data16 io regaddr N s =
     (if I2Cfd s < 1 \<or> N = 0 then (s, None)
      else
        (case io_rdwr io (bus s)
           [\<lparr>m_addr = lastaddr s, m_rd = False, m_len = 2, m_buf = [hi_byte regaddr, lo_byte regaddr]\<rparr>,
            \<lparr>m_addr = lastaddr s, m_rd = True, m_len = N, m_buf = []\<rparr>] of
           (h, r) \<Rightarrow> (s\<lparr>bus := h\<rparr>, r)))"

definition i2c_read_data8 :: "'h i2c_io \<Rightarrow> u8 \<Rightarrow> nat \<Rightarrow> 'h i2c \<Rightarrow> 'h i2c \<times> u8 list option" where
  "i2c_read_data8 io regaddr N s =
     (if I2Cfd s < 1 \<or> N < 1 \<or> N + unat regaddr > 0xff then (s, None)
      else
        (case io_rdwr io (bus s)
           [\<lparr>m_addr = lastaddr s, m_rd = False, m_len = 1, m_buf = [regaddr]\<rparr>,
            \<lparr>m_addr = lastaddr s, m_rd = True, m_len = N, m_buf = []\<rparr>] of
           (h, r) \<Rightarrow> (s\<lparr>bus := h\<rparr>, r)))"

section \<open>The device\<close>

definition i2c_set_slave_address :: "'h i2c_io \<Rightarrow> u8 \<Rightarrow> 'h i2c \<Rightarrow> 'h i2c \<times> bool" where
  "i2c_set_slave_address io addr s =
     (if I2Cfd s < 1 then (s, False)
      else
        (case io_slave io (bus s) addr of
           (h, False) \<Rightarrow> (s\<lparr>bus := h\<rparr>, False)
         | (h, True) \<Rightarrow> (s\<lparr>bus := h, lastaddr := addr\<rparr>, True)))"

text \<open>\<open>open_dev\<close> is \<open>open(2)\<close>. Closing leaves the number of the closed descriptor in \<open>I2Cfd\<close>.\<close>

definition i2c_open :: "(string \<Rightarrow> int) \<Rightarrow> string \<Rightarrow> 'h i2c \<Rightarrow> 'h i2c \<times> bool" where
  "i2c_open open_dev path s = (let fd = open_dev path in (s\<lparr>I2Cfd := fd\<rparr>, \<not> fd < 1))"

definition i2c_close :: "'h i2c \<Rightarrow> 'h i2c" where
  "i2c_close s = s"

end
