(* ===== verification/Sensors.thy ===== *)
theory Sensors
  imports Complex_Main I2C
begin

text \<open>
  The sensor library \<open>I2Csensors\<close>: the common layer \<open>sensor.c\<close> and the drivers \<open>SHT3x.c\<close>, \<open>SI7005.c\<close> and
  \<open>aht.c\<close>. A sensor is its status and data with the functions of its driver beside it, as the function
  pointers of \<open>sensor_t\<close>. Measured values are exact fractions. The clock appears as the time of a call,
  in milliseconds, and as the number of turns that a loop with a timeout makes.
\<close>

datatype sensor_status = SENS_NOTINIT | SENS_BUSY | SENS_ERR | SENS_RELAX | SENS_RDY

record sensor_props =
  prop_T :: bool
  prop_H :: bool
  prop_P :: bool
  prop_htr :: bool

record sensor_data =
  data_T :: rat
  data_H :: rat
  data_P :: rat

text \<open>\<open>started\<close> is the time that \<open>SHT3x.c\<close> keeps in \<open>privdata\<close>; \<open>aht2x\<close> is \<open>private == ISAHT2x\<close>.\<close>

record sensor =
  address :: u8
  status :: sensor_status
  sdata :: sensor_data
  started :: int
  aht2x :: bool

text \<open>The functions of a driver; a result of type \<open>bool\<close> is the \<open>int\<close> of the code tested for being nonzero.\<close>

record 'h driver =
  drv_init :: "'h i2c_io \<Rightarrow> 'h i2c \<Rightarrow> sensor \<Rightarrow> 'h i2c \<times> sensor \<times> bool"
  drv_start :: "'h i2c_io \<Rightarrow> int \<Rightarrow> 'h i2c \<Rightarrow> sensor \<Rightarrow> 'h i2c \<times> sensor \<times> bool"
  drv_heater :: "'h i2c_io \<Rightarrow> bool \<Rightarrow> 'h i2c \<Rightarrow> sensor \<Rightarrow> 'h i2c \<times> bool"
  drv_process :: "'h i2c_io \<Rightarrow> int \<Rightarrow> 'h i2c \<Rightarrow> sensor \<Rightarrow> 'h i2c \<times> sensor"
  drv_props :: sensor_props

section \<open>SHT3x\<close>

text \<open>\<open>crc8\<close>: one turn of the inner loop, one byte, all bytes.\<close>

definition crc_bit :: "u8 \<Rightarrow> u8" where
  "crc_bit crc = (if crc AND 0x80 \<noteq> 0 then push_bit 1 crc XOR 0x31 else push_bit 1 crc)"

definition crc_byte :: "u8 \<Rightarrow> u8 \<Rightarrow> u8" where
  "crc_byte crc d = (crc_bit ^^ 8) (crc XOR d)"

definition crc8 :: "u8 list \<Rightarrow> u8" where
  "crc8 bytes = foldl crc_byte 0xff bytes"

fun write_all :: "'h i2c_io \<Rightarrow> u8 list list \<Rightarrow> 'h i2c \<Rightarrow> 'h i2c \<times> bool" where
  "write_all io [] s = (s, True)"
| "write_all io (cmd # cmds) s =
     (case i2c_write_raw io cmd s of (s1, ok) \<Rightarrow> if ok then write_all io cmds s1 else (s1, False))"

definition sht_init :: "'h i2c_io \<Rightarrow> 'h i2c \<Rightarrow> sensor \<Rightarrow> 'h i2c \<times> sensor \<times> bool" where
  "sht_init io b s =
     (case write_all io [[0x30, 0x93], [0x30, 0xa2], [0x30, 0x41]] b of
        (b1, False) \<Rightarrow> (b1, s\<lparr>status := SENS_NOTINIT\<rparr>, False)
      | (b1, True) \<Rightarrow> (b1, s\<lparr>status := SENS_RELAX\<rparr>, True))"

definition sht_start :: "'h i2c_io \<Rightarrow> int \<Rightarrow> 'h i2c \<Rightarrow> sensor \<Rightarrow> 'h i2c \<times> sensor \<times> bool" where
  "sht_start io now b s =
     (if status s \<noteq> SENS_RELAX then (b, s, False)
      else
        (case i2c_write_raw io [0x24, 0x00] b of
           (b1, False) \<Rightarrow> (b1, s\<lparr>status := SENS_ERR\<rparr>, False)
         | (b1, True) \<Rightarrow> (b1, s\<lparr>status := SENS_BUSY, started := now\<rparr>, True)))"

text \<open>The fixed point conversions to hundredths, in 32 bits.\<close>

definition sht_stemp :: "u8 \<Rightarrow> u8 \<Rightarrow> int" where
  "sht_stemp a b = drop_bit 14 (4375 * uint (join_bytes a b)) - 4500"

definition sht_shum :: "u8 \<Rightarrow> u8 \<Rightarrow> u32" where
  "sht_shum a b = drop_bit 12 (625 * ucast (join_bytes a b))"

definition sht_process :: "'h i2c_io \<Rightarrow> int \<Rightarrow> 'h i2c \<Rightarrow> sensor \<Rightarrow> 'h i2c \<times> sensor" where
  "sht_process io now b s =
     (if status s \<noteq> SENS_BUSY then (b, s)
      else
        (case i2c_read_raw io 6 b of
           (b1, None) \<Rightarrow> if now - started s < 20 then (b1, s) else (b1, s\<lparr>status := SENS_ERR\<rparr>)
         | (b1, Some d) \<Rightarrow>
             (let b2 = fst (i2c_write_raw io [0x30, 0x41] b1) in
              if d ! 2 \<noteq> crc8 (take 2 d) \<or> d ! 5 \<noteq> crc8 (take 2 (drop 3 d)) then (b2, s\<lparr>status := SENS_ERR\<rparr>)
              else (b2, s\<lparr>sdata := (sdata s)\<lparr>data_T := of_int (sht_stemp (d ! 0) (d ! 1)) / 100,
                                            data_H := of_nat (unat (sht_shum (d ! 3) (d ! 4))) / 100\<rparr>,
                         status := SENS_RDY\<rparr>))))"

definition sht_heater :: "'h i2c_io \<Rightarrow> bool \<Rightarrow> 'h i2c \<Rightarrow> sensor \<Rightarrow> 'h i2c \<times> bool" where
  "sht_heater io on b s = i2c_write_raw io (if on then [0x30, 0x6d] else [0x30, 0x66]) b"

definition SHT3x :: "'h driver" where
  "SHT3x = \<lparr>drv_init = sht_init, drv_start = sht_start, drv_heater = sht_heater, drv_process = sht_process,
     drv_props = \<lparr>prop_T = True, prop_H = True, prop_P = False, prop_htr = False\<rparr>\<rparr>"

section \<open>SI7005\<close>

definition si_init :: "'h i2c_io \<Rightarrow> 'h i2c \<Rightarrow> sensor \<Rightarrow> 'h i2c \<times> sensor \<times> bool" where
  "si_init io b s =
     (case i2c_read_reg8 io 0x11 b of
        (b1, None) \<Rightarrow> (b1, s\<lparr>status := SENS_NOTINIT\<rparr>, False)
      | (b1, Some ID) \<Rightarrow>
          if ID \<noteq> 0x50 then (b1, s\<lparr>status := SENS_NOTINIT\<rparr>, False) else (b1, s\<lparr>status := SENS_RELAX\<rparr>, True))"

definition si_start :: "'h i2c_io \<Rightarrow> int \<Rightarrow> 'h i2c \<Rightarrow> sensor \<Rightarrow> 'h i2c \<times> sensor \<times> bool" where
  "si_start io now b s =
     (if status s \<noteq> SENS_RELAX then (b, s, False)
      else
        (case i2c_write_reg8 io 3 0x11 b of
           (b1, False) \<Rightarrow> (b1, s\<lparr>status := SENS_ERR\<rparr>, False)
         | (b1, True) \<Rightarrow> (b1, s\<lparr>status := SENS_BUSY\<rparr>, True)))"

definition si7005_cmdH :: "'h i2c_io \<Rightarrow> 'h i2c \<Rightarrow> sensor \<Rightarrow> 'h i2c \<times> sensor" where
  "si7005_cmdH io b s =
     (case i2c_write_reg8 io 3 0x01 b of
        (b1, False) \<Rightarrow> (b1, s\<lparr>status := SENS_ERR\<rparr>)
      | (b1, True) \<Rightarrow> (b1, s\<lparr>status := SENS_BUSY\<rparr>))"

definition si_T :: "u16 \<Rightarrow> rat" where
  "si_T TH = of_nat (unat (drop_bit 2 TH)) / 32 - 50"

definition si_H :: "u16 \<Rightarrow> rat" where
  "si_H TH =
     (let Hm = of_nat (unat (drop_bit 4 TH)) / 16 - 24
      in Hm - (- 393 / 100000 * Hm * Hm + 4008 / 10000 * Hm - 47844 / 10000))"

definition si_process :: "'h i2c_io \<Rightarrow> int \<Rightarrow> 'h i2c \<Rightarrow> sensor \<Rightarrow> 'h i2c \<times> sensor" where
  "si_process io now b s =
     (if status s \<noteq> SENS_BUSY then (b, s)
      else
        (case i2c_read_raw io 3 b of
           (b1, None) \<Rightarrow> (b1, s\<lparr>status := SENS_ERR\<rparr>)
         | (b1, Some d) \<Rightarrow>
             (case i2c_read_reg8 io 3 b1 of
                (b2, None) \<Rightarrow> (b2, s\<lparr>status := SENS_ERR\<rparr>)
              | (b2, Some c) \<Rightarrow>
                  if d ! 0 AND 1 \<noteq> 0 then (b2, s)
                  else
                    (let TH = join_bytes (d ! 1) (d ! 2) in
                     if c AND 0x10 \<noteq> 0 then si7005_cmdH io b2 (s\<lparr>sdata := (sdata s)\<lparr>data_T := si_T TH\<rparr>\<rparr>)
                     else (b2, s\<lparr>sdata := (sdata s)\<lparr>data_H := si_H TH\<rparr>, status := SENS_RDY\<rparr>)))))"

definition si_heater :: "'h i2c_io \<Rightarrow> bool \<Rightarrow> 'h i2c \<Rightarrow> sensor \<Rightarrow> 'h i2c \<times> bool" where
  "si_heater io on b s =
     (if status s \<noteq> SENS_RELAX then (b, False) else i2c_write_reg8 io 3 (if on then 0x02 else 0) b)"

definition SI7005 :: "'h driver" where
  "SI7005 = \<lparr>drv_init = si_init, drv_start = si_start, drv_heater = si_heater, drv_process = si_process,
     drv_props = \<lparr>prop_T = True, prop_H = True, prop_P = False, prop_htr = True\<rparr>\<rparr>"

section \<open>AHT1x and AHT2x\<close>

definition aht_poll :: "'h i2c_io \<Rightarrow> 'h i2c \<Rightarrow> 'h i2c \<times> sensor_status" where
  "aht_poll io b =
     (case i2c_read_raw io 1 b of
        (b1, None) \<Rightarrow> (b1, SENS_ERR)
      | (b1, Some d) \<Rightarrow> (b1, if d ! 0 AND 0x80 \<noteq> 0 then SENS_BUSY else SENS_RELAX))"

text \<open>
  The wait for the end of a reset, \<open>n\<close> polls in the 20 ms: whether it ended in time. (The code lets an
  elapsed time of exactly 20 ms through.)
\<close>

fun aht_wait :: "'h i2c_io \<Rightarrow> nat \<Rightarrow> 'h i2c \<Rightarrow> 'h i2c \<times> bool" where
  "aht_wait io 0 b = (b, False)"
| "aht_wait io (Suc n) b = (case aht_poll io b of (b1, st) \<Rightarrow> if st = SENS_RELAX then (b1, True) else aht_wait io n b1)"

text \<open>Both timeouts return \<open>SENS_ERR\<close>, which is not zero, from a function whose result is a truth value.\<close>

definition aht_init :: "nat \<Rightarrow> 'h i2c_io \<Rightarrow> 'h i2c \<Rightarrow> sensor \<Rightarrow> 'h i2c \<times> sensor \<times> bool" where
  "aht_init polls io b s =
     (let s0 = s\<lparr>status := SENS_NOTINIT\<rparr> in
      case i2c_write_reg8 io 0xBA 0 b of
        (b1, False) \<Rightarrow> (b1, s0, False)
      | (b1, True) \<Rightarrow>
          (case aht_wait io polls b1 of
             (b2, False) \<Rightarrow> (b2, s0, True)
           | (b2, True) \<Rightarrow>
               (case i2c_write_raw io [0xE1, 0x08, 0] b2 of
                  (b3, False) \<Rightarrow> (b3, s0, False)
                | (b3, True) \<Rightarrow>
                    (case aht_wait io polls b3 of
                       (b4, False) \<Rightarrow> (b4, s0, True)
                     | (b4, True) \<Rightarrow> (b4, s0\<lparr>status := SENS_RELAX\<rparr>, True)))))"

definition aht_start :: "nat \<Rightarrow> 'h i2c_io \<Rightarrow> int \<Rightarrow> 'h i2c \<Rightarrow> sensor \<Rightarrow> 'h i2c \<times> sensor \<times> bool" where
  "aht_start polls io now b s =
     (if status s \<noteq> SENS_RELAX then (b, s, False)
      else
        (case (if aht2x s then
                 (case i2c_read_reg8 io 0x71 b of
                    (b1, None) \<Rightarrow> (b1, s, False)
                  | (b1, Some c) \<Rightarrow> if c AND 0x18 \<noteq> 0x18 then aht_init polls io b1 s else (b1, s, True))
               else (b, s, True)) of
           (b2, s2, False) \<Rightarrow> (b2, s2, False)
         | (b2, s2, True) \<Rightarrow> (case i2c_write_raw io [0xAC, 0x33, 0] b2 of (b3, ok) \<Rightarrow> (b3, s2, ok))))"

definition aht_rawH :: "u8 list \<Rightarrow> u32" where
  "aht_rawH d = push_bit 12 (ucast (d ! 1)) OR push_bit 4 (ucast (d ! 2)) OR ucast (drop_bit 4 (d ! 3))"

definition aht_rawT :: "u8 list \<Rightarrow> u32" where
  "aht_rawT d = push_bit 16 (ucast (d ! 3 AND 0x0F)) OR push_bit 8 (ucast (d ! 4)) OR ucast (d ! 5)"

definition aht_process :: "'h i2c_io \<Rightarrow> int \<Rightarrow> 'h i2c \<Rightarrow> sensor \<Rightarrow> 'h i2c \<times> sensor" where
  "aht_process io now b s =
     (case aht_poll io b of
        (b1, st) \<Rightarrow>
          if st \<noteq> SENS_RELAX then (b1, s\<lparr>status := st\<rparr>)
          else
            (case i2c_read_raw io 6 b1 of
               (b2, None) \<Rightarrow> (b2, s\<lparr>status := SENS_ERR\<rparr>)
             | (b2, Some d) \<Rightarrow>
                 (b2, s\<lparr>sdata := (sdata s)\<lparr>data_T := of_nat (unat (aht_rawT d)) * 200 / 1048576 - 50,
                                         data_H := of_nat (unat (aht_rawH d)) * 100 / 1048576\<rparr>,
                      status := SENS_RDY\<rparr>)))"

definition aht_heater :: "'h i2c_io \<Rightarrow> bool \<Rightarrow> 'h i2c \<Rightarrow> sensor \<Rightarrow> 'h i2c \<times> bool" where
  "aht_heater io on b s = (b, False)"

definition AHT :: "nat \<Rightarrow> 'h driver" where
  "AHT polls = \<lparr>drv_init = aht_init polls, drv_start = aht_start polls, drv_heater = aht_heater, drv_process = aht_process,
     drv_props = \<lparr>prop_T = True, prop_H = True, prop_P = False, prop_htr = False\<rparr>\<rparr>"

section \<open>The common layer\<close>

text \<open>The loops with a timeout of half a second: at most \<open>n\<close> turns, at the times \<open>now\<close>.\<close>

fun init_loop :: "'h driver \<Rightarrow> 'h i2c_io \<Rightarrow> nat \<Rightarrow> 'h i2c \<Rightarrow> sensor \<Rightarrow> 'h i2c \<times> sensor \<times> bool" where
  "init_loop drv io 0 b s = (b, s, False)"
| "init_loop drv io (Suc n) b s =
     (case drv_init drv io b s of (b1, s1, ok) \<Rightarrow> if ok then (b1, s1, True) else init_loop drv io n b1 s1)"

definition sensor_init :: "'h driver \<Rightarrow> 'h i2c_io \<Rightarrow> nat \<Rightarrow> u8 \<Rightarrow> 'h i2c \<Rightarrow> sensor \<Rightarrow> 'h i2c \<times> sensor \<times> bool" where
  "sensor_init drv io n addr b s =
     (let s0 = (if addr \<noteq> 0 then s\<lparr>address := addr\<rparr> else s) in
      case i2c_set_slave_address io (address s0) b of
        (b1, False) \<Rightarrow> (b1, s0, False)
      | (b1, True) \<Rightarrow>
          (case i2c_read_reg8 io 0 b1 of
             (b2, None) \<Rightarrow> (b2, s0, False)
           | (b2, Some x) \<Rightarrow> init_loop drv io n b2 s0))"

fun start_loop :: "'h driver \<Rightarrow> 'h i2c_io \<Rightarrow> int list \<Rightarrow> 'h i2c \<Rightarrow> sensor \<Rightarrow> 'h i2c \<times> sensor \<times> bool" where
  "start_loop drv io [] b s = (b, s, False)"
| "start_loop drv io (now # rest) b s =
     (case drv_start drv io now b s of (b1, s1, ok) \<Rightarrow> if ok then (b1, s1, True) else start_loop drv io rest b1 s1)"

definition sensor_start :: "'h driver \<Rightarrow> 'h i2c_io \<Rightarrow> int list \<Rightarrow> 'h i2c \<Rightarrow> sensor \<Rightarrow> 'h i2c \<times> sensor \<times> bool" where
  "sensor_start drv io nows b s =
     (case i2c_set_slave_address io (address s) b of
        (b1, False) \<Rightarrow> (b1, s, False)
      | (b1, True) \<Rightarrow> start_loop drv io nows b1 s)"

definition sensor_getdata :: "sensor \<Rightarrow> sensor \<times> sensor_data option" where
  "sensor_getdata s =
     (if status s \<noteq> SENS_RDY then (s, None) else (s\<lparr>status := SENS_RELAX\<rparr>, Some (sdata s)))"

text \<open>The result is the status; without the bus it is \<open>FALSE\<close>, the number of \<open>SENS_NOTINIT\<close>.\<close>

definition sensor_process :: "'h driver \<Rightarrow> 'h i2c_io \<Rightarrow> int \<Rightarrow> 'h i2c \<Rightarrow> sensor \<Rightarrow> 'h i2c \<times> sensor \<times> sensor_status" where
  "sensor_process drv io now b s =
     (case i2c_set_slave_address io (address s) b of
        (b1, False) \<Rightarrow> (b1, s, SENS_NOTINIT)
      | (b1, True) \<Rightarrow> (case drv_process drv io now b1 s of (b2, s2) \<Rightarrow> (b2, s2, status s2)))"

definition sensor_properties :: "'h driver \<Rightarrow> sensor_props" where
  "sensor_properties drv = drv_props drv"

definition sensor_heater :: "'h driver \<Rightarrow> 'h i2c_io \<Rightarrow> bool \<Rightarrow> 'h i2c \<Rightarrow> sensor \<Rightarrow> 'h i2c \<times> bool" where
  "sensor_heater drv io on b s =
     (if \<not> prop_htr (drv_props drv) then (b, False)
      else
        (case i2c_set_slave_address io (address s) b of
           (b1, False) \<Rightarrow> (b1, False)
         | (b1, True) \<Rightarrow> drv_heater drv io on b1 s))"

text \<open>Accesses of the client to the bus.\<close>

definition sensor_writeI2C :: "'h i2c_io \<Rightarrow> u8 \<Rightarrow> u8 list \<Rightarrow> 'h i2c \<Rightarrow> 'h i2c \<times> bool" where
  "sensor_writeI2C io addr buf b =
     (if length buf < 1 then (b, False)
      else (case i2c_set_slave_address io addr b of (b1, False) \<Rightarrow> (b1, False) | (b1, True) \<Rightarrow> i2c_write_raw io buf b1))"

definition sensor_readI2C :: "'h i2c_io \<Rightarrow> u8 \<Rightarrow> nat \<Rightarrow> 'h i2c \<Rightarrow> 'h i2c \<times> u8 list option" where
  "sensor_readI2C io addr len b =
     (if len < 1 then (b, None)
      else (case i2c_set_slave_address io addr b of (b1, False) \<Rightarrow> (b1, None) | (b1, True) \<Rightarrow> i2c_read_raw io len b1))"

definition sensor_readI2Cregs :: "'h i2c_io \<Rightarrow> u8 \<Rightarrow> u8 \<Rightarrow> nat \<Rightarrow> 'h i2c \<Rightarrow> 'h i2c \<times> u8 list option" where
  "sensor_readI2Cregs io addr regaddr N b =
     (if N < 1 then (b, None)
      else (case i2c_set_slave_address io addr b of (b1, False) \<Rightarrow> (b1, None) | (b1, True) \<Rightarrow> i2c_read_data8 io regaddr N b1))"

definition sensor_writeI2Creg :: "'h i2c_io \<Rightarrow> u8 \<Rightarrow> u8 \<Rightarrow> u8 \<Rightarrow> 'h i2c \<Rightarrow> 'h i2c \<times> bool" where
  "sensor_writeI2Creg io addr regaddr d b =
     (case i2c_set_slave_address io addr b of (b1, False) \<Rightarrow> (b1, False) | (b1, True) \<Rightarrow> i2c_write_reg8 io regaddr d b1)"

section \<open>The protocol\<close>

text \<open>The calls of a client and what they do.\<close>

datatype call = Init nat u8 | Start "int list" | Process int | Getdata | Heater bool

definition exec :: "'h driver \<Rightarrow> 'h i2c_io \<Rightarrow> call \<Rightarrow> 'h i2c \<times> sensor \<Rightarrow> ('h i2c \<times> sensor) \<times> sensor_data option" where
  "exec drv io c st =
     (case st of (b, s) \<Rightarrow>
       (case c of
          Init n addr \<Rightarrow> (case sensor_init drv io n addr b s of (b1, s1, ok) \<Rightarrow> ((b1, s1), None))
        | Start nows \<Rightarrow> (case sensor_start drv io nows b s of (b1, s1, ok) \<Rightarrow> ((b1, s1), None))
        | Process now \<Rightarrow> (case sensor_process drv io now b s of (b1, s1, st1) \<Rightarrow> ((b1, s1), None))
        | Getdata \<Rightarrow> (case sensor_getdata s of (s1, d) \<Rightarrow> ((b, s1), d))
        | Heater on \<Rightarrow> ((fst (sensor_heater drv io on b s), s), None)))"

fun exec_all :: "'h driver \<Rightarrow> 'h i2c_io \<Rightarrow> call list \<Rightarrow> 'h i2c \<times> sensor \<Rightarrow> sensor_data option list" where
  "exec_all drv io [] st = []"
| "exec_all drv io (c # cs) st = (case exec drv io c st of (st1, out) \<Rightarrow> out # exec_all drv io cs st1)"

text \<open>The specification: the phases of a measurement, and which data a call may deliver.\<close>

datatype phase = Off | Idle | Measuring | Have sensor_data | Broken

inductive spec_step :: "phase \<Rightarrow> call \<Rightarrow> sensor_data option \<Rightarrow> phase \<Rightarrow> bool" where
  stay: "c = Getdata \<Longrightarrow> (\<forall>d. p \<noteq> Have d) \<Longrightarrow> spec_step p c None p"
| refused: "c \<noteq> Getdata \<Longrightarrow> spec_step p c None p"
| init_done: "spec_step p (Init n addr) None Idle"
| init_failed: "spec_step p (Init n addr) None Off"
| begin_measuring: "spec_step Idle (Start nows) None Measuring"
| bus_error: "spec_step Idle (Start nows) None Broken"
| measured: "spec_step Measuring (Process now) None (Have d)"
| lost: "spec_step Measuring (Process now) None Broken"
| deliver: "spec_step (Have d) Getdata (Some d) Idle"

inductive spec_run :: "phase \<Rightarrow> call list \<Rightarrow> sensor_data option list \<Rightarrow> bool" where
  run_done: "spec_run p [] []"
| run_step: "spec_step p c out p' \<Longrightarrow> spec_run p' cs outs \<Longrightarrow> spec_run p (c # cs) (out # outs)"

definition phase_of :: "sensor \<Rightarrow> phase" where
  "phase_of s =
     (case status s of
        SENS_NOTINIT \<Rightarrow> Off | SENS_BUSY \<Rightarrow> Measuring | SENS_ERR \<Rightarrow> Broken | SENS_RELAX \<Rightarrow> Idle
      | SENS_RDY \<Rightarrow> Have (sdata s))"

lemma phase_of_upd [simp]: "phase_of (s\<lparr>address := a\<rparr>) = phase_of s"
  by (simp add: phase_of_def split: sensor_status.splits)

text \<open>What the common layer relies on from the functions of a driver.\<close>

locale sensor_driver =
  fixes drv :: "'h driver" and io :: "'h i2c_io"
  assumes init_ok: "drv_init drv io b s = (b', s', True) \<Longrightarrow> status s' = SENS_RELAX"
    and init_fails: "drv_init drv io b s = (b', s', False) \<Longrightarrow> status s' = SENS_NOTINIT"
    and start_ok: "drv_start drv io now b s = (b', s', True) \<Longrightarrow> status s = SENS_RELAX \<and> status s' = SENS_BUSY"
    and start_fails: "drv_start drv io now b s = (b', s', False) \<Longrightarrow> s' = s \<or> (status s = SENS_RELAX \<and> status s' = SENS_ERR)"
    and process_idle: "status s \<noteq> SENS_BUSY \<Longrightarrow> drv_process drv io now b s = (b', s') \<Longrightarrow> s' = s"
    and process_busy: "status s = SENS_BUSY \<Longrightarrow> drv_process drv io now b s = (b', s') \<Longrightarrow> status s' \<in> {SENS_BUSY, SENS_ERR, SENS_RDY}"
begin

lemma init_loop_status:
  "init_loop drv io n b s = (b', s', ok) \<Longrightarrow> if ok then status s' = SENS_RELAX else status s' = SENS_NOTINIT \<or> (n = 0 \<and> s' = s)"
proof (induction n arbitrary: b s)
  case (Suc n)
  obtain b1 s1 ok1 where i: "drv_init drv io b s = (b1, s1, ok1)" by (metis prod_cases3)
  show ?case
  proof (cases ok1)
    case True
    then show ?thesis using i Suc.prems init_ok by auto
  next
    case False
    then show ?thesis using i Suc.prems Suc.IH [of b1 s1] init_fails by (auto split: if_splits)
  qed
qed auto

lemma start_loop_status:
  "start_loop drv io nows b s = (b', s', ok) \<Longrightarrow>
   if ok then status s = SENS_RELAX \<and> status s' = SENS_BUSY
   else s' = s \<or> (status s = SENS_RELAX \<and> status s' = SENS_ERR)"
proof (induction nows arbitrary: b s)
  case (Cons now rest)
  obtain b1 s1 ok1 where i: "drv_start drv io now b s = (b1, s1, ok1)" by (metis prod_cases3)
  show ?case
  proof (cases ok1)
    case True
    then show ?thesis using i Cons.prems start_ok by auto
  next
    case False
    then have "s1 = s \<or> (status s = SENS_RELAX \<and> status s1 = SENS_ERR)" using start_fails i by (cases ok1) auto
    then show ?thesis using i False Cons.prems Cons.IH [of b1 s1] by (auto split: if_splits)
  qed
qed auto

end

context sensor_driver
begin

lemma exec_refines:
  assumes "exec drv io c (b, s) = ((b', s'), out)"
  shows "spec_step (phase_of s) c out (phase_of s')"
proof (cases c)
  case (Init n addr)
  define s0 where "s0 = (if addr \<noteq> 0 then s\<lparr>address := addr\<rparr> else s)"
  have p0: "phase_of s0 = phase_of s" by (simp add: s0_def)
  obtain ok where "sensor_init drv io n addr b s = (b', s', ok)" and o: "out = None"
    using assms Init by (auto simp: exec_def split: prod.splits)
  then have "s' = s0 \<or> (\<exists>b2. init_loop drv io n b2 s0 = (b', s', ok))"
    by (auto simp: sensor_init_def s0_def Let_def split: prod.splits bool.splits option.splits)
  then have "phase_of s' \<in> {phase_of s, Idle, Off}"
    using init_loop_status p0 by (fastforce simp: phase_of_def split: if_splits)
  then show ?thesis using Init o by (auto intro: spec_step.intros)
next
  case (Start nows)
  obtain ok where "sensor_start drv io nows b s = (b', s', ok)" and o: "out = None"
    using assms Start by (auto simp: exec_def split: prod.splits)
  then have "s' = s \<or> (\<exists>b1. start_loop drv io nows b1 s = (b', s', ok))"
    by (auto simp: sensor_start_def split: prod.splits bool.splits)
  then show ?thesis
  proof
    assume "\<exists>b1. start_loop drv io nows b1 s = (b', s', ok)"
    then have "s' = s \<or> (status s = SENS_RELAX \<and> status s' \<in> {SENS_BUSY, SENS_ERR})"
      using start_loop_status by (metis insertCI)
    then show ?thesis using Start o by (auto simp: phase_of_def intro: spec_step.intros)
  qed (use Start o in \<open>auto intro: spec_step.intros\<close>)
next
  case (Process now)
  obtain st where "sensor_process drv io now b s = (b', s', st)" and o: "out = None"
    using assms Process by (auto simp: exec_def split: prod.splits)
  then have "s' = s \<or> (\<exists>b1. drv_process drv io now b1 s = (b', s'))"
    by (auto simp: sensor_process_def split: prod.splits bool.splits)
  then have "s' = s \<or> (status s = SENS_BUSY \<and> status s' \<in> {SENS_BUSY, SENS_ERR, SENS_RDY})"
    using process_idle process_busy by blast
  then show ?thesis using Process o by (auto simp: phase_of_def intro: spec_step.intros)
next
  case Getdata
  then show ?thesis using assms
    by (auto simp: exec_def sensor_getdata_def phase_of_def intro: spec_step.intros split: if_splits sensor_status.splits)
next
  case (Heater on)
  then show ?thesis using assms by (auto simp: exec_def intro: spec_step.intros)
qed

lemma exec_all_refines: "spec_run (phase_of s) cs (exec_all drv io cs (b, s))"
proof (induction cs arbitrary: b s)
  case (Cons c cs)
  obtain b1 s1 out where e: "exec drv io c (b, s) = ((b1, s1), out)" by (metis prod.collapse)
  then show ?case using exec_refines [OF e] Cons by (auto intro: spec_run.intros)
qed (auto intro: spec_run.intros)

end

lemma sht_process_status:
  assumes "sht_process io now b s = (b', s')"
  shows "if status s = SENS_BUSY then status s' \<in> {SENS_BUSY, SENS_ERR, SENS_RDY} else s' = s"
proof (cases "status s = SENS_BUSY")
  case True
  obtain b1 r where "i2c_read_raw io 6 b = (b1, r)" by fastforce
  then show ?thesis using assms True by (cases r) (auto simp: sht_process_def Let_def split: if_splits)
next
  case False
  then show ?thesis using assms by (simp add: sht_process_def)
qed

lemma si_process_status:
  assumes "si_process io now b s = (b', s')"
  shows "if status s = SENS_BUSY then status s' \<in> {SENS_BUSY, SENS_ERR, SENS_RDY} else s' = s"
proof (cases "status s = SENS_BUSY")
  case True
  obtain b1 r where r: "i2c_read_raw io 3 b = (b1, r)" by fastforce
  obtain b2 c where c: "i2c_read_reg8 io 3 b1 = (b2, c)" by fastforce
  obtain b3 ok where w: "i2c_write_reg8 io 3 0x01 b2 = (b3, ok)" by fastforce
  show ?thesis using assms True r c w
    by (cases r; cases c; cases ok) (auto simp: si_process_def si7005_cmdH_def Let_def split: if_splits)
next
  case False
  then show ?thesis using assms by (simp add: si_process_def)
qed

lemma sht_init_status: "sht_init io b s = (b', s', ok) \<Longrightarrow> status s' = (if ok then SENS_RELAX else SENS_NOTINIT)"
  by (auto simp: sht_init_def split: prod.splits bool.splits)

lemma sht_start_status:
  assumes "sht_start io now b s = (b', s', ok)"
  shows "if ok then status s = SENS_RELAX \<and> status s' = SENS_BUSY
         else s' = s \<or> (status s = SENS_RELAX \<and> status s' = SENS_ERR)"
proof (cases "status s = SENS_RELAX")
  case True
  obtain b1 w where "i2c_write_raw io [0x24, 0x00] b = (b1, w)" by fastforce
  then show ?thesis using assms True by (cases w) (auto simp: sht_start_def)
next
  case False
  then show ?thesis using assms by (auto simp: sht_start_def)
qed

lemma si_init_status: "si_init io b s = (b', s', ok) \<Longrightarrow> status s' = (if ok then SENS_RELAX else SENS_NOTINIT)"
  by (auto simp: si_init_def split: prod.splits option.splits if_splits)

lemma si_start_status:
  assumes "si_start io now b s = (b', s', ok)"
  shows "if ok then status s = SENS_RELAX \<and> status s' = SENS_BUSY
         else s' = s \<or> (status s = SENS_RELAX \<and> status s' = SENS_ERR)"
proof (cases "status s = SENS_RELAX")
  case True
  obtain b1 w where "i2c_write_reg8 io 3 0x11 b = (b1, w)" by fastforce
  then show ?thesis using assms True by (cases w) (auto simp: si_start_def)
next
  case False
  then show ?thesis using assms by (auto simp: si_start_def)
qed

lemma SHT3x_simps [simp]:
  "drv_init SHT3x = sht_init" "drv_start SHT3x = sht_start" "drv_process SHT3x = sht_process"
  by (simp_all add: SHT3x_def)

lemma SI7005_simps [simp]:
  "drv_init SI7005 = si_init" "drv_start SI7005 = si_start" "drv_process SI7005 = si_process"
  by (simp_all add: SI7005_def)

lemma sensor_driverI:
  assumes "\<And>b s b' s' ok. drv_init drv io b s = (b', s', ok) \<Longrightarrow> status s' = (if ok then SENS_RELAX else SENS_NOTINIT)"
    and "\<And>now b s b' s' ok. drv_start drv io now b s = (b', s', ok) \<Longrightarrow>
           if ok then status s = SENS_RELAX \<and> status s' = SENS_BUSY
           else s' = s \<or> (status s = SENS_RELAX \<and> status s' = SENS_ERR)"
    and "\<And>now b s b' s'. drv_process drv io now b s = (b', s') \<Longrightarrow>
           if status s = SENS_BUSY then status s' \<in> {SENS_BUSY, SENS_ERR, SENS_RDY} else s' = s"
  shows "sensor_driver drv io"
proof
  fix s b s' b' now
  show "drv_init drv io b s = (b', s', True) \<Longrightarrow> status s' = SENS_RELAX"
    and "drv_init drv io b s = (b', s', False) \<Longrightarrow> status s' = SENS_NOTINIT" using assms(1) by force+
  show "drv_start drv io now b s = (b', s', True) \<Longrightarrow> status s = SENS_RELAX \<and> status s' = SENS_BUSY"
    and "drv_start drv io now b s = (b', s', False) \<Longrightarrow> s' = s \<or> (status s = SENS_RELAX \<and> status s' = SENS_ERR)"
    using assms(2) by presburger+
  show "status s \<noteq> SENS_BUSY \<Longrightarrow> drv_process drv io now b s = (b', s') \<Longrightarrow> s' = s"
    and "status s = SENS_BUSY \<Longrightarrow> drv_process drv io now b s = (b', s') \<Longrightarrow> status s' \<in> {SENS_BUSY, SENS_ERR, SENS_RDY}"
    using assms(3) by presburger+
qed

interpretation sht: sensor_driver SHT3x io for io
  by (rule sensor_driverI, simp_all only: SHT3x_simps)
    (fact sht_init_status sht_start_status sht_process_status)+

interpretation si: sensor_driver SI7005 io for io
  by (rule sensor_driverI, simp_all only: SI7005_simps)
    (fact si_init_status si_start_status si_process_status)+

text \<open>
  C15. Every sequence of calls of the common layer on a SHT3x, whatever the bus answers, behaves as the phases of a measurement: a start is accepted only by an idle sensor, processing turns a running measurement into data or an error, and data are delivered once, with the sensor idle again.
\<close>

theorem SHT3x_refines_spec: "spec_run (phase_of s) cs (exec_all SHT3x io cs (b, s))"
  by (rule sht.exec_all_refines)

text \<open>A delivery needs a measurement of its own: the deliveries are counted by the starts.\<close>

definition pending :: "phase \<Rightarrow> nat" where
  "pending p = (case p of Measuring \<Rightarrow> 1 | Have d \<Rightarrow> 1 | _ \<Rightarrow> 0)"

fun is_start :: "call \<Rightarrow> bool" where
  "is_start (Start nows) = True"
| "is_start _ = False"

lemma spec_step_pending:
  "spec_step p c out p' \<Longrightarrow> (if out = None then 0 else 1) + pending p' \<le> (if is_start c then 1 else 0) + pending p"
  by (erule spec_step.cases) (simp_all add: pending_def)

lemma spec_run_deliveries:
  "spec_run p cs outs \<Longrightarrow> length (filter (\<lambda>d. d \<noteq> None) outs) \<le> length (filter is_start cs) + pending p"
proof (induction rule: spec_run.induct)
  case (run_step p c out p' cs outs)
  then show ?case using spec_step_pending [OF run_step.hyps(1)] by (simp split: if_splits)
qed simp

section \<open>AHT\<close>

text \<open>A device that answers everything and stays busy.\<close>

definition always_busy :: "'h i2c_io \<Rightarrow> bool" where
  "always_busy io \<longleftrightarrow>
     (\<forall>h a. snd (io_slave io h a)) \<and> (\<forall>h r. snd (io_smbus_read io h r) \<noteq> None) \<and>
     (\<forall>h r d. snd (io_smbus_write io h r d)) \<and>
     (\<forall>h m. \<exists>d. snd (io_rdwr io h m) = Some d \<and> d ! 0 AND 0x80 \<noteq> 0)"

lemma always_busyD:
  assumes "always_busy io" "I2Cfd b \<ge> 1"
  shows "\<exists>b'. i2c_set_slave_address io a b = (b', True) \<and> I2Cfd b' = I2Cfd b"
    and "\<exists>b' x. i2c_read_reg8 io r b = (b', Some x) \<and> I2Cfd b' = I2Cfd b"
    and "\<exists>b'. i2c_write_reg8 io r x b = (b', True) \<and> I2Cfd b' = I2Cfd b"
    and "\<exists>b'. aht_poll io b = (b', SENS_BUSY) \<and> I2Cfd b' = I2Cfd b"
proof -
  obtain h1 where "io_slave io (bus b) a = (h1, True)" using assms(1) unfolding always_busy_def by (metis prod.collapse)
  then show "\<exists>b'. i2c_set_slave_address io a b = (b', True) \<and> I2Cfd b' = I2Cfd b"
    using assms(2) by (simp add: i2c_set_slave_address_def)
  obtain h2 y where "io_smbus_read io (bus b) r = (h2, Some y)"
    using assms(1) unfolding always_busy_def by (metis option.exhaust prod.collapse)
  then show "\<exists>b' x. i2c_read_reg8 io r b = (b', Some x) \<and> I2Cfd b' = I2Cfd b"
    using assms(2) by (simp add: i2c_read_reg8_def)
  obtain h3 where "io_smbus_write io (bus b) r [x] = (h3, True)"
    using assms(1) unfolding always_busy_def by (metis prod.collapse)
  then show "\<exists>b'. i2c_write_reg8 io r x b = (b', True) \<and> I2Cfd b' = I2Cfd b"
    using assms(2) by (simp add: i2c_write_reg8_def)
  obtain h4 d where "io_rdwr io (bus b) [\<lparr>m_addr = lastaddr b, m_rd = True, m_len = 1, m_buf = []\<rparr>] = (h4, Some d)"
    and "d ! 0 AND 0x80 \<noteq> 0" using assms(1) unfolding always_busy_def by (metis prod.collapse)
  then show "\<exists>b'. aht_poll io b = (b', SENS_BUSY) \<and> I2Cfd b' = I2Cfd b"
    using assms(2) by (simp add: aht_poll_def i2c_read_raw_def i2c_rw_def)
qed

lemma aht_wait_busy:
  assumes "always_busy io"
  shows "I2Cfd b \<ge> 1 \<Longrightarrow> \<exists>b'. aht_wait io n b = (b', False) \<and> I2Cfd b' = I2Cfd b"
proof (induction n arbitrary: b)
  case (Suc n)
  obtain b1 where "aht_poll io b = (b1, SENS_BUSY)" "I2Cfd b1 = I2Cfd b" using always_busyD(4) [OF assms Suc.prems] by blast
  then show ?case using Suc.IH [of b1] Suc.prems by simp
qed simp

lemma aht_init_busy:
  assumes "always_busy io" "I2Cfd b \<ge> 1"
  shows "\<exists>b'. aht_init polls io b s = (b', s\<lparr>status := SENS_NOTINIT\<rparr>, True)"
proof -
  obtain b1 where 1: "i2c_write_reg8 io 0xBA 0 b = (b1, True)" "I2Cfd b1 = I2Cfd b" using always_busyD(3) [OF assms] by blast
  then obtain b2 where "aht_wait io polls b1 = (b2, False)" using aht_wait_busy [OF assms(1), of b1] assms(2) by fastforce
  then show ?thesis using 1 by (simp add: aht_init_def Let_def)
qed

lemma start_loop_not_relax: "status s \<noteq> SENS_RELAX \<Longrightarrow> start_loop (AHT polls) io nows b s = (b, s, False)"
  by (induction nows) (simp_all add: AHT_def aht_start_def)

text \<open>
  On a device that answers and stays busy the initialisation of an AHT reports success, since its timeouts return SENS_ERR, which is not zero, and leaves the status SENS_NOTINIT, with which every start then fails.
\<close>

theorem AHT_init_timeout:
  assumes "always_busy io" "I2Cfd b \<ge> 1"
  shows "\<exists>b' s'. sensor_init (AHT polls) io (Suc n) addr b s = (b', s', True) \<and> status s' = SENS_NOTINIT \<and>
           (\<forall>nows b. \<exists>b''. sensor_start (AHT polls) io nows b s' = (b'', s', False))"
proof -
  define s0 where "s0 = (if addr \<noteq> 0 then s\<lparr>address := addr\<rparr> else s)"
  obtain b1 where 1: "i2c_set_slave_address io (address s0) b = (b1, True)" "I2Cfd b1 = I2Cfd b"
    using always_busyD(1) [OF assms] by blast
  obtain b2 x where 2: "i2c_read_reg8 io 0 b1 = (b2, Some x)" "I2Cfd b2 = I2Cfd b"
    using always_busyD(2) [OF assms(1), of b1 0] 1 assms(2) by auto
  obtain b3 where 3: "aht_init polls io b2 s0 = (b3, s0\<lparr>status := SENS_NOTINIT\<rparr>, True)"
    using aht_init_busy [OF assms(1), of b2 polls s0] 2 assms(2) by auto
  have "sensor_init (AHT polls) io (Suc n) addr b s = (b3, s0\<lparr>status := SENS_NOTINIT\<rparr>, True)"
    using 1 2 3 by (simp add: sensor_init_def s0_def [symmetric] AHT_def)
  moreover have "\<exists>b''. sensor_start (AHT polls) io nows b (s0\<lparr>status := SENS_NOTINIT\<rparr>) = (b'', s0\<lparr>status := SENS_NOTINIT\<rparr>, False)"
    for nows b by (auto simp: sensor_start_def start_loop_not_relax split: prod.splits bool.splits)
  ultimately show ?thesis by auto
qed

lemma AHT_init_timeout_witness:
  "let io = \<lparr>io_rdwr = (\<lambda>h m. (h, Some [0x80])), io_smbus_read = (\<lambda>h r. (h, Some 0)),
             io_smbus_write = (\<lambda>h r d. (h, True)), io_slave = (\<lambda>h a. (h, True))\<rparr>;
       b = \<lparr>bus = (), I2Cfd = 3, lastaddr = 0\<rparr>;
       s = \<lparr>address = 0x38, status = SENS_NOTINIT, sdata = \<lparr>data_T = 0, data_H = 0, data_P = 0\<rparr>, started = 0, aht2x = False\<rparr>
   in \<exists>b' s'. sensor_init (AHT 20) io (Suc 50) 0 b s = (b', s', True) \<and> status s' = SENS_NOTINIT \<and>
        (\<forall>nows b. \<exists>b''. sensor_start (AHT 20) io nows b s' = (b'', s', False))"
  unfolding Let_def by (rule AHT_init_timeout) (simp_all add: always_busy_def)

section \<open>Checksums and values\<close>

text \<open>One turn of the checksum can be undone, so a change of a byte is never lost.\<close>

definition crc_back :: "u8 \<Rightarrow> u8" where
  "crc_back c = (if bit c 0 then drop_bit 1 (c XOR 0x31) OR 0x80 else drop_bit 1 c)"

lemma bit_128: "bit (0x80 :: u8) n \<longleftrightarrow> n = 7"
  using bit_exp_iff [of 7 n, where 'a=u8] bit_imp_le_length [of "0x80 :: u8" n] by auto

lemma less_8_cases: "n < 8 \<longleftrightarrow> n \<in> {0, 1, 2, 3, 4, 5, 6, 7 :: nat}"
  by auto

lemma bit_49: "n < 8 \<Longrightarrow> bit (0x31 :: u8) n \<longleftrightarrow> n \<in> {0, 4, 5}"
  unfolding less_8_cases by auto

lemma crc_top_bit: "c AND 0x80 \<noteq> 0 \<longleftrightarrow> bit c 7" for c :: u8
proof -
  have "bit (c AND 0x80) n \<longleftrightarrow> bit c 7 \<and> n = 7" for n
    unfolding bit_and_iff bit_128 by blast
  then show ?thesis by (metis bit_eqI bit_0_eq bot_apply bot_bool_def)
qed

lemma bit_crc_bit:
  assumes "n < 8"
  shows "bit (crc_bit a) n \<longleftrightarrow> (0 < n \<and> bit a (n - 1)) \<noteq> (bit a 7 \<and> n \<in> {0, 4, 5})"
proof -
  have "bit (push_bit 1 a) n \<longleftrightarrow> 0 < n \<and> bit a (n - 1)"
    using assms by (subst bit_push_bit_iff) auto
  then show ?thesis using bit_49 [OF assms] by (simp only: crc_bit_def crc_top_bit bit_xor_iff split: if_splits) blast
qed

lemma crc_back_bit: "crc_back (crc_bit a) = a"
proof (rule bit_word_eqI)
  fix n assume "n < LENGTH(8)"
  then have n: "n < 8" by simp
  have 0: "bit (crc_bit a) 0 \<longleftrightarrow> bit a 7" using bit_crc_bit [of 0 a] by simp
  have s: "bit (drop_bit 1 c) n \<longleftrightarrow> n < 7 \<and> bit c (n + 1)" for c :: u8
    using bit_imp_le_length [of c "n + 1"] by (auto simp: bit_drop_bit_eq)
  have "bit (crc_back (crc_bit a)) n \<longleftrightarrow>
      (n < 7 \<and> bit (crc_bit a) (n + 1) \<noteq> (bit a 7 \<and> n + 1 \<in> {4, 5})) \<or> (bit a 7 \<and> n = 7)"
    using bit_49 [of "n + 1"] by (simp only: crc_back_def 0 bit_or_iff s bit_xor_iff bit_128 split: if_splits) auto
  also have "\<dots> \<longleftrightarrow> bit a n" using bit_crc_bit [of "n + 1" a] n by (cases "n = 7") auto
  finally show "bit (crc_back (crc_bit a)) n = bit a n" .
qed

lemma crc_byte_inj: "crc_byte c d = crc_byte c' d' \<Longrightarrow> c XOR d = c' XOR d'"
proof -
  have i: "inj crc_bit" using crc_back_bit by (metis injI)
  have "inj (crc_bit ^^ k)" for k by (induction k) (auto intro!: inj_compose [OF i] simp del: o_apply)
  then show "crc_byte c d = crc_byte c' d' \<Longrightarrow> c XOR d = c' XOR d'" by (auto simp: crc_byte_def dest: injD)
qed

lemma xor_left_cancel: "x XOR y = x XOR z \<Longrightarrow> y = z" for x y z :: u8
proof -
  assume "x XOR y = x XOR z"
  then have "x XOR (x XOR y) = x XOR (x XOR z)" by simp
  then show "y = z" by (simp add: xor.assoc [symmetric])
qed

lemma crc8_change:
  assumes "crc8 [a, b] = crc8 [a', b']"
  shows "a = a' \<longleftrightarrow> b = b'"
proof -
  have e: "crc_byte 0xFF a XOR b = crc_byte 0xFF a' XOR b'"
    using assms unfolding crc8_def foldl.simps by (rule crc_byte_inj)
  show ?thesis
  proof
    assume "a = a'"
    then show "b = b'" using e by (blast intro: xor_left_cancel)
  next
    assume "b = b'"
    then have "b XOR crc_byte 0xFF a = b XOR crc_byte 0xFF a'" using e by (simp only: xor.commute)
    then have "crc_byte 0xFF a = crc_byte 0xFF a'" by (rule xor_left_cancel)
    then have "0xFF XOR a = 0xFF XOR a'" by (rule crc_byte_inj)
    then show "a = a'" by (rule xor_left_cancel)
  qed
qed

text \<open>The two checksums of a measurement of the SHT3x; changing one byte breaks one of them.\<close>

definition checksums_ok :: "u8 list \<Rightarrow> bool" where
  "checksums_ok d \<longleftrightarrow> d ! 2 = crc8 (take 2 d) \<and> d ! 5 = crc8 (take 2 (drop 3 d))"

lemma six_bytes: "length d = 6 \<Longrightarrow> \<exists>a b c e f g. d = [a, b, c, e, f, g]"
  by (auto simp: numeral_eq_Suc length_Suc_conv)

lemma checksums_detect:
  assumes "length d = 6" "checksums_ok d" "k < 6" "x \<noteq> d ! k"
  shows "\<not> checksums_ok (d[k := x])"
proof -
  obtain a b c e f g where d: "d = [a, b, c, e, f, g]" using six_bytes [OF assms(1)] by blast
  have "k \<in> {0, 1, 2, 3, 4, 5}" using assms(3) by auto
  then consider "k = 0" | "k = 1" | "k = 2" | "k = 3" | "k = 4" | "k = 5" by auto
  then show ?thesis using assms(2,4)
    by cases (simp_all add: d checksums_ok_def, (metis crc8_change)+)
qed

lemma sht_process_read:
  assumes "status s = SENS_BUSY" "i2c_read_raw io 6 b = (b1, Some d)"
  shows "snd (sht_process io now b s) =
    (if checksums_ok d
     then s\<lparr>sdata := (sdata s)\<lparr>data_T := of_int (sht_stemp (d ! 0) (d ! 1)) / 100,
                              data_H := of_nat (unat (sht_shum (d ! 3) (d ! 4))) / 100\<rparr>, status := SENS_RDY\<rparr>
     else s\<lparr>status := SENS_ERR\<rparr>)"
  using assms by (simp add: sht_process_def checksums_ok_def Let_def)

text \<open>
  A measurement of the SHT3x with one of its six bytes changed in any way ends with SENS_ERR and leaves the data as they were.
\<close>

theorem SHT3x_detects_damage:
  assumes "status s = SENS_BUSY" "length d = 6" "checksums_ok d" "k < 6" "x \<noteq> d ! k"
    and "i2c_read_raw io 6 b = (b1, Some (d[k := x]))"
  shows "snd (drv_process SHT3x io now b s) = s\<lparr>status := SENS_ERR\<rparr>"
  using sht_process_read [OF assms(1,6)] checksums_detect [OF assms(2-5)] by simp

lemma sht_stemp_bounds: "- 4500 \<le> sht_stemp a b" "sht_stemp a b \<le> 12999"
proof -
  have u: "0 \<le> uint (join_bytes a b)" "uint (join_bytes a b) < 65536" using uint_bounded [of "join_bytes a b"] by auto
  then show "- 4500 \<le> sht_stemp a b" "sht_stemp a b \<le> 12999" 
    by (auto simp: sht_stemp_def drop_bit_eq_div intro: pos_imp_zdiv_nonneg_iff [THEN iffD2])
qed

lemma sht_shum_value: "unat (sht_shum a b) = 625 * unat (join_bytes a b) div 4096"
proof -
  have "unat (join_bytes a b) < 65536" using unsigned_less [where 'a=nat, of "join_bytes a b"] by simp
  then have "unat (625 * ucast (join_bytes a b) :: u32) = 625 * unat (join_bytes a b)"
    by (simp add: unat_word_ariths unsigned_ucast_eq take_bit_eq_mod)
  then show ?thesis by (simp add: sht_shum_def drop_bit_eq_div unat_div)
qed

lemma sht_shum_bounds: "unat (sht_shum a b) \<le> 9999"
  using unsigned_less [where 'a=nat, of "join_bytes a b"] by (simp add: sht_shum_value)

text \<open>
  A measurement that the SHT3x driver accepts is in the range of the device: the 32-bit arithmetic does not overflow, the temperature is in [-45, 130) and the humidity in [0, 100).
\<close>

theorem SHT3x_reading:
  assumes "status s = SENS_BUSY" "status (snd (drv_process SHT3x io now b s)) = SENS_RDY"
  shows "let m = sdata (snd (drv_process SHT3x io now b s))
         in - 45 \<le> data_T m \<and> data_T m < 130 \<and> 0 \<le> data_H m \<and> data_H m < 100"
proof -
  obtain b1 r where r: "i2c_read_raw io 6 b = (b1, r)" by fastforce
  then obtain d where d: "r = Some d" using assms by (cases r) (auto simp: sht_process_def split: if_splits)
  have T: "- 45 \<le> of_int (sht_stemp a e) / (100 :: rat)" "of_int (sht_stemp a e) / (100 :: rat) < 130" for a e
  proof -
    have "(of_int (- 4500) :: rat) \<le> of_int (sht_stemp a e)" "(of_int (sht_stemp a e) :: rat) \<le> of_int 12999"
      by (rule of_int_le_iff [THEN iffD2], rule sht_stemp_bounds)+
    then show "- 45 \<le> of_int (sht_stemp a e) / (100 :: rat)" "of_int (sht_stemp a e) / (100 :: rat) < 130" by simp_all
  qed
  have H: "0 \<le> of_nat (unat (sht_shum a e)) / (100 :: rat)" "of_nat (unat (sht_shum a e)) / (100 :: rat) < 100" for a e
  proof -
    have "(of_nat (unat (sht_shum a e)) :: rat) \<le> of_nat 9999" by (rule of_nat_le_iff [THEN iffD2], rule sht_shum_bounds)
    moreover have "(0 :: rat) \<le> of_nat (unat (sht_shum a e))" by (rule of_nat_0_le_iff)
    ultimately show "0 \<le> of_nat (unat (sht_shum a e)) / (100 :: rat)" "of_nat (unat (sht_shum a e)) / (100 :: rat) < 100"
      by simp_all
  qed
  show ?thesis using assms sht_process_read [OF assms(1), of io b b1 d] r d T H by (simp add: Let_def split: if_splits)
qed

lemma beef_ok: "checksums_ok [0xBE, 0xEF, 0x92, 0xBE, 0xEF, 0x92]"
  by code_simp

lemma SHT3x_detects_damage_witness:
  "let io = \<lparr>io_rdwr = (\<lambda>h m. (h, Some ([0xBE, 0xEF, 0x92, 0xBE, 0xEF, 0x92][1 := 0xEE]))), io_smbus_read = (\<lambda>h r. (h, Some 0)),
             io_smbus_write = (\<lambda>h r d. (h, True)), io_slave = (\<lambda>h a. (h, True))\<rparr>;
       b = \<lparr>bus = (), I2Cfd = 3, lastaddr = 0x44\<rparr>;
       s = \<lparr>address = 0x44, status = SENS_BUSY, sdata = \<lparr>data_T = 0, data_H = 0, data_P = 0\<rparr>, started = 0, aht2x = False\<rparr>
   in snd (drv_process SHT3x io 15 b s) = s\<lparr>status := SENS_ERR\<rparr>"
  unfolding Let_def
  by (rule SHT3x_detects_damage [of _ "[0xBE, 0xEF, 0x92, 0xBE, 0xEF, 0x92]" 1 "0xEE" _ _ "\<lparr>bus = (), I2Cfd = 3, lastaddr = 0x44\<rparr>"])
    (simp_all add: beef_ok i2c_read_raw_def i2c_rw_def)

lemma SHT3x_reading_witness:
  "let io = \<lparr>io_rdwr = (\<lambda>h m. (h, Some [0xBE, 0xEF, 0x92, 0xBE, 0xEF, 0x92])), io_smbus_read = (\<lambda>h r. (h, Some 0)),
             io_smbus_write = (\<lambda>h r d. (h, True)), io_slave = (\<lambda>h a. (h, True))\<rparr>;
       b = \<lparr>bus = (), I2Cfd = 3, lastaddr = 0x44\<rparr>;
       s = \<lparr>address = 0x44, status = SENS_BUSY, sdata = \<lparr>data_T = 0, data_H = 0, data_P = 0\<rparr>, started = 0, aht2x = False\<rparr>;
       m = sdata (snd (drv_process SHT3x io 15 b s))
   in - 45 \<le> data_T m \<and> data_T m < 130 \<and> 0 \<le> data_H m \<and> data_H m < 100"
  unfolding Let_def
  by (rule SHT3x_reading [unfolded Let_def])
    (simp_all add: sht_process_read [where d = "[0xBE, 0xEF, 0x92, 0xBE, 0xEF, 0x92]"] beef_ok i2c_read_raw_def i2c_rw_def)

text \<open>The heater of the SHT3x is never switched: its driver does not report that it has one.\<close>

lemma SHT3x_no_heater: "sensor_heater SHT3x io on b s = (b, False)"
  by (simp add: sensor_heater_def SHT3x_def)

section \<open>Deliveries\<close>

text \<open>
  However a client mixes the calls on a SI7005, the data delivered are at most as many as the measurements started, with one more if a measurement was pending before.
\<close>

theorem SI7005_deliveries:
  "length (filter (\<lambda>d. d \<noteq> None) (exec_all SI7005 io cs (b, s))) \<le> length (filter is_start cs) + pending (phase_of s)"
  by (rule spec_run_deliveries, rule si.exec_all_refines)

end
