(* ===== verification/CanBuffer.thy ===== *)
theory CanBuffer
  imports CPrelude "HOL-Library.Monad_Syntax"
begin

text \<open>
  The access to a CAN bus of \<open>Socket_CAN/can_io.c\<close>: the ring buffer in shared memory that one server process
  fills and any number of clients read, each with a pointer of its own, the sending of frames, and the
  signal handlers of server and clients. Times are counted in microseconds. A call runs to its end before
  another process changes the buffer; the driver and the message queue are parameters.
\<close>

section \<open>Shared memory\<close>

definition CAN_RX_SIZE :: nat where
  "CAN_RX_SIZE = 1000"

text \<open>Of the data of a frame the first \<open>flength\<close> bytes have a meaning.\<close>

record canmsg =
  fid :: int
  fstamp :: int
  flength :: int
  fdata :: "u8 list"

record shm =
  can_pid :: int
  can_open :: int
  rx_buff_pntr :: nat
  rx_buff :: "canmsg list"

text \<open>The part of \<open>init_can_io\<close> that fills a new segment.\<close>

definition new_shm :: "int \<Rightarrow> shm" where
  "new_shm now =
     \<lparr>can_pid = 0, can_open = - 1, rx_buff_pntr = 0,
      rx_buff = replicate CAN_RX_SIZE \<lparr>fid = 0, fstamp = now, flength = 0, fdata = []\<rparr>\<rparr>"

definition can_io_shm_ok :: "shm \<Rightarrow> bool" where
  "can_io_shm_ok m \<longleftrightarrow> can_pid m > 0 \<and> can_open m > 0"

text \<open>\<open>kill0\<close> tells whether the process answers the signal 0.\<close>

definition can_io_ok :: "int \<Rightarrow> (int \<Rightarrow> bool) \<Rightarrow> shm \<Rightarrow> bool" where
  "can_io_ok my_uid kill0 m \<longleftrightarrow> can_io_shm_ok m \<and> (my_uid \<noteq> 0 \<or> kill0 (can_pid m))"

definition can_ok :: "shm \<Rightarrow> bool" where
  "can_ok m = can_io_shm_ok m"

section \<open>The ring buffer\<close>

definition push_rx :: "canmsg \<Rightarrow> shm \<Rightarrow> shm" where
  "push_rx rx m =
     m\<lparr>rx_buff := (rx_buff m)[rx_buff_pntr m := rx], rx_buff_pntr := (rx_buff_pntr m + 1) mod CAN_RX_SIZE\<rparr>"

definition can_put_buff_frame :: "bool \<Rightarrow> int \<Rightarrow> int \<Rightarrow> int \<Rightarrow> u8 list \<Rightarrow> shm \<Rightarrow> shm" where
  "can_put_buff_frame server_mode rtime ident len data m =
     (if \<not> server_mode then m
      else
        (let len1 = (if len < 0 then 0 else len); len2 = (if len1 > 8 then 8 else len1)
         in push_rx \<lparr>fid = ident, fstamp = rtime, flength = len2, fdata = take (nat len2) data\<rparr> m))"

text \<open>
  The correction of a time stamp before the last one, \<open>tm\<close>: steps of 10 ms, with the carry of
  \<open>tv_usec\<close> into \<open>tv_sec\<close>.
\<close>

function fix_stamp :: "int \<Rightarrow> int \<times> int \<Rightarrow> int \<times> int" where
  "fix_stamp tm (sec, usec) =
     (if sec * 1000000 + usec < tm
      then (let u = usec + 10000 in fix_stamp tm (if u > 1000000 then (sec + 1, u - 1000000) else (sec, u)))
      else (sec, usec))"
  by pat_completeness auto
termination
  by (relation "measure (\<lambda>(tm, sec, usec). nat (tm - (sec * 1000000 + usec)))") auto

declare fix_stamp.simps [simp del]

text \<open>One turn of the server loop: \<open>ready\<close> is the result of \<open>can_wait\<close>, \<open>frame\<close> what \<open>read\<close> gave. \<open>tm\<close> stays 0.\<close>

definition server_turn :: "int \<Rightarrow> (int \<times> int \<times> canmsg) option \<Rightarrow> shm \<Rightarrow> shm" where
  "server_turn ready frame m =
     (if \<not> can_io_shm_ok m \<or> ready \<le> 0 then m
      else
        (case frame of
           None \<Rightarrow> m
         | Some (sec, usec, rx) \<Rightarrow>
             (case fix_stamp 0 (sec, usec) of (s, u) \<Rightarrow> push_rx (rx\<lparr>fstamp := s * 1000000 + u\<rparr>) m)))"

definition can_clean_recv :: "int \<Rightarrow> shm \<Rightarrow> nat \<times> int" where
  "can_clean_recv now m = (rx_buff_pntr m, now)"

text \<open>What a read gives: a frame, nothing, or an access behind the eight data bytes.\<close>

datatype received = Frame int int "u8 list" | Nothing | OutOfArray

definition copy_frame :: "canmsg \<Rightarrow> received" where
  "copy_frame rx = (if flength rx > 8 then OutOfArray else Frame (fid rx) (flength rx) (take (nat (flength rx)) (fdata rx)))"

partial_function (option) can_get_buff_frame :: "shm \<Rightarrow> nat \<Rightarrow> int \<Rightarrow> (nat \<times> int \<times> received) option" where
  "can_get_buff_frame m pbuf rtime =
     (if pbuf = rx_buff_pntr m then Some (pbuf, rtime, Nothing)
      else
        (let rx = rx_buff m ! pbuf; t_rx = fstamp rx; next = (pbuf + 1) mod CAN_RX_SIZE in
         if t_rx + 1000000 \<ge> rtime then Some (next, t_rx, copy_frame rx)
         else can_get_buff_frame m next rtime))"

definition can_recv_frame :: "shm \<Rightarrow> nat \<Rightarrow> int \<Rightarrow> (nat \<times> int \<times> received) option" where
  "can_recv_frame m pbuf rtime = can_get_buff_frame m pbuf rtime"

section \<open>Sending\<close>

record 'h can_out =
  drv_write :: "'h \<Rightarrow> canmsg \<Rightarrow> 'h \<times> int"
  queue_send :: "'h \<Rightarrow> int \<Rightarrow> u8 list \<Rightarrow> 'h"

definition can_send_frame :: "'h can_out \<Rightarrow> bool \<Rightarrow> int \<Rightarrow> int \<Rightarrow> int \<Rightarrow> int \<Rightarrow> int \<Rightarrow> u8 list \<Rightarrow> 'h \<times> shm \<Rightarrow> ('h \<times> shm) \<times> int" where
  "can_send_frame out server_mode can_fd canout now ident len data st =
     (case st of (h, m) \<Rightarrow>
        if can_fd < 0 \<and> canout < 0 then ((h, m), 0)
        else
          (let len1 = (if len > 8 then 8 else len); len2 = (if len1 < 0 then 0 else len1) in
           if can_fd \<ge> 0 then
             (case drv_write out h \<lparr>fid = ident, fstamp = 0, flength = len2, fdata = take (nat len2) data\<rparr> of
                (h1, ret) \<Rightarrow> ((h1, if server_mode then can_put_buff_frame server_mode now ident len2 data m else m), ret))
           else ((queue_send out h ident (take (nat len2) data), m), 1)))"

section \<open>Signals\<close>

abbreviation SIGHUP :: int where "SIGHUP \<equiv> 1"
abbreviation SIGINT :: int where "SIGINT \<equiv> 2"
abbreviation SIGQUIT :: int where "SIGQUIT \<equiv> 3"
abbreviation SIGFPE :: int where "SIGFPE \<equiv> 8"
abbreviation SIGSEGV :: int where "SIGSEGV \<equiv> 11"
abbreviation SIGPIPE :: int where "SIGPIPE \<equiv> 13"
abbreviation SIGALRM :: int where "SIGALRM \<equiv> 14"
abbreviation SIGTERM :: int where "SIGTERM \<equiv> 15"

datatype handler = SIG_DFL | SIG_IGN | Can_abort | Can_exit

text \<open>A process with its shared memory; \<open>others\<close> is whether another process has the memory attached.\<close>

record can_proc =
  server :: bool
  fd :: int
  lk :: int
  mem :: shm
  others :: bool
  removed :: bool
  alarm_set :: bool
  handlers :: "int \<Rightarrow> handler"
  exited :: "int option"

definition set_handler :: "int \<Rightarrow> handler \<Rightarrow> can_proc \<Rightarrow> can_proc" where
  "set_handler sig act p = p\<lparr>handlers := (handlers p)(sig := act)\<rparr>"

definition stopping :: "int \<Rightarrow> bool" where
  "stopping sig \<longleftrightarrow> sig \<in> {SIGPIPE, SIGQUIT, SIGFPE, SIGSEGV, SIGTERM}"

text \<open>The two \<open>switch\<close> statements.\<close>

definition abort_switch :: "int \<Rightarrow> can_proc \<Rightarrow> can_proc" where
  "abort_switch sig p =
     (if stopping sig then
        (set_handler SIGALRM Can_abort p)\<lparr>alarm_set := True, fd := - 1, mem := (mem p)\<lparr>can_open := - 1\<rparr>\<rparr>
      else if sig = SIGALRM then
        p\<lparr>lk := - 1, mem := (mem p)\<lparr>can_pid := 0\<rparr>, removed := removed p \<or> \<not> others p, exited := Some sig\<rparr>
      else set_handler sig Can_abort p)"

definition exit_switch :: "int \<Rightarrow> can_proc \<Rightarrow> can_proc" where
  "exit_switch sig p =
     (if stopping sig \<or> sig = 0 \<or> sig = SIGINT
      then p\<lparr>removed := removed p \<or> \<not> others p, exited := Some sig\<rparr>
      else set_handler sig Can_exit p)"

definition ignore :: "int \<Rightarrow> can_proc \<Rightarrow> can_proc" where
  "ignore sig p = (if sig \<noteq> 0 then set_handler sig SIG_IGN p else p)"

text \<open>Each handler calls the other one when the mode of the process is not its own.\<close>

definition can_abort :: "int \<Rightarrow> can_proc \<Rightarrow> can_proc" where
  "can_abort sig p =
     (let p1 = ignore sig p;
          p2 = (if \<not> server p1 then exit_switch sig (ignore sig p1) else p1)
      in if exited p2 \<noteq> None then p2 else abort_switch sig p2)"

definition can_exit :: "int \<Rightarrow> can_proc \<Rightarrow> can_proc" where
  "can_exit sig p =
     (let p1 = ignore sig p;
          p2 = (if server p1 then abort_switch sig (ignore sig p1) else p1)
      in if exited p2 \<noteq> None then p2 else exit_switch sig p2)"

text \<open>The arrival of a signal. The default action of the signals used here ends the process.\<close>

definition deliver :: "int \<Rightarrow> can_proc \<Rightarrow> can_proc" where
  "deliver sig p =
     (if exited p \<noteq> None then p
      else
        (case handlers p sig of
           SIG_DFL \<Rightarrow> p\<lparr>exited := Some sig\<rparr> | SIG_IGN \<Rightarrow> p
         | Can_abort \<Rightarrow> can_abort sig p | Can_exit \<Rightarrow> can_exit sig p))"

text \<open>The state in which \<open>start_can_io\<close> enters its loop.\<close>

definition started_server :: "int \<Rightarrow> int \<Rightarrow> int \<Rightarrow> bool \<Rightarrow> shm \<Rightarrow> can_proc" where
  "started_server pid f l oth m =
     \<lparr>server = True, fd = f, lk = l, mem = m\<lparr>can_pid := pid, can_open := f\<rparr>, others = oth, removed = False, alarm_set = False,
      handlers = (\<lambda>sig. if sig = SIGALRM then SIG_IGN
                        else if sig = SIGHUP \<or> sig = SIGINT \<or> stopping sig then Can_abort else SIG_DFL),
      exited = None\<rparr>"

section \<open>The buffer as a history\<close>

text \<open>
  \<open>ring hist m\<close>: the frames put so far are \<open>hist\<close>, and the buffer holds the last \<open>CAN_RX_SIZE\<close> of them.
\<close>

definition ring :: "canmsg list \<Rightarrow> shm \<Rightarrow> bool" where
  "ring hist m \<longleftrightarrow>
     length (rx_buff m) = CAN_RX_SIZE \<and> rx_buff_pntr m = length hist mod CAN_RX_SIZE \<and>
     (\<forall>k < length hist. length hist \<le> k + CAN_RX_SIZE \<longrightarrow> rx_buff m ! (k mod CAN_RX_SIZE) = hist ! k)"

lemma RX_pos: "0 < CAN_RX_SIZE"
  by (simp add: CAN_RX_SIZE_def)

lemma ring_new: "ring [] (new_shm now)"
  by (simp add: ring_def new_shm_def)

lemma mod_window: "k < n \<Longrightarrow> n < k + N \<Longrightarrow> k mod N \<noteq> n mod N" for k n N :: nat
proof
  assume a: "k < n" "n < k + N" "k mod N = n mod N"
  then have "N dvd n - k" using mod_eq_dvd_iff_nat [of k n N] by auto
  then show False using a by (auto dest: dvd_imp_le)
qed

lemma ring_push:
  assumes "ring hist m"
  shows "ring (hist @ [rx]) (push_rx rx m)"
proof -
  have "rx_buff (push_rx rx m) ! (k mod CAN_RX_SIZE) = (hist @ [rx]) ! k"
    if "k < Suc (length hist)" "Suc (length hist) \<le> k + CAN_RX_SIZE" for k
  proof (cases "k = length hist")
    case True
    then show ?thesis using assms RX_pos by (simp add: push_rx_def ring_def)
  next
    case False
    then have "k mod CAN_RX_SIZE \<noteq> length hist mod CAN_RX_SIZE" using that by (intro mod_window) auto
    then show ?thesis using False that assms by (simp add: push_rx_def ring_def nth_append)
  qed
  then show ?thesis using assms by (simp add: ring_def push_rx_def mod_Suc_eq)
qed

text \<open>The specification of a client: it takes the frames it has not seen, in order, and skips the old ones.\<close>

fun take_frame :: "int \<Rightarrow> canmsg list \<Rightarrow> canmsg list \<times> int \<times> received" where
  "take_frame rtime [] = ([], rtime, Nothing)"
| "take_frame rtime (f # fs) = (if fstamp f + 1000000 \<ge> rtime then (fs, fstamp f, copy_frame f) else take_frame rtime fs)"

lemma get_take:
  assumes "ring hist m" "c \<le> length hist" "length hist < c + CAN_RX_SIZE"
  shows "\<exists>c' r out. take_frame rtime (drop c hist) = (drop c' hist, r, out) \<and> c \<le> c' \<and> c' \<le> length hist \<and>
           can_get_buff_frame m (c mod CAN_RX_SIZE) rtime = Some (c' mod CAN_RX_SIZE, r, out)"
  using assms(2,3)
proof (induction "length hist - c" arbitrary: c)
  case 0
  then show ?case using assms(1) by (subst can_get_buff_frame.simps) (auto simp: ring_def intro!: exI [of _ c])
next
  case (Suc n)
  then have c: "c < length hist" by simp
  have ne: "c mod CAN_RX_SIZE \<noteq> rx_buff_pntr m" using assms(1) c Suc.prems mod_window [of c "length hist" CAN_RX_SIZE] by (simp add: ring_def)
  have rx: "rx_buff m ! (c mod CAN_RX_SIZE) = hist ! c" using assms(1) c Suc.prems by (simp add: ring_def)
  have d: "drop c hist = hist ! c # drop (Suc c) hist" using c by (simp add: Cons_nth_drop_Suc)
  have s: "(c mod CAN_RX_SIZE + 1) mod CAN_RX_SIZE = Suc c mod CAN_RX_SIZE" by (simp add: mod_Suc_eq)
  show ?case
  proof (cases "fstamp (hist ! c) + 1000000 \<ge> rtime")
    case True
    then show ?thesis using ne rx d s c
      by (subst can_get_buff_frame.simps) (auto simp: Let_def intro!: exI [of _ "Suc c"])
  next
    case False
    have n: "n = length hist - Suc c" using Suc.hyps(2) by simp
    obtain c' r out where h: "take_frame rtime (drop (Suc c) hist) = (drop c' hist, r, out)" "Suc c \<le> c'" "c' \<le> length hist"
      "can_get_buff_frame m (Suc c mod CAN_RX_SIZE) rtime = Some (c' mod CAN_RX_SIZE, r, out)"
      using Suc.hyps(1) [OF n] Suc.prems c by auto
    then show ?thesis using False ne rx d s
      by (subst can_get_buff_frame.simps) (auto simp: Let_def intro!: exI [of _ c'])
  qed
qed

section \<open>A server and a client\<close>

datatype can_op = Put int int int "u8 list" | Get

fun run_can :: "can_op list \<Rightarrow> shm \<Rightarrow> nat \<Rightarrow> int \<Rightarrow> received list option" where
  "run_can [] m pbuf rtime = Some []"
| "run_can (Put t ident len data # ops) m pbuf rtime = run_can ops (can_put_buff_frame True t ident len data m) pbuf rtime"
| "run_can (Get # ops) m pbuf rtime =
     (case can_recv_frame m pbuf rtime of
        None \<Rightarrow> None
      | Some (pbuf1, rtime1, r) \<Rightarrow> map_option (Cons r) (run_can ops m pbuf1 rtime1))"

definition put_frame :: "int \<Rightarrow> int \<Rightarrow> int \<Rightarrow> u8 list \<Rightarrow> canmsg" where
  "put_frame t ident len data =
     (let l = max 0 (min 8 len) in \<lparr>fid = ident, fstamp = t, flength = l, fdata = take (nat l) data\<rparr>)"

fun run_queue :: "can_op list \<Rightarrow> canmsg list \<Rightarrow> int \<Rightarrow> received list" where
  "run_queue [] q rtime = []"
| "run_queue (Put t ident len data # ops) q rtime = run_queue ops (q @ [put_frame t ident len data]) rtime"
| "run_queue (Get # ops) q rtime = (case take_frame rtime q of (q1, rtime1, r) \<Rightarrow> r # run_queue ops q1 rtime1)"

text \<open>The queue of the specification stays below the size of the buffer.\<close>

fun in_time :: "can_op list \<Rightarrow> canmsg list \<Rightarrow> int \<Rightarrow> bool" where
  "in_time [] q rtime = True"
| "in_time (Put t ident len data # ops) q rtime =
     (length q + 1 < CAN_RX_SIZE \<and> in_time ops (q @ [put_frame t ident len data]) rtime)"
| "in_time (Get # ops) q rtime = (case take_frame rtime q of (q1, rtime1, r) \<Rightarrow> in_time ops q1 rtime1)"

lemma put_pushes: "can_put_buff_frame True t ident len data m = push_rx (put_frame t ident len data) m"
  by (auto simp: can_put_buff_frame_def put_frame_def Let_def max_def min_def)

lemma run_refines:
  assumes "ring hist m" "c \<le> length hist" "length hist < c + CAN_RX_SIZE" "in_time ops (drop c hist) rtime"
  shows "run_can ops m (c mod CAN_RX_SIZE) rtime = Some (run_queue ops (drop c hist) rtime)"
  using assms
proof (induction ops arbitrary: hist m c rtime)
  case (Cons op ops)
  show ?case
  proof (cases op)
    case (Put t ident len data)
    have "run_can ops (push_rx (put_frame t ident len data) m) (c mod CAN_RX_SIZE) rtime =
        Some (run_queue ops (drop c (hist @ [put_frame t ident len data])) rtime)"
      using Cons.prems Put by (intro Cons.IH ring_push) auto
    then show ?thesis using Put Cons.prems(2) by (simp add: put_pushes)
  next
    case Get
    obtain c' r out where g: "take_frame rtime (drop c hist) = (drop c' hist, r, out)" "c \<le> c'" "c' \<le> length hist"
      "can_get_buff_frame m (c mod CAN_RX_SIZE) rtime = Some (c' mod CAN_RX_SIZE, r, out)"
      using get_take [OF Cons.prems(1-3)] by blast
    moreover have "run_can ops m (c' mod CAN_RX_SIZE) r = Some (run_queue ops (drop c' hist) r)"
      using Cons.prems Get g by (intro Cons.IH) auto
    ultimately show ?thesis using Get by (simp add: can_recv_frame_def)
  qed
qed simp

text \<open>
  C14. A client that starts with can_clean_recv and never lets more than CAN_RX_SIZE - 1 frames wait reads exactly the frames put since, each once, in order and without the ones older than a second, and every read returns.
\<close>

theorem can_client_in_time:
  assumes "ring hist m" "can_clean_recv now m = (pbuf, rtime)" "in_time ops [] rtime"
  shows "run_can ops m pbuf rtime = Some (run_queue ops [] rtime)"
  using run_refines [OF assms(1), of "length hist" ops rtime] assms RX_pos by (simp add: can_clean_recv_def ring_def)

text \<open>A client that is a whole buffer behind sees nothing.\<close>

lemma put_pntr: "rx_buff_pntr (push_rx rx m) = (rx_buff_pntr m + 1) mod CAN_RX_SIZE"
  by (simp add: push_rx_def)

lemma run_puts:
  assumes "\<forall>op \<in> set ops. op \<noteq> Get"
  shows "run_can (ops @ [Get]) m pbuf rtime = run_can [Get] (fold (\<lambda>op m. case op of Put t i l d \<Rightarrow> can_put_buff_frame True t i l d m | Get \<Rightarrow> m) ops m) pbuf rtime"
  using assms by (induction ops arbitrary: m) (auto split: can_op.splits)

lemma puts_pntr:
  assumes "\<forall>op \<in> set ops. op \<noteq> Get" "rx_buff_pntr m < CAN_RX_SIZE"
  shows "rx_buff_pntr (fold (\<lambda>op m. case op of Put t i l d \<Rightarrow> can_put_buff_frame True t i l d m | Get \<Rightarrow> m) ops m) =
    (rx_buff_pntr m + length ops) mod CAN_RX_SIZE"
  using assms
proof (induction ops arbitrary: m)
  case (Cons op ops)
  then obtain t i l d where op: "op = Put t i l d" by (cases op) auto
  show ?case using Cons.IH [of "push_rx (put_frame t i l d) m"] Cons.prems RX_pos
    by (simp add: op put_pushes put_pntr mod_simps add.assoc)
qed simp

text \<open>
  Exactly CAN_RX_SIZE frames put since the last read look like an empty buffer: the client reads nothing and loses all of them.
\<close>

theorem can_client_overrun:
  assumes "ring hist m" "can_clean_recv now m = (pbuf, rtime)" "\<forall>op \<in> set ops. op \<noteq> Get" "length ops = CAN_RX_SIZE"
  shows "run_can (ops @ [Get]) m pbuf rtime = Some [Nothing]"
proof -
  define m' where "m' = fold (\<lambda>op m. case op of Put t i l d \<Rightarrow> can_put_buff_frame True t i l d m | Get \<Rightarrow> m) ops m"
  have "rx_buff_pntr m < CAN_RX_SIZE" using assms(1) RX_pos by (simp add: ring_def)
  then have "rx_buff_pntr m' = pbuf" using assms(2,4) puts_pntr [OF assms(3), of m] by (simp add: m'_def can_clean_recv_def)
  then show ?thesis using run_puts [OF assms(3), of m pbuf rtime]
    by (simp add: m'_def [symmetric] can_recv_frame_def can_get_buff_frame.simps)
qed

lemma can_client_in_time_witness:
  "run_can [Put 5 1 2 [7, 8, 9], Get, Put 6 2 9 [0, 1, 2, 3, 4, 5, 6, 7, 8], Get, Get] (new_shm 0) 0 3 =
     Some [Frame 1 2 [7, 8], Frame 2 8 [0, 1, 2, 3, 4, 5, 6, 7], Nothing]"
proof -
  have c: "can_clean_recv 3 (new_shm 0) = (0, 3)" by (simp add: can_clean_recv_def new_shm_def)
  show ?thesis
    by (subst can_client_in_time [OF ring_new c]) (simp_all add: CAN_RX_SIZE_def put_frame_def copy_frame_def)
qed

lemma can_client_overrun_witness:
  "run_can (replicate CAN_RX_SIZE (Put 5 1 2 [7, 8]) @ [Get]) (new_shm 0) 0 3 = Some [Nothing]"
proof -
  have c: "can_clean_recv 3 (new_shm 0) = (0, 3)" by (simp add: can_clean_recv_def new_shm_def)
  show ?thesis by (rule can_client_overrun [OF ring_new c]) auto
qed

section \<open>Frames sent and stamped\<close>

lemma can_send_frame_echo:
  assumes "can_fd \<ge> 0"
  shows "snd (fst (can_send_frame out True can_fd canout now ident len data (h, m))) = push_rx (put_frame now ident len data) m"
  using assms
  by (auto simp: can_send_frame_def put_pushes [symmetric] can_put_buff_frame_def Let_def split: prod.splits)

lemma fix_stamp_reaches: "case fix_stamp tm su of (s, u) \<Rightarrow> tm \<le> s * 1000000 + u"
proof (induction tm su rule: fix_stamp.induct)
  case (1 tm sec usec)
  show ?case
  proof (cases "sec * 1000000 + usec < tm")
    case True
    then show ?thesis using 1 [OF True refl] by (subst fix_stamp.simps) (simp add: Let_def)
  next
    case False
    then show ?thesis by (subst fix_stamp.simps) simp
  qed
qed

lemma server_turn_stamp:
  assumes "can_io_shm_ok m" "ready > 0" "0 \<le> sec * 1000000 + usec"
  shows "server_turn ready (Some (sec, usec, rx)) m = push_rx (rx\<lparr>fstamp := sec * 1000000 + usec\<rparr>) m"
  using assms by (simp add: server_turn_def fix_stamp.simps)

section \<open>Stopping the server\<close>

text \<open>What holds of a server from its first stopping signal on, as long as it runs.\<close>

definition stopped :: "can_proc \<Rightarrow> bool" where
  "stopped p \<longleftrightarrow>
     can_open (mem p) = - 1 \<and> (exited p = None \<longrightarrow> server p \<and> handlers p SIGALRM = Can_abort \<and> Can_exit \<notin> range (handlers p))"

lemmas signal_defs = can_abort_def abort_switch_def exit_switch_def ignore_def set_handler_def Let_def

lemma abort_stops:
  assumes "stopping sig" "server p" "exited p = None" "Can_exit \<notin> range (handlers p)"
  shows "stopped (can_abort sig p)"
proof -
  have "sig \<noteq> SIGALRM" using assms(1) by (auto simp: stopping_def)
  then show ?thesis using assms by (auto simp: stopped_def signal_defs)
qed

lemma abort_alarm:
  assumes "server p" "exited p = None"
  shows "exited (can_abort SIGALRM p) = Some SIGALRM" "can_pid (mem (can_abort SIGALRM p)) = 0"
    "can_open (mem (can_abort SIGALRM p)) = can_open (mem p)"
  using assms by (auto simp: signal_defs stopping_def)

lemma deliver_stopped:
  assumes "stopped p"
  shows "stopped (deliver sig p)"
proof (cases "exited p = None")
  case True
  then have p: "server p" "handlers p SIGALRM = Can_abort" "Can_exit \<notin> range (handlers p)" "can_open (mem p) = - 1"
    using assms by (auto simp: stopped_def)
  have ne: "handlers p sig \<noteq> Can_exit" using p(3) by (metis rangeI)
  show ?thesis
  proof (cases "handlers p sig")
    case Can_abort
    consider "stopping sig" | "sig = SIGALRM" | "\<not> stopping sig" "sig \<noteq> SIGALRM" by blast
    then have "stopped (can_abort sig p)"
    proof cases
      case 1
      then show ?thesis using abort_stops True p by blast
    next
      case 2
      then show ?thesis using abort_alarm [OF p(1) True] p(4) by (simp add: stopped_def)
    next
      case 3
      then show ?thesis using p True by (auto simp: stopped_def signal_defs)
    qed
    then show ?thesis using Can_abort True by (simp add: deliver_def)
  qed (use True p ne assms in \<open>auto simp: deliver_def stopped_def\<close>)
next
  case False
  then show ?thesis using assms by (simp add: deliver_def)
qed

lemma deliver_all_stopped: "stopped p \<Longrightarrow> stopped (fold deliver sigs p)"
  by (induction sigs arbitrary: p) (simp_all add: deliver_stopped)

text \<open>
  From the first stopping signal on, the shared memory tells every client that the server is down, whatever signals follow, and the alarm ends a server that still runs and clears its process number.
\<close>

theorem server_stops:
  assumes "stopping sig" and p: "p = fold deliver sigs (deliver sig (started_server pid f l oth m))"
  shows "\<not> can_ok (mem p) \<and>
    (exited p = None \<longrightarrow> exited (deliver SIGALRM p) = Some SIGALRM \<and> can_pid (mem (deliver SIGALRM p)) = 0)"
proof -
  define p0 where "p0 = started_server pid f l oth m"
  have "server p0" "exited p0 = None" "Can_exit \<notin> range (handlers p0)" "handlers p0 sig = Can_abort"
    using assms(1) by (auto simp: p0_def started_server_def stopping_def)
  then have "stopped (deliver sig p0)" using abort_stops [OF assms(1)] by (simp add: deliver_def)
  then have s: "stopped p" using deliver_all_stopped p p0_def by simp
  then have "\<not> can_ok (mem p)" by (auto simp: stopped_def can_ok_def can_io_shm_ok_def)
  moreover have "exited (deliver SIGALRM p) = Some SIGALRM \<and> can_pid (mem (deliver SIGALRM p)) = 0" if "exited p = None"
    using s that abort_alarm by (simp add: stopped_def deliver_def)
  ultimately show ?thesis by blast
qed

lemma server_stops_witness:
  "let p = fold deliver [SIGHUP] (deliver SIGTERM (started_server 77 3 4 False (new_shm 0)))
   in \<not> can_ok (mem p) \<and> exited (deliver SIGALRM p) = Some SIGALRM \<and> can_pid (mem (deliver SIGALRM p)) = 0"
proof -
  define p where "p = fold deliver [SIGHUP] (deliver SIGTERM (started_server 77 3 4 False (new_shm 0)))"
  have "stopping SIGTERM" by (simp add: stopping_def)
  moreover have "exited p = None" by (simp add: p_def deliver_def started_server_def signal_defs stopping_def)
  ultimately show ?thesis using server_stops [OF _ p_def] unfolding Let_def p_def [symmetric] by blast
qed

end
