(* ===== verification/SearchTree.thy ===== *)
theory SearchTree
  imports Numerals "HOL-Library.Tree"
begin

text \<open>
  The binary search tree of \<open>_snippets/B-trees.c\<close>: search, insertion and removal. A pointer into a tree is the
  path from the root to the node. Values are the integers of \<open>int\<close>; a removal that compares a difference
  which overflows has no result. The conversion of a tree to a vine and back is not modelled.
\<close>

section \<open>Operations\<close>

datatype dir = L | R

text \<open>
  \<open>bt_search\<close>: the loop from a node at a path, with the pointer to its parent; the found node and its parent,
  or no node and the one behind which the value is missing. The next node is the choice of \<open>bt_get\<close>.
\<close>

fun bt_get :: "int tree \<Rightarrow> int \<Rightarrow> dir option" where
  "bt_get \<langle>\<rangle> v = None"
| "bt_get \<langle>l, a, r\<rangle> v = (if a = v then None else if a > v then Some L else Some R)"

fun search_loop :: "int tree \<Rightarrow> int \<Rightarrow> dir list \<Rightarrow> dir list option \<Rightarrow> dir list option \<times> dir list option" where
  "search_loop \<langle>\<rangle> v p prev = (None, prev)"
| "search_loop \<langle>l, a, r\<rangle> v p prev =
     (case bt_get \<langle>l, a, r\<rangle> v of
        None \<Rightarrow> (Some p, prev)
      | Some L \<Rightarrow> search_loop l v (p @ [L]) (Some p)
      | Some R \<Rightarrow> search_loop r v (p @ [R]) (Some p))"

definition bt_search :: "int tree \<Rightarrow> int \<Rightarrow> dir list option \<times> dir list option" where
  "bt_search root v = search_loop root v [] None"

definition bt_create_leaf :: "int \<Rightarrow> int tree" where
  "bt_create_leaf v = \<langle>\<langle>\<rangle>, v, \<langle>\<rangle>\<rangle>"

fun modify :: "dir list \<Rightarrow> (int tree \<Rightarrow> int tree) \<Rightarrow> int tree \<Rightarrow> int tree" where
  "modify [] f t = f t"
| "modify (d # p) f \<langle>\<rangle> = \<langle>\<rangle>"
| "modify (L # p) f \<langle>l, a, r\<rangle> = \<langle>modify p f l, a, r\<rangle>"
| "modify (R # p) f \<langle>l, a, r\<rangle> = \<langle>l, a, modify p f r\<rangle>"

fun subtree_at :: "dir list \<Rightarrow> int tree \<Rightarrow> int tree" where
  "subtree_at [] t = t"
| "subtree_at (d # p) \<langle>\<rangle> = \<langle>\<rangle>"
| "subtree_at (L # p) \<langle>l, a, r\<rangle> = subtree_at p l"
| "subtree_at (R # p) \<langle>l, a, r\<rangle> = subtree_at p r"

text \<open>The store of a new leaf below the closest node.\<close>

fun hang :: "int \<Rightarrow> int tree \<Rightarrow> int tree" where
  "hang v \<langle>\<rangle> = \<langle>\<rangle>"
| "hang v \<langle>l, a, r\<rangle> = (if a > v then \<langle>bt_create_leaf v, a, r\<rangle> else \<langle>l, a, bt_create_leaf v\<rangle>)"

definition bt_insert :: "int tree \<Rightarrow> int \<Rightarrow> int tree" where
  "bt_insert root v =
     (case bt_search root v of
        (Some p, _) \<Rightarrow> root
      | (None, None) \<Rightarrow> bt_create_leaf v
      | (None, Some closest) \<Rightarrow> modify closest (hang v) root)"

text \<open>
  The rightmost value of the left and the leftmost value of the right child (removal asks for them only
  when both are there), and that child without the node, which \<open>conn\<close> with \<open>NULL\<close> cuts off with what hangs
  below it.
\<close>

fun max_leaf :: "int tree \<Rightarrow> int" where
  "max_leaf \<langle>\<rangle> = 0"
| "max_leaf \<langle>l, a, r\<rangle> = (if r = \<langle>\<rangle> then a else max_leaf r)"

fun min_leaf :: "int tree \<Rightarrow> int" where
  "min_leaf \<langle>\<rangle> = 0"
| "min_leaf \<langle>l, a, r\<rangle> = (if l = \<langle>\<rangle> then a else min_leaf l)"

fun cut_max :: "int tree \<Rightarrow> int tree" where
  "cut_max \<langle>\<rangle> = \<langle>\<rangle>"
| "cut_max \<langle>l, a, r\<rangle> = (if r = \<langle>\<rangle> then \<langle>\<rangle> else \<langle>l, a, cut_max r\<rangle>)"

fun cut_min :: "int tree \<Rightarrow> int tree" where
  "cut_min \<langle>\<rangle> = \<langle>\<rangle>"
| "cut_min \<langle>l, a, r\<rangle> = (if l = \<langle>\<rangle> then \<langle>\<rangle> else \<langle>cut_min l, a, r\<rangle>)"

text \<open>
  What takes the place of the removed node: a child, or with two children the nearer neighbour; \<open>None\<close> when one of
  the two differences is outside of \<open>int\<close>.
\<close>

fun remove_node :: "int \<Rightarrow> int tree \<Rightarrow> int tree option" where
  "remove_node v \<langle>\<rangle> = Some \<langle>\<rangle>"
| "remove_node v \<langle>l, a, r\<rangle> =
     (if l = \<langle>\<rangle> then Some r
      else if r = \<langle>\<rangle> then Some l
      else
        (let Lmax = max_leaf l; Rmin = min_leaf r in
         if \<not> int_ok (v - Lmax) \<or> \<not> int_ok (Rmin - v) then None
         else Some (if v - Lmax > Rmin - v then \<langle>l, Rmin, cut_min r\<rangle> else \<langle>cut_max l, Lmax, r\<rangle>)))"

definition bt_remove :: "int tree \<Rightarrow> int \<Rightarrow> int tree option" where
  "bt_remove root v =
     (case bt_search root v of
        (None, _) \<Rightarrow> Some root
      | (Some p, _) \<Rightarrow> map_option (\<lambda>t. modify p (\<lambda>_. t) root) (remove_node v (subtree_at p root)))"

section \<open>Search\<close>

lemma map_option_Cons: "map_option ((@) [d]) x = map_option ((#) d) x"
  by (cases x) simp_all

lemma search_loop_path:
  "search_loop t v p prev =
     (map_option (append p) (fst (search_loop t v [] None)),
      (case snd (search_loop t v [] None) of None \<Rightarrow> prev | Some q \<Rightarrow> Some (p @ q)))"
proof (induction t arbitrary: p prev)
  case (Node l a r)
  show ?case
    using Node.IH(1) [of "p @ [L]" "Some p"] Node.IH(1) [of "[L]" "Some []"] Node.IH(2) [of "p @ [R]" "Some p"] Node.IH(2) [of "[R]" "Some []"]
    by (auto split: option.splits simp: option.map_comp comp_def)
qed simp

text \<open>The three operations as the usual recursive functions.\<close>

lemma bt_search_simps:
  "bt_search \<langle>\<rangle> v = (None, None)"
  "bt_search \<langle>l, a, r\<rangle> v =
     (if a = v then (Some [], None)
      else
        (let d = (if a > v then L else R) in
         case bt_search (if a > v then l else r) v of
           (f, c) \<Rightarrow> (map_option (Cons d) f, Some (case c of None \<Rightarrow> [] | Some q \<Rightarrow> d # q))))"
  using search_loop_path [of l v "[L]" "Some []"] search_loop_path [of r v "[R]" "Some []"]
  by (auto simp: bt_search_def Let_def map_option_Cons split: option.splits prod.splits)

lemma bt_insert_Leaf: "bt_insert \<langle>\<rangle> v = \<langle>\<langle>\<rangle>, v, \<langle>\<rangle>\<rangle>"
  by (simp add: bt_insert_def bt_search_simps bt_create_leaf_def)

lemma search_none_closest: "bt_search t v = (None, None) \<Longrightarrow> t = \<langle>\<rangle>"
  by (cases t) (auto simp: bt_search_simps Let_def split: if_splits prod.splits)

lemma bt_insert_Node:
  "bt_insert \<langle>l, a, r\<rangle> v =
     (if a = v then \<langle>l, a, r\<rangle> else if a > v then \<langle>bt_insert l v, a, r\<rangle> else \<langle>l, a, bt_insert r v\<rangle>)"
proof -
  obtain f c where l: "bt_search l v = (f, c)" by fastforce
  obtain g e where r: "bt_search r v = (g, e)" by fastforce
  show ?thesis using l r search_none_closest [of l v] search_none_closest [of r v]
    by (auto simp: bt_insert_def bt_search_simps Let_def bt_create_leaf_def split: option.splits)
qed

lemma bt_remove_simps:
  "bt_remove \<langle>\<rangle> v = Some \<langle>\<rangle>"
  "bt_remove \<langle>l, a, r\<rangle> v =
     (if a = v then remove_node v \<langle>l, a, r\<rangle>
      else if a > v then map_option (\<lambda>l1. \<langle>l1, a, r\<rangle>) (bt_remove l v)
      else map_option (\<lambda>r1. \<langle>l, a, r1\<rangle>) (bt_remove r v))"
  by (auto simp: bt_remove_def bt_search_simps Let_def option.map_comp comp_def option.map_ident simp del: remove_node.simps split: option.splits prod.splits)

lemmas bt_simps = bt_search_simps bt_insert_Leaf bt_insert_Node bt_remove_simps

lemma bt_search_exact:
  "bst t \<Longrightarrow> (case fst (bt_search t v) of None \<Rightarrow> v \<notin> set_tree t | Some p \<Rightarrow> \<exists>l r. subtree_at p t = \<langle>l, v, r\<rangle>)"
proof (induction t)
  case (Node l a r)
  then show ?case by (auto simp: bt_simps Let_def split: option.splits prod.splits)
qed (simp add: bt_simps)

section \<open>Insertion\<close>

lemma set_bt_insert: "set_tree (bt_insert t v) = insert v (set_tree t)"
  by (induction t) (auto simp: bt_simps)

lemma bst_bt_insert: "bst t \<Longrightarrow> bst (bt_insert t v)"
  by (induction t) (auto simp: bt_simps set_bt_insert)

text \<open>A set of values that can be inserted into and asked.\<close>

locale value_set =
  fixes none :: 's and ins :: "'s \<Rightarrow> int \<Rightarrow> 's" and has :: "'s \<Rightarrow> int \<Rightarrow> bool" and values_of :: "'s \<Rightarrow> int set" and ok :: "'s \<Rightarrow> bool"
  assumes none_ok: "ok none" and values_none: "values_of none = {}"
    and ins_ok: "ok s \<Longrightarrow> ok (ins s v)" and values_ins: "ok s \<Longrightarrow> values_of (ins s v) = insert v (values_of s)"
    and has_values: "ok s \<Longrightarrow> has s v \<longleftrightarrow> v \<in> values_of s"
begin

lemma foldl_ins: "ok s \<Longrightarrow> ok (foldl ins s vs) \<and> values_of (foldl ins s vs) = values_of s \<union> set vs"
  by (induction vs arbitrary: s) (auto simp: ins_ok values_ins)

lemma has_inserted: "has (foldl ins none vs) v \<longleftrightarrow> v \<in> set vs"
  using foldl_ins [OF none_ok, of vs] by (simp add: has_values values_none)

end

interpretation bt: value_set "\<langle>\<rangle>" bt_insert "\<lambda>t v. fst (bt_search t v) \<noteq> None" set_tree bst
proof
  fix t :: "int tree" and v
  assume b: "bst t"
  show "bst (bt_insert t v)" using b by (rule bst_bt_insert)
  show "set_tree (bt_insert t v) = insert v (set_tree t)" by (rule set_bt_insert)
  have "v \<in> set_tree t" if "subtree_at p t = \<langle>l, v, r\<rangle>" for p l r
    using that by (induction p t rule: subtree_at.induct) auto
  then show "(fst (bt_search t v) \<noteq> None) = (v \<in> set_tree t)"
    using bt_search_exact [OF b, of v] by (auto split: option.splits)
qed simp_all

text \<open>
  C33. bt_search finds a value in a tree built by bt_insert exactly when the value was inserted.
\<close>

theorem bt_insert_search: "fst (bt_search (foldl bt_insert \<langle>\<rangle> vs) v) \<noteq> None \<longleftrightarrow> v \<in> set vs"
  by (rule bt.has_inserted)

section \<open>Removal\<close>

text \<open>The values below the neighbour that is moved up.\<close>

fun below_max :: "int tree \<Rightarrow> int set" where
  "below_max \<langle>\<rangle> = {}"
| "below_max \<langle>l, a, r\<rangle> = (if r = \<langle>\<rangle> then set_tree l else below_max r)"

fun below_min :: "int tree \<Rightarrow> int set" where
  "below_min \<langle>\<rangle> = {}"
| "below_min \<langle>l, a, r\<rangle> = (if l = \<langle>\<rangle> then set_tree r else below_min l)"

fun lost :: "int tree \<Rightarrow> int \<Rightarrow> int set" where
  "lost \<langle>\<rangle> v = {}"
| "lost \<langle>l, a, r\<rangle> v =
     (if a = v then
        (if l = \<langle>\<rangle> \<or> r = \<langle>\<rangle> then {} else if v - max_leaf l > min_leaf r - v then below_min r else below_max l)
      else if a > v then lost l v else lost r v)"

lemma bst_disjoint: "bst \<langle>l, a, r\<rangle> \<Longrightarrow> set_tree l \<inter> set_tree r = {} \<and> a \<notin> set_tree l \<and> a \<notin> set_tree r"
  by force

lemma max_leaf_greatest: "bst t \<Longrightarrow> t \<noteq> \<langle>\<rangle> \<Longrightarrow> max_leaf t \<in> set_tree t \<and> (\<forall>x \<in> set_tree t. x \<le> max_leaf t)"
proof (induction t)
  case (Node l a r)
  show ?case
  proof (cases "r = \<langle>\<rangle>")
    case False
    then have m: "max_leaf r \<in> set_tree r" "\<forall>x \<in> set_tree r. x \<le> max_leaf r" using Node by auto
    then have "a < max_leaf r" using Node.prems by simp
    then show ?thesis using m False Node.prems by force
  qed (use Node.prems in force)
qed simp

lemma min_leaf_least: "bst t \<Longrightarrow> t \<noteq> \<langle>\<rangle> \<Longrightarrow> min_leaf t \<in> set_tree t \<and> (\<forall>x \<in> set_tree t. min_leaf t \<le> x)"
proof (induction t)
  case (Node l a r)
  show ?case
  proof (cases "l = \<langle>\<rangle>")
    case False
    then have m: "min_leaf l \<in> set_tree l" "\<forall>x \<in> set_tree l. min_leaf l \<le> x" using Node by auto
    then have "min_leaf l < a" using Node.prems by simp
    then show ?thesis using m False Node.prems by force
  qed (use Node.prems in force)
qed simp

lemma below_max_sub: "bst t \<Longrightarrow> t \<noteq> \<langle>\<rangle> \<Longrightarrow> below_max t \<subseteq> set_tree t - {max_leaf t}"
proof (induction t)
  case (Node l a r)
  then show ?case using max_leaf_greatest [of r] by (cases "r = \<langle>\<rangle>") auto
qed simp

lemma below_min_sub: "bst t \<Longrightarrow> t \<noteq> \<langle>\<rangle> \<Longrightarrow> below_min t \<subseteq> set_tree t - {min_leaf t}"
proof (induction t)
  case (Node l a r)
  then show ?case using min_leaf_least [of l] by (cases "l = \<langle>\<rangle>") auto
qed simp

lemma set_cut_max: "bst t \<Longrightarrow> t \<noteq> \<langle>\<rangle> \<Longrightarrow> set_tree (cut_max t) = set_tree t - {max_leaf t} - below_max t"
proof (induction t)
  case (Node l a r)
  then show ?case using max_leaf_greatest [of r] below_max_sub [of r] bst_disjoint [OF Node.prems(1)]
    by (cases "r = \<langle>\<rangle>") auto
qed simp

lemma set_cut_min: "bst t \<Longrightarrow> t \<noteq> \<langle>\<rangle> \<Longrightarrow> set_tree (cut_min t) = set_tree t - {min_leaf t} - below_min t"
proof (induction t)
  case (Node l a r)
  then show ?case using min_leaf_least [of l] below_min_sub [of l] bst_disjoint [OF Node.prems(1)]
    by (cases "l = \<langle>\<rangle>") auto
qed simp

lemma bst_cut_max: "bst t \<Longrightarrow> bst (cut_max t)"
  by (induction t) (auto simp: set_cut_max)

lemma bst_cut_min: "bst t \<Longrightarrow> bst (cut_min t)"
  by (induction t) (auto simp: set_cut_min)

lemma remove_node_set:
  assumes b: "bst \<langle>l, v, r\<rangle>" and t: "remove_node v \<langle>l, v, r\<rangle> = Some t"
  shows "set_tree t = set_tree \<langle>l, v, r\<rangle> - {v} - lost \<langle>l, v, r\<rangle> v \<and>
         lost \<langle>l, v, r\<rangle> v \<subseteq> set_tree \<langle>l, v, r\<rangle> - {v} \<and> bst t"
proof (cases "l = \<langle>\<rangle> \<or> r = \<langle>\<rangle>")
  case True
  then show ?thesis using b t by (elim disjE) (auto split: if_splits)
next
  case False
  note d = bst_disjoint [OF b]
  have l: "max_leaf l \<in> set_tree l" "\<forall>x \<in> set_tree l. x \<le> max_leaf l" "max_leaf l < v" "bst l"
    using max_leaf_greatest [of l] False b by auto
  have r: "min_leaf r \<in> set_tree r" "\<forall>x \<in> set_tree r. min_leaf r \<le> x" "v < min_leaf r" "bst r"
    using min_leaf_least [of r] False b by auto
  have c: "set_tree (cut_max l) = set_tree l - {max_leaf l} - below_max l" "below_max l \<subseteq> set_tree l - {max_leaf l}"
    "set_tree (cut_min r) = set_tree r - {min_leaf r} - below_min r" "below_min r \<subseteq> set_tree r - {min_leaf r}"
    using set_cut_max [of l] below_max_sub [of l] set_cut_min [of r] below_min_sub [of r] l(4) r(4) False by simp_all
  have lr: "x < min_leaf r" if "x \<in> set_tree l" for x using that b r(3) by force
  have rl: "max_leaf l < x" if "x \<in> set_tree r" for x using that b l(3) by force
  show ?thesis
  proof (cases "v - max_leaf l > min_leaf r - v")
    case True
    then have e: "t = \<langle>l, min_leaf r, cut_min r\<rangle>" "lost \<langle>l, v, r\<rangle> v = below_min r"
      using False t by (auto simp: Let_def split: if_splits)
    have "min_leaf r < x" if "x \<in> set_tree (cut_min r)" for x using that c(3) r(2) by force
    moreover have "insert (min_leaf r) (set_tree l \<union> set_tree (cut_min r)) = set_tree l \<union> set_tree r - {v} - below_min r"
      using c(3,4) r(1) d by blast
    moreover have "below_min r \<subseteq> insert v (set_tree l \<union> set_tree r) - {v}" using c(4) d by blast
    moreover have "insert v (set_tree l \<union> set_tree r) - {v} = set_tree l \<union> set_tree r - {v}" by blast
    ultimately show ?thesis using lr l(4) bst_cut_min [OF r(4)] unfolding e by simp
  next
    case F: False
    then have e: "t = \<langle>cut_max l, max_leaf l, r\<rangle>" "lost \<langle>l, v, r\<rangle> v = below_max l"
      using False t by (auto simp: Let_def split: if_splits)
    have "x < max_leaf l" if "x \<in> set_tree (cut_max l)" for x using that c(1) l(2) by force
    moreover have "insert (max_leaf l) (set_tree (cut_max l) \<union> set_tree r) = set_tree l \<union> set_tree r - {v} - below_max l"
      using c(1,2) l(1) d by blast
    moreover have "below_max l \<subseteq> insert v (set_tree l \<union> set_tree r) - {v}" using c(2) d by blast
    moreover have "insert v (set_tree l \<union> set_tree r) - {v} = set_tree l \<union> set_tree r - {v}" by blast
    ultimately show ?thesis using rl r(4) bst_cut_max [OF l(4)] unfolding e by simp
  qed
qed

text \<open>
  Removal, where the compared differences fit, keeps the order of the tree and removes the value, and with it exactly the
  values below the neighbour that takes its place, which the code cuts off together with that node.
\<close>

theorem bt_remove_exact:
  assumes "bst t" "bt_remove t v = Some t1"
  shows "bst t1 \<and> set_tree t1 = set_tree t - {v} - lost t v \<and> lost t v \<subseteq> set_tree t - {v}"
  using assms
proof (induction t arbitrary: t1)
  case (Node l a r)
  note d = bst_disjoint [OF Node.prems(1)]
  consider "a = v" | "a > v" | "a < v" by linarith
  then show ?case
  proof cases
    case 1
    then show ?thesis using remove_node_set [of l v r t1] Node.prems by (simp add: bt_remove_simps(2) del: remove_node.simps lost.simps)
  next
    case 2
    then obtain l1 where l1: "bt_remove l v = Some l1" "t1 = \<langle>l1, a, r\<rangle>" using Node.prems(2) by (auto simp: bt_simps)
    have "bst l" using Node.prems(1) by simp
    from Node.IH(1) [OF this l1(1)] show ?thesis using 2 l1(2) Node.prems(1) d by auto
  next
    case 3
    then obtain r1 where r1: "bt_remove r v = Some r1" "t1 = \<langle>l, a, r1\<rangle>" using Node.prems(2) by (auto simp: bt_simps)
    have "bst r" using Node.prems(1) by simp
    from Node.IH(2) [OF this r1(1)] show ?thesis using 3 r1(2) Node.prems(1) d by auto
  qed
qed (simp add: bt_simps)

text \<open>It has a result when the values are below 2^30 in size.\<close>

theorem bt_remove_returns:
  assumes "bst t" "\<forall>x \<in> set_tree t. \<bar>x\<bar> < 2 ^ 30"
  shows "bt_remove t v \<noteq> None"
  using assms
proof (induction t)
  case (Node l a r)
  have "int_ok (v - max_leaf l) \<and> int_ok (min_leaf r - v)" if "a = v" "l \<noteq> \<langle>\<rangle>" "r \<noteq> \<langle>\<rangle>"
  proof -
    have "max_leaf l \<in> set_tree l" "min_leaf r \<in> set_tree r"
      using max_leaf_greatest [of l] min_leaf_least [of r] that Node.prems(1) by auto
    then have "\<bar>max_leaf l\<bar> < 2 ^ 30" "\<bar>min_leaf r\<bar> < 2 ^ 30" "\<bar>v\<bar> < 2 ^ 30" using Node.prems(2) that(1) by auto
    moreover have "max_leaf l < v" "v < min_leaf r"
      using max_leaf_greatest [of l] min_leaf_least [of r] that Node.prems(1) by auto
    ultimately show ?thesis by (simp add: int_ok_def) linarith
  qed
  then show ?case using Node by (auto simp: bt_simps Let_def)
qed (simp add: bt_simps)

lemma bt_remove_exact_witness:
  "let t = foldl bt_insert \<langle>\<rangle> [10, 5, 20, 3]
   in bst t \<and> map_option set_tree (bt_remove t 10) = Some {5, 20} \<and> lost t 10 = {3}"
proof -
  define t where "t = foldl bt_insert \<langle>\<rangle> [10, 5, 20, 3]"
  have t: "t = \<langle>\<langle>\<langle>\<langle>\<rangle>, 3, \<langle>\<rangle>\<rangle>, 5, \<langle>\<rangle>\<rangle>, 10, \<langle>\<langle>\<rangle>, 20, \<langle>\<rangle>\<rangle>\<rangle>" by (simp add: t_def bt_simps)
  have b: "bst t" by (simp add: t)
  obtain t1 where r: "bt_remove t 10 = Some t1" using bt_remove_returns [OF b, of 10] by (auto simp: t)
  have "lost t 10 = {3}" "set_tree t - {10} - lost t 10 = {5, 20}" by (auto simp: t)
  then show ?thesis using bt_remove_exact [OF b r] b r unfolding Let_def t_def [symmetric] by simp
qed

end
