(* ===== verification/TeaCmd.thy ===== *)
theory TeaCmd
  imports Numerals
begin

text \<open>
  The commands of the TeA stage, \<open>TeAmanagement/teacmd.c\<close>: the validator that the server asks before it
  passes a command on, what the server learns from the answers of the device, and the client that
  moves the stage. The result \<open>None\<close> stands for an access outside of an array or a signed overflow.
  A socket is the list of what its reads give, one after the other, and the texts sent to it;
  a wait with a timeout makes a number of turns that is an argument. Coordinates are steps.
\<close>

section \<open>Keys and values\<close>

abbreviation TEACMD_POSITION :: string where "TEACMD_POSITION \<equiv> ''abspos''"
abbreviation TEACMD_RELPOSITION :: string where "TEACMD_RELPOSITION \<equiv> ''relpos''"
abbreviation TEACMD_SLOWMOVE :: string where "TEACMD_SLOWMOVE \<equiv> ''relslow''"
abbreviation TEACMD_SETPOS :: string where "TEACMD_SETPOS \<equiv> ''setpos''"
abbreviation TEACMD_GOTOZERO :: string where "TEACMD_GOTOZERO \<equiv> ''gotoz''"
abbreviation TEACMD_STATUS :: string where "TEACMD_STATUS \<equiv> ''state''"

definition CMP :: "string \<Rightarrow> string \<Rightarrow> bool" where
  "CMP cmd str \<longleftrightarrow> take (length cmd) str = cmd"

definition rstrip :: "string \<Rightarrow> string" where
  "rstrip s = rev (dropWhile isspace (rev s))"

text \<open>
  \<open>get_keyval\<close>: the text that the caller's buffer holds afterwards and the value. The leading blanks are
  skipped by the local pointer only and stay in the buffer. For an empty key the code also looks at the
  byte in front of it, without consequence.
\<close>

definition get_keyval :: "string \<Rightarrow> string \<times> string option" where
  "get_keyval s =
     (let lead = takeWhile isspace s; keyval = dropWhile isspace s in
      case split_at CHR ''='' keyval of
        None \<Rightarrow> (lead @ rstrip keyval, None)
      | Some (key, val) \<Rightarrow> (lead @ rstrip key, Some (dropWhile isspace val)))"

text \<open>The number behind a command, \<open>buff[strlen(buff)-1] - '0'\<close>: of an empty text it is read in front of the array.\<close>

definition motor_number :: "string \<Rightarrow> int option" where
  "motor_number buff = (if buff = [] then None else Some (schar (last buff) - 48))"

section \<open>The validator\<close>

record tea =
  min_steps :: "int list"
  max_steps :: "int list"
  pos :: "int list"
  status :: "int list"

definition set_validator :: "int list \<Rightarrow> int list \<Rightarrow> tea \<Rightarrow> tea" where
  "set_validator minsteps maxsteps t = t\<lparr>min_steps := minsteps, max_steps := maxsteps\<rparr>"

definition in_range :: "tea \<Rightarrow> nat \<Rightarrow> int \<Rightarrow> bool" where
  "in_range t n v \<longleftrightarrow> \<not> (v < min_steps t ! n \<or> v > max_steps t ! n)"

definition validate_cmd :: "tea \<Rightarrow> string \<Rightarrow> int option" where
  "validate_cmd t str =
     (if length str > 255 then Some (- 1)
      else
        (case get_keyval str of
           (buff, None) \<Rightarrow> Some 0
         | (buff, Some val) \<Rightarrow>
             (case motor_number buff of
                None \<Rightarrow> None
              | Some Nmot \<Rightarrow>
                  if Nmot < 0 \<or> Nmot > 2 then Some 0
                  else
                    (let n = nat Nmot; valI = atoi val in
                     if CMP TEACMD_POSITION buff then Some (if in_range t n valI then 1 else - 1)
                     else if CMP TEACMD_RELPOSITION buff \<or> CMP TEACMD_SLOWMOVE buff then
                       (if \<not> int_ok (valI + pos t ! n) then None
                        else Some (if in_range t n (valI + pos t ! n) then 1 else - 1))
                     else if CMP TEACMD_SETPOS buff then Some (- 1)
                     else Some 0))))"

section \<open>Answers of the device\<close>

datatype card = Coord string int | Stat string string

abbreviation STP_RELAX :: int where "STP_RELAX \<equiv> 0"

definition states :: "string list" where
  "states = [''stop'', ''acceleration'', ''fast moving'', ''slow moving'', ''deceleration'', ''stall'', ''error'']"

definition state_name :: "int \<Rightarrow> string option" where
  "state_name st = (if 0 \<le> st \<and> st < int (length states) then Some (states ! nat st) else None)"

text \<open>The cards of the FITS header; a status outside of the table of names is read outside of the array.\<close>

definition header :: "tea \<Rightarrow> card list option" where
  "header t =
     (case (state_name (status t ! 0), state_name (status t ! 1), state_name (status t ! 2)) of
        (Some a, Some b, Some c) \<Rightarrow>
          Some ([Stat ''INSTRUME'' ''TeA - Telescope Analyzer''] @
                [Coord ''XMM'' (pos t ! 0), Coord ''YMM'' (pos t ! 1), Coord ''ZMM'' (pos t ! 2)] @
                [Stat ''XSTAT'' a, Stat ''YSTAT'' b, Stat ''ZSTAT'' c])
      | _ \<Rightarrow> None)"

definition store :: "int list \<Rightarrow> nat \<Rightarrow> int \<Rightarrow> int list option" where
  "store xs i v = (if i < length xs then Some (xs[i := v]) else None)"

definition moving :: "tea \<Rightarrow> bool" where
  "moving t \<longleftrightarrow> status t ! 0 \<noteq> STP_RELAX \<or> status t ! 1 \<noteq> STP_RELAX \<or> status t ! 2 \<noteq> STP_RELAX"

text \<open>
  \<open>parse_incoming_string\<close> with a header file: the state, the header when a new one is written, and whether a
  motor is not at rest. \<open>temp\<close> tells whether \<open>mkstemp\<close> succeeds.
\<close>

definition strip_nl :: "string \<Rightarrow> string" where
  "strip_nl s = (if s \<noteq> [] \<and> last s = NL then butlast s else s)"

definition parse_incoming_string :: "bool \<Rightarrow> bool \<Rightarrow> string \<Rightarrow> tea \<Rightarrow> (tea \<times> card list option \<times> bool) option" where
  "parse_incoming_string hdr temp str t =
     (let keep = Some (t, None, moving t) in
      if str = [] \<or> \<not> hdr then keep
      else
        (case get_keyval (strip_nl str) of
           (buff, None) \<Rightarrow> keep
         | (buff, Some val) \<Rightarrow>
             (case motor_number buff of
                None \<Rightarrow> None
              | Some Nmot \<Rightarrow>
                  if Nmot < 0 \<or> Nmot > 3 then keep
                  else
                    (let valI = atoi val;
                         t1 = (if CMP TEACMD_POSITION buff then map_option (\<lambda>p. Some (t\<lparr>pos := p\<rparr>)) (store (pos t) (nat Nmot) valI)
                               else if CMP TEACMD_STATUS buff then map_option (\<lambda>p. Some (t\<lparr>status := p\<rparr>)) (store (status t) (nat Nmot) valI)
                               else Some None)
                     in case t1 of
                          None \<Rightarrow> None
                        | Some None \<Rightarrow> keep
                        | Some (Some t2) \<Rightarrow>
                            if \<not> temp then Some (t2, None, moving t2)
                            else (case header t2 of None \<Rightarrow> None | Some h \<Rightarrow> Some (t2, Some h, moving t2))))))"

section \<open>The client\<close>

text \<open>What a look at the socket gives: nothing yet, an error of \<open>select\<close>, the end of the connection, or a text (of 255 bytes at most).\<close>

datatype event = NoData | ReadErr | Closed | Got string

record client_sock =
  inp :: "event list"
  sent :: "string list"

definition next_event :: "client_sock \<Rightarrow> event \<times> client_sock" where
  "next_event c = (case inp c of [] \<Rightarrow> (NoData, c) | e # es \<Rightarrow> (e, c\<lparr>inp := es\<rparr>))"

text \<open>\<open>clearbuf\<close> drops what is there.\<close>

fun drop_got :: "event list \<Rightarrow> event list" where
  "drop_got (Got s # es) = drop_got es"
| "drop_got (NoData # es) = es"
| "drop_got (ReadErr # es) = es"
| "drop_got (Closed # es) = es"
| "drop_got [] = []"

definition clearbuf :: "client_sock \<Rightarrow> client_sock" where
  "clearbuf c = c\<lparr>inp := drop_got (inp c)\<rparr>"

text \<open>\<open>send\<close>; \<open>up\<close> tells for the texts sent so far and the new one whether all of it goes out.\<close>

definition send :: "(string list \<Rightarrow> bool) \<Rightarrow> string \<Rightarrow> client_sock \<Rightarrow> client_sock \<times> bool" where
  "send up s c = (if up (sent c @ [s]) then (c\<lparr>sent := sent c @ [s]\<rparr>, True) else (c, False))"

definition cmd_n :: "string \<Rightarrow> nat \<Rightarrow> string" where
  "cmd_n cmd n = cmd @ fmt_u n"

text \<open>The value behind an answer for motor \<open>n\<close>, as both loops look for it.\<close>

definition answer :: "string \<Rightarrow> nat \<Rightarrow> string \<Rightarrow> string option option" where
  "answer cmd n buf =
     (case get_keyval buf of
        (key, None) \<Rightarrow> Some None
      | (key, Some val) \<Rightarrow>
          if CMP cmd key then (case motor_number key of None \<Rightarrow> None | Some m \<Rightarrow> Some (if m = int n then Some val else None))
          else Some None)"

text \<open>The loop of \<open>movecmd\<close>, \<open>turns\<close> looks in a quarter of a second: asking (\<open>None\<close>) or moving with the echo \<open>cmd\<close>.\<close>

fun move_loop :: "nat \<Rightarrow> nat \<Rightarrow> string option \<Rightarrow> client_sock \<Rightarrow> (client_sock \<times> bool) option" where
  "move_loop 0 n cmd c = Some (c, False)"
| "move_loop (Suc turns) n cmd c =
     (case next_event c of
        (NoData, c1) \<Rightarrow> move_loop turns n cmd c1
      | (ReadErr, c1) \<Rightarrow> Some (c1, False)
      | (Closed, c1) \<Rightarrow> Some (c1, False)
      | (Got s, c1) \<Rightarrow>
          (let buf2 = strip_nl s in
           case cmd of
             None \<Rightarrow>
               (case answer TEACMD_POSITION n buf2 of
                  None \<Rightarrow> None
                | Some None \<Rightarrow> move_loop turns n cmd c1
                | Some (Some v) \<Rightarrow> Some (c1, True))
           | Some buf1 \<Rightarrow> if buf1 = buf2 then Some (c1, True) else move_loop turns n cmd c1))"

definition movecmd :: "(string list \<Rightarrow> bool) \<Rightarrow> nat \<Rightarrow> nat \<Rightarrow> int option \<Rightarrow> client_sock \<Rightarrow> (client_sock \<times> bool) option" where
  "movecmd up turns n val c =
     (if n > 2 then Some (c, False)
      else
        (let buf1 = cmd_n TEACMD_POSITION n @ (case val of None \<Rightarrow> [] | Some v \<Rightarrow> CHR ''='' # fmt_d v) in
         case send up (buf1 @ [NL]) (clearbuf c) of
           (c1, False) \<Rightarrow> Some (c1, False)
         | (c1, True) \<Rightarrow> move_loop turns n (map_option (\<lambda>v. buf1) val) c1))"

fun poll_loop :: "nat \<Rightarrow> nat \<Rightarrow> client_sock \<Rightarrow> (client_sock \<times> int) option" where
  "poll_loop 0 n c = Some (c, - 1)"
| "poll_loop (Suc turns) n c =
     (case next_event c of
        (NoData, c1) \<Rightarrow> poll_loop turns n c1
      | (ReadErr, c1) \<Rightarrow> Some (c1, - 1)
      | (Closed, c1) \<Rightarrow> Some (c1, - 1)
      | (Got s, c1) \<Rightarrow>
          (case answer TEACMD_STATUS n s of
             None \<Rightarrow> None
           | Some None \<Rightarrow> poll_loop turns n c1
           | Some (Some v) \<Rightarrow> Some (c1, atoi v)))"

definition pollcmd :: "(string list \<Rightarrow> bool) \<Rightarrow> nat \<Rightarrow> nat \<Rightarrow> client_sock \<Rightarrow> (client_sock \<times> int) option" where
  "pollcmd up turns n c =
     (if n > 2 then Some (c, - 1)
      else
        (case send up (cmd_n TEACMD_STATUS n @ [NL]) (clearbuf c) of
           (c1, False) \<Rightarrow> Some (c1, - 1)
         | (c1, True) \<Rightarrow> poll_loop turns n c1))"

text \<open>A turn of \<open>waitmoving\<close>: \<open>None\<close> in the middle is the end of the program with \<open>Server disconnected\<close>.\<close>

record wait_flags =
  stop :: bool
  stall :: bool
  werror :: bool

definition note_state :: "int \<Rightarrow> wait_flags \<Rightarrow> wait_flags" where
  "note_state st f =
     (if st = 0 then f
      else if st \<in> {1, 2, 3, 4} then f\<lparr>stop := False\<rparr>
      else if st = 5 then f\<lparr>stall := True\<rparr>
      else f\<lparr>werror := True\<rparr>)"

fun wait_turn :: "(string list \<Rightarrow> bool) \<Rightarrow> nat \<Rightarrow> nat list \<Rightarrow> wait_flags \<Rightarrow> client_sock \<Rightarrow> (client_sock \<times> wait_flags option) option" where
  "wait_turn up turns [] f c = Some (c, Some f)"
| "wait_turn up turns (i # is) f c =
     (case pollcmd up turns i c of
        None \<Rightarrow> None
      | Some (c1, st) \<Rightarrow> if st < 0 then Some (c1, None) else wait_turn up turns is (note_state st f) c1)"

datatype tea_exit = Returned int | Disconnected

definition wait_result :: "wait_flags \<Rightarrow> int" where
  "wait_result f = (if werror f then 3 else if stall f then 2 else 0)"

partial_function (option) wait_loop :: "(string list \<Rightarrow> bool) \<Rightarrow> nat \<Rightarrow> wait_flags \<Rightarrow> client_sock \<Rightarrow> (client_sock \<times> tea_exit) option" where
  "wait_loop up turns f c =
     (case wait_turn up turns [0, 1, 2] (f\<lparr>stop := True\<rparr>) c of
        None \<Rightarrow> None
      | Some (c1, None) \<Rightarrow> Some (c1, Disconnected)
      | Some (c1, Some f1) \<Rightarrow> if stop f1 then Some (c1, Returned (wait_result f1)) else wait_loop up turns f1 c1)"

definition waitmoving :: "(string list \<Rightarrow> bool) \<Rightarrow> nat \<Rightarrow> client_sock \<Rightarrow> (client_sock \<times> tea_exit) option" where
  "waitmoving up turns c = wait_loop up turns \<lparr>stop = True, stall = False, werror = False\<rparr> c"

definition gotozcmd :: "(string list \<Rightarrow> bool) \<Rightarrow> nat \<Rightarrow> client_sock \<Rightarrow> client_sock \<times> bool" where
  "gotozcmd up n c = send up (cmd_n TEACMD_GOTOZERO n @ [NL]) (clearbuf c)"

text \<open>
  The loop over the three motors with its five tries: it counts the motor up instead of the tries, so
  \<open>ntries\<close> stays 0. The motor number is taken not to overflow.
\<close>

partial_function (option) try_loop :: "(string list \<Rightarrow> bool) \<Rightarrow> nat \<Rightarrow> client_sock \<Rightarrow> (client_sock \<times> nat) option" where
  "try_loop up i c =
     (case gotozcmd up i c of
        (c1, ok) \<Rightarrow> if ok then Some (c1, i) else try_loop up (i + 1) c1)"

partial_function (option) zero_loop :: "(string list \<Rightarrow> bool) \<Rightarrow> nat \<Rightarrow> client_sock \<Rightarrow> client_sock option" where
  "zero_loop up i c =
     (if i < 3 then (case try_loop up i c of None \<Rightarrow> None | Some (c1, j) \<Rightarrow> zero_loop up (j + 1) c1) else Some c)"

record tea_pars =
  par_x :: "int option"
  par_y :: "int option"
  par_z :: "int option"
  gotozero :: bool
  wait_end :: bool

text \<open>A motion of one axis, if asked for: the flags \<open>wouldmove\<close> and \<open>ret\<close>.\<close>

definition move_axis :: "(string list \<Rightarrow> bool) \<Rightarrow> nat \<Rightarrow> nat \<Rightarrow> int option \<Rightarrow> client_sock \<times> bool \<times> int \<Rightarrow> (client_sock \<times> bool \<times> int) option" where
  "move_axis up turns n val st =
     (case st of (c, wouldmove, ret) \<Rightarrow>
        (case val of
           None \<Rightarrow> Some (c, wouldmove, ret)
         | Some v \<Rightarrow>
             (case movecmd up turns n (Some v) c of
                None \<Rightarrow> None
              | Some (c1, ok) \<Rightarrow> Some (c1, if ok then True else wouldmove, if ok then ret else 1))))"

text \<open>\<open>waitmoving\<close> and its result added to \<open>ret\<close>; nothing is done after the program has ended.\<close>

definition add_wait :: "(string list \<Rightarrow> bool) \<Rightarrow> nat \<Rightarrow> bool \<Rightarrow> client_sock \<times> tea_exit \<Rightarrow> (client_sock \<times> tea_exit) option" where
  "add_wait up turns yes st =
     (case st of
        (c, Disconnected) \<Rightarrow> Some (c, Disconnected)
      | (c, Returned ret) \<Rightarrow>
          if \<not> yes then Some (c, Returned ret)
          else
            (case waitmoving up turns c of
               None \<Rightarrow> None
             | Some (c1, Returned r) \<Rightarrow> Some (c1, Returned (ret + r))
             | Some (c1, Disconnected) \<Rightarrow> Some (c1, Disconnected)))"

definition go_zero :: "(string list \<Rightarrow> bool) \<Rightarrow> bool \<Rightarrow> client_sock \<times> tea_exit \<Rightarrow> (client_sock \<times> tea_exit) option" where
  "go_zero up yes st =
     (case st of
        (c, Returned ret) \<Rightarrow> if yes then map_option (\<lambda>c1. (c1, Returned ret)) (zero_loop up 0 c) else Some st
      | _ \<Rightarrow> Some st)"

definition ask_axis :: "(string list \<Rightarrow> bool) \<Rightarrow> nat \<Rightarrow> nat \<Rightarrow> client_sock \<times> tea_exit \<Rightarrow> (client_sock \<times> tea_exit) option" where
  "ask_axis up turns n st =
     (case st of
        (c, Returned ret) \<Rightarrow> map_option (\<lambda>(c1, ok). (c1, Returned ret)) (movecmd up turns n None c)
      | _ \<Rightarrow> Some st)"

definition client_proc :: "(string list \<Rightarrow> bool) \<Rightarrow> nat \<Rightarrow> tea_pars \<Rightarrow> client_sock \<Rightarrow> (client_sock \<times> tea_exit) option" where
  "client_proc up turns P c =
     Option.bind (move_axis up turns 0 (par_x P) (c, False, 0)) (\<lambda>s1.
     Option.bind (move_axis up turns 1 (par_y P) s1) (\<lambda>s2.
     Option.bind (move_axis up turns 2 (par_z P) s2) (\<lambda>(c3, wouldmove, ret).
     Option.bind (add_wait up turns (gotozero P \<and> wouldmove) (c3, Returned ret)) (\<lambda>s4.
     Option.bind (go_zero up (gotozero P) s4) (\<lambda>s5.
     Option.bind (add_wait up turns (wait_end P) s5) (\<lambda>s6.
     Option.bind (ask_axis up turns 0 s6) (\<lambda>s7.
     Option.bind (ask_axis up turns 1 s7) (\<lambda>s8. ask_axis up turns 2 s8))))))))"

section \<open>Text of commands\<close>

text \<open>A command with a value: blanks are allowed around the equality sign and behind the number.\<close>

definition set_text :: "string \<Rightarrow> nat \<Rightarrow> string \<Rightarrow> string \<Rightarrow> int \<Rightarrow> string \<Rightarrow> string" where
  "set_text cmd n sp1 sp2 v rest = cmd_n cmd n @ sp1 @ CHR ''='' # sp2 @ fmt_d v @ rest"

definition blank :: "string \<Rightarrow> bool" where
  "blank s \<longleftrightarrow> list_all isspace s"

lemma rstrip_blank: "blank sp \<Longrightarrow> \<not> isspace (last s) \<Longrightarrow> s \<noteq> [] \<Longrightarrow> rstrip (s @ sp) = s"
proof -
  assume a: "blank sp" "\<not> isspace (last s)" "s \<noteq> []"
  have "dropWhile isspace (rev sp @ rev s) = dropWhile isspace (rev s)"
    using a(1) by (intro dropWhile_append2) (auto simp: blank_def list_all_iff)
  also have "\<dots> = rev s" using a(2,3) by (cases s rule: rev_cases) auto
  finally show ?thesis by (simp add: rstrip_def)
qed

lemma get_keyval_set:
  assumes "blank sp1" "blank sp2" "n < 10" "CHR ''='' \<notin> set cmd" "cmd \<noteq> []" "\<not> isspace (hd cmd)"
  shows "get_keyval (set_text cmd n sp1 sp2 v rest) = (cmd_n cmd n, Some (fmt_d v @ rest))"
proof -
  let ?k = "cmd_n cmd n @ sp1"
  have d: "decdigit (char_of (48 + n)) \<noteq> None" using assms(3) decdigit_char_of [of n] by simp
  have e: "char_of (48 + n) \<noteq> CHR ''=''" using d isspace_minus(4) by metis
  have f: "\<not> isspace (char_of (48 + n))" using d by (rule isspace_digit)
  have q: "\<not> isspace CHR ''=''" by code_simp
  have "CHR ''='' \<notin> set sp1" using assms(1) q by (auto simp: blank_def list_all_iff)
  then have "CHR ''='' \<notin> set ?k" using assms(4) e by (simp add: cmd_n_def fmt_u_digit [OF assms(3)])
  then have s: "split_at CHR ''='' (set_text cmd n sp1 sp2 v rest) = Some (?k, sp2 @ fmt_d v @ rest)"
    by (subst split_at_Some) (simp add: set_text_def)
  have l: "takeWhile isspace (set_text cmd n sp1 sp2 v rest) = []" "dropWhile isspace (set_text cmd n sp1 sp2 v rest) = set_text cmd n sp1 sp2 v rest"
    using assms(5,6) by (cases cmd; simp add: set_text_def cmd_n_def)+
  have r: "rstrip ?k = cmd_n cmd n" by (rule rstrip_blank) (use assms(1) f fmt_u_digit [OF assms(3)] in \<open>simp_all add: cmd_n_def\<close>)
  have "dropWhile isspace (sp2 @ fmt_d v @ rest) = fmt_d v @ rest"
  proof -
    obtain c s where "fmt_d v = c # s" "\<not> isspace c" using fmt_d_head by blast
    then show ?thesis using assms(2) by (subst dropWhile_append2) (auto simp: blank_def list_all_iff)
  qed
  then show ?thesis using s l r by (simp add: get_keyval_def)
qed

lemma motor_number_cmd: "n < 10 \<Longrightarrow> motor_number (cmd_n cmd n) = Some (int n)"
  by (simp add: motor_number_def cmd_n_def fmt_u_digit schar_char_of)

lemma CMP_cmd: "CMP cmd (cmd @ s)"
  by (simp add: CMP_def)

lemma CMP_commands:
  assumes "n < 10" "c \<in> {TEACMD_POSITION, TEACMD_RELPOSITION, TEACMD_SLOWMOVE, TEACMD_SETPOS, TEACMD_STATUS}"
    "cmd \<in> {TEACMD_POSITION, TEACMD_RELPOSITION, TEACMD_SLOWMOVE, TEACMD_SETPOS, TEACMD_STATUS}"
  shows "CMP c (cmd_n cmd n) \<longleftrightarrow> c = cmd"
  using assms(2,3) by (elim insertE emptyE) (simp_all add: CMP_def cmd_n_def fmt_u_digit [OF assms(1)])

section \<open>The validator\<close>

abbreviation setters :: "string set" where
  "setters \<equiv> {TEACMD_POSITION, TEACMD_RELPOSITION, TEACMD_SLOWMOVE, TEACMD_SETPOS}"

lemma setters_head: "cmd \<in> setters \<Longrightarrow> cmd \<noteq> [] \<and> CHR ''='' \<notin> set cmd \<and> \<not> isspace (hd cmd)"
proof -
  have "\<not> isspace CHR ''a''" "\<not> isspace CHR ''r''" "\<not> isspace CHR ''s''" by code_simp+
  then show "cmd \<in> setters \<Longrightarrow> cmd \<noteq> [] \<and> CHR ''='' \<notin> set cmd \<and> \<not> isspace (hd cmd)" by (elim insertE emptyE) simp_all
qed

lemma validate_cmd_value:
  assumes "length str \<le> 255" "get_keyval str = (buff, Some val)" "motor_number buff = Some (int n)" "n < 3" "atoi val = v"
  shows "validate_cmd t str =
      (if CMP TEACMD_POSITION buff then Some (if in_range t n v then 1 else - 1)
       else if CMP TEACMD_RELPOSITION buff \<or> CMP TEACMD_SLOWMOVE buff then
         (if \<not> int_ok (v + pos t ! n) then None else Some (if in_range t n (v + pos t ! n) then 1 else - 1))
       else if CMP TEACMD_SETPOS buff then Some (- 1) else Some 0)"
  using assms by (simp add: validate_cmd_def Let_def)

text \<open>
  The validator lets a command that moves a motor pass exactly when the target is inside the limits of that motor (the given position, or the sum of a relative one and the last position known), whatever blanks surround the equals sign and whatever follows the number; the command that overwrites a position is always refused.
\<close>

theorem validate_set:
  assumes "blank sp1" "blank sp2" "n < 3" "int_ok v" "rest = [] \<or> decdigit (hd rest) = None"
    and len: "length (set_text cmd n sp1 sp2 v rest) \<le> 255" and cmd: "cmd \<in> setters"
  shows "validate_cmd t (set_text cmd n sp1 sp2 v rest) =
    (if cmd = TEACMD_POSITION then Some (if in_range t n v then 1 else - 1)
     else if cmd = TEACMD_SETPOS then Some (- 1)
     else if \<not> int_ok (v + pos t ! n) then None
     else Some (if in_range t n (v + pos t ! n) then 1 else - 1))"
proof -
  have n: "n < 10" using assms(3) by simp
  have k: "get_keyval (set_text cmd n sp1 sp2 v rest) = (cmd_n cmd n, Some (fmt_d v @ rest))"
    by (rule get_keyval_set) (use assms(1,2) n setters_head [OF cmd] in simp_all)
  note v = validate_cmd_value [OF len k motor_number_cmd [OF n] assms(3) atoi_fmt_d [OF assms(4,5)], of t]
  have m: "c \<in> setters \<Longrightarrow> c \<in> insert x (insert y (insert z (insert u {TEACMD_STATUS})))"
    if "setters = {x, y, z, u}" for c x y z u using that by blast
  have c: "CMP c (cmd_n cmd n) \<longleftrightarrow> cmd = c" if "c \<in> setters" for c
    using CMP_commands [OF n m [OF refl that] m [OF refl cmd]] by (simp only: eq_commute)
  have d: "CMP TEACMD_POSITION (cmd_n cmd n) \<longleftrightarrow> cmd = TEACMD_POSITION" "CMP TEACMD_RELPOSITION (cmd_n cmd n) \<longleftrightarrow> cmd = TEACMD_RELPOSITION"
    "CMP TEACMD_SLOWMOVE (cmd_n cmd n) \<longleftrightarrow> cmd = TEACMD_SLOWMOVE" "CMP TEACMD_SETPOS (cmd_n cmd n) \<longleftrightarrow> cmd = TEACMD_SETPOS"
    by (rule c, simp)+
  show ?thesis using cmd unfolding v d by (elim insertE emptyE) (simp_all only:, simp_all)
qed

lemma get_keyval_lead:
  assumes "blank sp" "s \<noteq> []" "\<not> isspace (hd s)"
  shows "get_keyval (sp @ s) = (case get_keyval s of (k, v) \<Rightarrow> (sp @ k, v))"
proof -
  have "takeWhile isspace (sp @ s) = sp @ takeWhile isspace s" "dropWhile isspace (sp @ s) = dropWhile isspace s"
    using assms(1) by (simp_all add: blank_def list_all_iff)
  moreover have "takeWhile isspace s = []" using assms(2,3) by (cases s) auto
  ultimately show ?thesis by (simp add: get_keyval_def Let_def split: option.splits)
qed

text \<open>
  A blank in front of any of these commands makes the validator let it pass unchecked, out of range targets and the refused command included.
\<close>

theorem validate_blank_bypass:
  assumes "blank sp" "sp \<noteq> []" "blank sp1" "blank sp2" "n < 3" "cmd \<in> setters"
    and "length (sp @ set_text cmd n sp1 sp2 v rest) \<le> 255"
  shows "validate_cmd t (sp @ set_text cmd n sp1 sp2 v rest) = Some 0"
proof -
  have n: "n < 10" using assms(5) by simp
  note h = setters_head [OF assms(6)]
  have k: "get_keyval (set_text cmd n sp1 sp2 v rest) = (cmd_n cmd n, Some (fmt_d v @ rest))"
    by (rule get_keyval_set) (use assms(3,4) n h in simp_all)
  have "get_keyval (sp @ set_text cmd n sp1 sp2 v rest) = (sp @ cmd_n cmd n, Some (fmt_d v @ rest))"
    using get_keyval_lead [OF assms(1), of "set_text cmd n sp1 sp2 v rest"] h k by (cases cmd) (simp_all add: set_text_def cmd_n_def)
  moreover have "motor_number (sp @ cmd_n cmd n) = Some (int n)"
    using motor_number_cmd [OF n, of cmd] h by (simp add: motor_number_def cmd_n_def split: if_splits)
  moreover have "\<not> CMP c (sp @ cmd_n cmd n)" if "c \<in> setters" for c
  proof -
    obtain x xs where "sp = x # xs" "isspace x" using assms(1,2) by (cases sp) (auto simp: blank_def)
    then show ?thesis using setters_head [OF that] by (cases c) (auto simp: CMP_def)
  qed
  ultimately show ?thesis using assms(5,7) by (simp add: validate_cmd_def)
qed

section \<open>Answers\<close>

definition tea_ok :: "tea \<Rightarrow> bool" where
  "tea_ok t \<longleftrightarrow> length (min_steps t) = 3 \<and> length (max_steps t) = 3 \<and> length (pos t) = 3 \<and> length (status t) = 3"

definition state_ok :: "int \<Rightarrow> bool" where
  "state_ok st \<longleftrightarrow> 0 \<le> st \<and> st \<le> 6"

lemma state_name_ok: "state_name st \<noteq> None \<longleftrightarrow> state_ok st"
  by (auto simp: state_name_def state_ok_def states_def)

lemma header_ok: "header t \<noteq> None \<longleftrightarrow> state_ok (status t ! 0) \<and> state_ok (status t ! 1) \<and> state_ok (status t ! 2)"
  using state_name_ok [of "status t ! 0"] state_name_ok [of "status t ! 1"] state_name_ok [of "status t ! 2"]
  by (auto simp: header_def split: option.splits)

lemma strip_nl_set: "strip_nl (set_text cmd n sp1 sp2 v [NL]) = set_text cmd n sp1 sp2 v []"
  by (simp add: strip_nl_def set_text_def butlast_append)

lemma get_keyval_answer:
  assumes "n < 10" "cmd \<in> {TEACMD_POSITION, TEACMD_STATUS}" "int_ok v"
  shows "get_keyval (set_text cmd n [] [] v []) = (cmd_n cmd n, Some (fmt_d v))" "atoi (fmt_d v) = v"
proof -
  have "\<not> isspace CHR ''a''" "\<not> isspace CHR ''s''" by code_simp+
  then show "get_keyval (set_text cmd n [] [] v []) = (cmd_n cmd n, Some (fmt_d v))"
    using get_keyval_set [of "[]" "[]" n cmd v "[]"] assms(1,2) by (auto simp: blank_def)
  show "atoi (fmt_d v) = v" using atoi_fmt_d [OF assms(3), of "[]"] by simp
qed

lemma CMP_answer:
  assumes "n < 10"
  shows "CMP TEACMD_POSITION (cmd_n TEACMD_POSITION n)" "\<not> CMP TEACMD_POSITION (cmd_n TEACMD_STATUS n)" "CMP TEACMD_STATUS (cmd_n TEACMD_STATUS n)"
  by (simp_all add: CMP_def cmd_n_def)

text \<open>
  A position of one of the motors 0 to 2 is stored and a header with it is written, unless a stored state has no name; a position of motor 3 passes the check of the number and is stored outside of the array.
\<close>

theorem parse_position:
  assumes "tea_ok t" "n \<le> 3" "int_ok v"
  shows "parse_incoming_string True True (set_text TEACMD_POSITION n [] [] v [NL]) t =
    (if n = 3 \<or> header t = None then None
     else (let t' = t\<lparr>pos := (pos t)[n := v]\<rparr> in Some (t', header t', moving t)))"
proof -
  have n: "n < 10" using assms(2) by simp
  have e: "set_text TEACMD_POSITION n [] [] v [NL] \<noteq> []" by (simp add: set_text_def)
  have h: "header (t\<lparr>pos := p\<rparr>) = None \<longleftrightarrow> header t = None" for p using header_ok [of t] header_ok [of "t\<lparr>pos := p\<rparr>"] by auto
  show ?thesis using assms n e h get_keyval_answer [OF n _ assms(3), of TEACMD_POSITION] CMP_answer [OF n] motor_number_cmd [OF n]
    by (cases "header (t\<lparr>pos := (pos t)[n := v]\<rparr>)"; cases "header t")
      (auto simp: parse_incoming_string_def strip_nl_set store_def tea_ok_def moving_def Let_def)
qed

text \<open>
  A state of one of the motors 0 to 2 is stored and tells whether a motor moves; a state without a name is looked up outside of the table of names, and motor 3 is stored outside of the array.
\<close>

theorem parse_status:
  assumes "tea_ok t" "header t \<noteq> None" "n \<le> 3" "int_ok v"
  shows "parse_incoming_string True True (set_text TEACMD_STATUS n [] [] v [NL]) t =
    (if n = 3 \<or> \<not> state_ok v then None
     else (let t' = t\<lparr>status := (status t)[n := v]\<rparr> in Some (t', header t', moving t')))"
proof -
  have n: "n < 10" using assms(3) by simp
  have e: "set_text TEACMD_STATUS n [] [] v [NL] \<noteq> []" by (simp add: set_text_def)
  have h: "header (t\<lparr>status := (status t)[n := v]\<rparr>) = None \<longleftrightarrow> \<not> state_ok v" if "n < 3"
  proof -
    have "n \<in> {0, 1, 2}" using that by auto
    then show ?thesis using assms(1,2) header_ok [of t] header_ok [of "t\<lparr>status := (status t)[n := v]\<rparr>"] by (auto simp: tea_ok_def)
  qed
  show ?thesis using assms n e h get_keyval_answer [OF n _ assms(4), of TEACMD_STATUS] CMP_answer [OF n] motor_number_cmd [OF n]
    by (auto simp: parse_incoming_string_def strip_nl_set store_def tea_ok_def Let_def split: option.splits)
qed

section \<open>The client\<close>

text \<open>A socket that nothing can be sent to: the loop over the tries does not end.\<close>

lemma try_loop_dead: "try_loop (\<lambda>x. False) i c = None"
proof -
  have "up \<noteq> (\<lambda>x. False)" if "try_loop up i c = Some y" for up i c y
    by (rule try_loop.raw_induct [OF _ that]) (auto simp: gotozcmd_def send_def split: if_splits prod.splits)
  then show ?thesis by (metis not_None_eq)
qed

lemma movecmd_dead: "n \<le> 2 \<Longrightarrow> movecmd (\<lambda>x. False) turns n val c = Some (clearbuf c, False)"
  by (simp add: movecmd_def send_def Let_def)

lemma move_axis_dead:
  assumes "n \<le> 2"
  shows "\<exists>c' r'. move_axis (\<lambda>x. False) turns n val (c, False, r) = Some (c', False, r')"
  using movecmd_dead [OF assms] by (cases val) (simp_all add: move_axis_def)

text \<open>
  Once nothing can be sent to the server, the client that is to go to zero never returns.
\<close>

theorem client_proc_dead:
  assumes "gotozero P"
  shows "client_proc (\<lambda>x. False) turns P c = None"
proof -
  obtain c1 r1 where 1: "move_axis (\<lambda>x. False) turns 0 (par_x P) (c, False, 0) = Some (c1, False, r1)"
    using move_axis_dead by blast
  obtain c2 r2 where 2: "move_axis (\<lambda>x. False) turns 1 (par_y P) (c1, False, r1) = Some (c2, False, r2)"
    using move_axis_dead [of 1] by fastforce
  obtain c3 r3 where 3: "move_axis (\<lambda>x. False) turns 2 (par_z P) (c2, False, r2) = Some (c3, False, r3)"
    using move_axis_dead [of 2] by fastforce
  have "zero_loop (\<lambda>x. False) 0 c3 = None" by (subst zero_loop.simps) (simp add: try_loop_dead)
  then show ?thesis using assms 1 2 3 by (simp add: client_proc_def add_wait_def go_zero_def)
qed

text \<open>A single failure is counted as the motor done.\<close>

text \<open>
  When sending the zero command to one motor fails, that motor is skipped and not tried again, and the last motor is replaced by a motor 3 that does not exist.
\<close>

theorem zero_loop_skips:
  assumes "k < 3" and up: "up = (\<lambda>xs. last xs \<noteq> cmd_n TEACMD_GOTOZERO k @ [NL])"
  shows "\<exists>c'. zero_loop up 0 c = Some c' \<and>
    sent c' = sent c @ map (\<lambda>i. cmd_n TEACMD_GOTOZERO i @ [NL]) (filter (\<lambda>i. i \<noteq> k) (if k = 2 then [0, 1, 3] else [0, 1, 2]))"
proof -
  have g: "gotozcmd up i c = (if i = k then (clearbuf c, False) else ((clearbuf c)\<lparr>sent := sent c @ [cmd_n TEACMD_GOTOZERO i @ [NL]]\<rparr>, True))"
    if "i < 4" for i c
  proof -
    have "fmt_u i = fmt_u k \<longleftrightarrow> i = k" using that assms(1) fmt_u_value by metis
    then show ?thesis by (auto simp: gotozcmd_def send_def up cmd_n_def clearbuf_def)
  qed
  have "k = 0 \<or> k = 1 \<or> k = 2" using assms(1) by auto
  then show ?thesis
    by (elim disjE; simp add: zero_loop.simps [of up] try_loop.simps [of up] g clearbuf_def numeral_2_eq_2 numeral_3_eq_3)
qed

text \<open>Waiting on a device that answers each question about a state.\<close>

definition poll_script :: "nat \<Rightarrow> int \<Rightarrow> event list" where
  "poll_script n st = [NoData, Got (set_text TEACMD_STATUS n [] [] st [NL])]"

definition round_script :: "int \<times> int \<times> int \<Rightarrow> event list" where
  "round_script r = (case r of (a, b, c) \<Rightarrow> poll_script 0 a @ poll_script 1 b @ poll_script 2 c)"

fun states_of :: "int \<times> int \<times> int \<Rightarrow> int list" where
  "states_of (a, b, c) = [a, b, c]"

definition resting :: "int \<times> int \<times> int \<Rightarrow> bool" where
  "resting r \<longleftrightarrow> (\<forall>st \<in> set (states_of r). st \<notin> {1, 2, 3, 4})"

definition round_ok :: "int \<times> int \<times> int \<Rightarrow> bool" where
  "round_ok r \<longleftrightarrow> (\<forall>st \<in> set (states_of r). 0 \<le> st \<and> int_ok st)"

lemma pollcmd_answer:
  assumes "n < 3" "int_ok st" "inp c = poll_script n st @ es"
  shows "pollcmd (\<lambda>x. True) (Suc k) n c = Some (c\<lparr>inp := es, sent := sent c @ [cmd_n TEACMD_STATUS n @ [NL]]\<rparr>, st)"
proof -
  have n: "n < 10" using assms(1) by simp
  have s: "\<not> isspace CHR ''s''" by code_simp
  have "decdigit NL = None" by code_simp
  then have a: "atoi (fmt_d st @ [NL]) = st" using atoi_fmt_d [OF assms(2), of "[NL]"] by simp
  have "get_keyval (set_text TEACMD_STATUS n [] [] st [NL]) = (cmd_n TEACMD_STATUS n, Some (fmt_d st @ [NL]))"
    by (rule get_keyval_set) (use n s in \<open>simp_all add: blank_def\<close>)
  then have "answer TEACMD_STATUS n (set_text TEACMD_STATUS n [] [] st [NL]) = Some (Some (fmt_d st @ [NL]))"
    using motor_number_cmd [OF n] CMP_answer(3) [OF n] by (simp add: answer_def)
  then show ?thesis using assms(1,3) a by (simp add: pollcmd_def send_def clearbuf_def poll_script_def next_event_def)
qed

lemma wait_turn_round:
  assumes "round_ok r" "inp c = round_script r @ es"
  shows "\<exists>c'. wait_turn (\<lambda>x. True) (Suc k) [0, 1, 2] f c =
    Some (c', Some (foldl (\<lambda>f st. note_state st f) f (states_of r))) \<and> inp c' = es"
proof -
  obtain x y z where r: "r = (x, y, z)" by (cases r)
  have ok: "int_ok x" "int_ok y" "int_ok z" "\<not> x < 0" "\<not> y < 0" "\<not> z < 0" using assms by (auto simp: round_ok_def r)
  have i: "inp c = poll_script 0 x @ poll_script 1 y @ poll_script 2 z @ es" using assms(2) by (simp add: r round_script_def)
  show ?thesis using ok(4-6) i
    by (simp add: r pollcmd_answer [OF _ ok(1)] pollcmd_answer [OF _ ok(2)] pollcmd_answer [OF _ ok(3)])
qed

lemma note_states:
  "stop (foldl (\<lambda>f st. note_state st f) f sts) \<longleftrightarrow> stop f \<and> (\<forall>st \<in> set sts. st \<notin> {1, 2, 3, 4})"
  "stall (foldl (\<lambda>f st. note_state st f) f sts) \<longleftrightarrow> stall f \<or> 5 \<in> set sts"
  "werror (foldl (\<lambda>f st. note_state st f) f sts) \<longleftrightarrow> werror f \<or> (\<exists>st \<in> set sts. st \<notin> {0, 1, 2, 3, 4, 5})"
  by (induction sts arbitrary: f) (auto simp: note_state_def)

lemma wait_loop_rounds:
  assumes "\<forall>r \<in> set rs. round_ok r \<and> \<not> resting r" "round_ok z" "resting z"
    "inp c = concat (map round_script (rs @ [z])) @ es"
  shows "\<exists>c'. wait_loop (\<lambda>x. True) (Suc k) f c =
    Some (c', Returned
      (let sts = concat (map states_of (rs @ [z])) in
       if werror f \<or> (\<exists>st \<in> set sts. st \<notin> {0, 1, 2, 3, 4, 5}) then 3 else if stall f \<or> 5 \<in> set sts then 2 else 0)) \<and> inp c' = es"
  using assms
proof (induction rs arbitrary: f c)
  case Nil
  obtain c' where w: "wait_turn (\<lambda>x. True) (Suc k) [0, 1, 2] (f\<lparr>stop := True\<rparr>) c =
      Some (c', Some (foldl (\<lambda>f st. note_state st f) (f\<lparr>stop := True\<rparr>) (states_of z)))" "inp c' = es"
    using wait_turn_round [OF Nil.prems(2), of c es] Nil.prems(4) by (auto simp del: wait_turn.simps)
  then show ?case using Nil.prems(3)
    by (intro exI [of _ c'], subst wait_loop.simps) (simp add: note_states resting_def wait_result_def Let_def del: wait_turn.simps)
next
  case (Cons r rs)
  obtain c' where w: "wait_turn (\<lambda>x. True) (Suc k) [0, 1, 2] (f\<lparr>stop := True\<rparr>) c =
      Some (c', Some (foldl (\<lambda>f st. note_state st f) (f\<lparr>stop := True\<rparr>) (states_of r)))"
      "inp c' = concat (map round_script (rs @ [z])) @ es"
    using wait_turn_round [of r c "concat (map round_script (rs @ [z])) @ es" k "f\<lparr>stop := True\<rparr>"] Cons.prems(1,4)
    by (auto simp del: wait_turn.simps)
  define f1 where "f1 = foldl (\<lambda>f st. note_state st f) (f\<lparr>stop := True\<rparr>) (states_of r)"
  have s: "\<not> stop f1" using Cons.prems(1) unfolding f1_def note_states by (auto simp: resting_def)
  have fl: "stall f1 \<longleftrightarrow> stall f \<or> 5 \<in> set (states_of r)"
    "werror f1 \<longleftrightarrow> werror f \<or> (\<exists>st \<in> set (states_of r). st \<notin> {0, 1, 2, 3, 4, 5})"
    unfolding f1_def note_states by simp_all
  have "wait_loop (\<lambda>x. True) (Suc k) f c = wait_loop (\<lambda>x. True) (Suc k) f1 c'"
    using w s by (subst wait_loop.simps) (simp add: f1_def del: wait_turn.simps)
  moreover obtain c'' where "wait_loop (\<lambda>x. True) (Suc k) f1 c' =
    Some (c'', Returned
      (let sts = concat (map states_of (rs @ [z])) in
       if werror f1 \<or> (\<exists>st \<in> set sts. st \<notin> {0, 1, 2, 3, 4, 5}) then 3 else if stall f1 \<or> 5 \<in> set sts then 2 else 0))" "inp c'' = es"
    using Cons.IH [OF _ Cons.prems(2,3) w(2), of f1] Cons.prems(1) by auto
  ultimately show ?case by (auto simp: Let_def fl)
qed

text \<open>
  Against a device that answers every question, waiting returns after the first round in which no motor moves, with 3 when some motor has shown an unknown state in any round, else 2 when some motor has stalled, else 0.
\<close>

theorem waitmoving_rounds:
  assumes "\<forall>r \<in> set rs. round_ok r \<and> \<not> resting r" "round_ok z" "resting z"
    "inp c = concat (map round_script (rs @ [z])) @ es"
  shows "\<exists>c'. waitmoving (\<lambda>x. True) (Suc k) c =
    Some (c', Returned
      (let sts = concat (map states_of (rs @ [z])) in
       if \<exists>st \<in> set sts. st > 5 then 3 else if 5 \<in> set sts then 2 else 0)) \<and> inp c' = es"
proof -
  have "(\<exists>st \<in> set (concat (map states_of (rs @ [z]))). st \<notin> {0, 1, 2, 3, 4, 5}) \<longleftrightarrow> (\<exists>st \<in> set (concat (map states_of (rs @ [z]))). st > 5)"
  proof -
    have "0 \<le> st" if "st \<in> set (concat (map states_of (rs @ [z])))" for st using that assms(1,2) by (auto simp: round_ok_def)
    moreover have "st \<notin> {0, 1, 2, 3, 4, 5} \<longleftrightarrow> st > 5" if "0 \<le> st" for st :: int using that by auto
    ultimately show ?thesis by (intro bex_cong refl) blast
  qed
  then show ?thesis
    using wait_loop_rounds [OF assms, of k "\<lparr>stop = True, stall = False, werror = False\<rparr>"]
    by (simp only: waitmoving_def Let_def wait_flags.simps simp_thms)
qed

lemma validate_set_witness:
  "validate_cmd \<lparr>min_steps = [0, 0, 0], max_steps = [100, 100, 100], pos = [50, 0, 0], status = [0, 0, 0]\<rparr> ''relpos0 = 51'' = Some (- 1)"
proof -
  have "blank '' ''" "blank '' ''" "(0::nat) < 3" "int_ok 51" "([] :: string) = [] \<or> decdigit (hd []) = None" by (simp_all add: blank_def isspace_def int_ok_def)
  moreover have t: "set_text TEACMD_RELPOSITION 0 '' '' '' '' 51 [] = ''relpos0 = 51''" by code_simp
  moreover have "length ''relpos0 = 51'' \<le> 255" by simp
  ultimately show ?thesis
    using validate_set [of "'' ''" "'' ''" 0 51 "[]" TEACMD_RELPOSITION
        "\<lparr>min_steps = [0, 0, 0], max_steps = [100, 100, 100], pos = [50, 0, 0], status = [0, 0, 0]\<rparr>", unfolded t]
    by (simp add: in_range_def int_ok_def)
qed

lemma validate_blank_bypass_witness:
  "validate_cmd \<lparr>min_steps = [0, 0, 0], max_steps = [100, 100, 100], pos = [50, 0, 0], status = [0, 0, 0]\<rparr> '' setpos1=9'' = Some 0"
proof -
  have t: "'' '' @ set_text TEACMD_SETPOS 1 [] [] 9 [] = '' setpos1=9''" by code_simp
  show ?thesis
    using validate_blank_bypass [of "'' ''" "[]" "[]" 1 TEACMD_SETPOS 9 "[]", unfolded t] by (simp add: blank_def isspace_def)
qed

lemma parse_position_witness:
  "parse_incoming_string True True ''abspos3=7\<newline>''
     \<lparr>min_steps = [0, 0, 0], max_steps = [100, 100, 100], pos = [50, 0, 0], status = [0, 0, 0]\<rparr> = None"
proof -
  have t: "set_text TEACMD_POSITION 3 [] [] 7 [NL] = ''abspos3=7\<newline>''" by code_simp
  show ?thesis using parse_position [of _ 3 7, unfolded t] by (simp add: tea_ok_def int_ok_def)
qed

lemma parse_status_witness:
  "parse_incoming_string True True ''state1=7\<newline>''
     \<lparr>min_steps = [0, 0, 0], max_steps = [100, 100, 100], pos = [50, 0, 0], status = [0, 0, 0]\<rparr> = None"
proof -
  have t: "set_text TEACMD_STATUS 1 [] [] 7 [NL] = ''state1=7\<newline>''" by code_simp
  show ?thesis
    using parse_status [of "\<lparr>min_steps = [0, 0, 0], max_steps = [100, 100, 100], pos = [50, 0, 0], status = [0, 0, 0]\<rparr>" 1 7, unfolded t header_ok]
    by (simp add: tea_ok_def int_ok_def state_ok_def)
qed

lemma client_proc_dead_witness:
  "client_proc (\<lambda>x. False) 100 \<lparr>par_x = Some 5, par_y = None, par_z = None, gotozero = True, wait_end = False\<rparr> \<lparr>inp = [], sent = []\<rparr> = None"
  by (rule client_proc_dead) simp

lemma zero_loop_skips_witness:
  "\<exists>c'. zero_loop (\<lambda>xs. last xs \<noteq> cmd_n TEACMD_GOTOZERO 1 @ [NL]) 0 \<lparr>inp = [], sent = []\<rparr> = Some c' \<and>
     sent c' = [''gotoz0\<newline>'', ''gotoz2\<newline>'']"
proof -
  have t: "cmd_n TEACMD_GOTOZERO 0 @ [NL] = ''gotoz0\<newline>''" "cmd_n TEACMD_GOTOZERO 2 @ [NL] = ''gotoz2\<newline>''" by code_simp+
  show ?thesis using zero_loop_skips [of 1 _ "\<lparr>inp = [], sent = []\<rparr>", OF _ refl] t by simp
qed

lemma waitmoving_rounds_witness:
  "\<exists>c'. waitmoving (\<lambda>x. True) 1 \<lparr>inp = round_script (2, 0, 0) @ round_script (0, 0, 5), sent = []\<rparr> = Some (c', Returned 2)"
  using waitmoving_rounds [of "[(2, 0, 0)]" "(0, 0, 5)" "\<lparr>inp = round_script (2, 0, 0) @ round_script (0, 0, 5), sent = []\<rparr>" "[]" 0]
  by (auto simp: round_ok_def resting_def int_ok_def)

end
