(* ===== verification/TeaServer.thy ===== *)
theory TeaServer
  imports TeaCmd
begin

text \<open>
  The server of the TeA stage, \<open>TeAmanagement/sersock.c\<close>: lines from the serial device, commands of the
  clients, and the turns of the main loop. The device is the list of what its reads give and the texts
  written to it, the static buffer of \<open>getserdata\<close> is a field beside them, and \<open>wr\<close> tells for the texts
  written so far and the new one whether all of it goes out. The result \<open>None\<close> is an access outside of
  an array or a signed overflow. \<open>getserdata\<close> is shown to give the lines of the device whole and in
  order however they are cut up, and the server to keep its table of clients and the range of the
  commands it lets through.
\<close>

section \<open>Lines from the device\<close>

abbreviation BUFLEN :: nat where "BUFLEN \<equiv> 1024"
abbreviation MAXCLIENTS :: nat where "MAXCLIENTS \<equiv> 30"

definition cstring :: "string \<Rightarrow> string" where
  "cstring s = takeWhile (\<lambda>c. c \<noteq> CHR 0x00) s"

record serial =
  rx :: "event list"
  written :: "string list"
  serbuf :: string

text \<open>
  The loop of \<open>getserdata\<close>: why it ends, what is left to read and the bytes before \<open>ptr\<close>. \<open>NoData\<close> stands for
  a \<open>canberead\<close> that finds nothing, \<open>ReadErr\<close> for its failure, \<open>Closed\<close> for a \<open>read\<close> of no bytes; a chunk
  longer than the room is read in part.
\<close>

datatype read_end = Stop | Failed | Gone

fun read_loop :: "event list \<Rightarrow> string \<Rightarrow> read_end \<times> event list \<times> string" where
  "read_loop [] buf = (Stop, [], buf)"
| "read_loop (NoData # es) buf = (Stop, es, buf)"
| "read_loop (ReadErr # es) buf = (Failed, es, buf)"
| "read_loop (Closed # es) buf = (Gone, es, buf)"
| "read_loop (Got s # es) buf =
     (let blen = BUFLEN - 1 - length buf;
          got = take blen s;
          es1 = (if length s \<le> blen then es else Got (drop blen s) # es)
      in if s = [] then (Gone, es, buf)
         else if NL \<in> set (cstring got) \<or> blen \<le> length s then (Stop, es1, buf @ got)
         else read_loop es (buf @ got))"

text \<open>\<open>getserdata\<close> on an open device: the line, or \<open>NULL\<close>, and \<open>*len\<close>.\<close>

definition getserdata :: "serial \<Rightarrow> serial \<times> string option \<times> int" where
  "getserdata d =
     (case read_loop (rx d) (serbuf d) of
        (Failed, es, buf) \<Rightarrow> (d\<lparr>rx := es, serbuf := buf\<rparr>, None, 0)
      | (Gone, es, buf) \<Rightarrow> (d\<lparr>rx := es, serbuf := buf\<rparr>, None, - 1)
      | (Stop, es, buf) \<Rightarrow>
          if NL \<in> set (cstring buf) then
            (case split_at NL buf of
               Some (a, b) \<Rightarrow> (d\<lparr>rx := es, serbuf := b\<rparr>, Some (a @ [NL]), int (length a) + 1)
             | None \<Rightarrow> (d\<lparr>rx := es, serbuf := buf\<rparr>, None, 0))
          else if length buf < BUFLEN - 1 then (d\<lparr>rx := es, serbuf := buf\<rparr>, None, 0)
          else (d\<lparr>rx := es, serbuf := []\<rparr>, Some (cstring buf), int (length (cstring buf))))"

section \<open>Commands of the clients\<close>

datatype sendstat = SENDSTAT_OK | SENDSTAT_OUTOFRANGE | SENDSTAT_NOECHO | SENDSTAT_ERR | SENDSTAT_SETTER

fun sendstatuses :: "sendstat \<Rightarrow> string" where
  "sendstatuses SENDSTAT_OK = ''OK\<newline>''"
| "sendstatuses SENDSTAT_OUTOFRANGE = ''Steps out of range\<newline>''"
| "sendstatuses SENDSTAT_NOECHO = ''No echo received\<newline>''"
| "sendstatuses SENDSTAT_ERR = ''Error in write()\<newline>''"
| "sendstatuses SENDSTAT_SETTER = ''OK\<newline>''"

definition ser_write :: "(string list \<Rightarrow> bool) \<Rightarrow> string \<Rightarrow> serial \<Rightarrow> serial \<times> bool" where
  "ser_write wr s d = (if wr (written d @ [s]) then (d\<lparr>written := written d @ [s]\<rparr>, True) else (d, False))"

definition sendcmd :: "(string list \<Rightarrow> bool) \<Rightarrow> tea \<Rightarrow> string \<Rightarrow> serial \<Rightarrow> (serial \<times> sendstat) option" where
  "sendcmd wr t cmd d =
     (case validate_cmd t cmd of
        None \<Rightarrow> None
      | Some v \<Rightarrow>
          if v < 0 then Some (d, SENDSTAT_OUTOFRANGE)
          else
            (let ret = (if v > 0 then SENDSTAT_SETTER else SENDSTAT_OK) in
             case ser_write wr cmd d of
               (d1, False) \<Rightarrow> Some (d1, SENDSTAT_ERR)
             | (d1, True) \<Rightarrow>
                 (case getserdata d1 of
                    (d2, ans, l) \<Rightarrow> Some (d2, if ans = Some cmd then ret else SENDSTAT_NOECHO))))"

record server =
  dev :: serial
  stage :: tea
  poll_set :: "(int \<times> string option) list"
  need2poll :: bool
  mails :: "(int \<times> string) list"
  closed :: "int list"
  exited :: bool

text \<open>
  \<open>handle_socket\<close> with what the \<open>read\<close> of a packet gives (\<open>[]\<close> for an error or the end): \<open>None\<close> for -1.
  An empty command that is echoed makes the program look in front of its buffer.
\<close>

definition handle_socket :: "(string list \<Rightarrow> bool) \<Rightarrow> int \<Rightarrow> string \<Rightarrow> server \<Rightarrow> (server \<times> sendstat option) option" where
  "handle_socket wr sock data sv =
     (if data = [] then Some (sv, None)
      else
        (let buff = cstring (take (BUFLEN - 1) data) in
         case sendcmd wr (stage sv) buff (dev sv) of
           None \<Rightarrow> None
         | Some (d, s) \<Rightarrow>
             if s \<noteq> SENDSTAT_OK \<and> s \<noteq> SENDSTAT_SETTER then
               Some (sv\<lparr>dev := d, mails := mails sv @ [(sock, sendstatuses s)]\<rparr>, Some s)
             else if buff = [] then None
             else Some (sv\<lparr>dev := d\<rparr>, Some s)))"

section \<open>A turn of the server\<close>

text \<open>
  What a turn meets: the descriptor that \<open>accept\<close> gives when a client asks (-1 when it fails), the packets of
  the clients by descriptor, whether a second has passed since the last polling, and whether a header
  is to be written and \<open>mkstemp\<close> succeeds.
\<close>

record turn =
  accepts :: "int option"
  packets :: "int \<Rightarrow> string option"
  late :: bool
  hdrfile :: bool
  mkstemp :: bool

text \<open>\<open>poll\<close> marks the clients that can be read; it passes over negative descriptors.\<close>

definition poll_fds :: "turn \<Rightarrow> server \<Rightarrow> server" where
  "poll_fds u sv = sv\<lparr>poll_set := map (\<lambda>(fd, r). (fd, if fd < 0 then None else packets u fd)) (poll_set sv)\<rparr>"

definition accept_client :: "turn \<Rightarrow> server \<Rightarrow> server" where
  "accept_client u sv =
     (case accepts u of
        None \<Rightarrow> sv
      | Some client \<Rightarrow>
          if length (poll_set sv) = MAXCLIENTS then sv\<lparr>closed := closed sv @ [client]\<rparr>
          else sv\<lparr>poll_set := poll_set sv @ [(client, None)]\<rparr>)"

text \<open>The table without entry \<open>i\<close>, whose place the last entry takes.\<close>

definition drop_client :: "nat \<Rightarrow> 'a list \<Rightarrow> 'a list" where
  "drop_client i xs = (butlast xs)[i := last xs]"

text \<open>The scan of the clients: entry \<open>i\<close> is \<open>poll_set[i + 1]\<close>.\<close>

definition scan_client :: "(string list \<Rightarrow> bool) \<Rightarrow> nat \<Rightarrow> server \<Rightarrow> server option" where
  "scan_client wr i sv =
     (case poll_set sv ! i of
        (fd, None) \<Rightarrow> Some sv
      | (fd, Some data) \<Rightarrow>
          (case handle_socket wr fd data sv of
             None \<Rightarrow> None
           | Some (sv1, None) \<Rightarrow> Some (sv1\<lparr>closed := closed sv1 @ [fd], poll_set := drop_client i (poll_set sv1)\<rparr>)
           | Some (sv1, Some h) \<Rightarrow> Some (if h = SENDSTAT_SETTER then sv1\<lparr>need2poll := True\<rparr> else sv1)))"

lemma scan_client_length: "scan_client wr i sv = Some sv1 \<Longrightarrow> length (poll_set sv1) \<le> length (poll_set sv)"
  by (auto simp: scan_client_def handle_socket_def drop_client_def Let_def split: prod.splits option.splits if_splits)

function scan :: "(string list \<Rightarrow> bool) \<Rightarrow> nat \<Rightarrow> server \<Rightarrow> server option" where
  "scan wr i sv =
     (if i < length (poll_set sv) then
        (case scan_client wr i sv of None \<Rightarrow> None | Some sv1 \<Rightarrow> scan wr (i + 1) sv1)
      else Some sv)"
  by pat_completeness auto
termination
  by (relation "measure (\<lambda>(wr, i, sv). length (poll_set sv) - i)") (auto dest!: scan_client_length)

declare scan.simps [simp del]

text \<open>The bytes that a device has still to give.\<close>

fun event_bytes :: "event \<Rightarrow> string" where
  "event_bytes (Got s) = s"
| "event_bytes NoData = []"
| "event_bytes ReadErr = []"
| "event_bytes Closed = []"

definition pending :: "serial \<Rightarrow> nat" where
  "pending d = length (concat (map event_bytes (rx d))) + length (serbuf d)"

lemma read_loop_bytes:
  "read_loop es buf = (r, es1, buf1) \<Longrightarrow> buf1 @ concat (map event_bytes es1) = buf @ concat (map event_bytes es)"
  by (induction es buf arbitrary: r es1 buf1 rule: read_loop.induct) (auto simp: Let_def split: if_splits)

lemma getserdata_pending:
  assumes "getserdata d = (d1, Some s, l)"
  shows "pending d1 < pending d"
proof -
  obtain r es buf where r: "read_loop (rx d) (serbuf d) = (r, es, buf)" by (metis prod_cases3)
  have "length (concat (map event_bytes es)) + length buf = pending d"
    using arg_cong [OF read_loop_bytes [OF r], of length] by (simp add: pending_def)
  then show ?thesis using assms r
    by (auto simp: getserdata_def pending_def split_at_Some split: read_end.splits if_splits option.splits)
qed

definition broadcast :: "string \<Rightarrow> server \<Rightarrow> server" where
  "broadcast s sv = sv\<lparr>mails := mails sv @ map (\<lambda>(fd, r). (fd, s)) (poll_set sv)\<rparr>"

text \<open>The loop that passes the lines of the device on; \<open>exited\<close> is the end of the program by \<open>ERRX\<close>.\<close>

function drain :: "turn \<Rightarrow> server \<Rightarrow> server option" where
  "drain u sv =
     (case getserdata (dev sv) of
        (d, None, l) \<Rightarrow> Some (sv\<lparr>dev := d\<rparr>)
      | (d, Some serdata, l) \<Rightarrow>
          if l < 0 then Some (sv\<lparr>dev := d, exited := True\<rparr>)
          else
            (case parse_incoming_string (hdrfile u) (mkstemp u) serdata (stage sv) of
               None \<Rightarrow> None
             | Some (t, h, moves) \<Rightarrow>
                 drain u ((broadcast serdata sv)\<lparr>dev := d, stage := t, need2poll := need2poll sv \<or> moves\<rparr>)))"
  by pat_completeness auto
termination
  by (relation "measure (\<lambda>(u, sv). pending (dev sv))") (auto dest: getserdata_pending [OF sym])

declare drain.simps [simp del]

text \<open>The questions of a polling; the line that is read behind each of them is dropped.\<close>

definition ask :: "(string list \<Rightarrow> bool) \<Rightarrow> string \<Rightarrow> serial \<Rightarrow> serial" where
  "ask wr q d = fst (getserdata (fst (ser_write wr q d)))"

definition questions :: "string list" where
  "questions = concat (map (\<lambda>i. [cmd_n TEACMD_POSITION i @ [NL], cmd_n TEACMD_STATUS i @ [NL]]) [0, 1, 2])"

definition poll_device :: "(string list \<Rightarrow> bool) \<Rightarrow> turn \<Rightarrow> server \<Rightarrow> server" where
  "poll_device wr u sv =
     (if need2poll sv \<and> late u then sv\<lparr>dev := fold (ask wr) questions (dev sv), need2poll := False\<rparr> else sv)"

definition server_turn :: "(string list \<Rightarrow> bool) \<Rightarrow> turn \<Rightarrow> server \<Rightarrow> server option" where
  "server_turn wr u sv =
     (if exited sv then Some sv
      else
        Option.bind (scan wr 0 (accept_client u (poll_fds u sv))) (\<lambda>sv1.
        Option.bind (drain u sv1) (\<lambda>sv2. Some (if exited sv2 then sv2 else poll_device wr u sv2))))"

fun run_server :: "(string list \<Rightarrow> bool) \<Rightarrow> turn list \<Rightarrow> server \<Rightarrow> server option" where
  "run_server wr [] sv = Some sv"
| "run_server wr (u # us) sv = Option.bind (server_turn wr u sv) (run_server wr us)"

definition server_start :: "tea \<Rightarrow> event list \<Rightarrow> server" where
  "server_start t es =
     \<lparr>dev = \<lparr>rx = es, written = [], serbuf = []\<rparr>, stage = t, poll_set = [], need2poll = True, mails = [], closed = [], exited = False\<rparr>"

section \<open>The terminal client\<close>

abbreviation DEL :: char where "DEL \<equiv> CHR 0x7F"

text \<open>\<open>mygetline\<close> on the keys that \<open>rc\<close> gives (NUL when there is none): the line if one is complete, the keys left and the buffer.\<close>

fun mygetline :: "string \<Rightarrow> string \<Rightarrow> string option \<times> string \<times> string" where
  "mygetline [] buf = (if length buf < BUFLEN then (None, [], buf) else (Some buf, [], []))"
| "mygetline (rd # keys) buf =
     (if \<not> length buf < BUFLEN then (Some buf, rd # keys, [])
      else if rd = CHR 0x00 then (None, keys, buf)
      else
        (let buf1 = (if rd = DEL \<and> buf \<noteq> [] then butlast buf else buf @ [rd]) in
         if rd = NL then (Some buf1, keys, []) else mygetline keys buf1))"

record terminal =
  keys :: string
  line :: string
  conn :: client_sock
  printed :: string
  ended :: bool

text \<open>A turn of \<open>terminal_client\<close>.\<close>

definition terminal_turn :: "(string list \<Rightarrow> bool) \<Rightarrow> terminal \<Rightarrow> terminal" where
  "terminal_turn up m =
     (case mygetline (keys m) (line m) of
        (msg, keys1, line1) \<Rightarrow>
          (let c1 = (case msg of None \<Rightarrow> conn m | Some s \<Rightarrow> fst (send up s (conn m)));
               m1 = m\<lparr>keys := keys1, line := line1, conn := c1\<rparr>
           in case next_event c1 of
                (NoData, c2) \<Rightarrow> m1\<lparr>conn := c2\<rparr>
              | (ReadErr, c2) \<Rightarrow> m1\<lparr>conn := c2\<rparr>
              | (Closed, c2) \<Rightarrow> m1\<lparr>conn := c2, ended := True\<rparr>
              | (Got s, c2) \<Rightarrow> m1\<lparr>conn := c2, printed := printed m @ cstring (take (BUFLEN - 1) s)\<rparr>))"

text \<open>
  The name of the socket in \<open>start_socket\<close>: a leading \<open>\\0\<close> asks for a name outside of the file system, and 106
  bytes are copied; the tail behind the NUL of a path is left open. Longer paths do not fit \<open>apath\<close>; an
  empty one is read behind its NUL.
\<close>

definition sock_name :: "string \<Rightarrow> (bool \<times> string) option" where
  "sock_name path =
     (if path = [] then None
      else if take 2 path = [CHR 0x5C, CHR ''0''] then Some (False, take 106 (CHR 0x00 # take 126 (drop 2 path)))
      else if length path > 127 then None
      else Some (True, take 106 path))"

section \<open>Lines whatever the chunks\<close>

definition nul_free :: "string \<Rightarrow> bool" where
  "nul_free s \<longleftrightarrow> CHR 0x00 \<notin> set s"

lemma cstring_nul_free [simp]: "nul_free s \<Longrightarrow> cstring s = s"
  unfolding cstring_def nul_free_def by (rule takeWhile_eq_all_conv [THEN iffD2]) auto

lemma nul_free_append [simp]: "nul_free (s @ t) \<longleftrightarrow> nul_free s \<and> nul_free t"
  by (auto simp: nul_free_def)

lemma nul_free_take: "nul_free s \<Longrightarrow> nul_free (take n s)"
  by (auto simp: nul_free_def dest: in_set_takeD)

lemma read_loop_chunks:
  assumes "[] \<notin> set cs" "nul_free (concat cs)" "length buf \<le> 1022"
  shows "\<exists>cs1 buf1. read_loop (map Got cs) buf = (Stop, map Got cs1, buf1) \<and> [] \<notin> set cs1 \<and>
    buf1 @ concat cs1 = buf @ concat cs \<and> length buf1 \<le> 1023 \<and> (NL \<in> set buf1 \<or> cs1 = [] \<or> length buf1 = 1023)"
  using assms
proof (induction cs arbitrary: buf)
  case (Cons s cs)
  let ?n = "1023 - length buf"
  have s: "s \<noteq> []" "cstring (take ?n s) = take ?n s" using Cons.prems by (auto simp: nul_free_take)
  show ?case
  proof (cases "NL \<in> set (take ?n s) \<or> ?n \<le> length s")
    case True
    let ?cs = "if length s \<le> ?n then cs else drop ?n s # cs"
    have "read_loop (map Got (s # cs)) buf = (Stop, map Got ?cs, buf @ take ?n s)"
      using True s by (simp add: Let_def)
    moreover have "[] \<notin> set ?cs" using Cons.prems(1) by auto
    ultimately show ?thesis using True Cons.prems(3)
      by (intro exI [of _ ?cs] exI [of _ "buf @ take ?n s"]) auto
  next
    case False
    then have l: "length (buf @ s) \<le> 1022" "take ?n s = s" by auto
    have "read_loop (map Got (s # cs)) buf = read_loop (map Got cs) (buf @ s)" using False s l by (simp add: Let_def)
    then show ?thesis using Cons.IH [OF _ _ l(1)] Cons.prems by auto
  qed
qed simp

text \<open>A device whose chunks make up the text \<open>s\<close>, together with what the buffer holds already.\<close>

definition holds :: "serial \<Rightarrow> string \<Rightarrow> bool" where
  "holds d s \<longleftrightarrow> (\<exists>cs. rx d = map Got cs \<and> [] \<notin> set cs \<and> serbuf d @ concat cs = s) \<and> nul_free s \<and> length (serbuf d) \<le> 1022"

lemma getserdata_line:
  assumes "holds d (l @ NL # rest)" "NL \<notin> set l" "length l \<le> 1022"
  shows "\<exists>d1. getserdata d = (d1, Some (l @ [NL]), int (length l) + 1) \<and> holds d1 rest \<and> d\<lparr>rx := rx d1, serbuf := serbuf d1\<rparr> = d1"
proof -
  obtain cs where cs: "rx d = map Got cs" "[] \<notin> set cs" "serbuf d @ concat cs = l @ NL # rest" "nul_free (l @ NL # rest)" "length (serbuf d) \<le> 1022"
    using assms(1) by (auto simp: holds_def)
  have "nul_free (concat cs)" using cs(3,4) by (metis nul_free_append)
  then obtain cs1 b1 where r: "read_loop (map Got cs) (serbuf d) = (Stop, map Got cs1, b1)" "[] \<notin> set cs1"
      "b1 @ concat cs1 = l @ NL # rest" "length b1 \<le> 1023" "NL \<in> set b1 \<or> cs1 = [] \<or> length b1 = 1023"
    using read_loop_chunks [OF cs(2) _ cs(5)] cs(3) by metis
  have t: "b1 = take (length b1) (l @ NL # rest)" unfolding r(3) [symmetric] by simp
  have b: "length l < length b1"
  proof (rule ccontr)
    assume n: "\<not> length l < length b1"
    then have "b1 = take (length b1) l" using t by simp
    then have "NL \<notin> set b1" using assms(2) by (metis in_set_takeD)
    then show False using r(3,5) n assms(3) by (auto dest: arg_cong [of _ _ length])
  qed
  then obtain k where "length b1 - length l = Suc k" by (metis Suc_diff_Suc)
  then have "b1 = l @ NL # take k rest" using t b by simp
  then obtain b where b1: "b1 = l @ NL # b" by blast
  then have rest: "rest = b @ concat cs1" using r(3) by simp
  have "nul_free b1" using r(3) cs(4) by (metis nul_free_append)
  then have "getserdata d = (d\<lparr>rx := map Got cs1, serbuf := b\<rparr>, Some (l @ [NL]), int (length l) + 1)"
    using assms(2) by (simp add: getserdata_def cs(1) r(1)) (simp add: b1)
  moreover have "nul_free rest" using cs(4) by (auto simp: nul_free_def)
  ultimately show ?thesis using r(2,4) by (auto simp: holds_def b1 rest)
qed

lemma getserdata_tail:
  assumes "holds d s" "NL \<notin> set s" "length s \<le> 1022"
  shows "getserdata d = (d\<lparr>rx := [], serbuf := s\<rparr>, None, 0)"
proof -
  obtain cs where cs: "rx d = map Got cs" "[] \<notin> set cs" "serbuf d @ concat cs = s" "nul_free s" "length (serbuf d) \<le> 1022"
    using assms(1) by (auto simp: holds_def)
  have "nul_free (concat cs)" using cs(3,4) by (metis nul_free_append)
  then obtain cs1 b1 where r: "read_loop (map Got cs) (serbuf d) = (Stop, map Got cs1, b1)"
      "b1 @ concat cs1 = s" "NL \<in> set b1 \<or> cs1 = [] \<or> length b1 = 1023"
    using read_loop_chunks [OF cs(2) _ cs(5)] cs(3) by metis
  then have "cs1 = []" "b1 = s" using assms(2,3) by auto
  then show ?thesis using r(1) assms(2,3) cs(4) by (simp add: getserdata_def cs(1))
qed

fun parse_lines :: "turn \<Rightarrow> string list \<Rightarrow> tea \<times> bool \<Rightarrow> (tea \<times> bool) option" where
  "parse_lines u [] s = Some s"
| "parse_lines u (l # ls) (t, n) =
     (case parse_incoming_string (hdrfile u) (mkstemp u) (l @ [NL]) t of
        None \<Rightarrow> None
      | Some (t1, h, m) \<Rightarrow> parse_lines u ls (t1, n \<or> m))"

definition line_ok :: "string \<Rightarrow> bool" where
  "line_ok l \<longleftrightarrow> NL \<notin> set l \<and> length l \<le> 1022"

text \<open>
  C20. However the bytes of the serial device are cut into reads, the server passes the lines on to every client whole, once and in order, feeds exactly these lines to the parser of the answers, and keeps the unfinished rest for later (lines without NUL that fit the buffer).
\<close>

theorem drain_lines:
  assumes "holds (dev sv) (concat (map (\<lambda>l. l @ [NL]) ls) @ tail)" "\<forall>l \<in> set (tail # ls). line_ok l"
  shows "drain u sv =
    map_option (\<lambda>(t, n). sv\<lparr>dev := (dev sv)\<lparr>rx := [], serbuf := tail\<rparr>, stage := t, need2poll := n,
        mails := mails sv @ concat (map (\<lambda>l. map (\<lambda>(fd, r). (fd, l @ [NL])) (poll_set sv)) ls)\<rparr>)
      (parse_lines u ls (stage sv, need2poll sv))"
  using assms
proof (induction ls arbitrary: sv)
  case Nil
  then show ?case by (simp add: drain.simps getserdata_tail line_ok_def)
next
  case (Cons l ls)
  have h: "holds (dev sv) (l @ NL # concat (map (\<lambda>l. l @ [NL]) ls) @ tail)" "NL \<notin> set l" "length l \<le> 1022" using Cons.prems by (simp_all add: line_ok_def)
  obtain d1 where d: "getserdata (dev sv) = (d1, Some (l @ [NL]), int (length l) + 1)" "holds d1 (concat (map (\<lambda>l. l @ [NL]) ls) @ tail)"
      "(dev sv)\<lparr>rx := rx d1, serbuf := serbuf d1\<rparr> = d1"
    using getserdata_line [OF h] by blast
  have e: "d1\<lparr>rx := x, serbuf := y\<rparr> = (dev sv)\<lparr>rx := x, serbuf := y\<rparr>" for x y by (subst d(3) [symmetric]) simp
  show ?case
  proof (cases "parse_incoming_string (hdrfile u) (mkstemp u) (l @ [NL]) (stage sv)")
    case None
    then show ?thesis by (subst drain.simps) (simp add: d(1))
  next
    case (Some p)
    obtain t hd1 m where p: "p = (t, hd1, m)" by (cases p)
    let ?sv = "(broadcast (l @ [NL]) sv)\<lparr>dev := d1, stage := t, need2poll := need2poll sv \<or> m\<rparr>"
    have "drain u sv = drain u ?sv" using Some by (subst drain.simps) (simp add: d(1) p)
    also have "drain u ?sv = map_option (\<lambda>(t, n). ?sv\<lparr>dev := (dev ?sv)\<lparr>rx := [], serbuf := tail\<rparr>, stage := t, need2poll := n,
        mails := mails ?sv @ concat (map (\<lambda>l. map (\<lambda>(fd, r). (fd, l @ [NL])) (poll_set ?sv)) ls)\<rparr>)
      (parse_lines u ls (stage ?sv, need2poll ?sv))"
      by (rule Cons.IH) (use d(2) Cons.prems(2) in simp_all)
    finally show ?thesis using Some by (simp add: p broadcast_def e)
  qed
qed

section \<open>What is written to the device\<close>

lemma getserdata_length: "getserdata d = (d1, Some s, l) \<Longrightarrow> 0 \<le> l"
  by (auto simp: getserdata_def split: prod.splits read_end.splits option.splits if_splits)

text \<open>The branch for a device that is gone is never taken.\<close>

lemma drain_rule [consumes 1, case_names quiet line]:
  assumes "drain u sv = Some sv1"
    and "\<And>sv d l. getserdata (dev sv) = (d, None, l) \<Longrightarrow> P sv (sv\<lparr>dev := d\<rparr>)"
    and "\<And>sv d s l t h m sv1. getserdata (dev sv) = (d, Some s, l) \<Longrightarrow>
      parse_incoming_string (hdrfile u) (mkstemp u) s (stage sv) = Some (t, h, m) \<Longrightarrow>
      P ((broadcast s sv)\<lparr>dev := d, stage := t, need2poll := need2poll sv \<or> m\<rparr>) sv1 \<Longrightarrow> P sv sv1"
  shows "P sv sv1"
  using assms(1)
proof (induction "pending (dev sv)" arbitrary: sv rule: less_induct)
  case less
  obtain d a l where g: "getserdata (dev sv) = (d, a, l)" by (metis prod_cases3)
  show ?case
  proof (cases a)
    case None
    then show ?thesis using less(2) g assms(2) by (subst (asm) drain.simps) auto
  next
    case (Some s)
    have l: "\<not> l < 0" using getserdata_length g Some by fastforce
    obtain t h m where p: "parse_incoming_string (hdrfile u) (mkstemp u) s (stage sv) = Some (t, h, m)"
      using less(2) g Some l by (subst (asm) drain.simps) (auto split: option.splits)
    have "drain u ((broadcast s sv)\<lparr>dev := d, stage := t, need2poll := need2poll sv \<or> m\<rparr>) = Some sv1"
      using less(2) g Some l p by (subst (asm) drain.simps) simp
    then show ?thesis using less(1) getserdata_pending g Some by (intro assms(3) [OF g [unfolded Some] p]) simp
  qed
qed

lemma getserdata_written [simp]: "written (fst (getserdata d)) = written d"
  by (simp add: getserdata_def split: prod.splits read_end.splits option.splits)

lemma getserdata_written_eq: "getserdata d = (d1, a, l) \<Longrightarrow> written d1 = written d"
  using getserdata_written [of d] by simp

lemma ser_write_written: "ser_write wr s d = (d1, ok) \<Longrightarrow> set (written d1) \<subseteq> insert s (set (written d))"
  by (auto simp: ser_write_def split: if_splits)

lemma ask_written: "set (written (ask wr q d)) \<subseteq> insert q (set (written d))"
  using ser_write_written [of wr q d] by (cases "ser_write wr q d") (auto simp: ask_def)

lemma asks_written: "set (written (fold (ask wr) qs d)) \<subseteq> set qs \<union> set (written d)"
proof (induction qs arbitrary: d)
  case (Cons q qs)
  show ?case using Cons.IH [of "ask wr q d"] ask_written [of wr q d] by auto
qed simp

lemma parse_incoming_limits:
  "parse_incoming_string h k s t = Some (t1, c, m) \<Longrightarrow> min_steps t1 = min_steps t \<and> max_steps t1 = max_steps t"
  by (auto simp: parse_incoming_string_def Let_def split: if_splits option.splits prod.splits)

text \<open>A text that the validator has let through while the limits were those of \<open>t0\<close>.\<close>

definition passed :: "tea \<Rightarrow> string \<Rightarrow> bool" where
  "passed t0 w \<longleftrightarrow> (\<exists>t v. min_steps t = min_steps t0 \<and> max_steps t = max_steps t0 \<and> validate_cmd t w = Some v \<and> 0 \<le> v)"

definition written_ok :: "tea \<Rightarrow> server \<Rightarrow> bool" where
  "written_ok t0 sv \<longleftrightarrow> min_steps (stage sv) = min_steps t0 \<and> max_steps (stage sv) = max_steps t0 \<and>
     (\<forall>w \<in> set (written (dev sv)). w \<in> set questions \<or> passed t0 w)"

lemma sendcmd_written:
  assumes "sendcmd wr t cmd d = Some (d1, s)" "w \<in> set (written d1)"
  shows "w \<in> set (written d) \<or> w = cmd \<and> (\<exists>v. validate_cmd t cmd = Some v \<and> 0 \<le> v)"
  using assms by (auto simp: sendcmd_def ser_write_def Let_def dest: getserdata_written_eq split: option.splits if_splits prod.splits)

lemma handle_socket_written:
  assumes "handle_socket wr fd data sv = Some (sv1, h)" "written_ok t0 sv"
  shows "written_ok t0 sv1 \<and> poll_set sv1 = poll_set sv \<and> closed sv1 = closed sv \<and> exited sv1 = exited sv"
  using assms by (fastforce simp: handle_socket_def written_ok_def passed_def Let_def dest: sendcmd_written split: option.splits if_splits prod.splits)

lemma scan_client_written: "scan_client wr i sv = Some sv1 \<Longrightarrow> written_ok t0 sv \<Longrightarrow> written_ok t0 sv1"
  by (auto simp: scan_client_def written_ok_def dest!: handle_socket_written [of _ _ _ _ _ _ t0] split: option.splits if_splits prod.splits)

lemma scan_written: "scan wr i sv = Some sv1 \<Longrightarrow> written_ok t0 sv \<Longrightarrow> written_ok t0 sv1"
  by (induction wr i sv rule: scan.induct) (subst (asm) (2) scan.simps, auto dest: scan_client_written split: option.splits if_splits)

lemma drain_written: "drain u sv = Some sv1 \<Longrightarrow> written_ok t0 sv \<longrightarrow> written_ok t0 sv1"
  by (induction rule: drain_rule) (auto simp: written_ok_def broadcast_def dest!: getserdata_written_eq parse_incoming_limits)

lemma server_turn_written: "server_turn wr u sv = Some sv1 \<Longrightarrow> written_ok t0 sv \<Longrightarrow> written_ok t0 sv1"
proof -
  assume r: "server_turn wr u sv = Some sv1" and ok: "written_ok t0 sv"
  have i: "written_ok t0 (accept_client u (poll_fds u sv))"
    using ok by (simp add: written_ok_def accept_client_def poll_fds_def split: option.splits)
  have p: "written_ok t0 (poll_device wr u s)" if "written_ok t0 s" for s
    using that asks_written [of wr questions "dev s"] by (auto simp: written_ok_def poll_device_def)
  show ?thesis using r ok i p by (auto simp: server_turn_def bind_eq_Some_conv dest!: scan_written drain_written split: if_splits)
qed

lemma run_server_written: "run_server wr us sv = Some sv1 \<Longrightarrow> written_ok t0 sv \<Longrightarrow> written_ok t0 sv1"
  by (induction us arbitrary: sv) (auto simp: bind_eq_Some_conv dest: server_turn_written)

lemma questions_getters: "q \<in> set questions \<Longrightarrow> CHR ''='' \<notin> set q"
proof -
  have "list_all (\<lambda>q. CHR ''='' \<notin> set q) questions" by code_simp
  then show "q \<in> set questions \<Longrightarrow> CHR ''='' \<notin> set q" by (simp add: list_all_iff)
qed

text \<open>
  C4. Whatever the clients send and the device answers, a text the server has written to the device is one of its own
  questions or was accepted by \<open>validate_cmd\<close>, under the limits of the motors, as it was sent. So where the text
  starts with a command for an absolute position, the target is inside the limits of that motor; and no text starts
  with the command that overwrites a position. A command after a leading blank, or in a further line of the packet, is
  not checked (\<open>validate_blank_bypass\<close>).
\<close>

theorem run_server_range:
  assumes "run_server wr us (server_start t es) = Some sv"
  shows "(\<forall>w \<in> set (written (dev sv)). w \<in> set questions \<or> passed t w) \<and>
    (\<forall>cmd n sp1 sp2 v rest. set_text cmd n sp1 sp2 v rest \<in> set (written (dev sv)) \<longrightarrow>
       blank sp1 \<longrightarrow> blank sp2 \<longrightarrow> n < 3 \<longrightarrow> int_ok v \<longrightarrow> (rest = [] \<or> decdigit (hd rest) = None) \<longrightarrow>
       cmd \<in> {TEACMD_POSITION, TEACMD_SETPOS} \<longrightarrow> cmd = TEACMD_POSITION \<and> min_steps t ! n \<le> v \<and> v \<le> max_steps t ! n)"
proof -
  have "written_ok t (server_start t es)" by (simp add: written_ok_def server_start_def)
  then have ok: "written_ok t sv" using run_server_written assms(1) by blast
  have "cmd = TEACMD_POSITION \<and> min_steps t ! n \<le> v \<and> v \<le> max_steps t ! n"
    if w: "set_text cmd n sp1 sp2 v rest \<in> set (written (dev sv))"
      and h: "blank sp1" "blank sp2" "n < 3" "int_ok v" "rest = [] \<or> decdigit (hd rest) = None"
      and cmd: "cmd \<in> {TEACMD_POSITION, TEACMD_SETPOS}" for cmd n sp1 sp2 v rest
  proof -
    have "set_text cmd n sp1 sp2 v rest \<notin> set questions" using questions_getters [of "set_text cmd n sp1 sp2 v rest"] by (auto simp: set_text_def)
    then have "passed t (set_text cmd n sp1 sp2 v rest)" using w ok by (auto simp: written_ok_def)
    then obtain t1 r where t1: "min_steps t1 = min_steps t" "max_steps t1 = max_steps t" "validate_cmd t1 (set_text cmd n sp1 sp2 v rest) = Some r" "0 \<le> r"
      by (auto simp: passed_def)
    have l: "length (set_text cmd n sp1 sp2 v rest) \<le> 255" using t1(3,4) by (auto simp: validate_cmd_def split: if_splits)
    have c: "cmd \<in> setters" using cmd by (elim insertE emptyE) simp_all
    show ?thesis using validate_set [OF h l c, of t1] t1 cmd by (elim insertE emptyE) (simp_all add: in_range_def split: if_splits)
  qed
  then show ?thesis using ok by (auto simp: written_ok_def)
qed

section \<open>The table of clients\<close>

lemma mset_drop_client: "i < length xs \<Longrightarrow> add_mset (xs ! i) (mset (drop_client i xs)) = mset xs"
proof -
  assume i: "i < length xs"
  then obtain ys y where xs: "xs = ys @ [y]" by (metis append_butlast_last_id list.size(3) not_less_zero)
  show ?thesis
  proof (cases "i < length ys")
    case True
    then show ?thesis by (simp add: xs drop_client_def nth_append mset_update)
  next
    case False
    then show ?thesis using i by (simp add: xs drop_client_def nth_append list_update_beyond)
  qed
qed

lemma map_drop_client: "map f (drop_client i xs) = drop_client i (map f xs)"
  by (cases "xs = []") (simp_all add: drop_client_def map_update map_butlast last_map)

definition fds :: "server \<Rightarrow> int multiset" where
  "fds sv = mset (map fst (poll_set sv)) + mset (closed sv)"

lemma handle_socket_table:
  "handle_socket wr fd data sv = Some (sv1, h) \<Longrightarrow> poll_set sv1 = poll_set sv \<and> closed sv1 = closed sv \<and> exited sv1 = exited sv"
  by (auto simp: handle_socket_def Let_def split: option.splits if_splits prod.splits)

lemma scan_client_table:
  assumes "scan_client wr i sv = Some sv1" "i < length (poll_set sv)"
  shows "fds sv1 = fds sv \<and> exited sv1 = exited sv"
proof -
  have "add_mset (fst (poll_set sv ! i)) (mset (map fst (drop_client i (poll_set sv)))) = mset (map fst (poll_set sv))"
    using mset_drop_client [of i "map fst (poll_set sv)"] assms(2) by (simp add: map_drop_client)
  then show ?thesis using assms(1)
    by (auto simp: scan_client_def fds_def dest!: handle_socket_table split: option.splits if_splits prod.splits)
qed

lemma scan_table: "scan wr i sv = Some sv1 \<Longrightarrow> fds sv1 = fds sv \<and> exited sv1 = exited sv \<and> length (poll_set sv1) \<le> length (poll_set sv)"
proof (induction wr i sv rule: scan.induct)
  case (1 wr i sv)
  show ?case
  proof (cases "i < length (poll_set sv)")
    case True
    then obtain s where s: "scan_client wr i sv = Some s" "scan wr (i + 1) s = Some sv1"
      using 1(2) by (subst (asm) scan.simps) (auto split: option.splits)
    show ?thesis using 1(1) [OF True s] scan_client_table [OF s(1) True] scan_client_length [OF s(1)] by simp
  next
    case False
    then show ?thesis using 1(2) by (subst (asm) scan.simps) simp
  qed
qed

lemma drain_table: "drain u sv = Some sv1 \<Longrightarrow> poll_set sv1 = poll_set sv \<and> closed sv1 = closed sv \<and> exited sv1 = exited sv"
  by (induction rule: drain_rule) (simp_all add: broadcast_def)

lemma server_turn_table:
  assumes "server_turn wr u sv = Some sv1" "\<not> exited sv" "length (poll_set sv) \<le> 30"
  shows "\<not> exited sv1 \<and> length (poll_set sv1) \<le> 30 \<and> fds sv1 = fds sv + mset (case accepts u of None \<Rightarrow> [] | Some fd \<Rightarrow> [fd])"
proof -
  let ?sv = "accept_client u (poll_fds u sv)"
  obtain s where s: "scan wr 0 ?sv = Some s" "map_option (\<lambda>s2. if exited s2 then s2 else poll_device wr u s2) (drain u s) = Some sv1"
    using assms(1,2) by (auto simp: server_turn_def bind_eq_Some_conv)
  have "map fst (poll_set (poll_fds u sv)) = map fst (poll_set sv)" "closed (poll_fds u sv) = closed sv"
    "length (poll_set (poll_fds u sv)) = length (poll_set sv)" "exited (poll_fds u sv) = exited sv"
    by (auto simp: poll_fds_def)
  then have "fds ?sv = fds sv + mset (case accepts u of None \<Rightarrow> [] | Some fd \<Rightarrow> [fd])" "length (poll_set ?sv) \<le> 30" "\<not> exited ?sv"
    using assms(2,3) by (auto simp: accept_client_def fds_def simp del: mset_map split: option.splits)
  then show ?thesis using s scan_table [OF s(1)] by (auto simp: fds_def poll_device_def dest!: drain_table split: if_splits)
qed

text \<open>
  C28. The table of clients never holds more than thirty entries, every descriptor accepted is either in the table or was closed, once, and the server never ends by its branch for a lost device.
\<close>

theorem run_server_table:
  assumes "run_server wr us (server_start t es) = Some sv"
  shows "\<not> exited sv \<and> length (poll_set sv) \<le> 30 \<and>
    mset (map fst (poll_set sv)) + mset (closed sv) = mset (concat (map (\<lambda>u. case accepts u of None \<Rightarrow> [] | Some fd \<Rightarrow> [fd]) us))"
proof -
  have "\<not> exited sv \<and> length (poll_set sv) \<le> 30 \<and> fds sv = fds s + mset (concat (map (\<lambda>u. case accepts u of None \<Rightarrow> [] | Some fd \<Rightarrow> [fd]) us))"
    if "run_server wr us s = Some sv" "\<not> exited s" "length (poll_set s) \<le> 30" for s us
    using that by (induction us arbitrary: s) (auto simp: bind_eq_Some_conv dest!: server_turn_table)
  from this [OF assms] show ?thesis by (simp add: fds_def server_start_def)
qed

text \<open>A failed \<open>accept\<close> takes a place in the table for good.\<close>

lemma scan_idle: "list_all (\<lambda>e. snd e = None) (poll_set sv) \<Longrightarrow> scan wr i sv = Some sv"
  by (induction wr i sv rule: scan.induct)
    (subst scan.simps, auto simp: scan_client_def list_all_length split: prod.splits option.splits)

lemma failed_accept_turn:
  assumes "server_turn wr u sv = Some sv1" "\<not> exited sv" "accepts u = Some fd" "map fst (poll_set sv) = replicate n (- 1)"
  shows "\<not> exited sv1 \<and>
    (if n = 30 then map fst (poll_set sv1) = replicate n (- 1) \<and> closed sv1 = closed sv @ [fd]
     else map fst (poll_set sv1) = replicate n (- 1) @ [fd] \<and> closed sv1 = closed sv)"
proof -
  let ?sv = "accept_client u (poll_fds u sv)"
  have n: "length (poll_set sv) = n" using arg_cong [OF assms(4), of length] by simp
  have neg: "fst e = - 1" if "e \<in> set (poll_set sv)" for e
  proof -
    have "fst e \<in> set (map fst (poll_set sv))" using that by simp
    then show ?thesis unfolding assms(4) by simp
  qed
  have p: "poll_set (poll_fds u sv) = map (\<lambda>e. (- 1, None)) (poll_set sv)"
  proof -
    have "map (\<lambda>(fd, r). (fd, if fd < 0 then None else packets u fd)) (poll_set sv) = map (\<lambda>e. (- 1, None)) (poll_set sv)"
      using neg by (intro map_cong) force+
    then show ?thesis by (simp add: poll_fds_def)
  qed
  then have "scan wr 0 ?sv = Some ?sv"
    by (intro scan_idle) (auto simp: accept_client_def assms(3) list_all_iff)
  then obtain s where s: "drain u ?sv = Some s" "sv1 = (if exited s then s else poll_device wr u s)"
    using assms(1,2) by (auto simp: server_turn_def bind_eq_Some_conv)
  have "map fst (poll_set ?sv) = (if n = 30 then replicate n (- 1) else replicate n (- 1) @ [fd])"
      "closed ?sv = (if n = 30 then closed sv @ [fd] else closed sv)" "exited ?sv = exited sv"
    using n p by (simp_all add: accept_client_def assms(3) comp_def map_replicate_const) (simp_all add: poll_fds_def)
  then show ?thesis using drain_table [OF s(1)] s(2) assms(2) by (auto simp: poll_device_def)
qed

lemma run_server_append: "run_server wr (us @ vs) sv = Option.bind (run_server wr us sv) (run_server wr vs)"
  by (induction us arbitrary: sv) (auto split: Option.bind_splits)

lemma failed_accepts_fill:
  assumes "run_server wr us (server_start t es) = Some sv" "\<forall>u \<in> set us. accepts u = Some (- 1)" "length us \<le> 30"
  shows "\<not> exited sv \<and> map fst (poll_set sv) = replicate (length us) (- 1) \<and> closed sv = []"
  using assms
proof (induction us arbitrary: sv rule: rev_induct)
  case (snoc u us)
  obtain s where s: "run_server wr us (server_start t es) = Some s" "server_turn wr u s = Some sv"
    using snoc.prems(1) by (auto simp: run_server_append bind_eq_Some_conv)
  show ?case
    using snoc.IH [OF s(1)] snoc.prems failed_accept_turn [OF s(2), of "- 1" "length us"] by (simp add: replicate_append_same)
qed (simp add: server_start_def)

text \<open>
  Thirty failed calls of accept fill the table of clients for good: the next client is turned away at once though none is connected.
\<close>

theorem failed_accepts_lock:
  assumes "run_server wr (us @ [u]) (server_start t es) = Some sv"
    and "\<forall>u \<in> set us. accepts u = Some (- 1)" "length us = 30" "accepts u = Some fd"
  shows "closed sv = [fd] \<and> map fst (poll_set sv) = replicate 30 (- 1)"
proof -
  obtain s where s: "run_server wr us (server_start t es) = Some s" "server_turn wr u s = Some sv"
    using assms(1) by (auto simp: run_server_append bind_eq_Some_conv)
  show ?thesis using failed_accepts_fill [OF s(1) assms(2)] assms(3,4) failed_accept_turn [OF s(2) _ assms(4), of 30] by simp
qed

section \<open>The terminal client\<close>

text \<open>The line that the keys make, where \<open>DEL\<close> takes the last character back.\<close>

definition typed :: "string \<Rightarrow> string \<Rightarrow> string" where
  "typed = foldl (\<lambda>buf k. if k = DEL \<and> buf \<noteq> [] then butlast buf else buf @ [k])"

lemma mygetline_typed:
  assumes "NL \<notin> set ks" "nul_free ks" "length buf + length ks < 1024"
  shows "mygetline (ks @ NL # ks1) buf = (Some (typed buf ks @ [NL]), ks1, [])"
  using assms
proof (induction ks arbitrary: buf)
  case (Cons k ks)
  let ?b = "if k = DEL \<and> buf \<noteq> [] then butlast buf else buf @ [k]"
  have "length ?b \<le> Suc (length buf)" by auto
  then have "length ?b + length ks < 1024" using Cons.prems(3) by simp
  then show ?case using Cons.IH [of ?b] Cons.prems by (auto simp: typed_def nul_free_def Let_def)
qed (simp add: typed_def)

section \<open>Examples\<close>

definition tea0 :: tea where
  "tea0 = \<lparr>min_steps = [0, 0, 0], max_steps = [100, 100, 100], pos = [0, 0, 0], status = [0, 0, 0]\<rparr>"

definition turn0 :: turn where
  "turn0 = \<lparr>accepts = None, packets = (\<lambda>fd. None), late = False, hdrfile = True, mkstemp = True\<rparr>"

lemma drain_lines_witness:
  "map_option (\<lambda>sv. (mails sv, pos (stage sv), serbuf (dev sv)))
     (drain turn0 ((server_start tea0 [Got ''abspo'', Got ''s1=7\<newline>abspos2'', Got ''=9\<newline>sta''])\<lparr>poll_set := [(5, None), (6, None)]\<rparr>)) =
   Some ([(5, ''abspos1=7\<newline>''), (6, ''abspos1=7\<newline>''), (5, ''abspos2=9\<newline>''), (6, ''abspos2=9\<newline>'')], [0, 7, 9], ''sta'')"
proof -
  let ?sv = "(server_start tea0 [Got ''abspo'', Got ''s1=7\<newline>abspos2'', Got ''=9\<newline>sta''])\<lparr>poll_set := [(5, None), (6, None)]\<rparr>"
  have "holds (dev ?sv) (concat (map (\<lambda>l. l @ [NL]) [''abspos1=7'', ''abspos2=9'']) @ ''sta'')"
    unfolding holds_def by (rule conjI, rule exI [of _ "[''abspo'', ''s1=7\<newline>abspos2'', ''=9\<newline>sta'']"]) (simp_all add: server_start_def nul_free_def)
  moreover have "\<forall>l \<in> set [''sta'', ''abspos1=7'', ''abspos2=9'']. line_ok l" by (simp add: line_ok_def)
  ultimately have "drain turn0 ?sv = map_option (\<lambda>(t, n). ?sv\<lparr>dev := (dev ?sv)\<lparr>rx := [], serbuf := ''sta''\<rparr>, stage := t, need2poll := n,
        mails := mails ?sv @ concat (map (\<lambda>l. map (\<lambda>(fd, r). (fd, l @ [NL])) (poll_set ?sv)) [''abspos1=7'', ''abspos2=9''])\<rparr>)
      (parse_lines turn0 [''abspos1=7'', ''abspos2=9''] (stage ?sv, need2poll ?sv))"
    by (rule drain_lines)
  moreover have "map_option (\<lambda>(t, n). pos t) (parse_lines turn0 [''abspos1=7'', ''abspos2=9''] (tea0, True)) = Some [0, 7, 9]" by code_simp
  ultimately show ?thesis by (auto simp: server_start_def)
qed

text \<open>A client connects and moves a motor; the next command is out of range.\<close>

definition turns0 :: "turn list" where
  "turns0 = [turn0\<lparr>accepts := Some 7\<rparr>, turn0\<lparr>packets := (\<lambda>fd. if fd = 7 then Some ''abspos1=30\<newline>'' else None)\<rparr>,
     turn0\<lparr>packets := (\<lambda>fd. if fd = 7 then Some ''abspos1=300\<newline>'' else None)\<rparr>]"

lemma turns0_run:
  "map_option (\<lambda>sv. (written (dev sv), mails sv, map fst (poll_set sv))) (run_server (\<lambda>x. True) turns0 (server_start tea0 [NoData, Got ''abspos1=30\<newline>''])) =
     Some ([''abspos1=30\<newline>''], [(7, ''Steps out of range\<newline>'')], [7])"
  by code_simp

lemma run_server_range_witness:
  "\<exists>sv. run_server (\<lambda>x. True) turns0 (server_start tea0 [NoData, Got ''abspos1=30\<newline>'']) = Some sv \<and>
     ''abspos1=30\<newline>'' \<in> set (written (dev sv)) \<and> min_steps tea0 ! 1 \<le> 30 \<and> 30 \<le> max_steps tea0 ! 1"
proof -
  have t: "set_text TEACMD_POSITION 1 [] [] 30 [NL] = ''abspos1=30\<newline>''" "decdigit NL = None" by code_simp+
  obtain sv where sv: "run_server (\<lambda>x. True) turns0 (server_start tea0 [NoData, Got ''abspos1=30\<newline>'']) = Some sv"
      "written (dev sv) = [''abspos1=30\<newline>'']"
    using turns0_run by auto
  have "TEACMD_POSITION = TEACMD_POSITION \<and> min_steps tea0 ! 1 \<le> 30 \<and> 30 \<le> max_steps tea0 ! 1"
    by (rule run_server_range [OF sv(1), THEN conjunct2, rule_format, of TEACMD_POSITION 1 "[]" "[]" 30 "[NL]"]) (simp_all only: t sv(2), simp_all add: blank_def int_ok_def t(2))
  then show ?thesis using sv by simp
qed

lemma run_server_table_witness:
  "\<exists>sv. run_server (\<lambda>x. True) turns0 (server_start tea0 [NoData, Got ''abspos1=30\<newline>'']) = Some sv \<and>
     \<not> exited sv \<and> mset (map fst (poll_set sv)) + mset (closed sv) = {#7#}"
proof -
  obtain sv where sv: "run_server (\<lambda>x. True) turns0 (server_start tea0 [NoData, Got ''abspos1=30\<newline>'']) = Some sv"
    using turns0_run by auto
  show ?thesis using run_server_table [OF sv] sv by (auto simp: turns0_def turn0_def)
qed

lemma failed_accepts_lock_witness:
  "\<exists>sv. run_server (\<lambda>x. True) (replicate 30 (turn0\<lparr>accepts := Some (- 1)\<rparr>) @ [turn0\<lparr>accepts := Some 7\<rparr>]) (server_start tea0 []) = Some sv \<and>
     closed sv = [7] \<and> map fst (poll_set sv) = replicate 30 (- 1)"
proof -
  have "run_server (\<lambda>x. True) (replicate 30 (turn0\<lparr>accepts := Some (- 1)\<rparr>) @ [turn0\<lparr>accepts := Some 7\<rparr>]) (server_start tea0 []) \<noteq> None"
    by code_simp
  then obtain sv where sv: "run_server (\<lambda>x. True) (replicate 30 (turn0\<lparr>accepts := Some (- 1)\<rparr>) @ [turn0\<lparr>accepts := Some 7\<rparr>]) (server_start tea0 []) = Some sv"
    by blast
  show ?thesis using failed_accepts_lock [OF sv, of 7] sv by simp
qed

end
