(* ===== verification/Pressure.thy ===== *)
theory Pressure
  imports Sensors "HOL-Library.Signed_Division" "HOL-Library.Monad_Syntax"
begin

text \<open>
  The pressure sensors of \<open>I2Csensors\<close>: \<open>BMP180.c\<close>, \<open>BMP280.c\<close> (which serves the BME280 too) and \<open>BMP580.c\<close>,
  and the table of all sensors in \<open>sensor.c\<close>. The compensation of the raw values is done in fixed point:
  signed values are integers that are checked against the width of their C type, unsigned ones are cut
  to it. The outcome \<open>None\<close> is a division by zero, a signed overflow or a null pointer. The theorems give
  calibrations for which neither happens, and calibrations for which the program dies.
\<close>

section \<open>Fixed point arithmetic\<close>

definition fits :: "nat \<Rightarrow> int \<Rightarrow> bool" where
  "fits w x \<longleftrightarrow> - (2 ^ (w - 1)) \<le> x \<and> x < 2 ^ (w - 1)"

definition sgn_c :: "nat \<Rightarrow> int \<Rightarrow> int option" where
  "sgn_c w x = (if fits w x then Some x else None)"

text \<open>\<open>>>\<close> on a signed value, and the division of C.\<close>

definition sar :: "int \<Rightarrow> nat \<Rightarrow> int" where
  "sar x n = x div 2 ^ n"

definition divide_c :: "nat \<Rightarrow> int \<Rightarrow> int \<Rightarrow> int option" where
  "divide_c w a b = (if b = 0 then None else sgn_c w (a sdiv b))"

text \<open>A value stored to an \<open>int32_t\<close> from an \<open>uint32_t\<close>.\<close>

definition to_i32 :: "int \<Rightarrow> int" where
  "to_i32 x = sint (word_of_int x :: u32)"

definition le16 :: "u8 \<Rightarrow> u8 \<Rightarrow> u16" where
  "le16 lo hi = join_bytes hi lo"

record 'c bmp = sensor +
  privdata :: "'c option"

section \<open>BMP180\<close>

record cali180 =
  AC1 :: int
  AC2 :: int
  AC3 :: int
  AC4 :: int
  AC5 :: int
  AC6 :: int
  B1 :: int
  B2 :: int
  MB :: int
  MC :: int
  MD :: int
  MCfix :: int
  AC1_fix :: int
  Tuncomp :: int
  calibrated :: bool

definition cali180_0 :: cali180 where
  "cali180_0 = \<lparr>AC1 = 0, AC2 = 0, AC3 = 0, AC4 = 0, AC5 = 0, AC6 = 0, B1 = 0, B2 = 0, MB = 0, MC = 0, MD = 0,
     MCfix = 0, AC1_fix = 0, Tuncomp = 0, calibrated = False\<rparr>"

text \<open>
  The 35 bytes of the structure are read, the registers behind the calibration too; what they leave in
  \<open>Tuncomp\<close> is overwritten before it is used.
\<close>

definition cali180_of :: "u8 list \<Rightarrow> cali180" where
  "cali180_of d =
     (let w = (\<lambda>i. join_bytes (d ! (2 * i)) (d ! (2 * i + 1))); s = (\<lambda>i. sint (w i)); u = (\<lambda>i. uint (w i)) in
      \<lparr>AC1 = s 0, AC2 = s 1, AC3 = s 2, AC4 = u 3, AC5 = u 4, AC6 = u 5, B1 = s 6, B2 = s 7, MB = s 8, MC = s 9, MD = s 10,
       MCfix = s 9 * 2 ^ 11, AC1_fix = s 0 * 2 ^ 2,
       Tuncomp = sint (word_rcat [d ! 33, d ! 32, d ! 31, d ! 30] :: u32), calibrated = True\<rparr>)"

definition readcompdata180 :: "'h i2c_io \<Rightarrow> 'h i2c \<Rightarrow> cali180 bmp \<Rightarrow> 'h i2c \<times> cali180 bmp \<times> bool" where
  "readcompdata180 io b s =
     (let s1 = (if privdata s = None then s\<lparr>privdata := Some cali180_0\<rparr> else s) in
      case i2c_read_data8 io 0xAA 35 b of
        (b1, None) \<Rightarrow> (b1, s1, False)
      | (b1, Some d) \<Rightarrow> (b1, s1\<lparr>privdata := Some (cali180_of d)\<rparr>, True))"

definition BMP180_reset :: "'h i2c_io \<Rightarrow> 'h i2c \<Rightarrow> 'h i2c \<times> bool" where
  "BMP180_reset io b = i2c_write_reg8 io 0xE0 0xB6 b"

definition BMP180_init :: "'h i2c_io \<Rightarrow> 'h i2c \<Rightarrow> cali180 bmp \<Rightarrow> 'h i2c \<times> cali180 bmp \<times> bool" where
  "BMP180_init io b s =
     (let s0 = s\<lparr>status := SENS_NOTINIT\<rparr> in
      case BMP180_reset io b of
        (b1, False) \<Rightarrow> (b1, s0, False)
      | (b1, True) \<Rightarrow>
          (case i2c_read_reg8 io 0xD0 b1 of
             (b2, None) \<Rightarrow> (b2, s0, False)
           | (b2, Some devID) \<Rightarrow>
               if devID \<noteq> 0x55 then (b2, s0, False)
               else
                 (case readcompdata180 io b2 s0 of
                    (b3, s1, False) \<Rightarrow> (b3, s1, False)
                  | (b3, s1, True) \<Rightarrow> (b3, s1\<lparr>status := SENS_RELAX\<rparr>, True))))"

definition BMP180_start :: "'h i2c_io \<Rightarrow> 'h i2c \<Rightarrow> cali180 bmp \<Rightarrow> 'h i2c \<times> cali180 bmp \<times> bool" where
  "BMP180_start io b s =
     (case privdata s of
        None \<Rightarrow> (b, s, False)
      | Some c \<Rightarrow>
          if status s = SENS_BUSY \<or> \<not> calibrated c then (b, s, False)
          else
            (case i2c_write_reg8 io 0xF4 (0x0E OR 0x20) b of
               (b1, False) \<Rightarrow> (b1, s\<lparr>status := SENS_ERR\<rparr>, False)
             | (b1, True) \<Rightarrow> (b1, s\<lparr>status := SENS_BUSY\<rparr>, True)))"

text \<open>\<open>compens\<close> with the oversampling of 3 that is compiled in: the temperature, the
  terms of the raw pressure, the pressure in Pa.\<close>

definition comp180_B5 :: "cali180 \<Rightarrow> int option" where
  "comp180_B5 c =
     do { x0 \<leftarrow> sgn_c 32 (Tuncomp c - AC6 c); x1 \<leftarrow> sgn_c 32 (x0 * AC5 c);
          let X1 = sar x1 15;
          d \<leftarrow> sgn_c 32 (X1 + MD c); X2 \<leftarrow> divide_c 32 (MCfix c) d;
          sgn_c 32 (X1 + X2) }"

definition comp180_B3 :: "cali180 \<Rightarrow> int \<Rightarrow> int option" where
  "comp180_B3 c B6 =
     do { q \<leftarrow> sgn_c 32 (B6 * B6);
          x1 \<leftarrow> sgn_c 32 (B2 c * sar q 12);
          x2 \<leftarrow> sgn_c 32 (AC2 c * B6);
          X3 \<leftarrow> sgn_c 32 (sar x1 11 + sar x2 11);
          y \<leftarrow> sgn_c 32 (AC1_fix c + X3); y8 \<leftarrow> sgn_c 32 (y * 8); y2 \<leftarrow> sgn_c 32 (y8 + 2);
          Some (sar y2 2) }"

definition comp180_B4 :: "cali180 \<Rightarrow> int \<Rightarrow> int option" where
  "comp180_B4 c B6 =
     do { x1 \<leftarrow> sgn_c 32 (AC3 c * B6);
          q \<leftarrow> sgn_c 32 (B6 * B6);
          x2 \<leftarrow> sgn_c 32 (B1 c * sar q 12);
          z \<leftarrow> sgn_c 32 (sar x1 13 + sar x2 16); z2 \<leftarrow> sgn_c 32 (z + 2);
          v \<leftarrow> sgn_c 32 (sar z2 2 + 32768);
          Some ((AC4 c * (v mod 2 ^ 32)) mod 2 ^ 32 div 2 ^ 15) }"

definition comp180_p :: "cali180 \<Rightarrow> int \<Rightarrow> int \<Rightarrow> int option" where
  "comp180_p c B5 Pval =
     do { B6 \<leftarrow> sgn_c 32 (B5 - 4000);
          B3 \<leftarrow> comp180_B3 c B6;
          B4 \<leftarrow> comp180_B4 c B6;
          w \<leftarrow> sgn_c 32 (Pval - B3);
          let B7 = (w mod 2 ^ 32 * (50000 div 8)) mod 2 ^ 32;
          if B4 = 0 then None
          else if B7 < 0x80000000 then Some (to_i32 ((B7 * 2) mod 2 ^ 32 div B4))
          else Some (to_i32 ((B7 div B4 * 2) mod 2 ^ 32)) }"

definition comp180_P :: "int \<Rightarrow> int option" where
  "comp180_P p =
     do { x1 \<leftarrow> sgn_c 32 (sar p 8 * sar p 8);
          x1 \<leftarrow> sgn_c 32 (x1 * 3038);
          x2 \<leftarrow> sgn_c 32 (- 7357 * p); X2 \<leftarrow> divide_c 32 x2 65536;
          s \<leftarrow> sgn_c 32 (sar x1 16 + X2); s \<leftarrow> sgn_c 32 (s + 3791);
          q \<leftarrow> divide_c 32 s 16;
          sgn_c 32 (p + q) }"

definition compens180 :: "cali180 \<Rightarrow> int \<Rightarrow> sensor_data \<Rightarrow> sensor_data option" where
  "compens180 c Pval sd =
     do { B5 \<leftarrow> comp180_B5 c;
          p \<leftarrow> comp180_p c B5 Pval;
          P \<leftarrow> comp180_P p;
          Some (sd\<lparr>data_T := (of_int B5 + 8) / 160, data_P := of_int P / 100\<rparr>) }"

definition BMP180_process :: "'h i2c_io \<Rightarrow> 'h i2c \<Rightarrow> cali180 bmp \<Rightarrow> ('h i2c \<times> cali180 bmp) option" where
  "BMP180_process io b s =
     (if status s \<noteq> SENS_BUSY then Some (b, s)
      else
        (case i2c_read_reg8 io 0xF4 b of
           (b1, None) \<Rightarrow> Some (b1, s\<lparr>status := SENS_ERR\<rparr>)
         | (b1, Some stat) \<Rightarrow>
             if stat AND 0x20 \<noteq> 0 then Some (b1, s)
             else if stat AND 0x10 = 0 then
               (case i2c_read_data8 io 0xF6 2 b1 of
                  (b2, None) \<Rightarrow> Some (b2, s\<lparr>status := SENS_ERR\<rparr>)
                | (b2, Some d) \<Rightarrow>
                    (case privdata s of
                       None \<Rightarrow> None
                     | Some c \<Rightarrow>
                         (let s1 = s\<lparr>privdata := Some (c\<lparr>Tuncomp := uint (join_bytes (d ! 0) (d ! 1))\<rparr>)\<rparr> in
                          case i2c_write_reg8 io 0xF4 (0x14 OR 0x20 OR 0xC0) b2 of
                            (b3, False) \<Rightarrow> Some (b3, s1\<lparr>status := SENS_ERR\<rparr>)
                          | (b3, True) \<Rightarrow> Some (b3, s1))))
             else
               (case i2c_read_data8 io 0xF6 3 b1 of
                  (b2, None) \<Rightarrow> Some (b2, s\<lparr>status := SENS_ERR\<rparr>)
                | (b2, Some d) \<Rightarrow>
                    do { c \<leftarrow> privdata s;
                         sd \<leftarrow> compens180 c ((uint (d ! 0) * 2 ^ 16 + uint (d ! 1) * 2 ^ 8 + uint (d ! 2)) div 2 ^ 5) (sdata s);
                         Some (b2, s\<lparr>sdata := sd, status := SENS_RDY\<rparr>) })))"

section \<open>BMP280 and BME280\<close>

record params280 =
  filter280 :: u8
  p_os :: u8
  t_os :: u8
  h_os :: u8
  ID :: u8
  regctl :: u8

definition defparams280 :: params280 where
  "defparams280 = \<lparr>filter280 = 2, p_os = 5, t_os = 5, h_os = 5, ID = 0, regctl = 0\<rparr>"

record cali280 =
  dig_T1 :: int
  dig_T2 :: int
  dig_T3 :: int
  dig_P1 :: int
  dig_P2 :: int
  dig_P3 :: int
  dig_P4 :: int
  dig_P5 :: int
  dig_P6 :: int
  dig_P7 :: int
  dig_P8 :: int
  dig_P9 :: int
  dig_H1 :: int
  dig_H2 :: int
  dig_H3 :: int
  dig_H4 :: int
  dig_H5 :: int
  dig_H6 :: int
  done280 :: bool
  params :: params280

definition cali280_0 :: cali280 where
  "cali280_0 = \<lparr>dig_T1 = 0, dig_T2 = 0, dig_T3 = 0, dig_P1 = 0, dig_P2 = 0, dig_P3 = 0, dig_P4 = 0, dig_P5 = 0, dig_P6 = 0,
     dig_P7 = 0, dig_P8 = 0, dig_P9 = 0, dig_H1 = 0, dig_H2 = 0, dig_H3 = 0, dig_H4 = 0, dig_H5 = 0, dig_H6 = 0,
     done280 = False, params = defparams280\<rparr>"

text \<open>The 26 bytes of the first block, and the seven of the second with \<open>dig_H4\<close> and \<open>dig_H5\<close> as unsigned numbers.\<close>

definition caliA :: "u8 list \<Rightarrow> cali280 \<Rightarrow> cali280" where
  "caliA d c =
     (let w = (\<lambda>i. le16 (d ! (2 * i)) (d ! (2 * i + 1))); s = (\<lambda>i. sint (w i)); u = (\<lambda>i. uint (w i)) in
      c\<lparr>dig_T1 := u 0, dig_T2 := s 1, dig_T3 := s 2, dig_P1 := u 3, dig_P2 := s 4, dig_P3 := s 5, dig_P4 := s 6, dig_P5 := s 7,
        dig_P6 := s 8, dig_P7 := s 9, dig_P8 := s 10, dig_P9 := s 11, dig_H1 := uint (d ! 25)\<rparr>)"

definition caliB :: "u8 \<Rightarrow> u8 list \<Rightarrow> cali280 \<Rightarrow> cali280" where
  "caliB h1 e c =
     c\<lparr>dig_H1 := uint h1, dig_H2 := sint (le16 (e ! 0) (e ! 1)), dig_H3 := uint (e ! 2),
       dig_H4 := uint (e ! 3) * 2 ^ 4 + uint (e ! 4 AND 0x0F), dig_H5 := uint (e ! 5) * 2 ^ 4 + uint (drop_bit 4 (e ! 4)),
       dig_H6 := sint (e ! 6)\<rparr>"

definition readcompdata280 :: "'h i2c_io \<Rightarrow> 'h i2c \<Rightarrow> cali280 \<Rightarrow> 'h i2c \<times> cali280 \<times> bool" where
  "readcompdata280 io b c =
     (case i2c_read_data8 io 0x88 26 b of
        (b1, None) \<Rightarrow> (b1, c, False)
      | (b1, Some d) \<Rightarrow>
          (let c1 = caliA d c in
           if ID (params c) \<noteq> 0x60 then (b1, c1\<lparr>done280 := True\<rparr>, True)
           else
             (case i2c_read_reg8 io 0xA1 b1 of
                (b2, None) \<Rightarrow> (b2, c1, False)
              | (b2, Some h1) \<Rightarrow>
                  (case i2c_read_data8 io 0xE1 7 b2 of
                     (b3, None) \<Rightarrow> (b3, c1\<lparr>dig_H1 := uint h1\<rparr>, False)
                   | (b3, Some e) \<Rightarrow> (b3, (caliB h1 e c1)\<lparr>done280 := True\<rparr>, True)))))"

definition s_reset280 :: "'h i2c_io \<Rightarrow> 'h i2c \<Rightarrow> 'h i2c \<times> bool" where
  "s_reset280 io b = i2c_write_reg8 io 0xE0 0xB6 b"

text \<open>The wait for the end of the update, which has no timeout: whether the status could be read.\<close>

partial_function (option) wait_update :: "'h i2c_io \<Rightarrow> 'h i2c \<Rightarrow> ('h i2c \<times> bool) option" where
  "wait_update io b =
     (case i2c_read_reg8 io 0xF3 b of
        (b1, None) \<Rightarrow> Some (b1, False)
      | (b1, Some reg) \<Rightarrow> if reg AND 1 \<noteq> 0 then wait_update io b1 else Some (b1, True))"

text \<open>The settings: filter, oversampling of pressure and temperature, oversampling of the humidity.\<close>

definition configure280 :: "'h i2c_io \<Rightarrow> u8 \<Rightarrow> 'h i2c \<Rightarrow> cali280 \<Rightarrow> 'h i2c \<times> cali280 \<times> bool" where
  "configure280 io devid b c =
     (let p = params c; ctl = push_bit 5 (t_os p) OR push_bit 2 (p_os p) in
      case i2c_write_reg8 io 0xF5 (push_bit 2 (filter280 p)) b of
        (b1, False) \<Rightarrow> (b1, c, False)
      | (b1, True) \<Rightarrow>
          (case i2c_write_reg8 io 0xF4 ctl b1 of
             (b2, False) \<Rightarrow> (b2, c, False)
           | (b2, True) \<Rightarrow>
               (let c1 = c\<lparr>params := p\<lparr>regctl := ctl\<rparr>\<rparr> in
                if devid = 0x60 then (case i2c_write_reg8 io 0xF2 (h_os p) b2 of (b3, ok) \<Rightarrow> (b3, c1, ok))
                else (b2, c1, True))))"

definition s_init280 :: "'h i2c_io \<Rightarrow> 'h i2c \<Rightarrow> cali280 bmp \<Rightarrow> ('h i2c \<times> cali280 bmp \<times> bool) option" where
  "s_init280 io b s =
     (let s0 = s\<lparr>status := SENS_NOTINIT\<rparr> in
      case i2c_read_reg8 io 0xD0 b of
        (b1, None) \<Rightarrow> Some (b1, s0, False)
      | (b1, Some devid) \<Rightarrow>
          if devid \<noteq> 0x58 \<and> devid \<noteq> 0x60 then Some (b1, s0, False)
          else
            (case s_reset280 io b1 of
               (b2, False) \<Rightarrow> Some (b2, s0, False)
             | (b2, True) \<Rightarrow>
                 (case wait_update io b2 of
                    None \<Rightarrow> None
                  | Some (b3, False) \<Rightarrow> Some (b3, s0, False)
                  | Some (b3, True) \<Rightarrow>
                      (let c = (case privdata s of None \<Rightarrow> cali280_0 | Some c \<Rightarrow> c\<lparr>done280 := False\<rparr>);
                           c0 = c\<lparr>params := (params c)\<lparr>ID := devid\<rparr>\<rparr>
                       in case readcompdata280 io b3 c0 of
                            (b4, c1, False) \<Rightarrow> Some (b4, s0\<lparr>privdata := Some c1\<rparr>, False)
                          | (b4, c1, True) \<Rightarrow>
                              (case configure280 io devid b4 c1 of
                                 (b5, c2, False) \<Rightarrow> Some (b5, s0\<lparr>privdata := Some c2\<rparr>, False)
                               | (b5, c2, True) \<Rightarrow> Some (b5, s0\<lparr>privdata := Some c2, status := SENS_RELAX\<rparr>, True))))))"

definition s_start280 :: "'h i2c_io \<Rightarrow> 'h i2c \<Rightarrow> cali280 bmp \<Rightarrow> 'h i2c \<times> cali280 bmp \<times> bool" where
  "s_start280 io b s =
     (case privdata s of
        None \<Rightarrow> (b, s, False)
      | Some c \<Rightarrow>
          if status s = SENS_BUSY \<or> \<not> done280 c then (b, s, False)
          else
            (case i2c_write_reg8 io 0xF4 (regctl (params c) OR 1) b of
               (b1, False) \<Rightarrow> (b1, s, False)
             | (b1, True) \<Rightarrow> (b1, s\<lparr>status := SENS_BUSY\<rparr>, True)))"

text \<open>\<open>compTemp\<close>: \<open>t_fine\<close> and the temperature in hundredths.\<close>

definition compTemp :: "cali280 \<Rightarrow> int \<Rightarrow> (int \<times> int) option" where
  "compTemp c adc_temp =
     do { t2 \<leftarrow> sgn_c 32 (dig_T1 c * 2);
          a \<leftarrow> sgn_c 32 (sar adc_temp 3 - t2); v1 \<leftarrow> sgn_c 32 (a * dig_T2 c);
          d \<leftarrow> sgn_c 32 (sar adc_temp 4 - dig_T1 c); q \<leftarrow> sgn_c 32 (d * d);
          v2 \<leftarrow> sgn_c 32 (sar q 12 * dig_T3 c);
          t_fine \<leftarrow> sgn_c 32 (sar v1 11 + sar v2 14);
          f \<leftarrow> sgn_c 32 (t_fine * 5); g \<leftarrow> sgn_c 32 (f + 128);
          Some (t_fine, sar g 8) }"

text \<open>\<open>compPres\<close>: the two values of \<open>var2\<close> and \<open>var1\<close> before the division, the correction behind it, the pressure in \<open>1/25600\<close> hPa.\<close>

definition pres_var2 :: "cali280 \<Rightarrow> int \<Rightarrow> int option" where
  "pres_var2 c var1 =
     do { q \<leftarrow> sgn_c 64 (var1 * var1); var2 \<leftarrow> sgn_c 64 (q * dig_P6 c);
          a \<leftarrow> sgn_c 64 (var1 * dig_P5 c); a17 \<leftarrow> sgn_c 64 (a * 2 ^ 17); var2 \<leftarrow> sgn_c 64 (var2 + a17);
          b35 \<leftarrow> sgn_c 64 (dig_P4 c * 2 ^ 35); sgn_c 64 (var2 + b35) }"

definition pres_var1 :: "cali280 \<Rightarrow> int \<Rightarrow> int option" where
  "pres_var1 c var1 =
     do { q \<leftarrow> sgn_c 64 (var1 * var1); e \<leftarrow> sgn_c 64 (q * dig_P3 c);
          f \<leftarrow> sgn_c 64 (var1 * dig_P2 c); f12 \<leftarrow> sgn_c 64 (f * 2 ^ 12); var1 \<leftarrow> sgn_c 64 (sar e 8 + f12);
          g \<leftarrow> sgn_c 64 (2 ^ 47 + var1); h \<leftarrow> sgn_c 64 (g * dig_P1 c);
          Some (sar h 33) }"

definition pres_tail :: "cali280 \<Rightarrow> int \<Rightarrow> int option" where
  "pres_tail c p =
     do { r \<leftarrow> sgn_c 64 (dig_P9 c * sar p 13); r \<leftarrow> sgn_c 64 (r * sar p 13);
          u \<leftarrow> sgn_c 64 (dig_P8 c * p);
          s \<leftarrow> sgn_c 64 (p + sar r 25); s \<leftarrow> sgn_c 64 (s + sar u 19);
          sgn_c 64 (sar s 8 + dig_P7 c * 2 ^ 4) }"

definition compPres :: "cali280 \<Rightarrow> int \<Rightarrow> int \<Rightarrow> int option" where
  "compPres c adc_press fine_temp =
     do { v \<leftarrow> sgn_c 64 (fine_temp - 128000);
          var2 \<leftarrow> pres_var2 c v;
          var1 \<leftarrow> pres_var1 c v;
          if var1 = 0 then Some 0
          else
            do { p \<leftarrow> sgn_c 32 (1048576 - adc_press);
                 p31 \<leftarrow> sgn_c 64 (p * 2 ^ 31); m \<leftarrow> sgn_c 64 (p31 - var2); n \<leftarrow> sgn_c 64 (m * 3125);
                 p \<leftarrow> divide_c 64 n var1;
                 pres_tail c p } }"

text \<open>\<open>compHum\<close>: the humidity in \<open>1/1024\<close> percent.\<close>

definition compHum :: "cali280 \<Rightarrow> int \<Rightarrow> int \<Rightarrow> int option" where
  "compHum c adc_hum fine_temp =
     do { x \<leftarrow> sgn_c 32 (fine_temp - 76800);
          h14 \<leftarrow> sgn_c 32 (adc_hum * 2 ^ 14); h4 \<leftarrow> sgn_c 32 (dig_H4 c * 2 ^ 20);
          a \<leftarrow> sgn_c 32 (h14 - h4); h5 \<leftarrow> sgn_c 32 (dig_H5 c * x);
          a \<leftarrow> sgn_c 32 (a - h5); a \<leftarrow> sgn_c 32 (a + 16384);
          b \<leftarrow> sgn_c 32 (x * dig_H6 c); d \<leftarrow> sgn_c 32 (x * dig_H3 c); d \<leftarrow> sgn_c 32 (sar d 11 + 32768);
          b \<leftarrow> sgn_c 32 (sar b 10 * d); b \<leftarrow> sgn_c 32 (sar b 10 + 2097152);
          b \<leftarrow> sgn_c 32 (b * dig_H2 c); b \<leftarrow> sgn_c 32 (b + 8192);
          v \<leftarrow> sgn_c 32 (sar a 15 * sar b 14);
          q \<leftarrow> sgn_c 32 (sar v 15 * sar v 15); q \<leftarrow> sgn_c 32 (sar q 7 * dig_H1 c);
          v \<leftarrow> sgn_c 32 (v - sar q 4);
          Some (sar (min 419430400 (max 0 v)) 12) }"

definition raw20 :: "u8 \<Rightarrow> u8 \<Rightarrow> u8 \<Rightarrow> int" where
  "raw20 a b c = uint a * 2 ^ 12 + uint b * 2 ^ 4 + uint c div 2 ^ 4"

definition compens280 :: "cali280 \<Rightarrow> u8 list \<Rightarrow> sensor_data \<Rightarrow> sensor_data option" where
  "compens280 c d sd =
     do { (t_fine, T) \<leftarrow> compTemp c (raw20 (d ! 3) (d ! 4) (d ! 5));
          P \<leftarrow> compPres c (raw20 (d ! 0) (d ! 1) (d ! 2)) t_fine;
          let sd1 = sd\<lparr>data_T := of_int T / 100, data_P := of_int P / 25600\<rparr>;
          if ID (params c) = 0x60
          then do { H \<leftarrow> compHum c (uint (d ! 6) * 2 ^ 8 + uint (d ! 7)) t_fine; Some (sd1\<lparr>data_H := of_int H / 1024\<rparr>) }
          else Some sd1 }"

definition s_process280 :: "'h i2c_io \<Rightarrow> 'h i2c \<Rightarrow> cali280 bmp \<Rightarrow> ('h i2c \<times> cali280 bmp) option" where
  "s_process280 io b s =
     (if status s \<noteq> SENS_BUSY then Some (b, s)
      else
        (case i2c_read_reg8 io 0xF3 b of
           (b1, None) \<Rightarrow> Some (b1, s\<lparr>status := SENS_ERR\<rparr>)
         | (b1, Some reg) \<Rightarrow>
             if reg AND 8 \<noteq> 0 then Some (b1, s)
             else
               (case privdata s of
                  None \<Rightarrow> None
                | Some c \<Rightarrow>
                    (case i2c_read_data8 io 0xF7 (if ID (params c) = 0x58 then 6 else 8) b1 of
                       (b2, None) \<Rightarrow> Some (b2, s\<lparr>status := SENS_ERR\<rparr>)
                     | (b2, Some d) \<Rightarrow>
                         map_option (\<lambda>sd. (b2, s\<lparr>sdata := sd, status := SENS_RDY\<rparr>)) (compens280 c d (sdata s))))))"

definition s_props280 :: "cali280 bmp \<Rightarrow> sensor_props" where
  "s_props280 s =
     \<lparr>prop_T = True, prop_H = (case privdata s of None \<Rightarrow> False | Some c \<Rightarrow> ID (params c) = 0x60), prop_P = True, prop_htr = False\<rparr>"

section \<open>BMP580\<close>

record params580 =
  filter580 :: u8
  p_os580 :: u8
  t_os580 :: u8
  pmode :: u8
  odr :: u8
  ID580 :: u8

definition defparams580 :: params580 where
  "defparams580 = \<lparr>filter580 = 3, p_os580 = 5, t_os580 = 5, pmode = 2, odr = 0x1C, ID580 = 0\<rparr>"

text \<open>The settings of \<open>s_init\<close>, each written whether or not the one before got through.\<close>

definition settings580 :: "params580 \<Rightarrow> (u8 \<times> u8) list" where
  "settings580 p =
     [(0x31, push_bit 3 (filter580 p) OR filter580 p), (0x36, 0x40 OR push_bit 3 (p_os580 p) OR t_os580 p),
      (0x37, push_bit 2 (odr p) OR pmode p), (0x15, 1)]"

definition s_init580 :: "'h i2c_io \<Rightarrow> 'h i2c \<Rightarrow> params580 bmp \<Rightarrow> 'h i2c \<times> params580 bmp \<times> bool" where
  "s_init580 io b s =
     (let s0 = s\<lparr>status := SENS_NOTINIT\<rparr> in
      case i2c_read_reg8 io 0x01 b of
        (b1, None) \<Rightarrow> (b1, s0, False)
      | (b1, Some devid) \<Rightarrow>
          if devid \<noteq> 0x50 \<and> devid \<noteq> 0x51 then (b1, s0, False)
          else
            (case i2c_write_reg8 io 0x7E 0xB6 b1 of
               (b2, False) \<Rightarrow> (b2, s0, False)
             | (b2, True) \<Rightarrow>
                 (let p = defparams580\<lparr>ID580 := devid\<rparr>;
                      b3 = fold (\<lambda>(r, v) b. fst (i2c_write_reg8 io r v b)) (settings580 p) b2
                  in (b3, s0\<lparr>privdata := Some p, status := SENS_RELAX\<rparr>, True))))"

definition s_start580 :: "'h i2c_io \<Rightarrow> 'h i2c \<Rightarrow> params580 bmp \<Rightarrow> 'h i2c \<times> params580 bmp \<times> bool" where
  "s_start580 io b s =
     (case privdata s of
        None \<Rightarrow> (b, s, False)
      | Some p \<Rightarrow>
          if pmode p = 0 \<or> pmode p = 2 then
            (case i2c_write_reg8 io 0x37 (push_bit 2 (odr p) OR 2) b of
               (b1, False) \<Rightarrow> (b1, s\<lparr>status := SENS_RELAX\<rparr>, False)
             | (b1, True) \<Rightarrow> (b1, s\<lparr>status := SENS_BUSY\<rparr>, True))
          else (b, s\<lparr>status := SENS_BUSY\<rparr>, True))"

definition raw24 :: "u8 \<Rightarrow> u8 \<Rightarrow> u8 \<Rightarrow> u32" where
  "raw24 a b c = ucast a OR push_bit 8 (ucast b) OR push_bit 16 (ucast c)"

definition s_process580 :: "'h i2c_io \<Rightarrow> 'h i2c \<Rightarrow> params580 bmp \<Rightarrow> 'h i2c \<times> params580 bmp" where
  "s_process580 io b s =
     (if status s \<noteq> SENS_BUSY then (b, s)
      else
        (case i2c_read_reg8 io 0x27 b of
           (b1, None) \<Rightarrow> (b1, s\<lparr>status := SENS_ERR\<rparr>)
         | (b1, Some reg) \<Rightarrow>
             if reg AND 1 = 0 then (b1, s)
             else
               (case i2c_read_data8 io 0x1D 6 b1 of
                  (b2, None) \<Rightarrow> (b2, s\<lparr>status := SENS_ERR\<rparr>)
                | (b2, Some d) \<Rightarrow>
                    (b2, s\<lparr>sdata := (sdata s)\<lparr>data_T := of_nat (unat (raw24 (d ! 0) (d ! 1) (d ! 2))) / 65536,
                                            data_P := of_nat (unat (raw24 (d ! 3) (d ! 4) (d ! 5))) / 64 / 100\<rparr>,
                         status := SENS_RDY\<rparr>))))"

section \<open>The table of sensors\<close>

text \<open>The names and default addresses of \<open>supported_sensors\<close>, in their order.\<close>

definition supported_sensors :: "(string \<times> u8) list" where
  "supported_sensors =
     [(''AHT10'', 0x38), (''AHT15'', 0x38), (''AHT20'', 0x38), (''AHT21'', 0x38), (''BME280'', 0x76), (''BMP180'', 0x77),
      (''BMP280'', 0x76), (''BMP580'', 0x47), (''SHT3x'', 0x44), (''SI7005'', 0x40)]"

definition sensor_new :: "string \<Rightarrow> (string \<times> u8) option" where
  "sensor_new name = (if name = [] then None else find (\<lambda>(n, a). n = name) supported_sensors)"

text \<open>A turn of \<open>sensors_list\<close>: the text so far, the size of the block and the bytes left in it; \<open>None\<close> when a write leaves the block.\<close>

fun list_turn :: "string \<Rightarrow> string \<times> int \<times> int \<Rightarrow> (string \<times> int \<times> int) option" where
  "list_turn name (txt, L, rest) =
     (let l = int (length name);
          add = (if rest < l + 2 then 256 * ((256 + 2 + l - rest) div 256) else 0);
          put = (if txt = [] then name else CHR '','' # name)
      in if int (length txt + length put) + 1 > L + add then None
         else Some (txt @ put, L + add, rest + add - int (length put)))"

fun list_loop :: "string list \<Rightarrow> string \<times> int \<times> int \<Rightarrow> string option" where
  "list_loop [] (txt, L, rest) = Some txt"
| "list_loop (n # ns) st = Option.bind (list_turn n st) (list_loop ns)"

definition sensors_list :: "string option" where
  "sensors_list = list_loop (map fst supported_sensors) ([], 0, 0)"

section \<open>Bounds\<close>

lemma fits_abs: "\<bar>x\<bar> \<le> b \<Longrightarrow> b < 2 ^ (w - 1) \<Longrightarrow> fits w x"
  by (auto simp: fits_def)

lemmas fits32 = fits_abs [where w = 32, simplified]

lemmas fits64 = fits_abs [where w = 64, simplified]

lemma bind_fits: "fits w x \<Longrightarrow> Option.bind (sgn_c w x) f = f x"
  by (simp add: sgn_c_def)

lemma abs_mult_bound: "\<bar>a\<bar> \<le> A \<Longrightarrow> \<bar>b\<bar> \<le> B \<Longrightarrow> \<bar>a * b\<bar> \<le> A * B" for a b :: int
  unfolding abs_mult by (rule mult_mono) auto

lemma abs_add_bound: "\<bar>a\<bar> \<le> A \<Longrightarrow> \<bar>b\<bar> \<le> B \<Longrightarrow> \<bar>a + b\<bar> \<le> A + B" for a b :: int
  by auto

lemma abs_diff_bound: "\<bar>a\<bar> \<le> A \<Longrightarrow> \<bar>b\<bar> \<le> B \<Longrightarrow> \<bar>a - b\<bar> \<le> A + B" for a b :: int
  by auto

lemma sar_mono: "x \<le> y \<Longrightarrow> sar x n \<le> sar y n"
  unfolding sar_def by (rule zdiv_mono1) auto

lemma sar_exact [simp]: "sar (2 ^ n * B) n = B"
  by (simp add: sar_def)

lemma abs_sar_bound: "\<bar>x\<bar> \<le> A \<Longrightarrow> A \<le> 2 ^ n * B \<Longrightarrow> \<bar>sar x n\<bar> \<le> B"
  using sar_mono [of x "2 ^ n * B" n] sar_mono [of "2 ^ n * (- B)" x n] sar_exact [of n "- B"] by (simp add: abs_le_iff)

section \<open>BMP180\<close>

definition cali180_ok :: "cali180 \<Rightarrow> bool" where
  "cali180_ok c \<longleftrightarrow> \<bar>AC2 c\<bar> \<le> 32768 \<and> \<bar>AC3 c\<bar> \<le> 32768 \<and> \<bar>B1 c\<bar> \<le> 32768 \<and> \<bar>B2 c\<bar> \<le> 32768 \<and> \<bar>AC1_fix c\<bar> \<le> 131072 \<and>
     0 \<le> AC4 c \<and> AC4 c \<le> 65535"

lemma sint_u16_abs: "\<bar>sint (w :: u16)\<bar> \<le> 32768"
  using sint_greater_eq [of w] sint_less [of w] by (simp add: abs_le_iff)

lemma uint_u16: "0 \<le> uint (w :: u16)" "uint (w :: u16) \<le> 65535"
  using unsigned_less [of w, where 'a = int] by simp_all

lemma cali180_of_ok: "cali180_ok (cali180_of d)" "cali180_ok ((cali180_of d)\<lparr>Tuncomp := t\<rparr>)"
proof -
  have "\<bar>sint w * 4\<bar> \<le> 131072" for w :: u16 using sint_u16_abs [of w] by (simp add: abs_mult)
  then show "cali180_ok (cali180_of d)" by (simp add: cali180_ok_def cali180_of_def Let_def sint_u16_abs uint_u16)
  then show "cali180_ok ((cali180_of d)\<lparr>Tuncomp := t\<rparr>)" by (simp add: cali180_ok_def)
qed

lemma comp180_square:
  assumes "\<bar>B6\<bar> \<le> 12000" "\<bar>k\<bar> \<le> 32768"
  shows "\<bar>B6 * B6\<bar> \<le> 144000000" "\<bar>k * sar (B6 * B6) 12\<bar> \<le> 1152024576" "\<bar>k * B6\<bar> \<le> 393216000"
proof -
  show q: "\<bar>B6 * B6\<bar> \<le> 144000000" using abs_mult_bound [OF assms(1,1)] by simp
  have q12: "\<bar>sar (B6 * B6) 12\<bar> \<le> 35157" by (rule abs_sar_bound [OF q]) simp
  show "\<bar>k * sar (B6 * B6) 12\<bar> \<le> 1152024576" using abs_mult_bound [OF assms(2) q12] by simp
  show "\<bar>k * B6\<bar> \<le> 393216000" using abs_mult_bound [OF assms(2,1)] by simp
qed

lemma comp180_B3_defined:
  assumes "cali180_ok c" "\<bar>B6\<bar> \<le> 12000"
  shows "\<exists>B3. comp180_B3 c B6 = Some B3 \<and> \<bar>B3\<bar> \<le> 1771171"
proof -
  have k: "\<bar>AC2 c\<bar> \<le> 32768" "\<bar>B2 c\<bar> \<le> 32768" "\<bar>AC1_fix c\<bar> \<le> 131072" using assms(1) by (simp_all add: cali180_ok_def)
  note x = comp180_square [OF assms(2) k(2)] comp180_square [OF assms(2) k(1)]
  define X3 where "X3 = sar (B2 c * sar (B6 * B6) 12) 11 + sar (AC2 c * B6) 11"
  have "\<bar>X3\<bar> \<le> 562513 + 192000" unfolding X3_def by (rule abs_add_bound [OF abs_sar_bound [OF x(2)] abs_sar_bound [OF x(6)]]) simp_all
  then have X3: "\<bar>X3\<bar> \<le> 754513" by simp
  define y where "y = AC1_fix c + X3"
  have y: "\<bar>y\<bar> \<le> 885585" unfolding y_def using abs_add_bound [OF k(3) X3] by simp
  have y8: "\<bar>y * 8\<bar> \<le> 7084680" and y2: "\<bar>y * 8 + 2\<bar> \<le> 7084682" using y by (auto simp: abs_le_iff)
  have B3: "\<bar>sar (y * 8 + 2) 2\<bar> \<le> 1771171" by (rule abs_sar_bound [OF y2]) simp
  have "comp180_B3 c B6 = Some (sar (y * 8 + 2) 2)"
    unfolding comp180_B3_def
    by (simp only: bind_fits fits32 [OF x(1)] fits32 [OF x(2)] fits32 [OF x(6)] X3_def [symmetric] fits32 [OF X3] y_def [symmetric]
        fits32 [OF y] fits32 [OF y8] fits32 [OF y2] rel_simps)
  then show ?thesis using B3 by simp
qed

lemma comp180_B4_defined:
  assumes "cali180_ok c" "\<bar>B6\<bar> \<le> 12000" "3 \<le> AC4 c"
  shows "\<exists>B4. comp180_B4 c B6 = Some B4 \<and> 0 < B4"
proof -
  have k: "\<bar>AC3 c\<bar> \<le> 32768" "\<bar>B1 c\<bar> \<le> 32768" "0 \<le> AC4 c" "AC4 c \<le> 65535" using assms(1) by (simp_all add: cali180_ok_def)
  note x = comp180_square [OF assms(2) k(1)] comp180_square [OF assms(2) k(2)]
  define z where "z = sar (AC3 c * B6) 13 + sar (B1 c * sar (B6 * B6) 12) 16"
  have "\<bar>z\<bar> \<le> 48000 + 17579" unfolding z_def by (rule abs_add_bound [OF abs_sar_bound [OF x(3)] abs_sar_bound [OF x(5)]]) simp_all
  then have z: "\<bar>z\<bar> \<le> 65579" and z2: "\<bar>z + 2\<bar> \<le> 65581" by auto
  have X: "\<bar>sar (z + 2) 2\<bar> \<le> 16396" by (rule abs_sar_bound [OF z2]) simp
  define v where "v = sar (z + 2) 2 + 32768"
  have v: "16372 \<le> v" "v \<le> 49164" "\<bar>v\<bar> \<le> 49164" using X by (auto simp: v_def abs_le_iff)
  have "AC4 c * v \<le> 65535 * 49164" by (rule mult_mono) (use v k in auto)
  moreover have "3 * 16372 \<le> AC4 c * v" by (rule mult_mono) (use v assms(3) in auto)
  ultimately have "0 < (AC4 c * (v mod 2 ^ 32)) mod 2 ^ 32 div 2 ^ 15" using v(1,2) by (simp add: pos_imp_zdiv_pos_iff)
  moreover have "comp180_B4 c B6 = Some ((AC4 c * (v mod 2 ^ 32)) mod 2 ^ 32 div 2 ^ 15)"
    unfolding comp180_B4_def
    by (simp only: bind_fits fits32 [OF x(3)] fits32 [OF x(1)] fits32 [OF x(5)] z_def [symmetric] fits32 [OF z] fits32 [OF z2]
        v_def [symmetric] fits32 [OF v(3)] rel_simps)
  ultimately show ?thesis by blast
qed

lemma comp180_p_defined:
  assumes "cali180_ok c" "3 \<le> AC4 c" "- 3200 \<le> B5" "B5 \<le> 16000" "0 \<le> Pval" "Pval < 2 ^ 19"
  shows "\<exists>p. comp180_p c B5 Pval = Some p"
proof -
  have B6: "\<bar>B5 - 4000\<bar> \<le> 12000" using assms(3,4) by auto
  obtain B3 where B3: "comp180_B3 c (B5 - 4000) = Some B3" "\<bar>B3\<bar> \<le> 1771171" using comp180_B3_defined [OF assms(1) B6] by blast
  obtain B4 where B4: "comp180_B4 c (B5 - 4000) = Some B4" "0 < B4" using comp180_B4_defined [OF assms(1) B6 assms(2)] by blast
  have w: "\<bar>Pval - B3\<bar> \<le> 2295459" using B3(2) assms(5,6) by auto
  show ?thesis using B3(1) B4 fits32 [OF B6] fits32 [OF w] by (simp add: comp180_p_def bind_fits Let_def)
qed

lemma sdiv_abs_bound: "\<bar>a\<bar> \<le> A \<Longrightarrow> \<bar>a sdiv b\<bar> \<le> A" for a b :: int
proof -
  assume a: "\<bar>a\<bar> \<le> A"
  have "\<bar>a sdiv b\<bar> \<le> \<bar>a\<bar> div \<bar>b\<bar>" by (auto simp: signed_divide_int_def abs_mult abs_sgn_eq div_int_pos_iff)
  also have "\<dots> \<le> \<bar>a\<bar>" using zdiv_mono2 [of "\<bar>a\<bar>" 1 "\<bar>b\<bar>"] by (cases "b = 0") auto
  finally show ?thesis using a by simp
qed

definition pa180 :: "int \<Rightarrow> int" where
  "pa180 p = p + (sar (sar p 8 * sar p 8 * 3038) 16 + (- 7357 * p) sdiv 65536 + 3791) sdiv 16"

lemma comp180_P_defined:
  assumes "0 \<le> p"
  shows "comp180_P p = (if p < 215296 then Some (pa180 p) else None)"
proof (cases "p < 215296")
  case True
  have a0: "0 \<le> sar p 8" "sar p 8 \<le> 840" using sar_mono [of 0 p 8] sar_mono [of p 215295 8] assms True by (simp_all add: sar_def)
  have "sar p 8 * sar p 8 \<le> 840 * 840" by (rule mult_mono) (use a0 in auto)
  then have a: "\<bar>sar p 8 * sar p 8\<bar> \<le> 705600" and b: "\<bar>sar p 8 * sar p 8 * 3038\<bar> \<le> 2143612800" using a0(1) by auto
  have d: "\<bar>- 7357 * p\<bar> \<le> 1583932672" using assms True by (simp add: abs_mult)
  define X2 where "X2 = (- 7357 * p) sdiv 65536"
  have e: "\<bar>X2\<bar> \<le> 1583932672" unfolding X2_def by (rule sdiv_abs_bound [OF d])
  have f: "\<bar>sar (sar p 8 * sar p 8 * 3038) 16\<bar> \<le> 32709" by (rule abs_sar_bound [OF b]) simp
  define t where "t = sar (sar p 8 * sar p 8 * 3038) 16 + X2"
  have g: "\<bar>t\<bar> \<le> 1583965381" and h: "\<bar>t + 3791\<bar> \<le> 1583969172" using e f by (auto simp: t_def)
  have i: "\<bar>(t + 3791) sdiv 16\<bar> \<le> 1583969172" by (rule sdiv_abs_bound [OF h])
  have j: "\<bar>p + (t + 3791) sdiv 16\<bar> \<le> 1584184467" using i assms True by auto
  have "comp180_P p = Some (p + (t + 3791) sdiv 16)"
    unfolding comp180_P_def divide_c_def
    by (simp only: bind_fits fits32 [OF a] fits32 [OF b] fits32 [OF d] X2_def [symmetric] fits32 [OF e] t_def [symmetric] fits32 [OF g] fits32 [OF h]
        fits32 [OF i] sgn_c_def fits32 [OF j] rel_simps if_True if_False bind.bind_lunit)
  then show ?thesis using True by (simp add: pa180_def t_def X2_def)
next
  case False
  have "sar 215296 8 \<le> sar p 8" by (rule sar_mono) (use False in simp)
  then have "841 \<le> sar p 8" by (simp add: sar_def)
  then have "841 * 841 \<le> sar p 8 * sar p 8" by (intro mult_mono) auto
  then have "\<not> fits 32 (sar p 8 * sar p 8 * 3038)" by (simp add: fits_def)
  then show ?thesis using False by (simp add: comp180_P_def sgn_c_def)
qed

text \<open>The raw values that the driver can compensate, and a calibration on which it dies.\<close>

text \<open>
  With any calibration that the driver reads from the chip whose AC4 is at least 3, and a temperature between -20 and 100 degrees, no step of the pressure up to the raw pressure overflows or divides by zero, for all pressures of 19 bits; the last steps are exact up to a raw pressure of 215295 Pa and overflow from 215296 Pa on.
\<close>

theorem compens180_defined:
  assumes "cali180_ok c" "3 \<le> AC4 c" "comp180_B5 c = Some B5" "- 3200 \<le> B5" "B5 \<le> 16000" "0 \<le> Pval" "Pval < 2 ^ 19"
  shows "\<exists>p. comp180_p c B5 Pval = Some p \<and>
    (0 \<le> p \<longrightarrow> compens180 c Pval sd =
       (if p < 215296 then Some (sd\<lparr>data_T := (of_int B5 + 8) / 160, data_P := of_int (pa180 p) / 100\<rparr>) else None))"
proof -
  obtain p where "comp180_p c B5 Pval = Some p" using comp180_p_defined [OF assms(1,2,4-7)] by blast
  then show ?thesis using assms(3) comp180_P_defined [of p] by (auto simp: compens180_def)
qed

lemma compens180_dies:
  assumes "sar ((Tuncomp c - AC6 c) * AC5 c) 15 + MD c = 0"
  shows "compens180 c Pval sd = None"
  using assms by (simp add: compens180_def comp180_B5_def sgn_c_def divide_c_def Let_def)

text \<open>
  A chip whose calibration registers read as zeros ends the program: its data are accepted as a calibration, and the first compensation divides by zero.
\<close>

theorem BMP180_zeros:
  "compens180 ((cali180_of (replicate 35 0))\<lparr>Tuncomp := t\<rparr>) Pval sd = None"
proof -
  have "join_bytes 0 0 = 0" by (simp add: join_bytes_def)
  then have "AC5 (cali180_of (replicate 35 0)) = 0" "MD (cali180_of (replicate 35 0)) = 0" by (simp_all add: cali180_of_def Let_def)
  then show ?thesis by (intro compens180_dies) (simp add: sar_def)
qed

section \<open>BMP280\<close>

lemma compTemp_defined:
  assumes "0 \<le> dig_T1 c" "dig_T1 c \<le> 65535" "\<bar>dig_T2 c\<bar> \<le> 32768" "\<bar>dig_T3 c\<bar> \<le> 8191" "\<bar>sar adc 3 - dig_T1 c * 2\<bar> \<le> 65535"
  shows "\<exists>t_fine. compTemp c adc = Some (t_fine, sar (t_fine * 5 + 128) 8)"
proof -
  define a where "a = sar adc 3 - dig_T1 c * 2"
  define d where "d = sar adc 4 - dig_T1 c"
  have "2 * sar adc 4 \<le> sar adc 3 \<and> sar adc 3 \<le> 2 * sar adc 4 + 1" unfolding sar_def by (simp, presburger)
  then have d: "\<bar>d\<bar> \<le> 32768" using assms(5) by (auto simp: d_def)
  have t: "\<bar>dig_T1 c * 2\<bar> \<le> 131070" using assms(1,2) by simp
  have a: "\<bar>a\<bar> \<le> 65535" using assms(5) by (simp add: a_def)
  have v1: "\<bar>a * dig_T2 c\<bar> \<le> 2147450880" using abs_mult_bound [OF a assms(3)] by simp
  have q: "\<bar>d * d\<bar> \<le> 1073741824" using abs_mult_bound [OF d d] by simp
  have q12: "\<bar>sar (d * d) 12\<bar> \<le> 262144" by (rule abs_sar_bound [OF q]) simp
  have v2: "\<bar>sar (d * d) 12 * dig_T3 c\<bar> \<le> 2147221504" using abs_mult_bound [OF q12 assms(4)] by simp
  define t_fine where "t_fine = sar (a * dig_T2 c) 11 + sar (sar (d * d) 12 * dig_T3 c) 14"
  have "\<bar>t_fine\<bar> \<le> 1048560 + 131056" unfolding t_fine_def by (rule abs_add_bound [OF abs_sar_bound [OF v1] abs_sar_bound [OF v2]]) simp_all
  then have f: "\<bar>t_fine\<bar> \<le> 1179616" "\<bar>t_fine * 5\<bar> \<le> 5898080" "\<bar>t_fine * 5 + 128\<bar> \<le> 5898208" by (auto simp: abs_le_iff)
  have "compTemp c adc = Some (t_fine, sar (t_fine * 5 + 128) 8)"
    unfolding compTemp_def
    by (simp only: bind_fits fits32 [OF t] a_def [symmetric] fits32 [OF a] fits32 [OF v1] d_def [symmetric] fits32 [OF d] fits32 [OF q]
        fits32 [OF v2] t_fine_def [symmetric] fits32 [OF f(1)] fits32 [OF f(2)] fits32 [OF f(3)] rel_simps)
  then show ?thesis by blast
qed

definition press_ok :: "cali280 \<Rightarrow> bool" where
  "press_ok c \<longleftrightarrow> 30000 \<le> dig_P1 c \<and> dig_P1 c \<le> 40000 \<and> \<bar>dig_P2 c\<bar> \<le> 32768 \<and> \<bar>dig_P3 c\<bar> \<le> 32768 \<and> \<bar>dig_P4 c\<bar> \<le> 8192 \<and>
     \<bar>dig_P5 c\<bar> \<le> 4096 \<and> \<bar>dig_P6 c\<bar> \<le> 1024 \<and> \<bar>dig_P7 c\<bar> \<le> 32768 \<and> \<bar>dig_P8 c\<bar> \<le> 32768 \<and> \<bar>dig_P9 c\<bar> \<le> 32768"

lemma sdiv_abs_div: "\<bar>a\<bar> \<le> A \<Longrightarrow> 0 < B \<Longrightarrow> B \<le> b \<Longrightarrow> \<bar>a sdiv b\<bar> \<le> A div B" for a b :: int
proof -
  assume a: "\<bar>a\<bar> \<le> A" "0 < B" "B \<le> b"
  have "\<bar>a sdiv b\<bar> \<le> \<bar>a\<bar> div \<bar>b\<bar>" by (auto simp: signed_divide_int_def abs_mult abs_sgn_eq div_int_pos_iff)
  also have "\<dots> \<le> A div \<bar>b\<bar>" by (rule zdiv_mono1) (use a in auto)
  also have "\<dots> \<le> A div B" by (rule zdiv_mono2) (use a in auto)
  finally show ?thesis .
qed

lemma pres_tail_defined:
  assumes "press_ok c" "\<bar>p\<bar> \<le> 30870603206"
  shows "\<exists>P. pres_tail c p = Some P"
proof -
  have k: "\<bar>dig_P7 c\<bar> \<le> 32768" "\<bar>dig_P8 c\<bar> \<le> 32768" "\<bar>dig_P9 c\<bar> \<le> 32768" using assms(1) by (simp_all add: press_ok_def)
  have p13: "\<bar>sar p 13\<bar> \<le> 3768385" by (rule abs_sar_bound [OF assms(2)]) simp
  have r1: "\<bar>dig_P9 c * sar p 13\<bar> \<le> 123482439680" using abs_mult_bound [OF k(3) p13] by simp
  define r where "r = dig_P9 c * sar p 13 * sar p 13"
  have r: "\<bar>r\<bar> \<le> 465329373453516800" using abs_mult_bound [OF r1 p13] by (simp add: r_def)
  have r25: "\<bar>sar r 25\<bar> \<le> 13867896005" by (rule abs_sar_bound [OF r]) simp
  have u: "\<bar>dig_P8 c * p\<bar> \<le> 1011567925854208" using abs_mult_bound [OF k(2) assms(2)] by simp
  have u19: "\<bar>sar (dig_P8 c * p) 19\<bar> \<le> 1929412701" by (rule abs_sar_bound [OF u]) simp
  define s where "s = p + sar r 25 + sar (dig_P8 c * p) 19"
  have s1: "\<bar>p + sar r 25\<bar> \<le> 44738499211" using abs_add_bound [OF assms(2) r25] by simp
  have s: "\<bar>s\<bar> \<le> 46667911912" using abs_add_bound [OF s1 u19] by (simp add: s_def)
  have s8: "\<bar>sar s 8\<bar> \<le> 182296531" by (rule abs_sar_bound [OF s]) simp
  have l: "\<bar>sar s 8 + dig_P7 c * 2 ^ 4\<bar> \<le> 182820819" using s8 k(1) by (auto simp: abs_le_iff)
  have "pres_tail c p = sgn_c 64 (sar s 8 + dig_P7 c * 2 ^ 4)"
    unfolding pres_tail_def
    by (simp only: bind_fits fits64 [OF r1] r_def [symmetric] fits64 [OF r] fits64 [OF u] fits64 [OF s1] s_def [symmetric] fits64 [OF s] rel_simps)
  then show ?thesis using fits64 [OF l] by (simp add: sgn_c_def)
qed

lemma pres_var2_defined:
  assumes "press_ok c" "\<bar>v\<bar> \<le> 332800"
  shows "\<exists>var2. pres_var2 c v = Some var2 \<and> \<bar>var2\<bar> \<le> 573559596384256"
proof -
  have k: "\<bar>dig_P4 c\<bar> \<le> 8192" "\<bar>dig_P5 c\<bar> \<le> 4096" "\<bar>dig_P6 c\<bar> \<le> 1024" using assms(1) by (simp_all add: press_ok_def)
  have q: "\<bar>v * v\<bar> \<le> 110755840000" using abs_mult_bound [OF assms(2,2)] by simp
  have x: "\<bar>v * v * dig_P6 c\<bar> \<le> 113413980160000" using abs_mult_bound [OF q k(3)] by simp
  have a: "\<bar>v * dig_P5 c\<bar> \<le> 1363148800" using abs_mult_bound [OF assms(2) k(2)] by simp
  have a17: "\<bar>v * dig_P5 c * 2 ^ 17\<bar> \<le> 178670639513600" using abs_mult_bound [OF a, of "2 ^ 17" "2 ^ 17"] by simp
  have y: "\<bar>v * v * dig_P6 c + v * dig_P5 c * 2 ^ 17\<bar> \<le> 292084619673600" using abs_add_bound [OF x a17] by simp
  have b: "\<bar>dig_P4 c * 2 ^ 35\<bar> \<le> 281474976710656" using abs_mult_bound [OF k(1), of "2 ^ 35" "2 ^ 35"] by simp
  define z where "z = v * v * dig_P6 c + v * dig_P5 c * 2 ^ 17 + dig_P4 c * 2 ^ 35"
  have z: "\<bar>z\<bar> \<le> 573559596384256" using abs_add_bound [OF y b] by (simp add: z_def)
  have "pres_var2 c v = sgn_c 64 z"
    unfolding pres_var2_def z_def by (simp only: bind_fits fits64 [OF q] fits64 [OF x] fits64 [OF a] fits64 [OF a17] fits64 [OF y] fits64 [OF b] rel_simps)
  then show ?thesis using fits64 [OF z] z by (simp add: sgn_c_def)
qed

lemma pres_var1_defined:
  assumes "press_ok c" "\<bar>v\<bar> \<le> 332800"
  shows "\<exists>var1. pres_var1 c v = Some var1 \<and> 286008281 \<le> var1"
proof -
  have k: "\<bar>dig_P2 c\<bar> \<le> 32768" "\<bar>dig_P3 c\<bar> \<le> 32768" "30000 \<le> dig_P1 c" "dig_P1 c \<le> 40000" "\<bar>dig_P1 c\<bar> \<le> 40000"
    using assms(1) by (simp_all add: press_ok_def)
  have q: "\<bar>v * v\<bar> \<le> 110755840000" using abs_mult_bound [OF assms(2,2)] by simp
  have e: "\<bar>v * v * dig_P3 c\<bar> \<le> 3629247365120000" using abs_mult_bound [OF q k(2)] by simp
  have f: "\<bar>v * dig_P2 c\<bar> \<le> 10905190400" using abs_mult_bound [OF assms(2) k(1)] by simp
  have f12: "\<bar>v * dig_P2 c * 2 ^ 12\<bar> \<le> 44667659878400" using abs_mult_bound [OF f, of "2 ^ 12" "2 ^ 12"] by simp
  have e8: "\<bar>sar (v * v * dig_P3 c) 8\<bar> \<le> 14176747520000" by (rule abs_sar_bound [OF e]) simp
  have w: "\<bar>sar (v * v * dig_P3 c) 8 + v * dig_P2 c * 2 ^ 12\<bar> \<le> 58844407398400" using abs_add_bound [OF e8 f12] by simp
  define g where "g = 2 ^ 47 + (sar (v * v * dig_P3 c) 8 + v * dig_P2 c * 2 ^ 12)"
  have g: "\<bar>g\<bar> \<le> 199581895753728" and g0: "81893080956928 \<le> g" using w by (auto simp: g_def abs_le_iff)
  have h: "\<bar>g * dig_P1 c\<bar> \<le> 7983275830149120000" using abs_mult_bound [OF g k(5)] by simp
  have "81893080956928 * 30000 \<le> g * dig_P1 c" by (rule mult_mono) (use g0 k(3) in auto)
  then have "sar (81893080956928 * 30000) 33 \<le> sar (g * dig_P1 c) 33" by (rule sar_mono)
  then have "286008281 \<le> sar (g * dig_P1 c) 33" by (simp add: sar_def)
  moreover have "pres_var1 c v = Some (sar (g * dig_P1 c) 33)"
    unfolding pres_var1_def
    by (simp only: bind_fits fits64 [OF q] fits64 [OF e] fits64 [OF f] fits64 [OF f12] fits64 [OF w] g_def [symmetric] fits64 [OF g] fits64 [OF h] rel_simps)
  ultimately show ?thesis by blast
qed

lemma compPres_defined:
  assumes "press_ok c" "- 204800 \<le> t" "t \<le> 435200" "0 \<le> adc" "adc < 2 ^ 20"
  shows "\<exists>P. compPres c adc t = Some P"
proof -
  have v: "\<bar>t - 128000\<bar> \<le> 332800" using assms(2,3) by auto
  obtain x where x: "pres_var2 c (t - 128000) = Some x" "\<bar>x\<bar> \<le> 573559596384256" using pres_var2_defined [OF assms(1) v] by blast
  obtain y where y: "pres_var1 c (t - 128000) = Some y" "286008281 \<le> y" using pres_var1_defined [OF assms(1) v] by blast
  have p: "\<bar>1048576 - adc\<bar> \<le> 1048576" using assms(4,5) by auto
  have p31: "\<bar>(1048576 - adc) * 2 ^ 31\<bar> \<le> 2251799813685248" using abs_mult_bound [OF p, of "2 ^ 31" "2 ^ 31"] by simp
  define m where "m = (1048576 - adc) * 2 ^ 31 - x"
  have m: "\<bar>m\<bar> \<le> 2825359410069504" using abs_diff_bound [OF p31 x(2)] by (simp add: m_def)
  have n: "\<bar>m * 3125\<bar> \<le> 8829248156467200000" using m by (simp add: abs_mult)
  have d: "\<bar>(m * 3125) sdiv y\<bar> \<le> 30870603206" using sdiv_abs_div [OF n _ y(2)] by simp
  obtain P where P: "pres_tail c ((m * 3125) sdiv y) = Some P" using pres_tail_defined [OF assms(1) d] by blast
  have "compPres c adc t = pres_tail c ((m * 3125) sdiv y)"
    unfolding compPres_def using x(1) y
    by (simp add: bind_fits fits64 [OF v] fits32 [OF p] fits64 [OF p31, simplified] m_def [symmetric, simplified] fits64 [OF m] fits64 [OF n] divide_c_def fits64 [OF d])
  then show ?thesis using P by simp
qed

lemma compHum_range: "compHum c adc t = Some H \<Longrightarrow> 0 \<le> H \<and> H \<le> 102400"
proof -
  have "0 \<le> sar (min 419430400 (max 0 v)) 12 \<and> sar (min 419430400 (max 0 v)) 12 \<le> 102400" for v
    using sar_mono [of 0 "min 419430400 (max 0 v)" 12] sar_mono [of "min 419430400 (max 0 v)" 419430400 12] by (simp add: sar_def)
  then show "compHum c adc t = Some H \<Longrightarrow> 0 \<le> H \<and> H \<le> 102400" by (auto simp: compHum_def bind_eq_Some_conv)
qed

section \<open>Measurements\<close>

text \<open>A bus that gives prepared answers, one for each transfer, and keeps what is written to registers.\<close>

type_synonym script = "u8 list option list \<times> (u8 \<times> u8 list) list"

definition script_io :: "script i2c_io" where
  "script_io =
     \<lparr>io_rdwr = (\<lambda>(as, ws) m. ((tl as, ws), hd as)), io_smbus_read = (\<lambda>(as, ws) r. ((tl as, ws), map_option hd (hd as))),
      io_smbus_write = (\<lambda>(as, ws) r d. ((tl as, ws @ [(r, d)]), hd as \<noteq> None)), io_slave = (\<lambda>h a. (h, True))\<rparr>"

lemma script_simps:
  assumes "\<not> I2Cfd b < 1" "bus b = (a # as, ws)"
  shows "i2c_read_reg8 script_io r b = (b\<lparr>bus := (as, ws)\<rparr>, map_option hd a)"
    and "i2c_write_reg8 script_io r v b = (b\<lparr>bus := (as, ws @ [(r, [v])])\<rparr>, a \<noteq> None)"
    and "0 < n \<Longrightarrow> n + unat r \<le> 0xff \<Longrightarrow> i2c_read_data8 script_io r n b = (b\<lparr>bus := (as, ws)\<rparr>, a)"
  using assms by (auto simp: i2c_read_reg8_def i2c_write_reg8_def i2c_read_data8_def script_io_def)

fun turns :: "nat \<Rightarrow> ('a \<Rightarrow> 'a option) \<Rightarrow> 'a \<Rightarrow> 'a option" where
  "turns 0 f x = Some x"
| "turns (Suc n) f x = Option.bind (f x) (turns n f)"

lemma turns_add: "turns (m + n) f x = Option.bind (turns m f x) (turns n f)"
  by (induction m arbitrary: x) (auto split: Option.bind_splits)

lemma turns_1 [simp]: "turns (Suc 0) f x = f x"
  by (cases "f x") simp_all

lemma bind_turns_0 [simp]: "Option.bind x (turns 0 f) = x"
  by (cases x) simp_all

lemma BMP180_waits:
  assumes "\<not> I2Cfd b < 1" "bus b = (replicate n (Some [st]) @ as, ws)" "st AND 0x20 \<noteq> 0" "status s = SENS_BUSY"
  shows "turns n (\<lambda>(b, s). BMP180_process script_io b s) (b, s) = Some (b\<lparr>bus := (as, ws)\<rparr>, s)"
  using assms
proof (induction n arbitrary: b)
  case (Suc n)
  let ?b = "b\<lparr>bus := (replicate n (Some [st]) @ as, ws)\<rparr>"
  have "BMP180_process script_io b s = Some (?b, s)"
    using Suc.prems script_simps(1) [OF Suc.prems(1), of "Some [st]"] by (simp add: BMP180_process_def)
  then show ?case using Suc.IH [of ?b] Suc.prems by simp
qed simp

text \<open>
  C26. A measurement of the BMP180, however often the sensor answers that it is busy: when the temperature is there, the driver keeps it and starts the pressure with the command 0xF4; when the pressure is there, the data are the compensation of the two raw values and the sensor is ready.
\<close>

theorem BMP180_measures:
  assumes "\<not> I2Cfd b < 1" "status s = SENS_BUSY" "privdata s = Some c"
    and "bus b = (replicate n (Some [busy]) @ [Some [tdone], Some [t1, t0], Some []] @ replicate m (Some [busy]) @ [Some [pdone], Some [p2, p1, p0]] @ as, ws)"
    and "busy AND 0x20 \<noteq> 0" "tdone AND 0x20 = 0" "tdone AND 0x10 = 0" "pdone AND 0x20 = 0" "pdone AND 0x10 \<noteq> 0"
    and c': "c' = c\<lparr>Tuncomp := uint (join_bytes t1 t0)\<rparr>"
  shows "turns (n + 1 + (m + 1)) (\<lambda>(b, s). BMP180_process script_io b s) (b, s) =
    map_option (\<lambda>sd. (b\<lparr>bus := (as, ws @ [(0xF4, [0xF4])])\<rparr>, s\<lparr>privdata := Some c', sdata := sd, status := SENS_RDY\<rparr>))
      (compens180 c' ((uint p2 * 2 ^ 16 + uint p1 * 2 ^ 8 + uint p0) div 2 ^ 5) (sdata s))"
proof -
  let ?f = "\<lambda>(b, s). BMP180_process script_io b s"
  let ?ws = "ws @ [(0xF4, [0xF4])]"
  define as1 where "as1 = replicate m (Some [busy]) @ [Some [pdone], Some [p2, p1, p0]] @ as"
  define s1 where "s1 = s\<lparr>privdata := Some c'\<rparr>"
  have 1: "turns n ?f (b, s) = Some (b\<lparr>bus := ([Some [tdone], Some [t1, t0], Some []] @ as1, ws)\<rparr>, s)"
    by (rule BMP180_waits [OF assms(1) _ assms(5,2)]) (simp add: assms(4) as1_def)
  have 2: "?f (b\<lparr>bus := ([Some [tdone], Some [t1, t0], Some []] @ as1, ws)\<rparr>, s) = Some (b\<lparr>bus := (as1, ?ws)\<rparr>, s1)"
    using assms(1-3,6,7) by (simp add: BMP180_process_def script_simps s1_def c')
  have 3: "turns m ?f (b\<lparr>bus := (as1, ?ws)\<rparr>, s1) = Some (b\<lparr>bus := ([Some [pdone], Some [p2, p1, p0]] @ as, ?ws)\<rparr>, s1)"
    using BMP180_waits [of "b\<lparr>bus := (as1, ?ws)\<rparr>" m busy "[Some [pdone], Some [p2, p1, p0]] @ as" ?ws s1] assms(1,2,5) by (simp add: as1_def s1_def)
  have 4: "?f (b\<lparr>bus := ([Some [pdone], Some [p2, p1, p0]] @ as, ?ws)\<rparr>, s1) =
      map_option (\<lambda>sd. (b\<lparr>bus := (as, ?ws)\<rparr>, s1\<lparr>sdata := sd, status := SENS_RDY\<rparr>))
        (compens180 c' ((uint p2 * 2 ^ 16 + uint p1 * 2 ^ 8 + uint p0) div 2 ^ 5) (sdata s))"
    using assms(1,2,8,9) by (simp add: BMP180_process_def script_simps s1_def map_option_case bind_eq_Some_conv split: option.split)
  have "turns (n + 1 + (m + 1)) ?f (b, s) = ?f (b\<lparr>bus := ([Some [pdone], Some [p2, p1, p0]] @ as, ?ws)\<rparr>, s1)"
    unfolding turns_add 1 Option.bind.bind_lunit using 2 3 by (simp add: turns_add)
  then show ?thesis unfolding 4 by (simp add: s1_def)
qed

section \<open>Waiting without end\<close>

lemma wait_update_hangs:
  assumes "\<forall>h. \<exists>h' r. io_smbus_read io h 0xF3 = (h', Some r) \<and> r AND 1 \<noteq> 0" "\<not> I2Cfd b < 1"
  shows "wait_update io b = None"
proof -
  have "I2Cfd b < 1" if "wait_update io b = Some y" for b y
  proof (rule wait_update.raw_induct [OF _ that, of "\<lambda>i b y. i = io \<longrightarrow> I2Cfd b < 1", THEN mp, OF _ refl])
    fix w i b y
    assume ih: "\<And>i b y. w i b = Some y \<Longrightarrow> i = io \<longrightarrow> I2Cfd b < 1"
      and e: "(case i2c_read_reg8 i 0xF3 b of (b1, None) \<Rightarrow> Some (b1, False) | (b1, Some reg) \<Rightarrow> if reg AND 1 \<noteq> 0 then w i b1 else Some (b1, True)) = Some y"
    show "i = io \<longrightarrow> I2Cfd b < 1"
    proof (intro impI, rule ccontr)
      assume i: "i = io" and f: "\<not> I2Cfd b < 1"
      obtain h' r where h: "io_smbus_read io (bus b) 0xF3 = (h', Some r)" "r AND 1 \<noteq> 0" using assms(1) by blast
      then have "w io (b\<lparr>bus := h'\<rparr>) = Some y" using e f i by (simp add: i2c_read_reg8_def)
      then show False using ih f by fastforce
    qed
  qed
  then show ?thesis using assms(2) by (metis not_None_eq)
qed

section \<open>The list of names\<close>

lemma list_loop_names:
  assumes "0 \<le> L" "rest = L - int (length out)" "out = [] \<or> 0 < rest" "[] \<notin> set ns"
  shows "list_loop ns (out, L, rest) = Some (out @ concat (case ns of [] \<Rightarrow> [] | n # ms \<Rightarrow> (if out = [] then n else CHR '','' # n) # map ((#) (CHR '','')) ms))"
  using assms
proof (induction ns arbitrary: out L rest)
  case (Cons n ns)
  let ?l = "int (length n)"
  let ?add = "if rest < ?l + 2 then 256 * ((256 + 2 + ?l - rest) div 256) else 0"
  let ?put = "if out = [] then n else CHR '','' # n"
  have a: "?l + 2 \<le> rest + ?add" by auto
  have p: "int (length ?put) \<le> ?l + 1" by simp
  have "list_turn n (out, L, rest) = Some (out @ ?put, L + ?add, rest + ?add - int (length ?put))"
  proof -
    have "\<not> int (length out + length ?put) + 1 > L + ?add" using a p Cons.prems(2) by linarith
    then show ?thesis by (simp only: list_turn.simps Let_def if_False)
  qed
  moreover have "0 \<le> L + ?add" using a Cons.prems(1) by simp
  ultimately show ?case using Cons.IH [of "L + ?add" "rest + ?add - int (length ?put)" "out @ ?put"] a p Cons.prems
    by (auto simp: Let_def split: list.splits)
qed simp

text \<open>
  The list of sensor names is the names with commas between them, and growing the block in portions of 256 bytes never lets a write leave it, for any names.
\<close>

theorem list_loop_joined:
  assumes "[] \<notin> set (n # ns)"
  shows "list_loop (n # ns) ([], 0, 0) = Some (n @ concat (map ((#) (CHR '','')) ns))"
  using list_loop_names [of 0 0 "[]" "n # ns"] assms by simp

lemma list_loop_joined_witness:
  "list_loop [''AHT10'', ''BMP180'', ''SI7005''] ([], 0, 0) = Some ''AHT10,BMP180,SI7005''"
  using list_loop_joined [of "''AHT10''" "[''BMP180'', ''SI7005'']"] by simp

lemma sensors_list_text: "sensors_list = Some ''AHT10,AHT15,AHT20,AHT21,BME280,BMP180,BMP280,BMP580,SHT3x,SI7005''"
  unfolding sensors_list_def supported_sensors_def list.map fst_conv by (subst list_loop_joined) simp_all

lemma sensor_new_names: "sensor_new name = Some (n, a) \<Longrightarrow> n = name \<and> (n, a) \<in> set supported_sensors"
  by (auto simp: sensor_new_def find_Some_iff set_conv_nth split: if_splits)

text \<open>
  On a device whose status says that it is updating for ever, the initialisation of the BMP280 never returns, since the wait has no timeout.
\<close>

theorem s_init280_hangs:
  assumes "\<forall>h. \<exists>h' r. io_smbus_read io h 0xF3 = (h', Some r) \<and> r AND 1 \<noteq> 0"
    and "\<forall>h. \<exists>h'. io_smbus_read io h 0xD0 = (h', Some 0x58)" "\<forall>h r d. snd (io_smbus_write io h r d)" "\<not> I2Cfd b < 1"
  shows "s_init280 io b s = None"
proof -
  obtain h1 where "io_smbus_read io (bus b) 0xD0 = (h1, Some 0x58)" using assms(2) by blast
  then have 1: "i2c_read_reg8 io 0xD0 b = (b\<lparr>bus := h1\<rparr>, Some 0x58)" using assms(4) by (simp add: i2c_read_reg8_def)
  obtain h2 where "io_smbus_write io h1 0xE0 [0xB6] = (h2, True)" using assms(3) by (metis prod.collapse)
  then have 2: "s_reset280 io (b\<lparr>bus := h1\<rparr>) = (b\<lparr>bus := h2\<rparr>, True)" using assms(4) by (simp add: s_reset280_def i2c_write_reg8_def)
  have "wait_update io (b\<lparr>bus := h2\<rparr>) = None" by (rule wait_update_hangs [OF assms(1)]) (use assms(4) in simp)
  then show ?thesis using 1 2 by (simp add: s_init280_def)
qed

lemma s_init280_hangs_witness:
  "\<forall>s. s_init280 \<lparr>io_rdwr = (\<lambda>h m. (h, None)), io_smbus_read = (\<lambda>h r. (h, Some (if r = 0xD0 then 0x58 else 1))),
             io_smbus_write = (\<lambda>h r d. (h, True)), io_slave = (\<lambda>h a. (h, True))\<rparr>
     \<lparr>bus = (), I2Cfd = 3, lastaddr = 0x76\<rparr> s = None"
  by (rule allI, rule s_init280_hangs) simp_all

section \<open>Ranges of whole readings\<close>

text \<open>
  C16. With a calibration in the usual range the compensation of the BMP280 overflows nowhere, in 32 bits for the temperature and in 64 for the pressure, for all raw pressures of 20 bits and all temperatures of the range from -40 to 85 degrees.
\<close>

theorem compens280_defined:
  assumes "press_ok c" "0 \<le> dig_T1 c" "dig_T1 c \<le> 65535" "\<bar>dig_T2 c\<bar> \<le> 32768" "\<bar>dig_T3 c\<bar> \<le> 8191" "ID (params c) = 0x58"
    and "\<bar>sar (raw20 (d ! 3) (d ! 4) (d ! 5)) 3 - dig_T1 c * 2\<bar> \<le> 65535"
  shows "\<exists>t. compTemp c (raw20 (d ! 3) (d ! 4) (d ! 5)) = Some (t, sar (t * 5 + 128) 8) \<and>
    (- 204800 \<le> t \<and> t \<le> 435200 \<longrightarrow>
       (\<exists>P. compens280 c d sd = Some (sd\<lparr>data_T := of_int (sar (t * 5 + 128) 8) / 100, data_P := of_int P / 25600\<rparr>)))"
proof -
  obtain t where t: "compTemp c (raw20 (d ! 3) (d ! 4) (d ! 5)) = Some (t, sar (t * 5 + 128) 8)"
    using compTemp_defined [OF assms(2-5,7)] by blast
  have r: "0 \<le> raw20 x y z \<and> raw20 x y z < 2 ^ 20" for x y z :: u8
  proof -
    have "0 \<le> uint w \<and> uint w < 256" for w :: u8 using unsigned_less [of w, where 'a = int] by simp
    from this [of x] this [of y] this [of z] show ?thesis by (auto simp: raw20_def div_int_pos_iff)
  qed
  have "\<exists>P. compens280 c d sd = Some (sd\<lparr>data_T := of_int (sar (t * 5 + 128) 8) / 100, data_P := of_int P / 25600\<rparr>)" if tr: "- 204800 \<le> t" "t \<le> 435200"
  proof -
    obtain P where "compPres c (raw20 (d ! 0) (d ! 1) (d ! 2)) t = Some P" using compPres_defined [OF assms(1) tr] r by blast
    then show ?thesis using t assms(6) by (auto simp: compens280_def Let_def)
  qed
  then show ?thesis using t by blast
qed

text \<open>The example of the data sheet: 25.08 degrees and 1006.53 hPa.\<close>

definition cali280_ex :: cali280 where
  "cali280_ex = cali280_0\<lparr>dig_T1 := 27504, dig_T2 := 26435, dig_T3 := - 1000, dig_P1 := 36477, dig_P2 := - 10685, dig_P3 := 3024, dig_P4 := 2855,
     dig_P5 := 140, dig_P6 := - 7, dig_P7 := 15500, dig_P8 := - 14600, dig_P9 := 6000, done280 := True, params := defparams280\<lparr>ID := 0x58\<rparr>\<rparr>"

definition bytes280_ex :: "u8 list" where
  "bytes280_ex = [0x65, 0x5A, 0xC0, 0x7E, 0xED, 0x00]"

lemma compTemp_ex: "compTemp cali280_ex (raw20 0x7E 0xED 0x00) = Some (128422, 2508)"
  by code_simp

lemma compPres_ex: "compPres cali280_ex (raw20 0x65 0x5A 0xC0) 128422 = Some 25767233"
  by code_simp

lemma compens280_defined_witness:
  "\<forall>sd. \<exists>P. compens280 cali280_ex bytes280_ex sd = Some (sd\<lparr>data_T := 2508 / 100, data_P := of_int P / 25600\<rparr>)"
proof (rule allI)
  fix sd
  have d: "bytes280_ex ! 3 = 0x7E" "bytes280_ex ! 4 = 0xED" "bytes280_ex ! 5 = 0x00" by (simp_all add: bytes280_ex_def)
  have "\<exists>t. compTemp cali280_ex (raw20 (bytes280_ex ! 3) (bytes280_ex ! 4) (bytes280_ex ! 5)) = Some (t, sar (t * 5 + 128) 8) \<and>
    (- 204800 \<le> t \<and> t \<le> 435200 \<longrightarrow>
       (\<exists>P. compens280 cali280_ex bytes280_ex sd = Some (sd\<lparr>data_T := of_int (sar (t * 5 + 128) 8) / 100, data_P := of_int P / 25600\<rparr>)))"
    by (rule compens280_defined) (simp_all add: press_ok_def cali280_ex_def bytes280_ex_def raw20_def sar_def)
  then show "\<exists>P. compens280 cali280_ex bytes280_ex sd = Some (sd\<lparr>data_T := 2508 / 100, data_P := of_int P / 25600\<rparr>)"
    unfolding d compTemp_ex by auto
qed

definition cali180_ex :: cali180 where
  "cali180_ex = \<lparr>AC1 = 408, AC2 = - 72, AC3 = - 14383, AC4 = 32741, AC5 = 32757, AC6 = 23153, B1 = 6190, B2 = 4, MB = - 32768, MC = - 8711, MD = 2868,
     MCfix = - 8711 * 2048, AC1_fix = 408 * 4, Tuncomp = 27898, calibrated = True\<rparr>"

lemma comp180_ex: "comp180_B5 cali180_ex = Some 2400" "comp180_p cali180_ex 2400 190744 = Some 70002"
  by code_simp+

lemma compens180_ex: "compens180 cali180_ex 190744 sd = Some (sd\<lparr>data_T := (of_int 2400 + 8) / 160, data_P := of_int (pa180 70002) / 100\<rparr>)"
  using comp180_ex comp180_P_defined [of 70002] by (simp add: compens180_def)

lemma compens180_defined_witness:
  "\<forall>sd. compens180 cali180_ex 190744 sd = Some (sd\<lparr>data_T := (of_int 2400 + 8) / 160, data_P := of_int (pa180 70002) / 100\<rparr>)"
proof (rule allI)
  fix sd
  have "\<exists>p. comp180_p cali180_ex 2400 190744 = Some p \<and>
    (0 \<le> p \<longrightarrow> compens180 cali180_ex 190744 sd =
       (if p < 215296 then Some (sd\<lparr>data_T := (of_int 2400 + 8) / 160, data_P := of_int (pa180 p) / 100\<rparr>) else None))"
    by (rule compens180_defined [OF _ _ comp180_ex(1)]) (simp_all add: cali180_ok_def cali180_ex_def)
  then show "compens180 cali180_ex 190744 sd = Some (sd\<lparr>data_T := (of_int 2400 + 8) / 160, data_P := of_int (pa180 70002) / 100\<rparr>)"
    unfolding comp180_ex(2) by simp
qed

lemma BMP180_measures_witness:
  "turns (2 + 1 + (1 + 1)) (\<lambda>(b, s). BMP180_process script_io b s)
     (\<lparr>bus = ([Some [0x2E], Some [0x2E], Some [0x0E], Some [0x6C, 0xFA], Some [], Some [0x2E], Some [0xD4], Some [0x5D, 0x23, 0x00]], []),
       I2Cfd = 3, lastaddr = 0x77\<rparr>,
      \<lparr>address = 0x77, status = SENS_BUSY, sdata = \<lparr>data_T = 0, data_H = 0, data_P = 0\<rparr>, started = 0, aht2x = False, privdata = Some cali180_ex\<rparr>) =
   Some (\<lparr>bus = ([], [(0xF4, [0xF4])]), I2Cfd = 3, lastaddr = 0x77\<rparr>,
      \<lparr>address = 0x77, status = SENS_RDY, sdata = \<lparr>data_T = (of_int 2400 + 8) / 160, data_H = 0, data_P = of_int (pa180 70002) / 100\<rparr>,
       started = 0, aht2x = False, privdata = Some cali180_ex\<rparr>)"
proof -
  have c: "cali180_ex\<lparr>Tuncomp := uint (join_bytes 0x6C 0xFA)\<rparr> = cali180_ex" by (simp add: cali180_ex_def join_bytes_def)
  have p: "(uint (0x5D :: u8) * 2 ^ 16 + uint (0x23 :: u8) * 2 ^ 8 + uint (0 :: u8)) div 2 ^ 5 = 190744" by simp
  have r: "replicate 2 x = [x, x]" for x :: "u8 list option" by (simp add: numeral_2_eq_2)
  show ?thesis
    by (subst BMP180_measures [OF _ _ _ _ _ _ _ _ _ refl, where c = cali180_ex and n = 2 and m = 1 and busy = "0x2E" and tdone = "0x0E" and pdone = "0xD4"
          and ?t1.0 = "0x6C" and ?t0.0 = "0xFA" and ?p2.0 = "0x5D" and ?p1.0 = "0x23" and ?p0.0 = 0 and as = "[]" and ws = "[]"])
      (simp_all only: c p compens180_ex, simp_all add: r)
qed

section \<open>BMP580\<close>

lemma or_push_plus: "x < 2 ^ n \<Longrightarrow> x OR push_bit n y = x + push_bit n y" for x y :: nat
proof (rule disjunctive_add [symmetric])
  fix m assume "x < 2 ^ n"
  then have "x = take_bit n x" by (simp add: take_bit_nat_eq_self)
  then have "\<not> bit x m" if "n \<le> m" using that by (metis bit_take_bit_iff not_le)
  then show "\<not> bit x m \<or> \<not> bit (push_bit n y) m" by (auto simp: bit_push_bit_iff)
qed

lemma raw24_value: "unat (raw24 a b c) = unat a + 256 * unat b + 65536 * unat c"
proof -
  have l: "unat w < 256" for w :: u8 using unat_u8 [of w] by simp
  have p: "unat (push_bit n (ucast w :: u32)) = push_bit n (unat w)" if "n \<le> 16" for n and w :: u8
  proof -
    have "(2 :: nat) ^ n \<le> 2 ^ 16" by (rule power_increasing) (use that in auto)
    then have "2 ^ n * unat w \<le> 2 ^ 16 * 255" by (rule mult_mono) (use l [of w] in auto)
    then have b: "push_bit n (unat w) < 2 ^ 32" by (simp add: push_bit_eq_mult mult.commute)
    have "unat (ucast w :: u32) = unat w" using l [of w] by (simp add: unsigned_ucast_eq take_bit_nat_eq_self)
    then show ?thesis using b by (simp add: unsigned_push_bit_eq take_bit_nat_eq_self)
  qed
  have "unat (raw24 a b c) = (unat a OR push_bit 8 (unat b)) OR push_bit 16 (unat c)"
    using p [of 0 a] p [of 8 b] p [of 16 c] by (simp add: raw24_def unsigned_or_eq or.assoc)
  also have "\<dots> = (unat a + push_bit 8 (unat b)) + push_bit 16 (unat c)"
    using l [of a] l [of b] by (subst or_push_plus [of "unat a" 8], simp, subst or_push_plus [of _ 16]) (simp_all add: push_bit_eq_mult)
  finally show ?thesis by (simp add: push_bit_eq_mult)
qed

text \<open>A temperature of \<open>- t / 65536\<close> degrees, sent as a number of 24 bits, is taken for one of \<open>256 - t / 65536\<close>.\<close>

text \<open>
  A temperature below zero, which the BMP580 sends as a negative number of 24 bits, is delivered 256 degrees too high.
\<close>

theorem BMP580_below_zero:
  assumes "\<not> I2Cfd b < 1" "status s = SENS_BUSY" "bus b = ([Some [reg], Some [t0, t1, t2, p0, p1, p2]], ws)" "reg AND 1 \<noteq> 0"
    and "int (unat t0 + 256 * unat t1 + 65536 * unat t2) = 2 ^ 24 - t" "0 < t" "t \<le> 2 ^ 23"
  shows "data_T (sdata (snd (s_process580 script_io b s))) = 256 - of_int t / 65536"
proof -
  have "of_nat (unat (raw24 t0 t1 t2)) = (of_int (2 ^ 24 - t) :: rat)"
    unfolding raw24_value assms(5) [symmetric] by simp
  then have "of_nat (unat (raw24 t0 t1 t2)) / 65536 = 256 - (of_int t :: rat) / 65536" by (simp add: field_simps)
  then show ?thesis using assms(1-4) by (simp add: s_process580_def script_simps)
qed

lemma BMP580_below_zero_witness:
  "data_T (sdata (snd (s_process580 script_io \<lparr>bus = ([Some [1], Some [0, 0, 0xFB, 0, 0, 0]], []), I2Cfd = 3, lastaddr = 0x47\<rparr>
     \<lparr>address = 0x47, status = SENS_BUSY, sdata = \<lparr>data_T = 0, data_H = 0, data_P = 0\<rparr>, started = 0, aht2x = False, privdata = None\<rparr>))) =
   256 - of_int 327680 / 65536"
  by (rule BMP580_below_zero [where reg = 1 and ws = "[]" and ?t0.0 = 0 and ?t1.0 = 0 and ?t2.0 = "0xFB" and ?p0.0 = 0 and ?p1.0 = 0 and ?p2.0 = 0]) simp_all

end
