(* ===== verification/ParseArgs.thy ===== *)
theory ParseArgs
  imports Complex_Main StrFunc SortSearch "HOL-Library.Product_Lexorder"
begin

text \<open>
  The command line parser that the tools share, \<open>HSFW_management/parseargs.c\<close>: the tables for
  \<open>getopt_long\<close>, the assignment of what it finds to the variables of the program, the help text and the
  suboptions. The variables are cells at addresses. What \<open>getopt_long\<close> returns is a list of results, one
  for each call; \<open>strtod\<close> and the functions that an option can name are parameters.
\<close>

section \<open>Options\<close>

datatype argtype = arg_none | arg_int | arg_longlong | arg_double | arg_float | arg_string | arg_function

datatype hasarg = NO_ARGS | NEED_ARG | OPT_ARG | MULT_PAR

record myoption =
  name :: string
  has_arg :: hasarg
  flag :: "nat option"
  val :: int
  argty :: argtype
  argptr :: "nat option"
  helptext :: string

datatype cell = CInt int | CLong int | CReal rat | CStr string | CArr "cell list"

type_synonym store = "nat \<Rightarrow> cell"

section \<open>The text of the help header\<close>

text \<open>
  The loop of \<open>change_helpstring\<close> on the text from \<open>str\<close> on, with the two counters; \<open>None\<close> when the pointer
  has passed the terminating NUL. A doubled percent sign is passed twice.
\<close>

definition advance :: "nat \<Rightarrow> string \<Rightarrow> string option" where
  "advance n s = (if n \<le> length s then Some (drop n s) else None)"

function helpstring_loop :: "string \<Rightarrow> nat \<Rightarrow> nat \<Rightarrow> (nat \<times> nat) option" where
  "helpstring_loop s pcount scount =
     (if \<not> pcount < 2 then Some (pcount, scount)
      else
        (case dropWhile (\<lambda>c. c \<noteq> CHR ''%'') s of
           [] \<Rightarrow> Some (pcount, scount)
         | c # t \<Rightarrow>
             if t \<noteq> [] \<and> hd t = CHR ''%'' then
               (case advance 4 (c # t) of None \<Rightarrow> None | Some u \<Rightarrow> helpstring_loop u pcount scount)
             else
               (let scount1 = (if t \<noteq> [] \<and> hd t = CHR ''s'' then scount + 1 else scount) in
                case advance 2 (c # t) of None \<Rightarrow> None | Some u \<Rightarrow> helpstring_loop u (pcount + 1) scount1)))"
  by pat_completeness auto
termination
proof (relation "measure (\<lambda>(s, p, q). length s)", goal_cases)
  case (2 s p q c t u)
  then have "length (c # t) \<le> length s" using length_dropWhile_le by metis
  then show ?case using 2 by (auto simp: advance_def split: if_splits)
next
  case (3 s p q c t sc u)
  then have "length (c # t) \<le> length s" using length_dropWhile_le by metis
  then show ?case using 3 by (auto simp: advance_def split: if_splits)
qed simp

declare helpstring_loop.simps [simp del]

text \<open>\<open>change_helpstring\<close>: whether the text is accepted; the program ends when it is not.\<close>

definition change_helpstring :: "string \<Rightarrow> bool option" where
  "change_helpstring s =
     map_option (\<lambda>(pcount, scount). \<not> (pcount > 1 \<or> pcount \<noteq> scount)) (helpstring_loop s 0 0)"

section \<open>Values\<close>

text \<open>\<open>strtoll(str, &endptr, 0)\<close>: the value and the text at \<open>endptr\<close>, \<open>None\<close> when there is no number.\<close>

definition digits_in :: "nat \<Rightarrow> (char \<Rightarrow> nat option) \<Rightarrow> string \<Rightarrow> (nat \<times> string) option" where
  "digits_in b digit s =
     (if numeral_of digit s = [] then None else Some (radix_val b 0 (numeral_of digit s), rest_after digit s))"

definition unsigned_number :: "string \<Rightarrow> (nat \<times> string) option" where
  "unsigned_number s =
     (if take 2 s \<in> {''0x'', ''0X''} \<and> numeral_of hexdigit_val (drop 2 s) \<noteq> [] then digits_in 16 hexdigit_val (drop 2 s)
      else if take 1 s = ''0'' then digits_in 8 octdigit s
      else digits_in 10 decdigit s)"

definition strtoll :: "string \<Rightarrow> (int \<times> string) option" where
  "strtoll s =
     (let t = dropWhile isspace s;
          neg = (take 1 t = ''-'');
          u = (if take 1 t = ''-'' \<or> take 1 t = ''+'' then tl t else t)
      in map_option (\<lambda>(n, rest). (if neg then max (- (2 ^ 63)) (- int n) else min (2 ^ 63 - 1) (int n), rest)) (unsigned_number u))"

definition myatoll :: "argtype \<Rightarrow> string \<Rightarrow> cell option" where
  "myatoll t str =
     (case strtoll str of
        None \<Rightarrow> None
      | Some (tmp, endptr) \<Rightarrow>
          if str = [] \<or> endptr \<noteq> [] then None
          else if t = arg_longlong then Some (CLong tmp)
          else if tmp < - (2 ^ 31) \<or> tmp > 2 ^ 31 - 1 then None
          else Some (CInt tmp))"

definition myatod :: "(string \<Rightarrow> (rat \<times> string) option) \<Rightarrow> string \<Rightarrow> cell option" where
  "myatod strtod str =
     (case strtod str of
        None \<Rightarrow> None
      | Some (tmp, endptr) \<Rightarrow> if str = [] \<or> endptr \<noteq> [] then None else Some (CReal tmp))"

fun convert :: "(string \<Rightarrow> (rat \<times> string) option) \<Rightarrow> argtype \<Rightarrow> string \<Rightarrow> cell option" where
  "convert strtod arg_int s = myatoll arg_int s"
| "convert strtod arg_longlong s = myatoll arg_longlong s"
| "convert strtod arg_double s = myatod strtod s"
| "convert strtod arg_float s = myatod strtod s"
| "convert strtod arg_string s = Some (CStr s)"
| "convert strtod arg_none s = None"
| "convert strtod arg_function s = None"

section \<open>The tables for getopt\<close>

text \<open>The number of arguments that goes to \<open>getopt_long\<close>.\<close>

fun getopt_arg :: "hasarg \<Rightarrow> nat" where
  "getopt_arg NO_ARGS = 0"
| "getopt_arg NEED_ARG = 1"
| "getopt_arg OPT_ARG = 2"
| "getopt_arg MULT_PAR = 1"

definition val_char :: "myoption \<Rightarrow> char" where
  "val_char opt = char_of (nat (val opt mod 256))"

definition short_option :: "myoption \<Rightarrow> string" where
  "short_option opt = (if flag opt = None then val_char opt # replicate (getopt_arg (has_arg opt)) CHR '':'' else [])"

definition short_options :: "myoption list \<Rightarrow> string" where
  "short_options options = concat (map short_option options)"

definition long_options :: "myoption list \<Rightarrow> (string \<times> nat \<times> nat option \<times> int) list" where
  "long_options options = map (\<lambda>opt. (name opt, getopt_arg (has_arg opt), flag opt, val opt)) options"

text \<open>The assertions on the table.\<close>

definition option_ok :: "myoption \<Rightarrow> bool" where
  "option_ok opt \<longleftrightarrow>
     (has_arg opt \<noteq> NO_ARGS \<longrightarrow> argty opt \<noteq> arg_none \<and> argptr opt \<noteq> None) \<and> (argty opt \<noteq> arg_none \<longrightarrow> argptr opt \<noteq> None)"

section \<open>Parsing\<close>

text \<open>How the program ends early: \<open>showhelp\<close> for one option or all, \<open>ERRX\<close>, a failed assertion.\<close>

datatype opt_exit = Help "nat option" | Errx | Abort

record getopt_result =
  opt :: int
  oindex :: nat
  optarg :: "string option"
  optopt :: int

fun get_optind :: "int \<Rightarrow> myoption list \<Rightarrow> nat option" where
  "get_optind v [] = None"
| "get_optind v (x # xs) = (if val x = v then Some 0 else map_option Suc (get_optind v xs))"

fun as_int :: "cell \<Rightarrow> int" where
  "as_int (CInt n) = n"
| "as_int _ = 0"

fun as_list :: "cell \<Rightarrow> cell list" where
  "as_list (CArr xs) = xs"
| "as_list _ = []"

text \<open>
  The assignment of an argument. \<open>get_aptr\<close> grows the array of an option that can repeat by one place, for
  every type but \<open>arg_none\<close> and \<open>arg_function\<close>.
\<close>

definition get_aptr :: "argtype \<Rightarrow> cell \<Rightarrow> (cell \<Rightarrow> cell) option" where
  "get_aptr t old = (if t = arg_none \<or> t = arg_function then None else Some (\<lambda>c. CArr (as_list old @ [c])))"

definition assign ::
  "(string \<Rightarrow> (rat \<times> string) option) \<Rightarrow> (nat \<Rightarrow> string \<Rightarrow> store \<Rightarrow> store \<times> bool) \<Rightarrow> nat \<Rightarrow> myoption \<Rightarrow> string \<Rightarrow> store \<Rightarrow> opt_exit + store" where
  "assign strtod fn i x s st =
     (case argptr x of
        None \<Rightarrow> Inr st
      | Some a \<Rightarrow>
          if has_arg x = MULT_PAR then
            (case get_aptr (argty x) (st a) of
               None \<Rightarrow> Inl Errx
             | Some put \<Rightarrow> (case convert strtod (argty x) s of None \<Rightarrow> Inl (Help (Some i)) | Some c \<Rightarrow> Inr (st(a := put c))))
          else if argty x = arg_none then Inr (st(a := CInt (as_int (st a) + 1)))
          else if argty x = arg_function then
            (case fn a s st of (st1, ok) \<Rightarrow> if ok then Inr st1 else Inl (Help (Some i)))
          else (case convert strtod (argty x) s of None \<Rightarrow> Inl (Help (Some i)) | Some c \<Rightarrow> Inr (st(a := c))))"

text \<open>Which option a result of \<open>getopt_long\<close> is about, and the value that \<open>opt\<close> has afterwards.\<close>

definition chosen :: "myoption list \<Rightarrow> getopt_result \<Rightarrow> opt_exit + nat \<times> int" where
  "chosen options g =
     (if opt g = 63 then
        (case get_optind (optopt g) options of
           None \<Rightarrow> Inl (Help None)
         | Some i \<Rightarrow>
             if has_arg (options ! i) = NEED_ARG \<or> has_arg (options ! i) = MULT_PAR then Inl (Help (Some i)) else Inr (i, optopt g))
      else if opt g = 0 \<or> oindex g > 0 then Inr (oindex g, opt g)
      else (case get_optind (opt g) options of None \<Rightarrow> Inl (Help None) | Some i \<Rightarrow> Inr (i, opt g)))"

text \<open>A turn of the loop; for an option with a flag \<open>getopt_long\<close> has stored its value there.\<close>

definition set_flag :: "myoption list \<Rightarrow> getopt_result \<Rightarrow> store \<Rightarrow> store" where
  "set_flag options g st =
     (if opt g = 0 then (case flag (options ! oindex g) of None \<Rightarrow> st | Some a \<Rightarrow> st(a := CInt (val (options ! oindex g)))) else st)"

definition parse_turn ::
  "(string \<Rightarrow> (rat \<times> string) option) \<Rightarrow> (nat \<Rightarrow> string \<Rightarrow> store \<Rightarrow> store \<times> bool) \<Rightarrow> myoption list \<Rightarrow> getopt_result \<Rightarrow> store \<Rightarrow> opt_exit + store" where
  "parse_turn strtod fn options g st =
     (let st0 = set_flag options g st in
      case chosen options g of
        Inl e \<Rightarrow> Inl e
      | Inr (i, v) \<Rightarrow>
          (let x = options ! i in
           if v = 0 \<and> has_arg x = NO_ARGS then Inr st0
           else if (has_arg x = NEED_ARG \<or> has_arg x = MULT_PAR) \<and> optarg g = None then Inl (Help (Some i))
           else assign strtod fn i x (case optarg g of None \<Rightarrow> ''1'' | Some s \<Rightarrow> s) st0))"

fun parse_loop ::
  "(string \<Rightarrow> (rat \<times> string) option) \<Rightarrow> (nat \<Rightarrow> string \<Rightarrow> store \<Rightarrow> store \<times> bool) \<Rightarrow> myoption list \<Rightarrow> getopt_result list \<Rightarrow> store \<Rightarrow> opt_exit + store" where
  "parse_loop strtod fn options [] st = Inr st"
| "parse_loop strtod fn options (g # gs) st =
     (case parse_turn strtod fn options g st of Inl e \<Rightarrow> Inl e | Inr st1 \<Rightarrow> parse_loop strtod fn options gs st1)"

definition parseargs ::
  "(string \<Rightarrow> (rat \<times> string) option) \<Rightarrow> (nat \<Rightarrow> string \<Rightarrow> store \<Rightarrow> store \<times> bool) \<Rightarrow> myoption list \<Rightarrow> getopt_result list \<Rightarrow> store \<Rightarrow> opt_exit + store" where
  "parseargs strtod fn options gs st =
     (if options = [] \<or> \<not> list_all option_ok options then Inl Abort else parse_loop strtod fn options gs st)"

section \<open>Help\<close>

definition argsort :: "myoption \<Rightarrow> myoption \<Rightarrow> int" where
  "argsort o1 o2 =
     (if flag o1 = None \<and> flag o2 = None then val o1 - val o2
      else if flag o1 \<noteq> None \<and> flag o2 \<noteq> None then strcmp (name o1) (name o2)
      else if flag o2 \<noteq> None then - 1 else 1)"

definition arg_mark :: "myoption \<Rightarrow> string" where
  "arg_mark x = (if has_arg x = NEED_ARG then ''=arg'' else if has_arg x = OPT_ARG then ''[=arg]'' else [])"

definition help_head :: "myoption \<Rightarrow> string" where
  "help_head x = ''  '' @ (if flag x = None then ''-'' @ [val_char x] @ '', '' else []) @ ''--'' @ name x @ arg_mark x"

definition max_opt_len :: "myoption list \<Rightarrow> nat" where
  "max_opt_len options = Max (set (map (\<lambda>x. length (name x)) options)) + 14"

text \<open>The lines of the help; \<open>None\<close> when the assertion on the width fails. Names are taken to fit the buffer.\<close>

definition help_line :: "nat \<Rightarrow> myoption \<Rightarrow> string option" where
  "help_line w x =
     (if length (help_head x) < w then Some (help_head x @ replicate (w + 1 - length (help_head x)) SPACE @ helptext x) else None)"

definition showhelp :: "myoption list \<Rightarrow> string list option" where
  "showhelp options =
     those (map (help_line (max_opt_len options)) (qsort argsort options))"

section \<open>Suboptions\<close>

record mysuboption =
  subname :: string
  subhas :: hasarg
  subty :: argtype
  subptr :: "nat option"

definition strcasecmp0 :: "string \<Rightarrow> string \<Rightarrow> bool" where
  "strcasecmp0 a b \<longleftrightarrow> map tolower a = map tolower b"

fun findsubopt :: "string \<Rightarrow> mysuboption list \<Rightarrow> nat option" where
  "findsubopt par [] = None"
| "findsubopt par (x # xs) = (if strcasecmp0 par (subname x) then Some 0 else map_option Suc (findsubopt par xs))"

definition opt_setarg ::
  "(string \<Rightarrow> (rat \<times> string) option) \<Rightarrow> (nat \<Rightarrow> string \<Rightarrow> store \<Rightarrow> store \<times> bool) \<Rightarrow> mysuboption \<Rightarrow> string \<Rightarrow> store \<Rightarrow> store \<times> bool" where
  "opt_setarg strtod fn x v st =
     (case subptr x of
        None \<Rightarrow> (st, True)
      | Some a \<Rightarrow>
          if subty x = arg_none then (st(a := CInt (as_int (st a) + 1)), True)
          else if subty x = arg_function then fn a v st
          else (case convert strtod (subty x) v of None \<Rightarrow> (st, False) | Some c \<Rightarrow> (st(a := c), True)))"

text \<open>The words that \<open>strtok_r\<close> gives.\<close>

fun tokens :: "string \<Rightarrow> string \<Rightarrow> string \<Rightarrow> string list" where
  "tokens delim [] cur = (if cur = [] then [] else [cur])"
| "tokens delim (c # s) cur =
     (if c \<in> set delim then (if cur = [] then [] else [cur]) @ tokens delim s [] else tokens delim s (cur @ [c]))"

definition suboption ::
  "(string \<Rightarrow> (rat \<times> string) option) \<Rightarrow> (nat \<Rightarrow> string \<Rightarrow> store \<Rightarrow> store \<times> bool) \<Rightarrow> mysuboption list \<Rightarrow> string \<Rightarrow> store \<Rightarrow> store \<times> bool" where
  "suboption strtod fn so tok st =
     (let (key, v, noarg) =
        (case split_at CHR ''='' tok of
           None \<Rightarrow> (tok, ''1'', True)
         | Some (k, v) \<Rightarrow> if v = [] \<or> hd v = CHR '':'' \<or> hd v = CHR '','' then (k, ''1'', True) else (k, v, False))
      in case findsubopt key so of
           None \<Rightarrow> (st, False)
         | Some i \<Rightarrow> if noarg \<and> subhas (so ! i) = NEED_ARG then (st, False) else opt_setarg strtod fn (so ! i) v st)"

fun suboption_loop ::
  "(string \<Rightarrow> (rat \<times> string) option) \<Rightarrow> (nat \<Rightarrow> string \<Rightarrow> store \<Rightarrow> store \<times> bool) \<Rightarrow> mysuboption list \<Rightarrow> string list \<Rightarrow> store \<Rightarrow> store \<times> bool" where
  "suboption_loop strtod fn so [] st = (st, True)"
| "suboption_loop strtod fn so (tok # toks) st =
     (case suboption strtod fn so tok st of (st1, ok) \<Rightarrow> if ok then suboption_loop strtod fn so toks st1 else (st1, False))"

text \<open>\<open>get_suboption\<close>; a text of delimiters has no word and \<open>strchr\<close> gets a null pointer.\<close>

definition get_suboption ::
  "(string \<Rightarrow> (rat \<times> string) option) \<Rightarrow> (nat \<Rightarrow> string \<Rightarrow> store \<Rightarrow> store \<times> bool) \<Rightarrow> mysuboption list \<Rightarrow> string \<Rightarrow> store \<Rightarrow> (store \<times> bool) option" where
  "get_suboption strtod fn so str st =
     (case tokens '':,'' str [] of [] \<Rightarrow> None | toks \<Rightarrow> Some (suboption_loop strtod fn so toks st))"

section \<open>The help header\<close>

lemma helpstring_plain: "CHR ''%'' \<notin> set s \<Longrightarrow> p < 2 \<Longrightarrow> helpstring_loop s p q = Some (p, q)"
proof -
  assume a: "CHR ''%'' \<notin> set s" "p < 2"
  have d: "dropWhile (\<lambda>c. c \<noteq> CHR ''%'') s = []" using a(1) by (auto simp: dropWhile_eq_Nil_conv)
  show ?thesis using a(2) by (subst helpstring_loop.simps) (simp add: d)
qed

lemma helpstring_percent:
  assumes "CHR ''%'' \<notin> set s" "p < 2"
  shows "helpstring_loop (s @ CHR ''%'' # t) p q =
    (if t \<noteq> [] \<and> hd t = CHR ''%'' then (case advance 3 t of None \<Rightarrow> None | Some u \<Rightarrow> helpstring_loop u p q)
     else (case advance 1 t of None \<Rightarrow> None | Some u \<Rightarrow> helpstring_loop u (p + 1) (if t \<noteq> [] \<and> hd t = CHR ''s'' then q + 1 else q)))"
proof -
  have d: "dropWhile (\<lambda>c. c \<noteq> CHR ''%'') (s @ CHR ''%'' # t) = CHR ''%'' # t"
    using assms(1) by (subst dropWhile_append3) (auto simp: dropWhile_append3 split: if_splits)
  show ?thesis using assms(2)
    by (subst helpstring_loop.simps) (auto simp: d advance_def numeral_2_eq_2 eval_nat_numeral split: option.splits)
qed

lemma change_helpstring_plain: "CHR ''%'' \<notin> set s \<Longrightarrow> change_helpstring s = Some True"
  by (simp add: change_helpstring_def helpstring_plain)

lemma change_helpstring_one:
  assumes "CHR ''%'' \<notin> set s" "CHR ''%'' \<notin> set t"
  shows "change_helpstring (s @ CHR ''%'' # c # t) = (if c = CHR ''%'' then (if length t < 2 then None else Some True) else Some (c = CHR ''s''))"
proof -
  have "CHR ''%'' \<notin> set (drop 2 t)" using assms(2) by (auto dest: in_set_dropD)
  then show ?thesis using assms
    by (auto simp: change_helpstring_def helpstring_percent advance_def helpstring_plain eval_nat_numeral)
qed

text \<open>
  A help header with two arguments is accepted when a doubled percent sign stands right before the first, since the check jumps over four characters there.
\<close>

theorem change_helpstring_misses:
  assumes "CHR ''%'' \<notin> set s" "CHR ''%'' \<notin> set t"
  shows "change_helpstring (s @ ''%%%s%s'' @ t) = Some True"
  using helpstring_percent [OF assms(1), of 0 "''%%s%s'' @ t" 0] helpstring_percent [of "[]" 0 "''s'' @ t" 0] helpstring_plain [OF assms(2), of 1 1]
  by (simp add: change_helpstring_def advance_def)

section \<open>Numbers\<close>

lemma takeWhile_fmt_u: "takeWhile (\<lambda>c. decdigit c \<noteq> None) (fmt_u n) = fmt_u n" "dropWhile (\<lambda>c. decdigit c \<noteq> None) (fmt_u n) = []"
  using fmt_u_digits [of _ n] by (simp_all add: takeWhile_eq_all_conv dropWhile_eq_Nil_conv)

lemma octdigit_0: "octdigit CHR ''0'' = Some 0"
  by code_simp

lemma unsigned_number_fmt_u: "unsigned_number (fmt_u n) = Some (n, [])"
proof (cases "n = 0")
  case True
  then show ?thesis by (simp add: fmt_u_def unsigned_number_def digits_in_def numeral_of_def rest_after_def octdigit_0)
next
  case False
  then obtain d s where d: "fmt_u n = char_of (48 + d) # s" "0 < d" "d < (10::nat)" using decstr_head [of n] by (auto simp: fmt_u_def)
  have "char_of (48 + d) \<noteq> CHR ''0''"
  proof
    assume "char_of (48 + d) = CHR ''0''"
    then have "decdigit (char_of (48 + d)) = decdigit CHR ''0''" by simp
    then show False using d decdigit_char_of [OF d(3)] by simp
  qed
  then have "unsigned_number (fmt_u n) = digits_in 10 decdigit (fmt_u n)" by (simp add: unsigned_number_def d(1))
  moreover have "numeral_of decdigit (fmt_u n) = map (the \<circ> decdigit) (fmt_u n)" "rest_after decdigit (fmt_u n) = []"
    by (simp_all only: numeral_of_def rest_after_def takeWhile_fmt_u)
  ultimately show ?thesis by (simp add: digits_in_def fmt_u_value)
qed

lemma strtoll_fmt_d: "strtoll (fmt_d v) = Some (max (- (2 ^ 63)) (min (2 ^ 63 - 1) v), [])"
proof (cases "v < 0")
  case True
  then show ?thesis using isspace_minus unsigned_number_fmt_u [of "nat (- v)"] by (simp add: strtoll_def fmt_d_def Let_def)
next
  case False
  obtain c s where c: "fmt_u (nat v) = c # s" "decdigit c \<noteq> None" using fmt_u_head by blast
  then have "c \<noteq> CHR ''-''" "c \<noteq> CHR ''+''" using isspace_minus by auto
  then show ?thesis using False c isspace_digit [OF c(2)] unsigned_number_fmt_u [of "nat v"] by (simp add: strtoll_def fmt_d_def Let_def)
qed

text \<open>
  A printed number is read back exactly where it fits the type: as int every other number is refused, as long long it is silently replaced by the nearest limit.
\<close>

theorem myatoll_fmt_d:
  "myatoll arg_int (fmt_d v) = (if int_ok v then Some (CInt v) else None)"
  "myatoll arg_longlong (fmt_d v) = Some (CLong (max (- (2 ^ 63)) (min (2 ^ 63 - 1) v)))"
  using fmt_d_head [of v] by (auto simp: myatoll_def strtoll_fmt_d int_ok_def)

section \<open>The tables\<close>

text \<open>What \<open>getopt\<close> reads for a letter from the text of the short options: the number of colons behind it.\<close>

fun short_arg :: "char \<Rightarrow> string \<Rightarrow> nat option" where
  "short_arg c [] = None"
| "short_arg c (x # xs) = (if x = c then Some (length (takeWhile (\<lambda>y. y = CHR '':'') xs)) else short_arg c xs)"

lemma short_arg_append: "c \<notin> set xs \<Longrightarrow> short_arg c (xs @ ys) = short_arg c ys"
  by (induction xs) auto

definition letters_ok :: "myoption list \<Rightarrow> bool" where
  "letters_ok options \<longleftrightarrow> distinct (map val_char (filter (\<lambda>x. flag x = None) options)) \<and>
     (\<forall>x \<in> set options. flag x = None \<longrightarrow> val_char x \<noteq> CHR '':'' \<and> val_char x \<noteq> CHR 0x00)"

lemma short_options_head:
  "\<forall>x \<in> set ys. flag x = None \<longrightarrow> val_char x \<noteq> CHR '':'' \<Longrightarrow> short_options ys = [] \<or> hd (short_options ys) \<noteq> CHR '':''"
  by (induction ys) (simp_all add: short_options_def short_option_def)

text \<open>
  The text of the short options tells getopt for every letter of the table whether it takes no argument, one, or an optional one, when the letters differ and none is NUL or a colon.
\<close>

theorem short_options_exact:
  assumes "letters_ok options" "x \<in> set options" "flag x = None"
  shows "short_arg (val_char x) (short_options options) = Some (getopt_arg (has_arg x)) \<and> CHR 0x00 \<notin> set (short_options options)"
  using assms
proof (induction options)
  case (Cons y ys)
  have nul: "CHR 0x00 \<notin> set (short_options (y # ys))" using Cons.prems(1) by (auto simp: letters_ok_def short_options_def short_option_def)
  have col: "takeWhile (\<lambda>c. c = CHR '':'') (replicate n CHR '':'' @ short_options ys) = replicate n CHR '':''" for n
  proof -
    have "short_options ys = [] \<or> hd (short_options ys) \<noteq> CHR '':''"
      by (rule short_options_head) (use Cons.prems(1) in \<open>simp add: letters_ok_def\<close>)
    then show ?thesis by (cases "short_options ys") (auto simp: takeWhile_append takeWhile_eq_all_conv [THEN iffD2])
  qed
  show ?case
  proof (cases "y = x")
    case True
    then show ?thesis using nul col Cons.prems(3) by (simp add: short_options_def short_option_def)
  next
    case False
    then have x: "x \<in> set ys" using Cons.prems(2) by simp
    then have "val_char x \<in> set (map val_char (filter (\<lambda>x. flag x = None) ys))" using Cons.prems(3) by auto
    moreover have "val_char y \<notin> set (map val_char (filter (\<lambda>x. flag x = None) ys))" if "flag y = None"
      using that Cons.prems(1) by (simp add: letters_ok_def)
    ultimately have "val_char x \<noteq> val_char y" if "flag y = None" using that by metis
    moreover have "val_char x \<noteq> CHR '':''" using Cons.prems(1,3) x by (simp add: letters_ok_def)
    ultimately have "val_char x \<notin> set (short_option y)" by (auto simp: short_option_def)
    then have "short_arg (val_char x) (short_options (y # ys)) = short_arg (val_char x) (short_options ys)"
      by (simp add: short_options_def short_arg_append)
    then show ?thesis using nul Cons.IH [OF _ x Cons.prems(3)] Cons.prems(1) by (auto simp: letters_ok_def split: if_splits)
  qed
qed simp

lemma short_options_cut:
  assumes "\<forall>y \<in> set xs. val_char y \<noteq> CHR 0x00" "flag x = None" "val_char x = CHR 0x00"
  shows "takeWhile (\<lambda>c. c \<noteq> CHR 0x00) (short_options (xs @ x # ys)) = short_options xs"
proof -
  have "CHR 0x00 \<notin> set (short_options xs)" using assms(1) by (auto simp: short_options_def short_option_def)
  then have "takeWhile (\<lambda>c. c \<noteq> CHR 0x00) (short_options xs @ z) = short_options xs @ takeWhile (\<lambda>c. c \<noteq> CHR 0x00) z" for z
    by (intro takeWhile_append2) auto
  then show ?thesis using assms(2,3) by (simp add: short_options_def short_option_def)
qed

section \<open>The help\<close>

definition sort_key :: "myoption \<Rightarrow> bool \<times> int \<times> string" where
  "sort_key x = (flag x \<noteq> None, if flag x = None then val x else 0, if flag x = None then [] else name x)"

lemma argsort_ranks: "ranks argsort sort_key"
  unfolding ranks_def argsort_def sort_key_def by (auto simp: strcmp_neg_iff strcmp_pos_iff less_prod_def')

lemma help_head_length: "length (help_head x) = length (name x) + 4 + (if flag x = None then 4 else 0) + length (arg_mark x)"
  by (simp add: help_head_def)

lemma help_line_None:
  assumes "x \<in> set options"
  shows "help_line (max_opt_len options) x = None \<longleftrightarrow>
    flag x = None \<and> has_arg x = OPT_ARG \<and> (\<forall>y \<in> set options. length (name y) \<le> length (name x))"
proof -
  have f: "finite (set (map (\<lambda>x. length (name x)) options))" by simp
  have m: "length (name x) \<le> Max (set (map (\<lambda>x. length (name x)) options))" using assms by (intro Max_ge) auto
  have e: "Max (set (map (\<lambda>x. length (name x)) options)) \<le> length (name x) \<longleftrightarrow> (\<forall>y \<in> set options. length (name y) \<le> length (name x))"
    using assms by (subst Max_le_iff [OF f]) auto
  show ?thesis unfolding e [symmetric] using m
    by (auto simp: help_line_def max_opt_len_def help_head_length arg_mark_def)
qed

lemma those_None: "those xs = None \<longleftrightarrow> None \<in> set xs"
  by (induction xs) (auto split: option.splits)

text \<open>
  The help ends by a failed assertion exactly when one of the options with the longest name has a letter and an optional argument, since the width is counted one short.
\<close>

theorem showhelp_aborts:
  "showhelp options = None \<longleftrightarrow>
     (\<exists>x \<in> set options. flag x = None \<and> has_arg x = OPT_ARG \<and> (\<forall>y \<in> set options. length (name y) \<le> length (name x)))"
proof -
  have "showhelp options = None \<longleftrightarrow> (\<exists>x \<in> set options. help_line (max_opt_len options) x = None)"
    by (auto simp: showhelp_def those_None image_iff eq_commute [of None])
  then show ?thesis using help_line_None by blast
qed

lemma those_Some: "those xs = Some ys \<Longrightarrow> ys = map the xs"
  by (induction xs arbitrary: ys) (auto split: option.splits)

lemma showhelp_lines:
  assumes "showhelp options = Some ls"
  shows "\<exists>xs. mset xs = mset options \<and> sorted (map sort_key xs) \<and> ls = map (\<lambda>x. the (help_line (max_opt_len options) x)) xs"
  using assms qs.sorter_sorted [OF argsort_ranks] qs.keeps_elements
  by (intro exI [of _ "qsort argsort options"]) (auto simp: showhelp_def dest: those_Some)

section \<open>What the variables hold afterwards\<close>

text \<open>The option that a result is about, if it is one with a letter or an argument, and the text assigned.\<close>

definition about :: "myoption list \<Rightarrow> getopt_result \<Rightarrow> nat option" where
  "about options g = (case chosen options g of Inl e \<Rightarrow> None | Inr (i, v) \<Rightarrow> if v = 0 then None else Some i)"

definition arg_text :: "getopt_result \<Rightarrow> string" where
  "arg_text g = (case optarg g of None \<Rightarrow> ''1'' | Some s \<Rightarrow> s)"

definition args_of :: "myoption list \<Rightarrow> nat \<Rightarrow> getopt_result list \<Rightarrow> string list" where
  "args_of options i gs = map arg_text (filter (\<lambda>g. about options g = Some i) gs)"

text \<open>The variable of an option after its occurrences with these arguments: a counter, all values, or the last value.\<close>

definition after :: "(string \<Rightarrow> (rat \<times> string) option) \<Rightarrow> myoption \<Rightarrow> cell \<Rightarrow> string list \<Rightarrow> cell" where
  "after strtod x c args =
     (if args = [] then c
      else if has_arg x = MULT_PAR then CArr (as_list c @ map (the \<circ> convert strtod (argty x)) args)
      else if argty x = arg_none then CInt (as_int c + int (length args))
      else the (convert strtod (argty x) (last args)))"

definition separate :: "myoption list \<Rightarrow> bool" where
  "separate options \<longleftrightarrow> (\<forall>i < length options. \<forall>j < length options. \<forall>a. argptr (options ! i) = Some a \<longrightarrow> argptr (options ! j) = Some a \<longrightarrow> i = j) \<and>
     (\<forall>x \<in> set options. argty x \<noteq> arg_function)"

lemma assign_other:
  assumes "assign strtod fn i x s st = Inr st1" "argty x \<noteq> arg_function" "argptr x \<noteq> Some a"
  shows "st1 a = st a"
  using assms by (auto simp: assign_def split: option.splits if_splits)

lemma after_Cons:
  assumes "assign strtod fn i x s st = Inr st1" "argty x \<noteq> arg_function" "argptr x = Some a"
  shows "after strtod x (st1 a) ss = after strtod x (st a) (s # ss)"
  using assms by (auto simp: assign_def after_def get_aptr_def split: option.splits if_splits)

lemma parse_turn_about:
  assumes "parse_turn strtod fn options g st = Inr st1" "about options g = Some i" "opt g \<noteq> 0"
  shows "assign strtod fn i (options ! i) (arg_text g) st = Inr st1"
  using assms by (auto simp: parse_turn_def about_def arg_text_def set_flag_def Let_def split: sum.splits if_splits prod.splits)

lemma get_optind_less: "get_optind v options = Some i \<Longrightarrow> i < length options"
  by (induction options arbitrary: i) (auto split: if_splits)

text \<open>
  When the results of getopt_long are accepted, the variable of every option depends on the occurrences of that option only: an option that can repeat has collected all its values in order, an option without argument counts its occurrences, any other holds its last value (options with variables of their own and without functions).
\<close>

theorem parseargs_variables:
  assumes "parseargs strtod fn options gs st = Inr st'" "separate options"
    and "\<forall>g \<in> set gs. opt g \<noteq> 0 \<and> oindex g < length options \<and> about options g \<noteq> None"
    and "j < length options" "argptr (options ! j) = Some a"
  shows "st' a = after strtod (options ! j) (st a) (args_of options j gs)"
proof -
  have "parse_loop strtod fn options gs st = Inr st'" using assms(1) by (auto simp: parseargs_def split: if_splits)
  then show ?thesis using assms(3)
  proof (induction gs arbitrary: st)
    case Nil
    then show ?case by (simp add: after_def args_of_def)
  next
    case (Cons g gs)
    obtain st1 where t: "parse_turn strtod fn options g st = Inr st1" "parse_loop strtod fn options gs st1 = Inr st'"
      using Cons.prems(1) by (auto split: sum.splits)
    obtain i where i: "about options g = Some i" "opt g \<noteq> 0" using Cons.prems(2) by auto
    have l: "i < length options" using i Cons.prems(2) by (auto simp: about_def chosen_def dest: get_optind_less split: sum.splits if_splits option.splits)
    note a = parse_turn_about [OF t(1) i]
    have f: "argty (options ! i) \<noteq> arg_function" using assms(2) l by (simp add: separate_def)
    have ih: "st' a = after strtod (options ! j) (st1 a) (args_of options j gs)" using Cons.IH [OF t(2)] Cons.prems(2) by simp
    show ?case
    proof (cases "i = j")
      case True
      then show ?thesis using ih after_Cons [OF a f] assms(5) i(1) by (simp add: args_of_def)
    next
      case False
      then have "argptr (options ! i) \<noteq> Some a" using assms(2,4,5) l by (auto simp: separate_def)
      then show ?thesis using ih assign_other [OF a f] i(1) False by (simp add: args_of_def)
    qed
  qed
qed

section \<open>Suboptions\<close>

lemma tokens_word: "set w \<inter> set delim = {} \<Longrightarrow> tokens delim (w @ s) cur = tokens delim s (cur @ w)"
  by (induction w arbitrary: cur) auto

lemma tokens_empty: "tokens delim s cur = [] \<longleftrightarrow> cur = [] \<and> set s \<subseteq> set delim"
  by (induction delim s cur rule: tokens.induct) auto

text \<open>
  The parser of suboptions goes through a null pointer exactly on the texts that hold nothing but delimiters, the empty text included.
\<close>

theorem get_suboption_crash: "get_suboption strtod fn so str st = None \<longleftrightarrow> set str \<subseteq> {CHR '':'', CHR '',''}"
proof -
  have "get_suboption strtod fn so str st = None \<longleftrightarrow> tokens '':,'' str [] = []" by (simp add: get_suboption_def split: list.splits)
  then show ?thesis by (simp add: tokens_empty)
qed

definition setting :: "mysuboption list \<Rightarrow> nat \<times> string \<Rightarrow> string" where
  "setting so p = subname (so ! fst p) @ CHR ''='' # snd p"

fun settings_text :: "mysuboption list \<Rightarrow> (nat \<times> string) list \<Rightarrow> string" where
  "settings_text so [] = []"
| "settings_text so [p] = setting so p"
| "settings_text so (p # ps) = setting so p @ CHR '':'' # settings_text so ps"

fun apply_settings ::
  "(string \<Rightarrow> (rat \<times> string) option) \<Rightarrow> (nat \<Rightarrow> string \<Rightarrow> store \<Rightarrow> store \<times> bool) \<Rightarrow> mysuboption list \<Rightarrow> (nat \<times> string) list \<Rightarrow> store \<Rightarrow> store \<times> bool" where
  "apply_settings strtod fn so [] st = (st, True)"
| "apply_settings strtod fn so (p # ps) st =
     (case opt_setarg strtod fn (so ! fst p) (snd p) st of (st1, ok) \<Rightarrow> if ok then apply_settings strtod fn so ps st1 else (st1, False))"

definition subnames_ok :: "mysuboption list \<Rightarrow> bool" where
  "subnames_ok so \<longleftrightarrow> distinct (map (\<lambda>x. map tolower (subname x)) so) \<and>
     (\<forall>x \<in> set so. set (subname x) \<inter> {CHR '':'', CHR '','', CHR ''=''} = {})"

definition setting_ok :: "mysuboption list \<Rightarrow> nat \<times> string \<Rightarrow> bool" where
  "setting_ok so p \<longleftrightarrow> fst p < length so \<and> snd p \<noteq> [] \<and> set (snd p) \<inter> {CHR '':'', CHR '',''} = {}"

lemma findsubopt_nth:
  "distinct (map (\<lambda>x. map tolower (subname x)) so) \<Longrightarrow> i < length so \<Longrightarrow> findsubopt (subname (so ! i)) so = Some i"
proof (induction so arbitrary: i)
  case (Cons x so)
  then show ?case by (cases i) (fastforce simp: strcasecmp0_def image_iff dest: nth_mem)+
qed simp

lemma suboption_setting:
  assumes "subnames_ok so" "setting_ok so p"
  shows "suboption strtod fn so (setting so p) st = opt_setarg strtod fn (so ! fst p) (snd p) st"
proof -
  have n: "CHR ''='' \<notin> set (subname (so ! fst p))" using assms by (auto simp: subnames_ok_def setting_ok_def dest: nth_mem)
  have h: "hd (snd p) \<notin> {CHR '':'', CHR '',''}" using assms(2) hd_in_set [of "snd p"] unfolding setting_ok_def by blast
  have "findsubopt (subname (so ! fst p)) so = Some (fst p)"
    using assms by (intro findsubopt_nth) (auto simp: subnames_ok_def setting_ok_def)
  then show ?thesis using n h assms(2) by (simp add: suboption_def setting_def setting_ok_def)
qed

lemma setting_chars:
  assumes "subnames_ok so" "setting_ok so p"
  shows "set (setting so p) \<inter> set '':,'' = {}" "setting so p \<noteq> []"
proof -
  have "set (subname (so ! fst p)) \<inter> {CHR '':'', CHR '','', CHR ''=''} = {}" using assms by (simp add: subnames_ok_def setting_ok_def)
  then show "set (setting so p) \<inter> set '':,'' = {}" using assms(2) by (auto simp: setting_def setting_ok_def)
  show "setting so p \<noteq> []" by (simp add: setting_def)
qed

lemma settings_tokens:
  assumes "subnames_ok so" "\<forall>p \<in> set ps. setting_ok so p"
  shows "tokens '':,'' (settings_text so ps) [] = map (setting so) ps"
  using assms(2)
proof (induction ps)
  case (Cons p ps)
  note c = setting_chars [OF assms(1), of p]
  show ?case
  proof (cases ps)
    case Nil
    then show ?thesis using c tokens_word [of "setting so p" "'':,''" "[]" "[]"] Cons.prems by simp
  next
    case (Cons q qs)
    then show ?thesis using c tokens_word [of "setting so p" "'':,''" "CHR '':'' # settings_text so ps" "[]"] Cons.IH Cons.prems by simp
  qed
qed simp

lemma suboption_loop_settings:
  assumes "subnames_ok so" "\<forall>p \<in> set ps. setting_ok so p"
  shows "suboption_loop strtod fn so (map (setting so) ps) st = apply_settings strtod fn so ps st"
  using assms(2) by (induction ps arbitrary: st) (auto simp: suboption_setting [OF assms(1)] split: prod.splits)

text \<open>
  A text of settings name=value joined by colons is taken apart into exactly these settings, and they are applied in order up to the first bad value.
\<close>

theorem get_suboption_settings:
  assumes "subnames_ok so" "\<forall>p \<in> set ps. setting_ok so p" "ps \<noteq> []"
  shows "get_suboption strtod fn so (settings_text so ps) st = Some (apply_settings strtod fn so ps st)"
  using assms(3) settings_tokens [OF assms(1,2)] suboption_loop_settings [OF assms(1,2)]
  by (cases ps) (simp_all add: get_suboption_def)

section \<open>Examples\<close>

definition no_real :: "string \<Rightarrow> (rat \<times> string) option" where
  "no_real s = None"

definition no_fn :: "nat \<Rightarrow> string \<Rightarrow> store \<Rightarrow> store \<times> bool" where
  "no_fn a s st = (st, False)"

definition table0 :: "myoption list" where
  "table0 = [\<lparr>name = ''verbose'', has_arg = NO_ARGS, flag = None, val = 118, argty = arg_none, argptr = Some 0, helptext = ''more output''\<rparr>,
     \<lparr>name = ''pos'', has_arg = NEED_ARG, flag = None, val = 112, argty = arg_int, argptr = Some 1, helptext = ''position''\<rparr>,
     \<lparr>name = ''file'', has_arg = MULT_PAR, flag = None, val = 102, argty = arg_string, argptr = Some 2, helptext = ''input''\<rparr>]"

definition results0 :: "getopt_result list" where
  "results0 = [\<lparr>opt = 102, oindex = 0, optarg = Some ''a'', optopt = 0\<rparr>, \<lparr>opt = 118, oindex = 0, optarg = None, optopt = 0\<rparr>,
     \<lparr>opt = 112, oindex = 0, optarg = Some ''5'', optopt = 0\<rparr>, \<lparr>opt = 102, oindex = 0, optarg = Some ''b'', optopt = 0\<rparr>,
     \<lparr>opt = 118, oindex = 0, optarg = None, optopt = 0\<rparr>, \<lparr>opt = 112, oindex = 0, optarg = Some ''-0x1F'', optopt = 0\<rparr>]"

definition store0 :: store where
  "store0 a = (if a = 2 then CArr [] else CInt 0)"

lemma results0_run: "\<exists>st. parseargs no_real no_fn table0 results0 store0 = Inr st"
proof -
  have "(case parseargs no_real no_fn table0 results0 store0 of Inl e \<Rightarrow> False | Inr st \<Rightarrow> True)" by code_simp
  then show ?thesis by (auto split: sum.splits)
qed

lemma parseargs_variables_witness:
  "\<exists>st. parseargs no_real no_fn table0 results0 store0 = Inr st \<and> st 2 = CArr [CStr ''a'', CStr ''b'']"
proof -
  obtain st where st: "parseargs no_real no_fn table0 results0 store0 = Inr st" using results0_run by blast
  have s: "separate table0" by (simp add: separate_def table0_def less_Suc_eq numeral_eq_Suc)
  have g: "\<forall>g \<in> set results0. opt g \<noteq> 0 \<and> oindex g < length table0 \<and> about table0 g \<noteq> None"
    by (simp add: results0_def table0_def about_def chosen_def)
  have "st 2 = after no_real (table0 ! 2) (store0 2) (args_of table0 2 results0)"
    by (rule parseargs_variables [OF st s g]) (simp_all add: table0_def)
  moreover have "after no_real (table0 ! 2) (store0 2) (args_of table0 2 results0) = CArr [CStr ''a'', CStr ''b'']" by code_simp
  ultimately show ?thesis using st by simp
qed

lemma short_options_exact_witness:
  "short_arg (val_char (table0 ! 1)) (short_options table0) = Some (getopt_arg (has_arg (table0 ! 1))) \<and> CHR 0x00 \<notin> set (short_options table0)"
proof (rule short_options_exact)
  have "distinct (map val_char (filter (\<lambda>x. flag x = None) table0))" by code_simp
  moreover have "list_all (\<lambda>x. val_char x \<noteq> CHR '':'' \<and> val_char x \<noteq> CHR 0x00) table0" by code_simp
  ultimately show "letters_ok table0" by (simp add: letters_ok_def list_all_iff)
qed (simp_all add: table0_def)

lemma change_helpstring_misses_witness: "change_helpstring ''100%%%s%s'' = Some True"
  using change_helpstring_misses [of "''100''" "[]"] by simp

lemma get_suboption_settings_witness:
  "\<forall>st. get_suboption no_real no_fn [\<lparr>subname = ''x'', subhas = NEED_ARG, subty = arg_int, subptr = Some 0\<rparr>, \<lparr>subname = ''y'', subhas = NEED_ARG, subty = arg_int, subptr = Some 1\<rparr>]
     ''y=5:x=7'' st = Some (st(Suc 0 := CInt 5, 0 := CInt 7), True)"
proof (rule allI)
  fix st
  let ?so = "[\<lparr>subname = ''x'', subhas = NEED_ARG, subty = arg_int, subptr = Some 0\<rparr>, \<lparr>subname = ''y'', subhas = NEED_ARG, subty = arg_int, subptr = Some 1\<rparr>]"
  have "map tolower ''x'' \<noteq> map tolower ''y''" by code_simp
  then have "subnames_ok ?so" by (simp add: subnames_ok_def)
  then have "get_suboption no_real no_fn ?so (settings_text ?so [(1, ''5''), (0, ''7'')]) st = Some (apply_settings no_real no_fn ?so [(1, ''5''), (0, ''7'')] st)"
    by (rule get_suboption_settings) (simp_all add: setting_ok_def)
  moreover have "myatoll arg_int ''5'' = Some (CInt 5)" "myatoll arg_int ''7'' = Some (CInt 7)" by code_simp+
  ultimately show "get_suboption no_real no_fn ?so ''y=5:x=7'' st = Some (st(Suc 0 := CInt 5, 0 := CInt 7), True)"
    by (simp add: setting_def opt_setarg_def)
qed

end
