(* ===== verification/Smsd.thy ===== *)
theory Smsd
  imports Numerals
begin

text \<open>
  The client of a stepper motor controller, \<open>Trinamic/SHA_client_cmdline/client.c\<close>. It loads short programs
  into the controller, each command of which is echoed and answered by a code, starts them and waits for
  their end. The terminal is the list of what its reads find, one after the other, and the texts written to
  it; \<open>wr\<close> tells for the texts written so far and the new one whether it goes out. Any failure of the
  terminal ends the program through \<open>quit\<close>, which talks to the controller again.
\<close>

section \<open>The terminal\<close>

text \<open>A read finds nothing in its 50 ms, some bytes, or fails.\<close>

datatype rd = Nothing | Chunk string | Broken

datatype err = NO_ERROR | CODE_ERR | BUS_ERR | COMMAND_ERR | CMD_DATA_ERR | UNDEFINED_ERR

record ctl =
  rx :: "rd list"
  written :: "string list"
  bus_error :: err
  step_spd :: u16

text \<open>
  How a function ends: with a result, through \<open>quit\<close>, by an access outside of an array, or waiting for
  input beyond what is given.
\<close>

datatype 'a run = Done ctl 'a | Dead ctl | Crash | Waits

fun bind_run :: "'a run \<Rightarrow> (ctl \<Rightarrow> 'a \<Rightarrow> 'b run) \<Rightarrow> 'b run" where
  "bind_run (Done c x) f = f c x"
| "bind_run (Dead c) f = Dead c"
| "bind_run Crash f = Crash"
| "bind_run Waits f = Waits"

definition write_tty :: "(string list \<Rightarrow> bool) \<Rightarrow> string \<Rightarrow> ctl \<Rightarrow> unit run" where
  "write_tty wr s c = (if wr (written c @ [s]) then Done (c\<lparr>written := written c @ [s]\<rparr>) () else Dead c)"

text \<open>The tries to read one byte: \<open>None\<close> at the outside for a failure.\<close>

fun read_byte :: "nat \<Rightarrow> rd list \<Rightarrow> (char option \<times> rd list) option" where
  "read_byte 0 es = Some (None, es)"
| "read_byte (Suc n) [] = Some (None, [])"
| "read_byte (Suc n) (Nothing # es) = read_byte n es"
| "read_byte (Suc n) (Broken # es) = None"
| "read_byte (Suc n) (Chunk [] # es) = None"
| "read_byte (Suc n) (Chunk (b # bs) # es) = Some (Some b, if bs = [] then es else Chunk bs # es)"

fun rd_size :: "rd \<Rightarrow> nat" where
  "rd_size (Chunk bs) = Suc (length bs)"
| "rd_size _ = 1"

lemma read_byte_size: "read_byte n es = Some (Some b, es1) \<Longrightarrow> sum_list (map rd_size es1) < sum_list (map rd_size es)"
  by (induction n es rule: read_byte.induct) (auto split: if_splits)

text \<open>
  \<open>read_ctrl_command\<close>: the bytes kept, and the byte below a blank that was last left behind them. The result
  is the number returned and the text in the buffer; \<open>None\<close> in it when the buffer is full and no NUL is left.
\<close>

function read_cmd :: "nat \<Rightarrow> string \<Rightarrow> char option \<Rightarrow> rd list \<Rightarrow> ((nat \<times> string option) \<times> rd list) option" where
  "read_cmd L buf junk es =
     (if \<not> length buf < L then Some ((length buf + 1, None), es)
      else
        (case read_byte 10 es of
           None \<Rightarrow> None
         | Some (None, es1) \<Rightarrow> Some ((length buf, Some (buf @ (case junk of None \<Rightarrow> [] | Some j \<Rightarrow> if j = CHR 0x00 then [] else [j]))), es1)
         | Some (Some b, es1) \<Rightarrow>
             if b = CHR ''*'' then Some ((length buf + 1, Some (buf @ [b])), es1)
             else if schar b < 32 then read_cmd L buf (Some b) es1
             else read_cmd L (buf @ [b]) None es1))"
  by pat_completeness auto
termination
  by (relation "measure (\<lambda>(L, buf, junk, es). sum_list (map rd_size es))") (auto dest: read_byte_size)

declare read_cmd.simps [simp del]

definition read_ctrl_command :: "ctl \<Rightarrow> (nat \<times> string) run" where
  "read_ctrl_command c =
     (case read_cmd 255 [] None (rx c) of
        None \<Rightarrow> Dead c
      | Some ((R, None), es) \<Rightarrow> Crash
      | Some ((R, Some s), es) \<Rightarrow> Done (c\<lparr>rx := es\<rparr>) (R, s))"

section \<open>Answers and commands\<close>

definition code_error :: "char option \<Rightarrow> err" where
  "code_error x =
     (if x \<in> {Some CHR ''0'', Some CHR ''4'', Some CHR ''2''} then NO_ERROR
      else if x = Some CHR ''3'' then CODE_ERR
      else if x = Some CHR ''5'' then BUS_ERR
      else if x = Some CHR ''6'' then COMMAND_ERR
      else if x = Some CHR ''9'' then CMD_DATA_ERR
      else UNDEFINED_ERR)"

definition parse_ctrlr_ans :: "string \<Rightarrow> ctl \<Rightarrow> ctl \<times> bool" where
  "parse_ctrlr_ans ans c =
     (if ans = [] then (c, True)
      else
        (let e = (case split_at CHR ''E'' ans of
                    None \<Rightarrow> UNDEFINED_ERR
                  | Some (a, t) \<Rightarrow>
                      if CHR ''*'' \<notin> set ans \<or> t = [] \<or> hd t \<noteq> CHR ''1'' then UNDEFINED_ERR
                      else code_error (if tl t = [] then None else Some (hd (tl t))))
         in (c\<lparr>bus_error := e\<rparr>, e = NO_ERROR)))"

definition send_command :: "(string list \<Rightarrow> bool) \<Rightarrow> string \<Rightarrow> ctl \<Rightarrow> bool run" where
  "send_command wr cmd c =
     bind_run (write_tty wr cmd c) (\<lambda>c1 u.
     bind_run (read_ctrl_command c1) (\<lambda>c2 (R, ans).
       if R = 0 \<or> take (length cmd) ans \<noteq> cmd then Done c2 False
       else
         bind_run (read_ctrl_command c2) (\<lambda>c3 (R, ans).
           if R = 0 then Done c3 False else (case parse_ctrlr_ans ans c3 of (c4, ok) \<Rightarrow> Done c4 ok))))"

section \<open>Erasing the program\<close>

text \<open>\<open>safely_send\<close>: the commands go out until an error has been seen, their results are not looked at.\<close>

fun safely_send :: "(string list \<Rightarrow> bool) \<Rightarrow> string list \<Rightarrow> ctl \<Rightarrow> bool run" where
  "safely_send wr [] c = Done c (bus_error c = NO_ERROR)"
| "safely_send wr (cmd # cmds) c =
     (if bus_error c \<noteq> NO_ERROR then Done c False else bind_run (send_command wr cmd c) (\<lambda>c1 ok. safely_send wr cmds c1))"

definition erase_ctrlr :: "(string list \<Rightarrow> bool) \<Rightarrow> ctl \<Rightarrow> bool run" where
  "erase_ctrlr wr c =
     bind_run (send_command wr ''LD1*'' c) (\<lambda>c1 ok.
       if ok then safely_send wr [''BG*'', ''DS*'', ''ED*''] c1
       else if bus_error c1 = COMMAND_ERR then
         bind_run (send_command wr ''ST1*'' c1) (\<lambda>c2 ok.
         bind_run (if ok then Done c2 True else send_command wr ''SP*'' c2) (\<lambda>c3 ok.
         bind_run (send_command wr ''LD1*'' c3) (\<lambda>c4 ok. safely_send wr [''BG*'', ''DS*'', ''ED*''] c4)))
       else Done c1 True)"

text \<open>\<open>quit\<close>: the program ends when the controller is erased; a failure of the terminal meanwhile calls \<open>quit\<close> again.\<close>

partial_function (option) quit :: "(string list \<Rightarrow> bool) \<Rightarrow> ctl \<Rightarrow> ctl option" where
  "quit wr c =
     (case erase_ctrlr wr c of
        Done c1 ok \<Rightarrow> Some c1
      | Dead c1 \<Rightarrow> quit wr c1
      | Crash \<Rightarrow> None
      | Waits \<Rightarrow> None)"

section \<open>Programs\<close>

text \<open>\<open>Die_on_error\<close> on one command after the other: whether all went well.\<close>

fun die_on_error :: "(string list \<Rightarrow> bool) \<Rightarrow> string list \<Rightarrow> ctl \<Rightarrow> bool run" where
  "die_on_error wr [] c = Done c True"
| "die_on_error wr (cmd # cmds) c =
     bind_run (send_command wr cmd c) (\<lambda>c1 ok. if ok then die_on_error wr cmds c1 else Done c1 False)"

definition move_cmd :: "int \<Rightarrow> string" where
  "move_cmd stepsN = (if stepsN \<noteq> 0 then ''MV'' @ fmt_d stepsN @ ''*'' else ''MV*'')"

definition is_program :: "char \<Rightarrow> bool" where
  "is_program rb \<longleftrightarrow> rb \<in> set ''-+01Rr'' \<or> rb = CHR 0x00"

definition power_cmds :: "char \<Rightarrow> ctl \<Rightarrow> string list" where
  "power_cmds rb c =
     (if rb \<in> set ''-+01'' \<or> rb = CHR 0x00 then [''EN*'', ''SD'' @ fmt_u (unat (step_spd c)) @ ''*''] else [])"

definition key_cmds :: "char \<Rightarrow> int \<Rightarrow> string list" where
  "key_cmds rb stepsN =
     (if rb = CHR ''0'' then [''DL*'', ''HM*'']
      else if rb = CHR ''1'' then [''DR*'', ''ML*'']
      else if rb = CHR ''+'' then [''DR*'', move_cmd stepsN]
      else if rb = CHR ''-'' then [''DL*'', move_cmd stepsN]
      else if rb = CHR ''S'' then [''SP*'']
      else if rb = CHR ''A'' then [''ST1*'']
      else if rb = CHR ''R'' then [''SF*'']
      else if rb = CHR ''r'' then [''CF*'']
      else [])"

text \<open>The keys that send nothing themselves: erasing, and the speed in 16 bits.\<close>

definition key_effect :: "(string list \<Rightarrow> bool) \<Rightarrow> char \<Rightarrow> ctl \<Rightarrow> unit run" where
  "key_effect wr rb c =
     (if rb = CHR ''E'' then bind_run (erase_ctrlr wr c) (\<lambda>c1 ok. Done c1 ())
      else if rb = CHR ''>'' then Done (c\<lparr>step_spd := step_spd c + 25\<rparr>) ()
      else if rb = CHR ''<'' then Done (if step_spd c > 25 then c\<lparr>step_spd := step_spd c - 25\<rparr> else c) ()
      else Done c ())"

definition con_sig :: "(string list \<Rightarrow> bool) \<Rightarrow> char \<Rightarrow> int \<Rightarrow> ctl \<Rightarrow> bool run" where
  "con_sig wr rb stepsN c =
     (let erase = (\<lambda>c1. bind_run (erase_ctrlr wr c1) (\<lambda>c2 ok. Done c2 False));
          body = (\<lambda>c1. bind_run (die_on_error wr (key_cmds rb stepsN) c1) (\<lambda>c2 ok.
             if \<not> ok then erase c2
             else
               bind_run (key_effect wr rb c2) (\<lambda>c3 u.
                 if \<not> is_program rb then Done c3 False
                 else bind_run (die_on_error wr [''DS*'', ''ED*'', ''ST1*''] c3) (\<lambda>c4 ok. if ok then Done c4 True else erase c4))))
      in if is_program rb then
           bind_run (send_command wr ''LD1*'' c) (\<lambda>c1 ok.
             if \<not> ok then Done c1 False
             else bind_run (die_on_error wr (''BG*'' # power_cmds rb c1) c1) (\<lambda>c2 ok. if ok then body c2 else erase c2))
         else body c)"

text \<open>
  \<open>wait_for_answer\<close> with its buffer of 128 bytes, of which each read may use 127 from the current place
  on: \<open>Crash\<close> when it writes behind the buffer, or looks in front of it after a reset.
\<close>

fun wait_loop :: "rd list \<Rightarrow> string \<Rightarrow> ctl \<Rightarrow> unit run" where
  "wait_loop [] buf c = Waits"
| "wait_loop (Nothing # es) buf c = wait_loop es buf c"
| "wait_loop (Broken # es) buf c = Dead (c\<lparr>rx := es\<rparr>)"
| "wait_loop (Chunk bs # es) buf c =
     (let got = take 127 bs; es1 = (if length bs \<le> 127 then es else Chunk (drop 127 bs) # es); buf1 = buf @ got in
      if bs = [] then Dead (c\<lparr>rx := es\<rparr>)
      else if length buf1 > 127 then Crash
      else if last buf1 = CHR ''*'' then Done (fst (parse_ctrlr_ans (takeWhile (\<lambda>b. b \<noteq> CHR 0x00) buf1) (c\<lparr>rx := es1\<rparr>))) ()
      else if length bs > 127 then Crash
      else wait_loop es buf1 c)"

definition wait_for_answer :: "ctl \<Rightarrow> unit run" where
  "wait_for_answer c = wait_loop (rx c) [] c"

section \<open>The main program\<close>

record opts =
  erasecmd :: bool
  relaycmd :: int
  gotopos :: "string option"

text \<open>The keys and the last motion of a position: \<open>None\<close> for a wrong name.\<close>

definition position_keys :: "string \<Rightarrow> (char \<times> char \<times> int) option" where
  "position_keys name =
     (let n = map tolower name in
      if n = ''refmir'' then Some (CHR ''1'', CHR ''-'', 500)
      else if n = ''diagmir'' then Some (CHR ''0'', CHR ''+'', 2500)
      else if n = ''shack'' then Some (CHR ''1'', CHR ''-'', 30000)
      else None)"

definition goto_position :: "(string list \<Rightarrow> bool) \<Rightarrow> string \<Rightarrow> ctl \<Rightarrow> int run" where
  "goto_position wr name c =
     (case position_keys name of
        None \<Rightarrow> Done c (- 1)
      | Some (k1, k2, n) \<Rightarrow>
          bind_run (con_sig wr k1 0 c) (\<lambda>c1 ok.
            if \<not> ok then Done c1 (- 1)
            else
              bind_run (wait_for_answer c1) (\<lambda>c2 u.
              bind_run (con_sig wr k2 n c2) (\<lambda>c3 ok.
                if \<not> ok then Done c3 (- 1) else bind_run (wait_for_answer c3) (\<lambda>c4 u. Done c4 0)))))"

definition relay :: "(string list \<Rightarrow> bool) \<Rightarrow> int \<Rightarrow> ctl \<Rightarrow> bool run" where
  "relay wr r c =
     bind_run (con_sig wr (if r \<noteq> 0 then CHR ''R'' else CHR ''r'') 0 c) (\<lambda>c1 ans.
       if ans then bind_run (wait_for_answer c1) (\<lambda>c2 u. Done c2 True) else Done c1 False)"

definition client_main :: "(string list \<Rightarrow> bool) \<Rightarrow> opts \<Rightarrow> ctl \<Rightarrow> int run" where
  "client_main wr G c =
     bind_run (erase_ctrlr wr c) (\<lambda>c1 ok.
       if erasecmd G then Done c1 0
       else if relaycmd G = - 1 \<and> gotopos G = None then Done c1 (- 1)
       else
         bind_run (if relaycmd G \<noteq> - 1 then relay wr (relaycmd G) c1 else Done c1 True) (\<lambda>c2 ok.
           if \<not> ok then Done c2 (- 1)
           else (case gotopos G of None \<Rightarrow> Done c2 0 | Some name \<Rightarrow> goto_position wr name c2)))"

section \<open>A controller that answers\<close>

text \<open>The next bytes that the terminal gives are \<open>s\<close>, in any pieces and with pauses short enough.\<close>

inductive supplies :: "string \<Rightarrow> rd list \<Rightarrow> rd list \<Rightarrow> bool" where
  supplies_Nil: "supplies [] es es"
| supplies_Cons: "read_byte 10 es = Some (Some b, es1) \<Longrightarrow> supplies s es1 es2 \<Longrightarrow> supplies (b # s) es es2"

inductive_cases supplies_ConsE: "supplies (b # s) es es2"

lemma supplies_append: "supplies (s @ t) es es2 \<longleftrightarrow> (\<exists>es1. supplies s es es1 \<and> supplies t es1 es2)"
proof (induction s arbitrary: es)
  case Nil
  show ?case by (auto intro: supplies_Nil elim: supplies.cases)
next
  case (Cons b s)
  then show ?case by (fastforce elim: supplies_ConsE intro: supplies_Cons)
qed

lemma supplies_chunk: "s \<noteq> [] \<Longrightarrow> supplies s (Chunk s # es) es"
proof (induction s)
  case (Cons b s)
  show ?case
  proof (cases "s = []")
    case True
    then show ?thesis by (auto intro!: supplies_Cons supplies_Nil simp: eval_nat_numeral)
  next
    case False
    then show ?thesis using Cons.IH by (intro supplies_Cons [of _ _ "Chunk s # es"]) (simp_all add: eval_nat_numeral)
  qed
qed simp

definition plain :: "string \<Rightarrow> bool" where
  "plain w \<longleftrightarrow> list_all (\<lambda>b. b \<noteq> CHR ''*'' \<and> 32 \<le> schar b) w"

definition command :: "string \<Rightarrow> bool" where
  "command cmd \<longleftrightarrow> cmd \<noteq> [] \<and> last cmd = CHR ''*'' \<and> plain (butlast cmd) \<and> length cmd \<le> 255"

lemma read_cmd_text:
  assumes "supplies (w @ ''*'') es es1" "plain w" "length buf + length w < L"
  shows "read_cmd L buf junk es = Some ((length buf + length w + 1, Some (buf @ w @ ''*'')), es1)"
  using assms
proof (induction w arbitrary: es buf junk)
  case Nil
  then obtain "read_byte 10 es = Some (Some CHR ''*'', es1)" by (auto elim!: supplies_ConsE elim: supplies.cases)
  then show ?case using Nil by (subst read_cmd.simps) simp
next
  case (Cons b w)
  then obtain es2 where b: "read_byte 10 es = Some (Some b, es2)" "supplies (w @ ''*'') es2 es1" by (auto elim!: supplies_ConsE)
  show ?case using b(1) Cons.IH [OF b(2), of "buf @ [b]" None] Cons.prems by (subst read_cmd.simps) (auto simp: plain_def)
qed

lemma read_ctrl_command_text:
  assumes "supplies cmd (rx c) es" "command cmd"
  shows "read_ctrl_command c = Done (c\<lparr>rx := es\<rparr>) (length cmd, cmd)"
proof -
  have e: "cmd = butlast cmd @ ''*''" using assms(2) by (metis append_butlast_last_id command_def)
  have "supplies (butlast cmd @ ''*'') (rx c) es" using assms(1) e by simp
  from read_cmd_text [OF this, of "[]" 255 None] have "read_cmd 255 [] None (rx c) = Some ((length (butlast cmd) + 1, Some (butlast cmd @ ''*'')), es)"
    using assms(2) by (auto simp: command_def)
  moreover have "length (butlast cmd) + 1 = length cmd" using assms(2) by (cases cmd) (auto simp: command_def)
  ultimately show ?thesis using e by (simp add: read_ctrl_command_def)
qed

definition answer :: "char \<Rightarrow> string" where
  "answer x = ''E1'' @ [x] @ ''*''"

lemma answer_command: "x \<in> set ''0123456789'' \<Longrightarrow> command (answer x)"
proof -
  assume x: "x \<in> set ''0123456789''"
  have "list_all (\<lambda>x. command (answer x)) ''0123456789''" by code_simp
  then show ?thesis using x by (simp only: list_all_iff)
qed

lemma send_command_code:
  assumes "command cmd" "x \<in> set ''0123456789''" "supplies (cmd @ answer x) (rx c) es" "wr (written c @ [cmd])"
  shows "send_command wr cmd c =
    Done (c\<lparr>rx := es, written := written c @ [cmd], bus_error := code_error (Some x)\<rparr>) (x \<in> {CHR ''0'', CHR ''2'', CHR ''4''})"
proof -
  obtain es1 where s: "supplies cmd (rx c) es1" "supplies (answer x) es1 es" using assms(3) by (auto simp: supplies_append)
  have x: "x \<noteq> CHR ''E''" "code_error (Some x) = NO_ERROR \<longleftrightarrow> x \<in> {CHR ''0'', CHR ''2'', CHR ''4''}"
    using assms(2) by (auto simp: code_error_def)
  have 1: "read_ctrl_command (c\<lparr>written := written c @ [cmd]\<rparr>) = Done (c\<lparr>written := written c @ [cmd], rx := es1\<rparr>) (length cmd, cmd)"
    using read_ctrl_command_text [of cmd "c\<lparr>written := written c @ [cmd]\<rparr>"] s(1) assms(1) by simp
  have 2: "read_ctrl_command (c\<lparr>written := written c @ [cmd], rx := es1\<rparr>) = Done (c\<lparr>written := written c @ [cmd], rx := es\<rparr>) (length (answer x), answer x)"
    using read_ctrl_command_text [of "answer x" "c\<lparr>written := written c @ [cmd], rx := es1\<rparr>"] s(2) answer_command [OF assms(2)] by simp
  have 3: "parse_ctrlr_ans (answer x) d = (d\<lparr>bus_error := code_error (Some x)\<rparr>, x \<in> {CHR ''0'', CHR ''2'', CHR ''4''})" for d
    by (simp add: parse_ctrlr_ans_def answer_def x(2))
  have "length cmd \<noteq> 0" "length (answer x) \<noteq> 0" using assms(1) by (auto simp: command_def answer_def)
  then show ?thesis using assms(4) 1 2 3 by (simp add: send_command_def write_tty_def)
qed


definition dialogue :: "string list \<Rightarrow> string" where
  "dialogue cmds = concat (map (\<lambda>cmd. cmd @ answer CHR ''0'') cmds)"

lemma dialogue_simps [simp]: "dialogue [] = []" "dialogue (cmd # cmds) = cmd @ answer CHR ''0'' @ dialogue cmds"
  "dialogue (xs @ ys) = dialogue xs @ dialogue ys"
  by (simp_all add: dialogue_def)

definition told :: "ctl \<Rightarrow> string list \<Rightarrow> rd list \<Rightarrow> ctl" where
  "told c cmds es = c\<lparr>rx := es, written := written c @ cmds, bus_error := NO_ERROR\<rparr>"

lemma send_command_ok:
  assumes "command cmd" "supplies (cmd @ answer CHR ''0'') (rx c) es"
  shows "send_command (\<lambda>x. True) cmd c = Done (told c [cmd] es) True"
  using send_command_code [of cmd "CHR ''0''" c es "\<lambda>x. True"] assms by (simp add: told_def code_error_def)

lemma told_told [simp]: "told (told c xs es) ys fs = told c (xs @ ys) fs"
  by (simp add: told_def)

lemma told_sel [simp]: "rx (told c cmds es) = es" "step_spd (told c cmds es) = step_spd c"
  by (simp_all add: told_def)

lemma die_on_error_ok:
  assumes "\<forall>cmd \<in> set cmds. command cmd" "supplies (dialogue cmds) (rx c) es" "bus_error c = NO_ERROR"
  shows "die_on_error (\<lambda>x. True) cmds c = Done (told c cmds es) True"
  using assms
proof (induction cmds arbitrary: c)
  case Nil
  then have "es = rx c" by (auto elim: supplies.cases)
  then show ?case using Nil.prems(3) by (simp add: told_def)
next
  case (Cons cmd cmds)
  then obtain es1 where s: "supplies (cmd @ answer CHR ''0'') (rx c) es1" "supplies (dialogue cmds) es1 es"
    by (auto simp: supplies_append)
  then show ?case using send_command_ok [OF _ s(1)] Cons.IH [of "told c [cmd] es1"] Cons.prems by (simp add: told_def)
qed

section \<open>Programs for the controller\<close>

lemma plain_append [simp]: "plain (v @ w) \<longleftrightarrow> plain v \<and> plain w"
  by (simp add: plain_def)

lemma plain_fmt_u: "plain (fmt_u n)"
proof -
  have "b \<noteq> CHR ''*'' \<and> 32 \<le> schar b" if "decdigit b \<noteq> None" for b
  proof -
    have "decdigit CHR ''*'' = None" by code_simp
    then show ?thesis using that by (auto simp: decdigit_def split: if_splits)
  qed
  then show ?thesis using fmt_u_digits [of _ n] by (simp add: plain_def list_all_iff)
qed

lemma plain_fmt_d: "plain (fmt_d v)"
proof -
  have "plain ''-''" by code_simp
  then show ?thesis using plain_append [of "''-''"] plain_fmt_u by (simp add: fmt_d_def)
qed

lemma fmt_d_length: "int_ok v \<Longrightarrow> length (fmt_d v) \<le> 11"
proof -
  assume "int_ok v"
  then have "nat (- v) < 10 ^ 10" "nat v < 10 ^ 10" by (auto simp: int_ok_def)
  then have "length (fmt_u (nat (- v))) \<le> 10" "length (fmt_u (nat v)) \<le> 10" by (simp_all add: fmt_u_length)
  then show ?thesis by (simp add: fmt_d_def)
qed

lemma command_move: "int_ok v \<Longrightarrow> command (move_cmd v)"
proof -
  assume v: "int_ok v"
  have "plain ''MV''" "command ''MV*''" by code_simp+
  moreover have "butlast (''MV'' @ fmt_d v @ ''*'') = ''MV'' @ fmt_d v" using butlast_snoc [of "''MV'' @ fmt_d v"] by (simp del: butlast_snoc)
  ultimately show ?thesis using plain_fmt_d [of v] fmt_d_length [OF v] plain_append [of "''MV''" "fmt_d v"]
    by (auto simp: move_cmd_def command_def simp del: butlast.simps plain_append)
qed

lemma command_speed: "command (''SD'' @ fmt_u (unat (n :: u16)) @ ''*'')"
proof -
  have "unat n < 10 ^ 5" using unat_u16 [of n] by simp
  then have "length (fmt_u (unat n)) \<le> 5" by (intro fmt_u_length) simp_all
  moreover have "plain ''SD''" by code_simp
  moreover have "butlast (''SD'' @ fmt_u (unat n) @ ''*'') = ''SD'' @ fmt_u (unat n)" using butlast_snoc [of "''SD'' @ fmt_u (unat n)"] by (simp del: butlast_snoc)
  ultimately show ?thesis using plain_fmt_u plain_append [of "''SD''"] by (auto simp: command_def simp del: butlast.simps plain_append)
qed

text \<open>The program that a key stands for.\<close>

definition program :: "char \<Rightarrow> int \<Rightarrow> ctl \<Rightarrow> string list" where
  "program rb stepsN c = [''LD1*'', ''BG*''] @ power_cmds rb c @ key_cmds rb stepsN @ [''DS*'', ''ED*'', ''ST1*'']"

lemma program_commands:
  assumes "int_ok stepsN"
  shows "\<forall>cmd \<in> set (program rb stepsN c). command cmd"
proof -
  have "list_all command [''LD1*'', ''BG*'', ''DS*'', ''ED*'', ''ST1*'', ''EN*'', ''DL*'', ''HM*'', ''DR*'', ''ML*'', ''SP*'', ''SF*'', ''CF*'']"
    by code_simp
  then have "list_all command (power_cmds rb c)" "list_all command (key_cmds rb stepsN)"
    "list_all command [''LD1*'', ''BG*'']" "list_all command [''DS*'', ''ED*'', ''ST1*'']"
    using command_move [OF assms] command_speed [of "step_spd c"] unfolding power_cmds_def key_cmds_def by (simp_all del: append_Cons)
  then show ?thesis by (simp only: program_def list_all_append simp_thms flip: list_all_iff)
qed


lemma key_effect_program: "is_program rb \<Longrightarrow> key_effect wr rb c = Done c ()"
proof -
  have "\<not> is_program CHR ''E''" "\<not> is_program CHR ''>''" "\<not> is_program CHR ''<''" by code_simp+
  then show "is_program rb \<Longrightarrow> key_effect wr rb c = Done c ()" by (auto simp: key_effect_def simp del: bind_run.simps)
qed

lemma con_sig_program:
  assumes "is_program rb" "int_ok stepsN" "supplies (dialogue (program rb stepsN c)) (rx c) es"
  shows "con_sig (\<lambda>x. True) rb stepsN c = Done (told c (program rb stepsN c) es) True"
proof -
  have d0: "dialogue (program rb stepsN c) =
    (''LD1*'' @ answer CHR ''0'') @ dialogue (''BG*'' # power_cmds rb c) @ dialogue (key_cmds rb stepsN) @ dialogue [''DS*'', ''ED*'', ''ST1*'']"
    by (simp add: program_def)
  obtain es1 es2 es3 where s: "supplies (''LD1*'' @ answer CHR ''0'') (rx c) es1" "supplies (dialogue (''BG*'' # power_cmds rb c)) es1 es2"
    "supplies (dialogue (key_cmds rb stepsN)) es2 es3" "supplies (dialogue [''DS*'', ''ED*'', ''ST1*'']) es3 es"
    using assms(3) unfolding d0 supplies_append by blast
  have cmds: "command ''LD1*''" "\<forall>cmd \<in> set (''BG*'' # power_cmds rb c). command cmd"
    "\<forall>cmd \<in> set (key_cmds rb stepsN). command cmd" "\<forall>cmd \<in> set [''DS*'', ''ED*'', ''ST1*'']. command cmd"
    using program_commands [OF assms(2), of rb c] by (simp_all add: program_def)
  have 1: "send_command (\<lambda>x. True) ''LD1*'' c = Done (told c [''LD1*''] es1) True" using cmds(1) s(1) by (rule send_command_ok)
  have b: "bus_error (told d xs fs) = NO_ERROR" for d xs fs by (simp add: told_def)
  have p: "power_cmds rb (told c xs fs) = power_cmds rb c" for xs fs by (simp add: power_cmds_def)
  note d = die_on_error_ok [OF cmds(2), of "told c [''LD1*''] es1" es2]
    die_on_error_ok [OF cmds(3), of "told c (''LD1*'' # ''BG*'' # power_cmds rb c) es2" es3]
    die_on_error_ok [OF cmds(4), of "told c (''LD1*'' # ''BG*'' # power_cmds rb c @ key_cmds rb stepsN) es3" es]
  show ?thesis unfolding con_sig_def Let_def 1
    using assms(1) s d b by (simp add: p key_effect_program program_def del: die_on_error.simps dialogue_simps)
qed




section \<open>Positions\<close>

lemma wait_end:
  assumes "rx c = Chunk ''E14*'' # es"
  shows "wait_for_answer c = Done (c\<lparr>rx := es, bus_error := NO_ERROR\<rparr>) ()"
  using assms by (simp add: wait_for_answer_def parse_ctrlr_ans_def code_error_def Let_def)

lemma wait_told: "wait_for_answer (told c cmds (Chunk ''E14*'' # es)) = Done (told c cmds es) ()"
  by (simp add: wait_end) (simp add: told_def)

lemma position_keys_ok:
  assumes "position_keys name = Some (k1, k2, n)"
  shows "is_program k1 \<and> is_program k2 \<and> int_ok n"
proof -
  have "is_program CHR ''0''" "is_program CHR ''1''" "is_program CHR ''+''" "is_program CHR ''-''"
    "int_ok 500" "int_ok 2500" "int_ok 30000" by code_simp+
  then show ?thesis using assms by (auto simp: position_keys_def Let_def split: if_splits)
qed

lemma program_told [simp]: "program rb n (told c cmds es) = program rb n c"
  by (simp add: program_def power_cmds_def)

lemma goto_position_told:
  assumes k: "position_keys name = Some (k1, k2, n)"
    and "supplies (dialogue (program k1 0 c)) (rx c) (Chunk ''E14*'' # es1)"
    and "supplies (dialogue (program k2 n c)) es1 (Chunk ''E14*'' # es2)"
  shows "goto_position (\<lambda>x. True) name c = Done (told c (program k1 0 c @ program k2 n c) es2) 0"
proof -
  have "int_ok 0" by code_simp
  then have "con_sig (\<lambda>x. True) k1 0 c = Done (told c (program k1 0 c) (Chunk ''E14*'' # es1)) True"
    using position_keys_ok [OF k] assms(2) by (simp add: con_sig_program)
  moreover have "con_sig (\<lambda>x. True) k2 n (told c (program k1 0 c) es1) =
      Done (told c (program k1 0 c @ program k2 n c) (Chunk ''E14*'' # es2)) True"
    using position_keys_ok [OF k] assms(3) con_sig_program [of k2 n "told c (program k1 0 c) es1"] by simp
  ultimately show ?thesis using k by (simp add: goto_position_def wait_told)
qed

lemma safely_send_ok:
  assumes "\<forall>cmd \<in> set cmds. command cmd" "supplies (dialogue cmds) (rx c) es" "bus_error c = NO_ERROR"
  shows "safely_send (\<lambda>x. True) cmds c = Done (told c cmds es) True"
  using assms
proof (induction cmds arbitrary: c)
  case Nil
  then have "es = rx c" by (auto elim: supplies.cases)
  then show ?case using Nil.prems(3) by (simp add: told_def)
next
  case (Cons cmd cmds)
  then obtain es1 where s: "supplies (cmd @ answer CHR ''0'') (rx c) es1" "supplies (dialogue cmds) es1 es"
    by (auto simp: supplies_append)
  then show ?case using send_command_ok [OF _ s(1)] Cons.IH [of "told c [cmd] es1"] Cons.prems by (simp add: told_def)
qed

definition erasure :: "string list" where
  "erasure = [''LD1*'', ''BG*'', ''DS*'', ''ED*'']"

lemma erasure_commands: "\<forall>cmd \<in> set erasure. command cmd"
proof -
  have "list_all command erasure" by code_simp
  then show ?thesis by (simp only: list_all_iff)
qed

lemma erase_ctrlr_ok:
  assumes "supplies (dialogue erasure) (rx c) es"
  shows "erase_ctrlr (\<lambda>x. True) c = Done (told c erasure es) True"
proof -
  have d: "dialogue erasure = (''LD1*'' @ answer CHR ''0'') @ dialogue [''BG*'', ''DS*'', ''ED*'']" by (simp add: erasure_def)
  obtain es1 where s: "supplies (''LD1*'' @ answer CHR ''0'') (rx c) es1" "supplies (dialogue [''BG*'', ''DS*'', ''ED*'']) es1 es"
    using assms unfolding d supplies_append by blast
  have cmds: "command ''LD1*''" "\<forall>cmd \<in> set [''BG*'', ''DS*'', ''ED*'']. command cmd" using erasure_commands by (simp_all add: erasure_def)
  show ?thesis using send_command_ok [OF cmds(1) s(1)] safely_send_ok [OF cmds(2), of "told c [''LD1*''] es1" es] s(2)
    by (simp add: erase_ctrlr_def erasure_def told_def del: safely_send.simps dialogue_simps)
qed

text \<open>
  A call of the client for one of the three positions, with a controller that echoes each command, answers it with the code 10 and reports the end of each program with 14: the memory is erased, then the program to the end switch and the program of the last motion are loaded and started, exactly and in this order, and the client succeeds. The bytes may come in any pieces and with pauses.
\<close>

theorem client_main_goto:
  assumes "G = \<lparr>erasecmd = False, relaycmd = - 1, gotopos = Some name\<rparr>" and k: "position_keys name = Some (k1, k2, n)"
    and "supplies (dialogue erasure) (rx c) es0"
    and "supplies (dialogue (program k1 0 c)) es0 (Chunk ''E14*'' # es1)"
    and "supplies (dialogue (program k2 n c)) es1 (Chunk ''E14*'' # es2)"
  shows "client_main (\<lambda>x. True) G c =
    Done (c\<lparr>rx := es2, written := written c @ erasure @ program k1 0 c @ program k2 n c, bus_error := NO_ERROR\<rparr>) 0"
proof -
  have "goto_position (\<lambda>x. True) name (told c erasure es0) = Done (told c (erasure @ program k1 0 c @ program k2 n c) es2) 0"
    using goto_position_told [OF k, of "told c erasure es0"] assms(4,5) by simp
  then show ?thesis using erase_ctrlr_ok [OF assms(3)] assms(1) by (simp add: client_main_def told_def)
qed


text \<open>
  C37. When nothing can be written to the terminal any more, \<open>quit\<close> does not return: it erases the controller, which fails to write and calls \<open>quit\<close>.
\<close>

theorem quit_dead: "quit (\<lambda>x. False) c = None"
proof -
  have "wr \<noteq> (\<lambda>x. False)" if "quit wr c = Some y" for wr c y
  proof (rule quit.raw_induct [OF _ that])
    fix q wr c y
    assume IH: "\<And>wr c y. q wr c = Some y \<Longrightarrow> wr \<noteq> (\<lambda>x. False)"
      and "(case erase_ctrlr wr c of Done c1 ok \<Rightarrow> Some c1 | Dead c1 \<Rightarrow> q wr c1 | Crash \<Rightarrow> None | Waits \<Rightarrow> None) = Some y"
    then show "wr \<noteq> (\<lambda>x. False)" by (auto simp: erase_ctrlr_def send_command_def write_tty_def split: run.splits)
  qed
  then show ?thesis by (metis not_None_eq)
qed

text \<open>
  A controller that does not answer at all is reported as erased: only the first command has been written, nothing came back, and \<open>erase_ctrlr\<close> returns 1.
\<close>

theorem erase_silent:
  assumes "rx c = []" "bus_error c \<noteq> COMMAND_ERR"
  shows "erase_ctrlr (\<lambda>x. True) c = Done (c\<lparr>written := written c @ [''LD1*'']\<rparr>) True"
proof -
  have "read_cmd 255 [] None [] = Some ((0, Some []), [])" by (subst read_cmd.simps) (simp add: eval_nat_numeral)
  then show ?thesis using assms by (simp add: erase_ctrlr_def send_command_def write_tty_def read_ctrl_command_def)
qed

text \<open>
  While the client waits for the end of a program, 128 bytes that no read ends with a star make it write or look outside of its buffer: here in two pieces.
\<close>

theorem wait_for_answer_overflow:
  assumes "rx c = Chunk bs1 # Chunk bs2 # es" "bs1 \<noteq> []" "length bs1 \<le> 127" "last bs1 \<noteq> CHR ''*''"
    "length bs1 + length bs2 > 127" "length bs2 \<le> 127"
  shows "wait_for_answer c = Crash"
proof -
  have "bs2 \<noteq> []" using assms(3,5) by auto
  then show ?thesis using assms by (simp add: wait_for_answer_def Let_def)
qed

section \<open>Concrete runs\<close>

definition ctl0 :: "rd list \<Rightarrow> ctl" where
  "ctl0 es = \<lparr>rx = es, written = [], bus_error = NO_ERROR, step_spd = 900\<rparr>"

theorem client_main_goto_witness:
  "client_main (\<lambda>x. True) \<lparr>erasecmd = False, relaycmd = - 1, gotopos = Some ''Shack''\<rparr>
     (ctl0 [Chunk (dialogue erasure), Chunk (dialogue (program CHR ''1'' 0 (ctl0 []))), Chunk ''E14*'',
            Chunk (dialogue (program CHR ''-'' 30000 (ctl0 []))), Chunk ''E14*'']) =
   Done \<lparr>rx = [], written = erasure @ program CHR ''1'' 0 (ctl0 []) @ program CHR ''-'' 30000 (ctl0 []), bus_error = NO_ERROR, step_spd = 900\<rparr> 0"
proof -
  define P where "P rb n = program rb n (ctl0 [])" for rb n
  have p: "program rb n (ctl0 es) = P rb n" for rb n es by (simp add: P_def ctl0_def program_def power_cmds_def)
  have n: "dialogue (P rb n) \<noteq> []" for rb n by (simp add: P_def program_def)
  have e: "dialogue erasure \<noteq> []" by (simp add: erasure_def)
  have k: "position_keys ''Shack'' = Some (CHR ''1'', CHR ''-'', 30000)" by code_simp
  have r: "rx (ctl0 es) = es" "ctl0 es\<lparr>rx := fs, written := written (ctl0 es) @ cmds, bus_error := NO_ERROR\<rparr> =
      \<lparr>rx = fs, written = cmds, bus_error = NO_ERROR, step_spd = 900\<rparr>" for es fs cmds by (simp_all add: ctl0_def)
  show ?thesis unfolding p
    by (rule client_main_goto [OF refl k, of "ctl0 [Chunk (dialogue erasure), Chunk (dialogue (P CHR ''1'' 0)), Chunk ''E14*'',
            Chunk (dialogue (P CHR ''-'' 30000)), Chunk ''E14*'']", unfolded p r, OF supplies_chunk [OF e] supplies_chunk [OF n] supplies_chunk [OF n]])
qed


theorem erase_silent_witness: "erase_ctrlr (\<lambda>x. True) (ctl0 []) = Done (ctl0 []\<lparr>written := [''LD1*'']\<rparr>) True"
  using erase_silent [of "ctl0 []"] by (simp add: ctl0_def)

theorem wait_for_answer_overflow_witness: "wait_for_answer (ctl0 [Chunk (replicate 100 CHR ''x''), Chunk (replicate 100 CHR ''x'')]) = Crash"
proof -
  have w: "wait_for_answer (ctl0 [Chunk (replicate n CHR ''x''), Chunk (replicate n CHR ''x'')]) = Crash" if "63 < n" "n \<le> 127" for n
    by (rule wait_for_answer_overflow [of _ "replicate n CHR ''x''" "replicate n CHR ''x''" "[]"]) (use that in \<open>simp_all add: ctl0_def\<close>)
  show ?thesis by (rule w) simp_all
qed

end
