(* ===== verification/Trinamic.thy ===== *)
theory Trinamic
  imports StrFunc
begin

text \<open>
  The terminal client of a two axis motor controller, \<open>Trinamic/client/client.c\<close>. A key is turned into a telegram
  of nine bytes: address, command, type, motor, a value with its highest byte first, and the sum of the
  others. What happens outside is a list of events, one for each call of \<open>select\<close>.
\<close>

section \<open>Input and output\<close>

text \<open>
  Keys and bytes that come before a call of \<open>select\<close>, the bytes that come before each of the further reads, and
  whether the line is gone.
\<close>

record event =
  keys_in :: "int list"
  bytes_in :: "u8 list"
  later :: "u8 list list"
  gone :: bool

datatype out = Value int "u8 list" | Reached int | Info string int | BadInfo string nat "u8 option" | NoInfo string | Speed u32

text \<open>
  The keys in the terminal, and those that \<open>stdio\<close> has already taken from it, which \<open>select\<close> does not see. Each
  \<open>scanf\<close> finds a number or not and leaves some keys behind it. The last three are the variables of \<open>main\<close>
  and the contents of the file.
\<close>

record cli =
  motor_speed :: u32
  events :: "event list"
  keys :: "int list"
  inbuf :: "int list"
  scans :: "(int option \<times> int list) list"
  tty_in :: "u8 list"
  telegrams :: "u8 list list"
  shown :: "out list"
  buff :: "u8 list"
  oldcmd :: int
  fout :: "u8 list option"

text \<open>A function returns, leaves the program, reads outside of a buffer, or waits for an event that is not given.\<close>

datatype 'a res = Ok cli 'a | Quit cli | Wild | Waiting cli

fun bind_res :: "'a res \<Rightarrow> (cli \<Rightarrow> 'a \<Rightarrow> 'b res) \<Rightarrow> 'b res" where
  "bind_res (Ok c x) f = f c x"
| "bind_res (Quit c) f = Quit c"
| "bind_res Wild f = Wild"
| "bind_res (Waiting c) f = Waiting c"

definition tell :: "out \<Rightarrow> cli \<Rightarrow> cli" where
  "tell x c = c\<lparr>shown := shown c @ [x]\<rparr>"

text \<open>\<open>wr\<close> says for the telegrams so far and the new one whether all of its bytes are written.\<close>

definition send_command :: "(u8 list list \<Rightarrow> bool) \<Rightarrow> u8 list \<Rightarrow> cli \<Rightarrow> cli \<times> bool" where
  "send_command wr command c =
     (let t = take 8 command @ [sum_list (take 8 command)] in
      if wr (telegrams c @ [t]) then (c\<lparr>telegrams := telegrams c @ [t]\<rparr>, True) else (c, False))"

definition getchar :: "cli \<Rightarrow> int \<times> cli" where
  "getchar c = (case inbuf c of k # ks \<Rightarrow> (k, c\<lparr>inbuf := ks\<rparr>) | [] \<Rightarrow> (hd (keys c), c\<lparr>inbuf := tl (keys c), keys := []\<rparr>))"

text \<open>The reads until the buffer is full or nothing is there, with the bytes left behind.\<close>

function read_more :: "nat \<Rightarrow> u8 list \<Rightarrow> u8 list list \<Rightarrow> u8 list \<times> u8 list" where
  "read_more n q ls =
     (if n = 0 \<or> q = [] then ([], q @ concat ls)
      else
        (case read_more (n - length (take n q)) (drop n q @ (if ls = [] then [] else hd ls)) (tl ls) of
           (got, rest) \<Rightarrow> (take n q @ got, rest)))"
  by pat_completeness auto
termination
  by (relation "measure (\<lambda>(n, q, ls). n)") (auto simp: min_def)

declare read_more.simps [simp del]

text \<open>
  \<open>read_tty_and_console\<close> with a buffer of \<open>n\<close> bytes: the returned value, \<open>*rb\<close> and the bytes read, \<open>None\<close> where
  \<open>*rb\<close> and \<open>*length\<close> are left as they are.
\<close>

definition read_tty_and_console :: "nat \<Rightarrow> bool \<Rightarrow> cli \<Rightarrow> (bool \<times> int option \<times> u8 list option) res" where
  "read_tty_and_console n rb c =
     (case events c of
        [] \<Rightarrow> Waiting c
      | e # es \<Rightarrow>
          (let c = c\<lparr>events := es, keys := keys c @ keys_in e, tty_in := tty_in c @ bytes_in e\<rparr>;
               tty = (tty_in c \<noteq> [] \<or> gone e)
           in if keys c = [] \<and> \<not> tty then Ok (c\<lparr>tty_in := concat (later e)\<rparr>) (False, None, None)
              else
                (case (if \<not> rb then (None, c) else if keys c = [] then (Some (- 1), c) else (case getchar c of (k, c) \<Rightarrow> (Some k, c))) of
                   (k, c1) \<Rightarrow>
                     if \<not> tty then Ok (c1\<lparr>tty_in := concat (later e)\<rparr>) (rb, k, Some [])
                     else if tty_in c1 = [] then Quit c1
                     else (case read_more n (tty_in c1) (later e) of
                             (got, rest) \<Rightarrow> Ok (c1\<lparr>tty_in := rest\<rparr>) (True, k, Some got)))))"

section \<open>Values\<close>

text \<open>The bytes of a value as \<open>*spd--\<close> takes them on a machine with the lowest byte first.\<close>

definition put_value :: "u32 \<Rightarrow> u8 list \<Rightarrow> u8 list" where
  "put_value v command = take 4 command @ be_bytes v @ drop 8 command"

definition get_integer :: "u8 list \<Rightarrow> int" where
  "get_integer b =
     sint (of_nat (radix_val 256 0 (map unat [b ! 4, b ! 5, b ! 6, b ! 7])) :: u32)"

section \<open>All parameters of a motor\<close>

definition info :: "(string \<times> u8) list" where
  "info = [(''target position'', 0), (''actual position'', 1), (''target speed'', 2), (''actual speed'', 3),
     (''max positioning speed'', 4), (''max acceleration'', 5), (''abs. max current'', 6), (''standby current'', 7),
     (''target pos. reached'', 8), (''ref. switch status'', 9), (''right limit switch status'', 10), (''left  limit switch status'', 11),
     (''right limit switch disable'', 12), (''left limit switch disable'', 13), (''minimum speed'', 130), (''actual acceleration'', 135),
     (''ramp mode'', 138), (''microstep resolution'', 140), (''soft stop flag'', 149), (''ramp divisor'', 153),
     (''pulse divisor'', 154), (''referencing mode'', 193), (''referencing search speed'', 194), (''referencing switch speed'', 195),
     (''distance end switches'', 196), (''mixed decay threshold'', 203), (''freewheeling'', 204), (''stall detection threshold'', 205),
     (''actual load value'', 206), (''driver error flags'', 208), (''fullstep threshold'', 211), (''power down delay'', 214)]"

fun info_loop :: "(u8 list list \<Rightarrow> bool) \<Rightarrow> (string \<times> u8) list \<Rightarrow> u8 list \<Rightarrow> cli \<Rightarrow> unit res" where
  "info_loop wr [] com c = Ok c ()"
| "info_loop wr ((name, n) # xs) com c =
     (case send_command wr (com[2 := n]) c of
        (c1, False) \<Rightarrow> info_loop wr xs com (tell (NoInfo name) c1)
      | (c1, True) \<Rightarrow>
          bind_res (read_tty_and_console 9 False c1) (\<lambda>c2 (r, k, got).
            info_loop wr xs com
              (tell (if \<not> r then NoInfo name
                     else if length (the got) = 9 \<and> the got ! 2 > 6 then Info name (get_integer (the got))
                     else BadInfo name (length (the got)) (if length (the got) > 2 then Some (the got ! 2) else None)) c2)))"

definition get_information :: "(u8 list list \<Rightarrow> bool) \<Rightarrow> u8 list \<Rightarrow> cli \<Rightarrow> unit res" where
  "get_information wr com c = info_loop wr info com c"

section \<open>Keys\<close>

definition new_speed :: "bool \<Rightarrow> u32 \<Rightarrow> u32" where
  "new_speed faster spd =
     (let Delta = (if spd div 10 = 0 then 1 else spd div 10) in
      if faster then let newspd = spd + Delta in if newspd > spd then newspd else 0xFFFFFFFF
      else let newspd = spd - Delta in if newspd < spd \<and> newspd \<noteq> 0 then newspd else 1)"

definition change_motor_speed :: "(u8 list list \<Rightarrow> bool) \<Rightarrow> bool \<Rightarrow> u8 list \<Rightarrow> cli \<Rightarrow> unit res" where
  "change_motor_speed wr faster command c =
     (let spd = new_speed faster (motor_speed c);
          c = tell (Speed spd) (c\<lparr>motor_speed := spd\<rparr>);
          command = put_value spd (command[1 := 5, 2 := 4])
      in bind_res (read_tty_and_console 1024 False (fst (send_command wr command c))) (\<lambda>c1 x.
         bind_res (read_tty_and_console 1024 False (fst (send_command wr (command[3 := 2]) c1))) (\<lambda>c2 y. Ok c2 ())))"

text \<open>The switch over the small letters: the telegram, its value, and the state after a \<open>scanf\<close>.\<close>

definition key_command :: "int \<Rightarrow> u8 list \<Rightarrow> cli \<Rightarrow> (u8 list \<times> u32 \<times> cli) option" where
  "key_command rb command c =
     (let v = motor_speed c in
      if rb = 114 then Some (command[1 := 1], v, c)
      else if rb = 108 then Some (command[1 := 2], v, c)
      else if rb = 115 then Some (command[1 := 3], v, c)
      else if rb = 100 then Some (command[1 := 5, 2 := 140], 4, c)
      else if rb = 101 then Some (command[1 := 5, 2 := 140], 2, c)
      else if rb = 103 then Some (command[1 := 6, 2 := 1], v, c)
      else if rb = 122 then Some (command[1 := 5, 2 := 1], 0, c)
      else if rb = 109 then
        (case scans c of
           [] \<Rightarrow> None
         | (V, left) # ss \<Rightarrow>
             let c1 = c\<lparr>scans := ss, inbuf := left, keys := []\<rparr> in
             if V \<noteq> None \<and> V \<noteq> Some 0 then Some (command[1 := 4, 2 := 1], word_of_int (the V), c1) else Some (command, v, c1))
      else if rb = 119 then Some (command[1 := 138], 5, c)
      else Some (command, v, c))"

definition command0 :: "u8 list" where
  "command0 = [1, 0, 0, 0, 0, 0, 0, 0, 0]"

definition con_sig :: "(u8 list list \<Rightarrow> bool) \<Rightarrow> int \<Rightarrow> cli \<Rightarrow> unit res" where
  "con_sig wr rb c =
     (if rb < 1 then Ok c ()
      else if rb = 113 \<or> rb = 81 then Quit c
      else if rb = 104 \<or> rb = 72 then Ok c ()
      else if rb = 43 then change_motor_speed wr True command0 c
      else if rb = 45 then change_motor_speed wr False command0 c
      else
        (let small = (97 \<le> rb \<and> rb \<le> 122); capital = (65 \<le> rb \<and> rb \<le> 90);
             command = (if small then command0[3 := 2] else command0);
             rb = (if capital then rb + 32 else rb)
         in if \<not> small \<and> \<not> capital then Ok c ()
            else if rb = 97 then get_information wr (command[1 := 6]) c
            else (case key_command rb command c of
                    None \<Rightarrow> Waiting c
                  | Some (command, v, c1) \<Rightarrow>
                      Ok (if command ! 1 \<noteq> 0 then fst (send_command wr (put_value v command) c1) else c1) ())))"

section \<open>The copy to a file\<close>

text \<open>
  \<open>copy_buf_to_file\<close> on the duplicate \<open>b\<close> of the text with its NUL: the text written and the new \<open>*cmd\<close>. The search
  for a newline starts at the beginning of the buffer.
\<close>

definition text_at :: "nat \<Rightarrow> u8 list \<Rightarrow> u8 list" where
  "text_at i b = takeWhile (\<lambda>x. x \<noteq> 0) (drop i b)"

definition newline_at :: "u8 list \<Rightarrow> nat option" where
  "newline_at b = (let t = text_at 0 b in if 10 \<in> set t then Some (length (takeWhile (\<lambda>x. x \<noteq> 10) t)) else None)"

lemma newline_at_Some: "newline_at b = Some j \<Longrightarrow> j < length b \<and> b ! j = 10"
proof -
  assume "newline_at b = Some j"
  then have j: "10 \<in> set (text_at 0 b)" "j = length (takeWhile (\<lambda>x. x \<noteq> 10) (text_at 0 b))"
    by (auto simp: newline_at_def Let_def split: if_splits)
  have l: "j < length (text_at 0 b)"
  proof -
    have "length (takeWhile (\<lambda>x. x \<noteq> 10) t) < length t" if "10 \<in> set t" for t :: "u8 list" using that by (induction t) auto
    then show ?thesis using j by simp
  qed
  moreover have "text_at 0 b ! j = 10" using nth_length_takeWhile [of "\<lambda>x. x \<noteq> 10" "text_at 0 b"] l j(2) by simp
  moreover have "text_at 0 b ! j = b ! j" using l by (simp add: text_at_def takeWhile_nth)
  ultimately show ?thesis using length_takeWhile_le [of "\<lambda>x. x \<noteq> 0" b] by (simp add: text_at_def)
qed

function copy_loop :: "u8 list \<Rightarrow> nat \<Rightarrow> int \<Rightarrow> u8 list \<Rightarrow> u8 list \<times> int" where
  "copy_loop b i cmd acc =
     (if b ! i = 0 then (acc, cmd)
      else
        (let hit = (0 \<le> cmd \<and> cmd < 128 \<and> uint (b ! i) = cmd);
             i1 = (if hit then if b ! (i + 1) = 10 then i + 2 else i + 1 else i);
             cmd1 = (if hit then - 1 else cmd)
         in if hit \<and> b ! i1 = 0 then (acc, cmd1)
            else (case newline_at b of
                    None \<Rightarrow> (acc @ text_at i1 b @ [10], cmd1)
                  | Some j \<Rightarrow> copy_loop (b[j := 0]) (j + 1) cmd1 (acc @ text_at i1 (b[j := 0]) @ [10]))))"
  by pat_completeness auto
termination
proof (relation "measure (\<lambda>(b, i, cmd, acc). length (filter (\<lambda>x. x = 10) b))", goal_cases)
  case (2 b i cmd acc hit i1 cmd1 j)
  then have j: "j < length b" "b ! j = 10" using newline_at_Some by auto
  have "length (filter (\<lambda>x. x = 10) b) = length (filter (\<lambda>x. x = 10) (take j b @ b ! j # drop (Suc j) b))"
    by (subst id_take_nth_drop [OF j(1)]) (rule refl)
  then have "length (filter (\<lambda>x. x = 10) (b[j := 0])) < length (filter (\<lambda>x. x = 10) b)"
    using j by (simp add: upd_conv_take_nth_drop)
  then show ?case by simp
qed simp

definition copy_buf_to_file :: "u8 list \<Rightarrow> int \<Rightarrow> u8 list \<times> int" where
  "copy_buf_to_file txt cmd = (if cmd < 0 then (txt, cmd) else copy_loop (txt @ [0]) 0 cmd [])"

section \<open>The main loop\<close>

fun log_2 :: "nat \<Rightarrow> nat" where
  "log_2 n = (if n < 2 then 0 else Suc (log_2 (n div 2)))"

declare log_2.simps [simp del]

definition answer_out :: "nat \<Rightarrow> u8 list \<Rightarrow> out" where
  "answer_out L b =
     (if take 7 b = [2, 1, 128, 138, 0, 0, 0] then Reached (int (log_2 (unat (word_of_int (get_integer b) :: u32))))
      else Value (get_integer b) (take L b))"

definition show_answer :: "u8 list \<Rightarrow> cli \<Rightarrow> unit res" where
  "show_answer got c =
     (if got = [] then Ok c ()
      else
        (let b = got @ drop (length got) (buff c); c = tell (answer_out (length got) b) (c\<lparr>buff := b\<rparr>) in
         case fout c of
           None \<Rightarrow> Ok c ()
         | Some f \<Rightarrow>
             if 0 \<notin> set b then Wild
             else (case copy_buf_to_file (text_at 0 b) (oldcmd c) of (t, cmd) \<Rightarrow> Ok (c\<lparr>fout := Some (f @ t), oldcmd := cmd\<rparr>) ())))"

definition main_turn :: "(u8 list list \<Rightarrow> bool) \<Rightarrow> cli \<Rightarrow> unit res" where
  "main_turn wr c =
     bind_res (read_tty_and_console 1024 True c) (\<lambda>c (r, k, got).
       if \<not> r then Ok c ()
       else
         bind_res (if k \<noteq> None \<and> the k > 0 then bind_res (con_sig wr (the k) c) (\<lambda>c u. Ok (c\<lparr>oldcmd := the k\<rparr>) ()) else Ok c ())
           (\<lambda>c u. show_answer (case got of None \<Rightarrow> [] | Some g \<Rightarrow> g) c))"

primrec main_turns :: "(u8 list list \<Rightarrow> bool) \<Rightarrow> nat \<Rightarrow> cli \<Rightarrow> unit res" where
  "main_turns wr 0 c = Ok c ()"
| "main_turns wr (Suc n) c = bind_res (main_turn wr c) (\<lambda>c u. main_turns wr n c)"

section \<open>Every telegram\<close>

definition telegram_ok :: "u8 list \<Rightarrow> bool" where
  "telegram_ok t \<longleftrightarrow> length t = 9 \<and> t ! 0 = 1 \<and> t ! 1 \<in> {1, 2, 3, 4, 5, 6, 138} \<and> t ! 3 \<in> {0, 2} \<and> t ! 8 = sum_list (take 8 t)"

text \<open>What the bytes have to be before the sum is put behind them.\<close>

definition request :: "u8 list \<Rightarrow> bool" where
  "request com \<longleftrightarrow> length com = 9 \<and> com ! 0 = 1 \<and> com ! 1 \<in> {1, 2, 3, 4, 5, 6, 138} \<and> com ! 3 \<in> {0, 2}"

definition sound :: "cli \<Rightarrow> bool" where
  "sound c \<longleftrightarrow> list_all telegram_ok (telegrams c) \<and> motor_speed c \<noteq> 0"

fun in_res :: "(cli \<Rightarrow> bool) \<Rightarrow> 'a res \<Rightarrow> bool" where
  "in_res P (Ok c x) = P c"
| "in_res P (Quit c) = P c"
| "in_res P Wild = True"
| "in_res P (Waiting c) = P c"

lemma in_res_bind: "in_res P m \<Longrightarrow> (\<And>c x. P c \<Longrightarrow> in_res P (f c x)) \<Longrightarrow> in_res P (bind_res m f)"
  by (cases m) simp_all

lemma sound_cong: "telegrams c' = telegrams c \<Longrightarrow> motor_speed c' = motor_speed c \<Longrightarrow> sound c' = sound c"
  by (simp add: sound_def)

lemma sound_tell [simp]: "sound (tell x c) = sound c"
  by (simp add: tell_def sound_def)

lemma getchar_sound: "getchar c = (k, c1) \<Longrightarrow> sound c1 = sound c"
  by (auto simp: getchar_def sound_def split: list.splits)

lemma sound_upd [simp]:
  "sound (c\<lparr>events := es\<rparr>) = sound c" "sound (c\<lparr>keys := ks\<rparr>) = sound c" "sound (c\<lparr>inbuf := ks\<rparr>) = sound c" "sound (c\<lparr>tty_in := q\<rparr>) = sound c"
  "sound (c\<lparr>buff := b\<rparr>) = sound c" "sound (c\<lparr>oldcmd := k\<rparr>) = sound c" "sound (c\<lparr>fout := f\<rparr>) = sound c" "sound (c\<lparr>scans := ss\<rparr>) = sound c"
  by (simp_all add: sound_def)

lemma read_sound: "sound c \<Longrightarrow> in_res sound (read_tty_and_console n rb c)"
  by (auto simp: read_tty_and_console_def Let_def split: list.splits prod.splits if_splits dest: getchar_sound)

lemma telegram_ok_request: "request com \<Longrightarrow> telegram_ok (take 8 com @ [sum_list (take 8 com)])"
  by (simp add: request_def telegram_ok_def nth_append)

lemma send_sound: "sound c \<Longrightarrow> request com \<Longrightarrow> sound (fst (send_command wr com c))"
  by (simp add: send_command_def Let_def sound_def telegram_ok_request)

lemma request_put_value: "request com \<Longrightarrow> request (put_value v com)"
  by (simp add: request_def put_value_def be_bytes_def nth_append)

lemma info_loop_sound: "sound c \<Longrightarrow> request com \<Longrightarrow> in_res sound (info_loop wr xs com c)"
proof (induction xs arbitrary: c)
  case (Cons x xs)
  obtain name n where x: "x = (name, n)" by (cases x)
  obtain c1 ok where s: "send_command wr (com[2 := n]) c = (c1, ok)" by (cases "send_command wr (com[2 := n]) c")
  have "request (com[2 := n])" using Cons.prems(2) by (simp add: request_def)
  then have "sound c1" using send_sound [OF Cons.prems(1), of "com[2 := n]" wr] s by simp
  then show ?case using Cons x s by (cases ok) (auto intro!: in_res_bind read_sound split: prod.splits)
qed simp

lemma new_speed_pos: "new_speed f spd \<noteq> 0"
proof -
  have "b \<noteq> 0" if "a < b" for a b :: u32 using that word_not_simps(1) [of a] by auto
  then show ?thesis by (simp add: new_speed_def Let_def)
qed

lemma change_speed_sound: "sound c \<Longrightarrow> request com \<Longrightarrow> in_res sound (change_motor_speed wr f com c)"
proof -
  assume c: "sound c" and r: "request com"
  let ?com = "put_value (new_speed f (motor_speed c)) (com[1 := 5, 2 := 4])"
  have q: "request ?com" "request (?com[3 := 2])"
    using request_put_value [of "com[1 := 5, 2 := 4]"] r by (auto simp: request_def)
  have "sound (tell (Speed (new_speed f (motor_speed c))) (c\<lparr>motor_speed := new_speed f (motor_speed c)\<rparr>))"
    using c by (simp add: sound_def tell_def new_speed_pos)
  then show ?thesis using q unfolding change_motor_speed_def Let_def
    by (intro in_res_bind read_sound send_sound) simp_all
qed

lemma key_command_request:
  assumes "key_command rb com c = Some (com1, v, c1)" "length com = 9" "com ! 0 = 1" "com ! 3 \<in> {0, 2}" "com ! 1 = 0"
  shows "(com1 ! 1 \<noteq> 0 \<longrightarrow> request com1) \<and> sound c1 = sound c"
  using assms by (auto simp: key_command_def Let_def request_def split: if_splits list.splits)

lemma con_sig_sound: "sound c \<Longrightarrow> in_res sound (con_sig wr rb c)"
proof -
  assume c: "sound c"
  define com where "com = (if 97 \<le> rb \<and> rb \<le> 122 then command0[3 := 2] else command0)"
  have r: "length com = 9" "com ! 0 = 1" "com ! 3 \<in> {0, 2}" "com ! 1 = 0" by (simp_all add: com_def command0_def)
  have "request (command0[1 := 5])" "request (com[1 := 6])" using r by (simp_all add: request_def command0_def)
  moreover have "in_res sound (change_motor_speed wr f command0 c)" for f
  proof -
    have "change_motor_speed wr f command0 c = change_motor_speed wr f (command0[1 := 5]) c" by (simp add: change_motor_speed_def)
    then show ?thesis using change_speed_sound c \<open>request (command0[1 := 5])\<close> by simp
  qed
  moreover have "sound (if com1 ! 1 \<noteq> 0 then fst (send_command wr (put_value v com1) c1) else c1)"
    if "key_command k com c = Some (com1, v, c1)" for k com1 v c1
    using key_command_request [OF that r] c send_sound request_put_value by simp
  ultimately show ?thesis using c info_loop_sound [of c "com[1 := 6]" wr info]
    unfolding con_sig_def com_def [symmetric] get_information_def Let_def by (auto split: option.splits prod.splits)
qed

lemma main_turn_sound: "sound c \<Longrightarrow> in_res sound (main_turn wr c)"
proof -
  assume c: "sound c"
  have s: "in_res sound (show_answer got c)" if "sound c" for got c
    using that by (auto simp: show_answer_def Let_def split: option.splits prod.splits)
  show ?thesis unfolding main_turn_def
    by (rule in_res_bind [OF read_sound [OF c]]) (auto intro!: in_res_bind con_sig_sound s split: prod.splits)
qed

lemma main_turns_sound: "sound c \<Longrightarrow> in_res sound (main_turns wr n c)"
  by (induction n arbitrary: c) (auto intro!: in_res_bind main_turn_sound)

text \<open>
  C34. Whatever is typed, whatever the controller sends and whichever writes fail, after any number of turns: every telegram written has nine bytes, the address 1, one of the known commands, motor 0 or 2, and its last byte is the sum of the others in 8 bits; and the speed is never 0.
\<close>

theorem main_telegrams:
  assumes "main_turns wr n (c\<lparr>telegrams := []\<rparr>) = Ok c1 () \<or> main_turns wr n (c\<lparr>telegrams := []\<rparr>) = Quit c1" "motor_speed c \<noteq> 0"
  shows "motor_speed c1 \<noteq> 0 \<and> (\<forall>t \<in> set (telegrams c1). length t = 9 \<and> t ! 0 = 1 \<and> t ! 1 \<in> {1, 2, 3, 4, 5, 6, 138} \<and> t ! 3 \<in> {0, 2} \<and>
    t ! 8 = sum_list (take 8 t))"
proof -
  have "sound (c\<lparr>telegrams := []\<rparr>)" using assms(2) by (simp add: sound_def)
  then have "sound c1" using main_turns_sound [of "c\<lparr>telegrams := []\<rparr>" wr n] assms(1) by auto
  then show ?thesis by (simp add: sound_def telegram_ok_def list_all_iff)
qed

section \<open>Values in telegrams\<close>

lemma get_integer_put_value:
  assumes "length com = 9"
  shows "get_integer (take 8 (put_value v com) @ ys) = sint v"
proof -
  have "length (be_bytes v) = 4" by (simp add: be_bytes_def)
  then have b: "take 8 (put_value v com) @ ys = take 4 com @ be_bytes v @ ys" using assms by (simp add: put_value_def)
  have l: "length (take 4 com) = 4" using assms by simp
  have "[b ! 4, b ! 5, b ! 6, b ! 7] = be_bytes v" if "b = take 4 com @ be_bytes v @ ys" for b
    using l that by (simp add: be_bytes_def nth_append)
  then have "radix_val 256 0 (map unat [b ! 4, b ! 5, b ! 6, b ! 7]) = unat v" if "b = take 4 com @ be_bytes v @ ys" for b
    using be_bytes_val [of v] that by simp
  then show ?thesis unfolding b get_integer_def by (simp del: list.map)
qed

text \<open>
  Moving by a typed number: for the capital letter the telegram goes to motor 0, for the small one to motor 2, as a relative motion, and the controller's own reading of the value is the number.
\<close>

theorem move_telegram:
  assumes "scans c = (Some V, left) # ss" "V \<noteq> 0" "- (2 ^ 31) \<le> V" "V < 2 ^ 31" "k = 109 \<and> mot = 2 \<or> k = 77 \<and> mot = 0"
  shows "\<exists>t c1. con_sig (\<lambda>x. True) k c = Ok c1 () \<and> telegrams c1 = telegrams c @ [t] \<and> take 4 t = [1, 4, 1, mot] \<and> get_integer t = V"
proof -
  define com where "com = put_value (word_of_int V) ([1, 4, 1, mot, 0, 0, 0, 0, 0])"
  define t where "t = take 8 com @ [sum_list (take 8 com)]"
  have "con_sig (\<lambda>x. True) k c = Ok (c\<lparr>scans := ss, inbuf := left, keys := [], telegrams := telegrams c @ [t]\<rparr>) ()"
    using assms(5)
  proof
    assume "k = 109 \<and> mot = 2"
    then show ?thesis using assms(1,2) by (simp add: con_sig_def key_command_def Let_def command0_def send_command_def t_def com_def)
  next
    assume "k = 77 \<and> mot = 0"
    then show ?thesis using assms(1,2) by (simp add: con_sig_def key_command_def Let_def command0_def send_command_def t_def com_def)
  qed
  moreover have "take 4 t = [1, 4, 1, mot]" by (simp add: t_def com_def put_value_def be_bytes_def)
  moreover have "get_integer t = V"
  proof -
    have "get_integer t = sint (word_of_int V :: u32)" unfolding t_def com_def by (rule get_integer_put_value) simp
    also have "\<dots> = V" using assms(3,4) by (simp add: signed_of_int signed_take_bit_int_eq_self)
    finally show ?thesis .
  qed
  ultimately show ?thesis
    by (intro exI [of _ t] exI [of _ "c\<lparr>scans := ss, inbuf := left, keys := [], telegrams := telegrams c @ [t]\<rparr>"] conjI) simp_all
qed

section \<open>The list of parameters\<close>

definition reply_event :: "u8 list \<Rightarrow> event" where
  "reply_event r = \<lparr>keys_in = [], bytes_in = r, later = [], gone = False\<rparr>"

definition reply_ok :: "u8 list \<Rightarrow> bool" where
  "reply_ok r \<longleftrightarrow> length r = 9 \<and> r ! 2 > 6"

lemma read_more_all: "length r = n \<Longrightarrow> 0 < n \<Longrightarrow> read_more n r [] = (r, [])"
  by (subst read_more.simps, subst read_more.simps) auto

lemma info_loop_replies:
  assumes "length rs = length xs" "list_all reply_ok rs" "events c = map reply_event rs @ es" "tty_in c = []"
  shows "\<exists>c1. info_loop (\<lambda>x. True) xs com c = Ok c1 () \<and> events c1 = es \<and> tty_in c1 = [] \<and>
    shown c1 = shown c @ map2 (\<lambda>x r. Info (fst x) (get_integer r)) xs rs"
  using assms
proof (induction xs rs arbitrary: c rule: list_induct2')
  case (4 x xs r rs)
  obtain name n where x: "x = (name, n)" by (cases x)
  define c1 where "c1 = c\<lparr>telegrams := telegrams c @ [take 8 (com[2 := n]) @ [sum_list (take 8 (com[2 := n]))]]\<rparr>"
  define c2 where "c2 = tell (Info name (get_integer r)) (c1\<lparr>events := map reply_event rs @ es, keys := keys c @ [], tty_in := []\<rparr>)"
  have s: "send_command (\<lambda>x. True) (com[2 := n]) c = (c1, True)" by (simp add: send_command_def c1_def Let_def)
  have r: "length r = 9" "r ! 2 > 6" "r \<noteq> []" using "4.prems"(2) by (auto simp: reply_ok_def)
  have "read_tty_and_console 9 False c1 = Ok (c1\<lparr>events := map reply_event rs @ es, keys := keys c @ [], tty_in := []\<rparr>) (True, None, Some r)"
    using "4.prems" r by (simp add: read_tty_and_console_def c1_def reply_event_def Let_def read_more_all)
  then have e: "info_loop (\<lambda>x. True) (x # xs) com c = info_loop (\<lambda>x. True) xs com c2" using s r by (simp add: x c2_def)
  have "\<exists>d. info_loop (\<lambda>x. True) xs com c2 = Ok d () \<and> events d = es \<and> tty_in d = [] \<and> shown d = shown c2 @ map2 (\<lambda>x r. Info (fst x) (get_integer r)) xs rs"
    by (rule "4.IH") (use "4.prems" in \<open>auto simp: c2_def c1_def tell_def\<close>)
  moreover have "shown c2 = shown c @ [Info name (get_integer r)]" by (simp add: c2_def c1_def tell_def)
  ultimately show ?case unfolding e by (auto simp: x)
qed auto

text \<open>The answer of a controller whose parameters are \<open>d\<close>.\<close>

definition reply :: "(u8 \<Rightarrow> u32) \<Rightarrow> u8 \<Rightarrow> u8 list" where
  "reply d n = (let r = put_value (d n) [2, 1, 100, 6, 0, 0, 0, 0, 0] in take 8 r @ [sum_list (take 8 r)])"

lemma reply_value: "get_integer (reply d n) = sint (d n)"
  unfolding reply_def Let_def by (rule get_integer_put_value) simp

lemma reply_reply_ok: "reply_ok (reply d n)"
  by (simp add: reply_ok_def reply_def put_value_def be_bytes_def Let_def)

text \<open>
  The list of all parameters, with a controller that answers each question before the next \<open>select\<close> ends: all 32 values are shown, each under its own name.
\<close>

theorem get_information_values:
  assumes "events c = map (\<lambda>x. reply_event (reply d (snd x))) info @ es" "tty_in c = []"
  shows "\<exists>c1. get_information (\<lambda>x. True) com c = Ok c1 () \<and> shown c1 = shown c @ map (\<lambda>x. Info (fst x) (sint (d (snd x)))) info"
proof -
  have "map2 (\<lambda>x r. Info (fst x) (get_integer r)) xs (map (\<lambda>x. reply d (snd x)) xs) = map (\<lambda>x. Info (fst x) (sint (d (snd x)))) xs" for xs :: "(string \<times> u8) list"
    by (induction xs) (simp_all add: reply_value)
  then show ?thesis
    using info_loop_replies [of "map (\<lambda>x. reply d (snd x)) info" info c es com] assms reply_reply_ok
    by (auto simp: get_information_def list_all_iff comp_def)
qed

text \<open>
  A key pressed while the list is read, before the first answer has come: the key is not taken, so \<open>select\<close> returns at once, the first value is not shown, and each further name gets the value of the parameter before it.
\<close>

theorem get_information_shifted:
  assumes "events c = \<lparr>keys_in = [k], bytes_in = [], later = [], gone = False\<rparr> # map (\<lambda>x. reply_event (reply d (snd x))) (butlast info) @ es" "tty_in c = []"
  shows "\<exists>c1. get_information (\<lambda>x. True) com c = Ok c1 () \<and>
    shown c1 = shown c @ NoInfo ''target position'' # map2 (\<lambda>x y. Info (fst x) (sint (d (snd y)))) (tl info) (butlast info)"
proof -
  define rest where "rest = tl info"
  have i: "info = (''target position'', 0) # rest" by (simp add: info_def rest_def)
  define c1 where "c1 = c\<lparr>telegrams := telegrams c @ [take 8 (com[2 := 0]) @ [sum_list (take 8 (com[2 := 0]))]]\<rparr>"
  define c2 where "c2 = tell (NoInfo ''target position'') (c1\<lparr>events := map (\<lambda>x. reply_event (reply d (snd x))) (butlast info) @ es, keys := keys c @ [k], tty_in := []\<rparr>)"
  have s: "send_command (\<lambda>x. True) (com[2 := 0]) c = (c1, True)" by (simp add: send_command_def c1_def Let_def)
  have "read_tty_and_console 9 False c1 =
      Ok (c1\<lparr>events := map (\<lambda>x. reply_event (reply d (snd x))) (butlast info) @ es, keys := keys c @ [k], tty_in := []\<rparr>) (False, None, Some [])"
    using assms by (simp add: read_tty_and_console_def c1_def Let_def)
  then have e: "get_information (\<lambda>x. True) com c = info_loop (\<lambda>x. True) rest com c2" using s by (simp add: get_information_def i c2_def)
  have l: "length (map (\<lambda>x. reply d (snd x)) (butlast info)) = length rest" by (simp add: rest_def)
  have "\<exists>d1. info_loop (\<lambda>x. True) rest com c2 = Ok d1 () \<and> events d1 = es \<and> tty_in d1 = [] \<and>
      shown d1 = shown c2 @ map2 (\<lambda>x r. Info (fst x) (get_integer r)) rest (map (\<lambda>x. reply d (snd x)) (butlast info))"
    by (rule info_loop_replies [OF l]) (use reply_reply_ok in \<open>auto simp: list_all_iff c2_def c1_def tell_def comp_def\<close>)
  moreover have "map2 (\<lambda>x r. Info (fst x) (get_integer r)) rest (map (\<lambda>x. reply d (snd x)) ys) = map2 (\<lambda>x y. Info (fst x) (sint (d (snd y)))) rest ys" for ys :: "(string \<times> u8) list"
    by (simp add: zip_map2 reply_value case_prod_beta)
  moreover have "shown c2 = shown c @ [NoInfo ''target position'']" by (simp add: c2_def c1_def tell_def)
  ultimately show ?thesis unfolding e rest_def [symmetric] by auto
qed

lemma new_speed_value:
  "unat (new_speed f spd) = (let v = unat spd; D = max 1 (v div 10) in if f then min (v + D) (2 ^ 32 - 1) else max 1 (v - D))"
proof -
  define D where "D = (if spd div 10 = 0 then 1 else spd div 10)"
  have "unat (spd div 10) = unat spd div 10" by (simp add: unat_div)
  then have D: "unat D = max 1 (unat spd div 10)" by (auto simp: D_def max_def unat_eq_0 simp flip: unat_gt_0)
  have v: "unat spd < 2 ^ 32" by (rule unat_u32)
  show ?thesis
  proof (cases f)
    case True
    show ?thesis
    proof (cases "unat spd + unat D < 2 ^ 32")
      case small: True
      then have "unat (spd + D) = unat spd + unat D" by (simp add: unat_word_ariths)
      then show ?thesis using True small D by (simp add: new_speed_def Let_def D_def [symmetric] word_less_nat_alt)
    next
      case False
      have "unat D \<le> 2 ^ 32" using unat_u32 [of D] by simp
      then have "unat (spd + D) = unat spd + unat D - 2 ^ 32" using False v by (simp add: unat_word_ariths mod_if)
      then have "\<not> spd < spd + D" using unat_u32 [of D] by (simp add: word_less_nat_alt)
      then show ?thesis using True False D by (simp add: new_speed_def Let_def D_def [symmetric])
    qed
  next
    case False
    show ?thesis
    proof (cases "unat spd = 0")
      case True
      then have "spd = 0" by (simp add: unat_eq_0)
      then show ?thesis using False by (simp add: new_speed_def Let_def)
    next
      case pos: False
      then have "unat D \<le> unat spd" unfolding D by auto
      then have d: "unat (spd - D) = unat spd - unat D" by (simp add: unat_sub_if')
      have n: "new_speed f spd = (if spd - D < spd \<and> spd - D \<noteq> 0 then spd - D else 1)" using False by (simp add: new_speed_def Let_def D_def)
      have "spd - D < spd" "spd - D \<noteq> 0 \<longleftrightarrow> 0 < unat spd - unat D" using pos D d by (auto simp: word_less_nat_alt simp flip: unat_eq_0)
      then show ?thesis unfolding n using False D d by (auto simp: Let_def)
    qed
  qed
qed

lemma read_keeps: "read_tty_and_console n rb c = Ok c1 x \<Longrightarrow> telegrams c1 = telegrams c \<and> motor_speed c1 = motor_speed c"
  by (auto simp: read_tty_and_console_def getchar_def Let_def split: list.splits prod.splits if_splits)

lemma bind_res_Ok: "bind_res m f = Ok c y \<longleftrightarrow> (\<exists>c1 x. m = Ok c1 x \<and> f c1 x = Ok c y)"
  by (cases m) auto

text \<open>
  Keys \<open>+\<close> and \<open>-\<close>: the new speed is sent to both motors, and one press changes it by a tenth, at least by one, staying between 1 and the greatest value.
\<close>

theorem change_speed_telegrams:
  assumes "k = 43 \<or> k = 45" "con_sig (\<lambda>x. True) k c = Ok c1 ()"
  shows "\<exists>t u. telegrams c1 = telegrams c @ [t, u] \<and> take 4 t = [1, 5, 4, 0] \<and> take 4 u = [1, 5, 4, 2] \<and>
    get_integer t = sint (motor_speed c1) \<and> get_integer u = sint (motor_speed c1) \<and>
    unat (motor_speed c1) = (let v = unat (motor_speed c); D = max 1 (v div 10) in
      if k = 43 then min (v + D) (2 ^ 32 - 1) else max 1 (v - D))"
proof -
  let ?v = "new_speed (k = 43) (motor_speed c)"
  let ?com = "put_value ?v (command0[1 := 5, 2 := 4])" let ?c = "tell (Speed ?v) (c\<lparr>motor_speed := ?v\<rparr>)"
  have "change_motor_speed (\<lambda>x. True) (k = 43) command0 c = Ok c1 ()" using assms by (auto simp: con_sig_def)
  then obtain c2 x c3 y where
    1: "read_tty_and_console 1024 False (fst (send_command (\<lambda>x. True) ?com ?c)) = Ok c2 x"
    and 2: "read_tty_and_console 1024 False (fst (send_command (\<lambda>x. True) (?com[3 := 2]) c2)) = Ok c1 y"
    by (auto simp: change_motor_speed_def Let_def bind_res_Ok)
  define t where "t = take 8 ?com @ [sum_list (take 8 ?com)]"
  define u where "u = take 8 (?com[3 := 2]) @ [sum_list (take 8 (?com[3 := 2]))]"
  have c2: "telegrams c2 = telegrams c @ [t]" "motor_speed c2 = ?v" using read_keeps [OF 1] by (simp_all add: send_command_def Let_def t_def tell_def)
  have c1: "telegrams c1 = telegrams c @ [t, u]" "motor_speed c1 = ?v" using read_keeps [OF 2] c2 by (simp_all add: send_command_def Let_def u_def)
  have f: "take 4 t = [1, 5, 4, 0]" "take 4 u = [1, 5, 4, 2]" by (simp_all add: t_def u_def command0_def put_value_def be_bytes_def)
  have "get_integer t = sint ?v" unfolding t_def by (rule get_integer_put_value) (simp add: command0_def)
  moreover have "?com[3 := 2] = put_value ?v (command0[1 := 5, 2 := 4, 3 := 2])" by (simp add: command0_def put_value_def be_bytes_def)
  then have "get_integer u = sint ?v" unfolding u_def using get_integer_put_value [of "command0[1 := 5, 2 := 4, 3 := 2]" ?v] by (simp add: command0_def)
  ultimately show ?thesis using c1 f by (auto simp: new_speed_value)
qed

text \<open>
  The copy to a file: when the text begins with the last key and a newline, both are removed, and the line behind them is written twice, because the search for its end starts at the beginning of the buffer.
\<close>

theorem copy_buf_to_file_twice:
  assumes "0 < k" "k < 128" "0 \<notin> set line" "10 \<notin> set line" "line \<noteq> []" "k \<noteq> 10"
  shows "copy_buf_to_file (word_of_int k # 10 # line) k = (line @ [10] @ line @ [10], - 1)"
proof -
  let ?k = "word_of_int k :: u8" let ?b = "?k # 10 # line @ [0]" let ?b1 = "?k # 0 # line @ [0]"
  have k: "uint ?k = k" using assms(1,2) by (simp add: uint_word_of_int)
  then have k0: "?k \<noteq> 0" "?k \<noteq> 10" using assms(1,6) by auto
  have t: "takeWhile (\<lambda>x. x \<noteq> 0) (line @ [0]) = line" using assms(3) by (subst takeWhile_append2) auto
  have l: "(line @ [0]) ! 0 \<noteq> 0" using assms(3,5) by (cases line) auto
  have n: "newline_at ?b = Some 1" "newline_at ?b1 = None" using k0 t by (simp_all add: newline_at_def text_at_def Let_def)
  have l2: "?b ! 2 \<noteq> 0" "?b1 ! 2 \<noteq> 0" using l by simp_all
  have 2: "copy_loop ?b1 2 (- 1) (line @ [10]) = (line @ [10] @ line @ [10], - 1)"
    using l2 n t by (subst copy_loop.simps) (simp add: text_at_def)
  have u: "?b[1 := 0] = ?b1" by simp
  have "copy_loop ?b 0 k [] = copy_loop ?b1 2 (- 1) (line @ [10])"
    using l2 n k k0 t assms(1,2) by (subst copy_loop.simps) (simp add: Let_def text_at_def u)
  then show ?thesis using 2 assms(1) by (simp add: copy_buf_to_file_def)
qed

section \<open>Concrete sessions\<close>

definition buffer0 :: "u8 list" where
  "buffer0 = replicate 1025 0"

definition cli0 :: "event list \<Rightarrow> cli" where
  "cli0 es = \<lparr>motor_speed = 10, events = es, keys = [], inbuf = [], scans = [(Some (- 5), [])], tty_in = [], telegrams = [], shown = [],
     buff = buffer0, oldcmd = - 1, fout = None\<rparr>"

definition press :: "int \<Rightarrow> event" where
  "press k = \<lparr>keys_in = [k], bytes_in = [], later = [], gone = False\<rparr>"

fun ok_telegrams :: "'a res \<Rightarrow> u8 list list option" where
  "ok_telegrams (Ok c x) = Some (telegrams c)"
| "ok_telegrams r = None"

lemma ok_telegrams_Ok: "ok_telegrams r = Some ts \<Longrightarrow> \<exists>c x. r = Ok c x \<and> telegrams c = ts"
  by (cases r) auto

theorem main_telegrams_witness:
  "\<exists>c1. main_turns (\<lambda>x. True) 2 (cli0 [press 82, press 119]) = Ok c1 () \<and> motor_speed c1 \<noteq> 0 \<and>
     telegrams c1 = [[1, 1, 0, 0, 0, 0, 0, 10, 12], [1, 138, 0, 2, 0, 0, 0, 5, 146]]"
proof -
  have b: "be_bytes 10 = [0, 0, 0, 10]" "be_bytes 5 = [0, 0, 0, 5]" "(138 :: u8) \<noteq> 0" by code_simp+
  have "ok_telegrams (main_turns (\<lambda>x. True) (Suc (Suc 0)) (cli0 [press 82, press 119])) = Some [[1, 1, 0, 0, 0, 0, 0, 10, 12], [1, 138, 0, 2, 0, 0, 0, 5, 146]]"
    by (simp add: main_turn_def read_tty_and_console_def show_answer_def getchar_def con_sig_def key_command_def command0_def send_command_def put_value_def
        b cli0_def press_def Let_def)
  then obtain c1 where "main_turns (\<lambda>x. True) 2 (cli0 [press 82, press 119]) = Ok c1 ()"
    "telegrams c1 = [[1, 1, 0, 0, 0, 0, 0, 10, 12], [1, 138, 0, 2, 0, 0, 0, 5, 146]]" by (auto dest: ok_telegrams_Ok simp: numeral_2_eq_2)
  moreover have "cli0 es\<lparr>telegrams := []\<rparr> = cli0 es" "motor_speed (cli0 es) \<noteq> 0" for es by (simp_all add: cli0_def)
  ultimately show ?thesis using main_telegrams [of "\<lambda>x. True" 2 "cli0 [press 82, press 119]" c1] by auto
qed

theorem move_telegram_witness:
  "\<exists>t c1. con_sig (\<lambda>x. True) 109 (cli0 []) = Ok c1 () \<and> telegrams c1 = [t] \<and> take 4 t = [1, 4, 1, 2] \<and> get_integer t = - 5"
  using move_telegram [of "cli0 []" "- 5" "[]" "[]" 109 2] by (simp add: cli0_def)

theorem get_information_values_witness:
  "\<exists>c1. get_information (\<lambda>x. True) [1, 6, 0, 0, 0, 0, 0, 0, 0] (cli0 (map (\<lambda>x. reply_event (reply ucast (snd x))) info)) = Ok c1 () \<and>
     shown c1 = map (\<lambda>x. Info (fst x) (sint (ucast (snd x) :: u32))) info"
  using get_information_values [of "cli0 (map (\<lambda>x. reply_event (reply ucast (snd x))) info)" ucast "[]" "[1, 6, 0, 0, 0, 0, 0, 0, 0]"] by (simp add: cli0_def)

theorem get_information_shifted_witness:
  "\<exists>c1. get_information (\<lambda>x. True) [1, 6, 0, 0, 0, 0, 0, 0, 0] (cli0 (press 65 # map (\<lambda>x. reply_event (reply ucast (snd x))) (butlast info))) = Ok c1 () \<and>
     shown c1 = NoInfo ''target position'' # map2 (\<lambda>x y. Info (fst x) (sint (ucast (snd y) :: u32))) (tl info) (butlast info)"
  using get_information_shifted [of "cli0 (press 65 # map (\<lambda>x. reply_event (reply ucast (snd x))) (butlast info))" 65 ucast "[]" "[1, 6, 0, 0, 0, 0, 0, 0, 0]"]
  by (simp add: cli0_def press_def)

theorem change_speed_telegrams_witness:
  "\<exists>c1. con_sig (\<lambda>x. True) 43 (cli0 [reply_event [], reply_event []]) = Ok c1 () \<and> unat (motor_speed c1) = 11"
proof -
  have b: "be_bytes 11 = [0, 0, 0, 11]" "new_speed True 10 = 11" by code_simp+
  have "ok_telegrams (con_sig (\<lambda>x. True) 43 (cli0 [reply_event [], reply_event []])) = Some [[1, 5, 4, 0, 0, 0, 0, 11, 21], [1, 5, 4, 2, 0, 0, 0, 11, 23]]"
    by (simp add: change_motor_speed_def read_tty_and_console_def con_sig_def command0_def send_command_def put_value_def
        b cli0_def reply_event_def tell_def Let_def)
  then obtain c1 where c: "con_sig (\<lambda>x. True) 43 (cli0 [reply_event [], reply_event []]) = Ok c1 ()" by (auto dest: ok_telegrams_Ok)
  have "motor_speed (cli0 es) = 10" for es by (simp add: cli0_def)
  then have "unat (motor_speed c1) = 11" using change_speed_telegrams [OF _ c] by (auto simp: Let_def)
  then show ?thesis using c by blast
qed

theorem copy_buf_to_file_twice_witness: "copy_buf_to_file [71, 10, 97, 98] 71 = ([97, 98, 10, 97, 98, 10], - 1)"
  using copy_buf_to_file_twice [of 71 "[97, 98]"] by simp

end
