(* ===== verification/WebAuth.thy ===== *)
theory WebAuth
  imports CPrelude
begin

text \<open>
  Users and sessions of the web interface in \<open>NES_webiface/\<close>: \<open>auth.c\<close>, the handler \<open>get\<close> of \<open>main.c\<close> and the web
  socket callbacks of \<open>websockets.c\<close>. SQLite is a parameter: one function for every prepared statement, on a
  database of its own; libonion is reduced to the parts of a request that the handlers ask for and the texts
  and cookies they answer with; \<open>crypt\<close> and the identifiers that libonion generates are parameters too.
\<close>

section \<open>Data\<close>

record userinfo =
  password :: string
  level :: int
  comment :: string

record sessinfo =
  sessID :: "string option"
  sockID :: "string option"
  atime :: int
  username :: string
  sdata :: string

text \<open>A row of the table of sessions beside its key \<open>sessID\<close>.\<close>

record srow =
  r_sock :: string
  r_atime :: int
  r_user :: string
  r_data :: string

text \<open>A query finds a row or none, or its text could not be bound.\<close>

datatype 'a found = Row 'a | NoRow | NoBind

record ('s, 'u) sqlite =
  getsid :: "'s \<Rightarrow> string \<Rightarrow> srow found"
  getsockid :: "'s \<Rightarrow> string \<Rightarrow> (string \<times> srow) found"
  add_sess :: "'s \<Rightarrow> string \<Rightarrow> srow \<Rightarrow> 's option"
  del_sess :: "'s \<Rightarrow> string \<Rightarrow> 's option"
  delold :: "'s \<Rightarrow> int \<Rightarrow> 's option"
  get_user :: "'u \<Rightarrow> string \<Rightarrow> userinfo found"
  add_user :: "'u \<Rightarrow> string \<Rightarrow> userinfo \<Rightarrow> 'u option"
  del_user :: "'u \<Rightarrow> string \<Rightarrow> 'u option"

record ('s, 'u) web =
  sessionDB :: 's
  authDB :: 'u
  ulocked :: bool
  ids :: "string list"
  now :: int
  answers :: "string list"
  cookies_set :: "string list"

record request =
  is_head :: bool
  query :: "string \<Rightarrow> string option"
  post :: "string \<Rightarrow> string option"
  cookies :: "string \<Rightarrow> string option"
  client :: string
  agent :: string

datatype ocs = OCS_CLOSE_CONNECTION | OCS_PROCESSED | OCS_FORBIDDEN | OCS_NEED_MORE_DATA

text \<open>A call returns, waits for a mutex that is never released, goes through a null pointer, or needs more identifiers.\<close>

datatype ('s, 'u, 'a) ret = Ret "('s, 'u) web" 'a | Stuck | Segv | Waits

fun bind_ret :: "('s, 'u, 'a) ret \<Rightarrow> (('s, 'u) web \<Rightarrow> 'a \<Rightarrow> ('s, 'u, 'b) ret) \<Rightarrow> ('s, 'u, 'b) ret" where
  "bind_ret (Ret w x) f = f w x"
| "bind_ret Stuck f = Stuck"
| "bind_ret Segv f = Segv"
| "bind_ret Waits f = Waits"

definition write0 :: "string \<Rightarrow> ('s, 'u) web \<Rightarrow> ('s, 'u) web" where
  "write0 s w = w\<lparr>answers := answers w @ [s]\<rparr>"

definition getQdata :: "request \<Rightarrow> string \<Rightarrow> string option" where
  "getQdata req key =
     (case query req key of
        Some d \<Rightarrow> Some d
      | None \<Rightarrow> (case post req key of None \<Rightarrow> None | Some d \<Rightarrow> if d = [] then None else Some d))"

section \<open>Users\<close>

text \<open>A failed binding returns with the mutex locked.\<close>

definition getUserData :: "('s, 'u) sqlite \<Rightarrow> string \<Rightarrow> ('s, 'u) web \<Rightarrow> ('s, 'u, userinfo option) ret" where
  "getUserData T name w =
     (if ulocked w then Stuck
      else (case get_user T (authDB w) name of
              NoBind \<Rightarrow> Ret (w\<lparr>ulocked := True\<rparr>) None
            | NoRow \<Rightarrow> Ret w None
            | Row u \<Rightarrow> Ret w (Some u)))"

definition deleteUser :: "('s, 'u) sqlite \<Rightarrow> string \<Rightarrow> ('s, 'u) web \<Rightarrow> ('s, 'u, int) ret" where
  "deleteUser T name w =
     bind_ret (getUserData T name w) (\<lambda>w u.
       if u = None then Ret w 1
       else (case del_user T (authDB w) name of None \<Rightarrow> Ret w 2 | Some db \<Rightarrow> Ret (w\<lparr>authDB := db\<rparr>) 0))"

definition addUser :: "('s, 'u) sqlite \<Rightarrow> string \<Rightarrow> userinfo \<Rightarrow> ('s, 'u) web \<Rightarrow> ('s, 'u, int) ret" where
  "addUser T name u w =
     (if name = [] then Ret w 1
      else if ulocked w then Stuck
      else (case add_user T (authDB w) name u of None \<Rightarrow> Ret w 1 | Some db \<Rightarrow> Ret (w\<lparr>authDB := db\<rparr>) 0))"

section \<open>Sessions\<close>

definition getSession :: "('s, 'u) sqlite \<Rightarrow> 's \<Rightarrow> string option \<Rightarrow> sessinfo option" where
  "getSession T db ID =
     (case ID of
        None \<Rightarrow> None
      | Some x \<Rightarrow>
          (case getsid T db x of
             NoBind \<Rightarrow> None
           | Row r \<Rightarrow> Some \<lparr>sessID = Some x, sockID = Some (r_sock r), atime = r_atime r, username = r_user r, sdata = r_data r\<rparr>
           | NoRow \<Rightarrow>
               (case getsockid T db x of
                  Row (sid, r) \<Rightarrow> Some \<lparr>sessID = Some sid, sockID = Some x, atime = r_atime r, username = r_user r, sdata = r_data r\<rparr>
                | NoRow \<Rightarrow> None
                | NoBind \<Rightarrow> None)))"

text \<open>A null text is bound as an empty one.\<close>

definition bound :: "string option \<Rightarrow> string" where
  "bound x = (case x of None \<Rightarrow> [] | Some s \<Rightarrow> s)"

definition addSession :: "('s, 'u) sqlite \<Rightarrow> 's \<Rightarrow> sessinfo \<Rightarrow> bool \<Rightarrow> 's \<times> int" where
  "addSession T db s modify =
     (let byID = getSession T db (sessID s); bysID = getSession T db (sockID s) in
      if (byID \<noteq> None \<or> bysID \<noteq> None) \<and> modify \<and> bysID \<noteq> None \<and> sessID (the bysID) \<noteq> sessID s then (db, 2)
      else if (byID \<noteq> None \<or> bysID \<noteq> None) \<and> \<not> modify then (db, 3)
      else
        (case add_sess T db (bound (sessID s)) \<lparr>r_sock = bound (sockID s), r_atime = atime s, r_user = username s, r_data = sdata s\<rparr> of
           None \<Rightarrow> (db, 1)
         | Some db1 \<Rightarrow> (db1, 0)))"

definition deleteSession :: "('s, 'u) sqlite \<Rightarrow> 's \<Rightarrow> string option \<Rightarrow> 's \<times> int" where
  "deleteSession T db ID =
     (case ID of None \<Rightarrow> (db, 1) | Some x \<Rightarrow> (case del_sess T db x of None \<Rightarrow> (db, 1) | Some db1 \<Rightarrow> (db1, 0)))"

definition deleteOldSessions :: "('s, 'u) sqlite \<Rightarrow> 's \<Rightarrow> int \<Rightarrow> 's \<times> int" where
  "deleteOldSessions T db minatime = (case delold T db minatime of None \<Rightarrow> (db, 1) | Some db1 \<Rightarrow> (db1, 0))"

text \<open>The loops that take new identifiers until the session is stored.\<close>

fun sock_loop :: "('s, 'u) sqlite \<Rightarrow> string list \<Rightarrow> 's \<Rightarrow> sessinfo \<Rightarrow> ('s \<times> sessinfo \<times> string list) option" where
  "sock_loop T [] db s = None"
| "sock_loop T (x # xs) db s =
     (case addSession T db (s\<lparr>sockID := Some x\<rparr>) True of
        (db1, e) \<Rightarrow> if e = 0 then Some (db1, s\<lparr>sockID := Some x\<rparr>, xs) else sock_loop T xs db1 (s\<lparr>sockID := Some x\<rparr>))"

definition addWSkey :: "('s, 'u) sqlite \<Rightarrow> sessinfo \<Rightarrow> ('s, 'u) web \<Rightarrow> ('s, 'u, unit) ret" where
  "addWSkey T s w =
     (case sock_loop T (ids w) (sessionDB w) s of
        None \<Rightarrow> Waits
      | Some (db, s1, xs) \<Rightarrow> Ret (write0 (bound (sockID s1)) (w\<lparr>sessionDB := db, ids := xs\<rparr>)) ())"

fun sess_loop :: "('s, 'u) sqlite \<Rightarrow> string list \<Rightarrow> 's \<Rightarrow> sessinfo \<Rightarrow> ('s \<times> sessinfo \<times> string list) option" where
  "sess_loop T [] db s = None"
| "sess_loop T (x # xs) db s =
     (case addSession T db (s\<lparr>sessID := Some x\<rparr>) False of
        (db1, e) \<Rightarrow> if e = 0 then Some (db1, s\<lparr>sessID := Some x\<rparr>, xs) else sess_loop T xs db1 (s\<lparr>sessID := Some x\<rparr>))"

definition qookieSession :: "('s, 'u) sqlite \<Rightarrow> 's \<Rightarrow> request \<Rightarrow> sessinfo option" where
  "qookieSession T db req = getSession T db (cookies req ''Acookie'')"

section \<open>Handlers\<close>

definition json_text :: "string \<Rightarrow> string \<Rightarrow> string" where
  "json_text UA host =
     take 2047 (''{'' @ [CHR 0x22] @ ''User-Agent'' @ [CHR 0x22] @ '': '' @ [CHR 0x22] @ UA @ [CHR 0x22] @ '', '' @
                [CHR 0x22] @ ''User-IP'' @ [CHR 0x22] @ '': '' @ [CHR 0x22] @ host @ [CHR 0x22] @ ''}'')"

text \<open>The last part of \<open>auth\<close>: a user and a password are given.\<close>

definition log_in :: "('s, 'u) sqlite \<Rightarrow> (string \<Rightarrow> string option) \<Rightarrow> request \<Rightarrow> string \<Rightarrow> string \<Rightarrow> ('s, 'u) web \<Rightarrow> ('s, 'u, ocs) ret" where
  "log_in T crypt req name passwd w =
     bind_ret (getUserData T name w) (\<lambda>w U.
       case U of
         None \<Rightarrow> Ret w OCS_FORBIDDEN
       | Some u \<Rightarrow>
           (case crypt passwd of
              None \<Rightarrow> Segv
            | Some pass \<Rightarrow>
                if pass \<noteq> password u then Ret w OCS_FORBIDDEN
                else
                  (case sess_loop T (ids w) (sessionDB w)
                          \<lparr>sessID = None, sockID = None, atime = now w, username = name, sdata = json_text (agent req) (client req)\<rparr> of
                     None \<Rightarrow> Waits
                   | Some (db, s, xs) \<Rightarrow>
                       Ret (write0 ''AuthOK'' (w\<lparr>sessionDB := db, ids := xs, cookies_set := cookies_set w @ [bound (sessID s)]\<rparr>)) OCS_CLOSE_CONNECTION)))"

definition auth :: "('s, 'u) sqlite \<Rightarrow> (string \<Rightarrow> string option) \<Rightarrow> request \<Rightarrow> ('s, 'u) web \<Rightarrow> ('s, 'u, ocs) ret" where
  "auth T crypt req w =
     (if is_head req then Ret w OCS_PROCESSED
      else
        (let logout = getQdata req ''LogOut''; session = qookieSession T (sessionDB w) req in
         if session \<noteq> None \<and> logout = None then Ret (write0 ''AuthOK'' w) OCS_CLOSE_CONNECTION
         else if logout \<noteq> None then
           (let db = (case session of None \<Rightarrow> sessionDB w | Some s \<Rightarrow> fst (deleteSession T (sessionDB w) (sessID s))) in
            Ret (write0 ''LogOut'' (w\<lparr>sessionDB := db, cookies_set := cookies_set w @ [''clear'']\<rparr>)) OCS_CLOSE_CONNECTION)
         else
           (case getQdata req ''login'' of
              None \<Rightarrow> Ret (write0 ''NeedAuth'' w) OCS_CLOSE_CONNECTION
            | Some name \<Rightarrow>
                (case getQdata req ''passwd'' of
                   None \<Rightarrow> Ret (write0 ''NoPassword'' w) OCS_FORBIDDEN
                 | Some passwd \<Rightarrow> log_in T crypt req name passwd w))))"

definition get :: "('s, 'u) sqlite \<Rightarrow> request \<Rightarrow> ('s, 'u) web \<Rightarrow> ('s, 'u, ocs) ret" where
  "get T req w =
     (case qookieSession T (sessionDB w) req of
        None \<Rightarrow> Ret (write0 ''NeedAuth'' w) OCS_FORBIDDEN
      | Some s \<Rightarrow>
          bind_ret (if getQdata req ''getWSkey'' \<noteq> None then addWSkey T s w else Ret w ()) (\<lambda>w u. Ret w OCS_CLOSE_CONNECTION))"

text \<open>The two handlers of the server, one request after the other.\<close>

datatype page = Auth | Get

primrec serve :: "('s, 'u) sqlite \<Rightarrow> (string \<Rightarrow> string option) \<Rightarrow> page \<times> request \<Rightarrow> ('s, 'u) web \<Rightarrow> ('s, 'u, ocs) ret" where
  "serve T crypt (p, req) w = (case p of Auth \<Rightarrow> auth T crypt req w | Get \<Rightarrow> get T req w)"

fun serve_all :: "('s, 'u) sqlite \<Rightarrow> (string \<Rightarrow> string option) \<Rightarrow> (page \<times> request) list \<Rightarrow> ('s, 'u) web \<Rightarrow> ('s, 'u, ocs list) ret" where
  "serve_all T crypt [] w = Ret w []"
| "serve_all T crypt (r # rs) w =
     bind_ret (serve T crypt r w) (\<lambda>w x. bind_ret (serve_all T crypt rs w) (\<lambda>w xs. Ret w (x # xs)))"

section \<open>Web sockets\<close>

text \<open>
  \<open>websocket_cont\<close> for one message: the status and the reply. The flags are copied at the start, and the bit
  is cleared in the copy.
\<close>

definition websocket_cont :: "('s, 'u) sqlite \<Rightarrow> 's \<Rightarrow> u32 \<Rightarrow> string \<Rightarrow> ocs \<times> string option" where
  "websocket_cont T db flags msg =
     (if msg = [] then (OCS_NEED_MORE_DATA, None)
      else
        (let tmp = takeWhile (\<lambda>b. b \<noteq> CHR 0x00) (take 255 msg) in
         if and flags 1 \<noteq> 0 then
           if take 5 tmp = ''Akey='' \<and> getSession T db (Some (drop 5 tmp)) \<noteq> None then (OCS_NEED_MORE_DATA, None)
           else (OCS_FORBIDDEN, Some ''NeedAuth'')
         else
           (case split_at CHR ''='' tmp of
              Some (par, val) \<Rightarrow> (OCS_NEED_MORE_DATA, Some (''parameter: '' @ [CHR 0x27] @ par @ [CHR 0x27] @ '', its value: '' @ [CHR 0x27] @ val @ [CHR 0x27]))
            | None \<Rightarrow> (OCS_NEED_MORE_DATA, Some (''Echo: '' @ tmp)))))"

text \<open>\<open>websocket_run\<close> allocates the flags with \<open>calloc\<close>; the messages of a connection until it is refused.\<close>

fun ws_messages :: "('s, 'u) sqlite \<Rightarrow> 's \<Rightarrow> u32 \<Rightarrow> string list \<Rightarrow> (ocs \<times> string option) list" where
  "ws_messages T db flags [] = []"
| "ws_messages T db flags (m # ms) =
     (let x = websocket_cont T db flags m in x # (if fst x = OCS_FORBIDDEN then [] else ws_messages T db flags ms))"

definition websocket_run :: "('s, 'u) sqlite \<Rightarrow> 's \<Rightarrow> string list \<Rightarrow> (ocs \<times> string option) list" where
  "websocket_run T db ms = ws_messages T db 0 ms"

section \<open>The contract of the database\<close>

text \<open>The identifiers of a session: its key and that of its web socket. No two sessions share one.\<close>

definition named :: "(string \<Rightarrow> srow option) \<Rightarrow> string \<Rightarrow> string \<Rightarrow> bool" where
  "named R sid x \<longleftrightarrow> (\<exists>r. R sid = Some r \<and> (sid = x \<or> r_sock r = x))"

definition one_session :: "(string \<Rightarrow> srow option) \<Rightarrow> bool" where
  "one_session R \<longleftrightarrow> (\<forall>x a b. x \<noteq> [] \<longrightarrow> named R a x \<longrightarrow> named R b x \<longrightarrow> a = b)"

lemma named_upd: "named (R(sid \<mapsto> r)) k x \<longleftrightarrow> (if k = sid then x = sid \<or> x = r_sock r else named R k x)"
  by (auto simp: named_def)

lemma one_session_upd:
  assumes "one_session R" "\<And>k. sid \<noteq> [] \<Longrightarrow> named R k sid \<Longrightarrow> k = sid" "\<And>k. r_sock r \<noteq> [] \<Longrightarrow> named R k (r_sock r) \<Longrightarrow> k = sid"
  shows "one_session (R(sid \<mapsto> r))"
proof -
  have 1: "b = sid" if "x \<noteq> []" "x = sid \<or> x = r_sock r" "named R b x" for b x using assms(2,3) that by blast
  show ?thesis unfolding one_session_def named_upd
  proof (intro allI impI)
    fix x a b
    assume x: "x \<noteq> []" and a: "if a = sid then x = sid \<or> x = r_sock r else named R a x" and b: "if b = sid then x = sid \<or> x = r_sock r else named R b x"
    have 2: "c = sid" if "if c = sid then x = sid \<or> x = r_sock r else named R c x" "x = sid \<or> x = r_sock r" for c
      using 1 [OF x that(2), of c] that(1) by (cases "c = sid") simp_all
    show "a = b"
    proof (cases "x = sid \<or> x = r_sock r")
      case True
      then show ?thesis using 2 [OF a] 2 [OF b] by simp
    next
      case False
      then have "named R a x" "named R b x" using a b by (simp_all split: if_splits)
      then show ?thesis using assms(1) x unfolding one_session_def by blast
    qed
  qed
qed

lemma one_session_less: "one_session R \<Longrightarrow> (\<And>k r. S k = Some r \<Longrightarrow> R k = Some r) \<Longrightarrow> one_session S"
  unfolding one_session_def named_def by metis

text \<open>
  What the prepared statements promise for a database that nobody else uses: \<open>rows\<close> is the table of the
  sessions by its primary key; a query that binds its text finds a row exactly when there is one.
\<close>

locale session_table =
  fixes T :: "('s, 'u) sqlite" and rows :: "'s \<Rightarrow> string \<Rightarrow> srow option"
  assumes getsid_row: "getsid T db x = Row r \<Longrightarrow> rows db x = Some r"
    and getsid_none: "getsid T db x = NoRow \<Longrightarrow> rows db x = None"
    and getsid_binds: "getsid T db x \<noteq> NoBind"
    and getsockid_row: "getsockid T db x = Row (sid, r) \<Longrightarrow> rows db sid = Some r \<and> r_sock r = x"
    and getsockid_none: "getsockid T db x = NoRow \<Longrightarrow> rows db sid = Some r \<Longrightarrow> r_sock r \<noteq> x"
    and getsockid_binds: "getsockid T db x \<noteq> NoBind"
    and add_sess_rows: "add_sess T db sid r = Some db1 \<Longrightarrow> rows db1 = (rows db)(sid \<mapsto> r)"
    and del_sess_rows: "del_sess T db sid = Some db1 \<Longrightarrow> rows db1 = (rows db)(sid := None)"
    and delold_rows: "delold T db t = Some db1 \<Longrightarrow> rows db1 = (\<lambda>sid. case rows db sid of None \<Rightarrow> None | Some r \<Rightarrow> if r_atime r < t then None else Some r)"
begin

lemma getSession_found:
  assumes "getSession T db (Some x) = Some s"
  shows "\<exists>sid r. sessID s = Some sid \<and> rows db sid = Some r \<and> (sid = x \<or> r_sock r = x) \<and> username s = r_user r"
proof (cases "getsid T db x")
  case (Row r)
  then show ?thesis using assms getsid_row [of db x r] by (auto simp: getSession_def)
next
  case NoRow
  then obtain sid r where "getsockid T db x = Row (sid, r)" using assms by (auto simp: getSession_def split: found.splits)
  then show ?thesis using NoRow assms getsockid_row [of db x sid r] by (auto simp: getSession_def)
next
  case NoBind
  then show ?thesis using getsid_binds by simp
qed

lemma getSession_none: "getSession T db (Some x) = None \<Longrightarrow> \<not> named (rows db) sid x"
proof -
  assume a: "getSession T db (Some x) = None"
  have 1: "getsid T db x = NoRow" using a getsid_binds [of db x] by (cases "getsid T db x") (auto simp: getSession_def)
  then have "getsockid T db x = NoRow" using a getsockid_binds [of db x] by (cases "getsockid T db x") (auto simp: getSession_def)
  then show ?thesis using getsid_none [OF 1] getsockid_none [of db x sid] by (auto simp: named_def)
qed

lemma getSession_named: "getSession T db (Some x) \<noteq> None \<longleftrightarrow> (\<exists>sid. named (rows db) sid x)"
  using getSession_found [of db x] getSession_none [of db x] by (fastforce simp: named_def)

lemma addSession_stored:
  assumes "addSession T db s modify = (db1, 0)"
  shows "rows db1 = (rows db)(bound (sessID s) \<mapsto> \<lparr>r_sock = bound (sockID s), r_atime = atime s, r_user = username s, r_data = sdata s\<rparr>) \<and>
    (\<not> modify \<longrightarrow> getSession T db (sessID s) = None) \<and>
    (modify \<longrightarrow> (case getSession T db (sockID s) of None \<Rightarrow> True | Some s1 \<Rightarrow> sessID s1 = sessID s))"
  using assms by (auto simp: addSession_def Let_def split: if_splits option.splits dest: add_sess_rows)

lemma addSession_refused: "addSession T db s modify = (db1, e) \<Longrightarrow> e \<noteq> 0 \<Longrightarrow> db1 = db"
  by (auto simp: addSession_def Let_def split: if_splits option.splits)

lemma sess_loop_stored:
  assumes "sess_loop T xs db s = Some (db1, s1, ys)"
  shows "\<exists>x. s1 = s\<lparr>sessID := Some x\<rparr> \<and> addSession T db s1 False = (db1, 0)"
  using assms
proof (induction xs arbitrary: s)
  case (Cons x xs)
  obtain db2 e where a: "addSession T db (s\<lparr>sessID := Some x\<rparr>) False = (db2, e)" by (cases "addSession T db (s\<lparr>sessID := Some x\<rparr>) False")
  show ?case
  proof (cases "e = 0")
    case True
    then show ?thesis using Cons.prems a by auto
  next
    case False
    then have "sess_loop T xs db (s\<lparr>sessID := Some x\<rparr>) = Some (db1, s1, ys)" using Cons.prems a addSession_refused [OF a] by simp
    from Cons.IH [OF this] show ?thesis by simp
  qed
qed simp

lemma sock_loop_stored:
  assumes "sock_loop T xs db s = Some (db1, s1, ys)"
  shows "\<exists>x. s1 = s\<lparr>sockID := Some x\<rparr> \<and> addSession T db s1 True = (db1, 0)"
  using assms
proof (induction xs arbitrary: s)
  case (Cons x xs)
  obtain db2 e where a: "addSession T db (s\<lparr>sockID := Some x\<rparr>) True = (db2, e)" by (cases "addSession T db (s\<lparr>sockID := Some x\<rparr>) True")
  show ?case
  proof (cases "e = 0")
    case True
    then show ?thesis using Cons.prems a by auto
  next
    case False
    then have "sock_loop T xs db (s\<lparr>sockID := Some x\<rparr>) = Some (db1, s1, ys)" using Cons.prems a addSession_refused [OF a] by simp
    from Cons.IH [OF this] show ?thesis by simp
  qed
qed simp

lemma getUserData_keeps: "getUserData T name w = Ret w1 U \<Longrightarrow> sessionDB w1 = sessionDB w \<and> ids w1 = ids w \<and> now w1 = now w \<and> answers w1 = answers w \<and>
    cookies_set w1 = cookies_set w \<and> authDB w1 = authDB w \<and> (\<forall>u. U = Some u \<longrightarrow> get_user T (authDB w) name = Row u \<and> w1 = w)"
  by (auto simp: getUserData_def split: if_splits found.splits)

lemma bind_ret_Ret: "bind_ret m f = Ret w y \<longleftrightarrow> (\<exists>w1 x. m = Ret w1 x \<and> f w1 x = Ret w y)"
  by (cases m) auto

text \<open>A log-in that succeeds: the password fits, and a fresh session without a web socket is stored under the new cookie.\<close>

lemma log_in_ok:
  assumes "log_in T crypt req name passwd w = Ret w1 OCS_CLOSE_CONNECTION"
  shows "\<exists>u sid r. get_user T (authDB w) name = Row u \<and> crypt passwd = Some (password u) \<and>
    w1 = write0 ''AuthOK'' (w\<lparr>sessionDB := sessionDB w1, ids := ids w1, cookies_set := cookies_set w @ [sid]\<rparr>) \<and>
    (\<forall>k. \<not> named (rows (sessionDB w)) k sid) \<and> r_user r = name \<and> r_sock r = [] \<and> rows (sessionDB w1) = (rows (sessionDB w))(sid \<mapsto> r)"
proof -
  obtain w2 U where g: "getUserData T name w = Ret w2 U" using assms by (auto simp: log_in_def bind_ret_Ret)
  then obtain u where U: "U = Some u" using assms by (cases U) (auto simp: log_in_def)
  have u: "get_user T (authDB w) name = Row u" "w2 = w" using getUserData_keeps [OF g] U by auto
  let ?s = "\<lparr>sessID = None, sockID = None, atime = now w, username = name, sdata = json_text (agent req) (client req)\<rparr>"
  obtain db s xs where c: "crypt passwd = Some (password u)" and l: "sess_loop T (ids w) (sessionDB w) ?s = Some (db, s, xs)"
    and w1: "w1 = write0 ''AuthOK'' (w\<lparr>sessionDB := db, ids := xs, cookies_set := cookies_set w @ [bound (sessID s)]\<rparr>)"
    using assms g U u(2) by (auto simp: log_in_def split: option.splits if_splits)
  obtain x where x: "s = ?s\<lparr>sessID := Some x\<rparr>" "addSession T (sessionDB w) s False = (db, 0)" using sess_loop_stored [OF l] by blast
  have "rows db = (rows (sessionDB w))(x \<mapsto> \<lparr>r_sock = [], r_atime = now w, r_user = name, r_data = sdata ?s\<rparr>)" "getSession T (sessionDB w) (Some x) = None"
    using addSession_stored [OF x(2)] x(1) by (simp_all add: bound_def)
  moreover have "sessionDB w1 = db" "ids w1 = xs" using w1 by (simp_all add: write0_def)
  ultimately show ?thesis using u(1) c w1 x(1) getSession_none [of "sessionDB w" x] by (intro exI conjI) (auto simp: bound_def)
qed

lemma deleteSession_rows: "deleteSession T db (Some sid) = (db1, e) \<Longrightarrow> rows db1 = (if e = 0 then (rows db)(sid := None) else rows db)"
  by (auto simp: deleteSession_def split: option.splits dest: del_sess_rows)

lemma log_in_sessions:
  assumes "log_in T crypt req name passwd w = Ret w1 x"
  shows "x = OCS_CLOSE_CONNECTION \<or> sessionDB w1 = sessionDB w \<and> answers w1 = answers w \<and> cookies_set w1 = cookies_set w"
proof -
  obtain w2 U where g: "getUserData T name w = Ret w2 U" using assms by (auto simp: log_in_def bind_ret_Ret)
  show ?thesis using assms getUserData_keeps [OF g] g by (auto simp: log_in_def split: option.splits if_splits)
qed

lemma auth_cases:
  assumes "auth T crypt req w = Ret w1 x"
  obtains (same) "sessionDB w1 = sessionDB w" "cookies_set w1 = cookies_set w" "\<And>s. answers w1 = answers w @ [s] \<Longrightarrow> s \<noteq> ''AuthOK''"
  | (cookie) s where "qookieSession T (sessionDB w) req = Some s" "w1 = write0 ''AuthOK'' w" "getQdata req ''LogOut'' = None"
  | (logout) db where "getQdata req ''LogOut'' \<noteq> None" "db = (case qookieSession T (sessionDB w) req of None \<Rightarrow> sessionDB w | Some s \<Rightarrow> fst (deleteSession T (sessionDB w) (sessID s)))"
      "w1 = write0 ''LogOut'' (w\<lparr>sessionDB := db, cookies_set := cookies_set w @ [''clear'']\<rparr>)"
  | (login) name passwd where "getQdata req ''login'' = Some name" "getQdata req ''passwd'' = Some passwd" "getQdata req ''LogOut'' = None"
      "log_in T crypt req name passwd w = Ret w1 OCS_CLOSE_CONNECTION"
proof (cases "is_head req")
  case True
  then show ?thesis using assms same by (simp add: auth_def)
next
  case head: False
  show ?thesis
  proof (cases "getQdata req ''LogOut''")
    case (Some l)
    then show ?thesis using assms head logout by (simp add: auth_def Let_def)
  next
    case None
    show ?thesis
    proof (cases "qookieSession T (sessionDB w) req")
      case (Some s)
      then show ?thesis using assms head None cookie by (simp add: auth_def)
    next
      case no: None
      show ?thesis
      proof (cases "getQdata req ''login''")
        case noname: None
        then show ?thesis using assms head None no same by (auto simp: auth_def write0_def)
      next
        case (Some name)
        show ?thesis
        proof (cases "getQdata req ''passwd''")
          case nopass: None
          then show ?thesis using assms head None no Some same by (auto simp: auth_def write0_def)
        next
          case pass: (Some passwd)
          then have l: "log_in T crypt req name passwd w = Ret w1 x" using assms head None no Some by (simp add: auth_def)
          show ?thesis
          proof (cases "x = OCS_CLOSE_CONNECTION")
            case True
            then show ?thesis using login Some pass None l by blast
          next
            case False
            then show ?thesis using log_in_sessions [OF l] same by auto
          qed
        qed
      qed
    qed
  qed
qed

lemma qookieSession_found:
  assumes "qookieSession T db req = Some s"
  shows "\<exists>x sid r. cookies req ''Acookie'' = Some x \<and> sessID s = Some sid \<and> rows db sid = Some r \<and> (sid = x \<or> r_sock r = x) \<and> username s = r_user r"
proof -
  obtain x where x: "cookies req ''Acookie'' = Some x" using assms by (cases "cookies req ''Acookie''") (simp_all add: qookieSession_def getSession_def)
  then have "getSession T db (Some x) = Some s" using assms by (simp add: qookieSession_def)
  from getSession_found [OF this] show ?thesis using x by blast
qed

lemma auth_one_session:
  assumes "auth T crypt req w = Ret w1 x" "one_session (rows (sessionDB w))"
  shows "one_session (rows (sessionDB w1))"
  using assms(1)
proof (cases rule: auth_cases)
  case (logout db)
  have "one_session (rows db)"
  proof (cases "qookieSession T (sessionDB w) req")
    case None
    then show ?thesis using logout(2) assms(2) by simp
  next
    case (Some s)
    obtain sid where sid: "sessID s = Some sid" using qookieSession_found [OF Some] by blast
    obtain db1 e where d: "deleteSession T (sessionDB w) (sessID s) = (db1, e)" by (cases "deleteSession T (sessionDB w) (sessID s)")
    then have "rows db = (if e = 0 then (rows (sessionDB w))(sid := None) else rows (sessionDB w))"
      using deleteSession_rows [of _ sid] logout(2) Some sid by simp
    then have "rows db k = Some r \<Longrightarrow> rows (sessionDB w) k = Some r" for k r by (simp split: if_splits)
    then show ?thesis by (rule one_session_less [OF assms(2)])
  qed
  then show ?thesis using logout(3) by (simp add: write0_def)
next
  case (login name passwd)
  then obtain sid r where "rows (sessionDB w1) = (rows (sessionDB w))(sid \<mapsto> r)" "\<And>k. \<not> named (rows (sessionDB w)) k sid" "r_sock r = []"
    using log_in_ok by blast
  then show ?thesis using one_session_upd [OF assms(2), of sid r] by simp
qed (use assms(2) in \<open>auto simp: write0_def\<close>)

lemma get_one_session:
  assumes "get T req w = Ret w1 x" "one_session (rows (sessionDB w))"
  shows "one_session (rows (sessionDB w1))"
proof (cases "qookieSession T (sessionDB w) req")
  case None
  then show ?thesis using assms by (auto simp: get_def write0_def)
next
  case (Some s)
  obtain sid r0 where sid: "sessID s = Some sid" "rows (sessionDB w) sid = Some r0"
    using qookieSession_found [OF Some] by blast
  show ?thesis
  proof (cases "getQdata req ''getWSkey''")
    case None
    then show ?thesis using assms Some by (simp add: get_def)
  next
    case key: (Some y)
    then obtain db s1 xs where l: "sock_loop T (ids w) (sessionDB w) s = Some (db, s1, xs)" "sessionDB w1 = db"
      using assms(1) Some by (auto simp: get_def addWSkey_def write0_def bind_ret_Ret split: option.splits)
    obtain i where i: "s1 = s\<lparr>sockID := Some i\<rparr>" "addSession T (sessionDB w) s1 True = (db, 0)" using sock_loop_stored [OF l(1)] by blast
    obtain r where r: "rows db = (rows (sessionDB w))(sid \<mapsto> r)" "r_sock r = i" using addSession_stored [OF i(2)] i(1) sid(1) by (auto simp: bound_def)
    have "case getSession T (sessionDB w) (Some i) of None \<Rightarrow> True | Some s2 \<Rightarrow> sessID s2 = Some sid"
      using addSession_stored [OF i(2)] sid(1) unfolding i(1) by (simp split: option.splits)
    then have n: "getSession T (sessionDB w) (Some i) = None \<or> named (rows (sessionDB w)) sid i"
      using getSession_found [of "sessionDB w" i] by (fastforce simp: named_def split: option.splits)
    have o: "k = sid" if "x \<noteq> []" "named (rows (sessionDB w)) k x" "named (rows (sessionDB w)) sid x" for k x
      using assms(2) that unfolding one_session_def by blast
    have "named (rows (sessionDB w)) sid sid" using sid(2) by (simp add: named_def)
    moreover have "k = sid" if "i \<noteq> []" "named (rows (sessionDB w)) k i" for k
      using n o [OF that] getSession_none that(2) by blast
    ultimately show ?thesis using one_session_upd [OF assms(2), of sid r] r o l(2) by simp
  qed
qed

lemma serve_all_one_session:
  assumes "serve_all T crypt rs w = Ret w1 xs" "one_session (rows (sessionDB w))"
  shows "one_session (rows (sessionDB w1))"
  using assms
proof (induction rs arbitrary: w xs)
  case (Cons r rs)
  obtain p req where r: "r = (p, req)" by (cases r)
  obtain w2 x ys where s: "serve T crypt r w = Ret w2 x" "serve_all T crypt rs w2 = Ret w1 ys" using Cons.prems(1) by (auto simp: bind_ret_Ret)
  have "one_session (rows (sessionDB w2))"
    using s(1) Cons.prems(2) auth_one_session get_one_session by (cases p) (auto simp: r)
  then show ?case using Cons.IH s(2) by blast
qed simp

text \<open>After a log-in there is a session without a web socket, which the empty identifier finds.\<close>

lemma empty_cookie_session:
  assumes "log_in T crypt req name passwd w = Ret w1 OCS_CLOSE_CONNECTION" "cookies req2 ''Acookie'' = Some []"
  shows "qookieSession T (sessionDB w1) req2 \<noteq> None"
proof -
  obtain sid r where "rows (sessionDB w1) = (rows (sessionDB w))(sid \<mapsto> r)" "r_sock r = []" using log_in_ok [OF assms(1)] by blast
  then have "named (rows (sessionDB w1)) sid []" by (simp add: named_def)
  then show ?thesis using getSession_named [of "sessionDB w1" "[]"] assms(2) by (auto simp: qookieSession_def)
qed

lemma sess_loop_returns:
  assumes "x \<in> set xs" "getSession T db (Some x) = None" "\<And>db k r. add_sess T db k r \<noteq> None" "sockID s = None"
  shows "sess_loop T xs db s \<noteq> None"
  using assms(1,4)
proof (induction xs arbitrary: s)
  case (Cons y ys)
  obtain db2 e where a: "addSession T db (s\<lparr>sessID := Some y\<rparr>) False = (db2, e)" by (cases "addSession T db (s\<lparr>sessID := Some y\<rparr>) False")
  show ?case
  proof (cases "e = 0")
    case True
    then show ?thesis using a by simp
  next
    case False
    have "y \<noteq> x"
    proof
      assume "y = x"
      then have "addSession T db (s\<lparr>sessID := Some y\<rparr>) False = (the (add_sess T db x \<lparr>r_sock = [], r_atime = atime s, r_user = username s, r_data = sdata s\<rparr>), 0)"
        using assms(2,3) Cons.prems(2) by (auto simp: addSession_def Let_def bound_def getSession_def [of _ _ None] split: option.splits)
      then show False using a False by simp
    qed
    then show ?thesis using Cons addSession_refused [OF a False] a False by simp
  qed
qed simp

end

section \<open>Who is let in\<close>

text \<open>
  C35. The answer \<open>AuthOK\<close> is given only to a request whose cookie is the identifier of a stored session, or that brings a user name and the password whose hash is stored for it. In the second case a new session of that user is stored under an identifier that no session had, which becomes the cookie, and all other sessions stay.
\<close>

theorem auth_ok_reason:
  assumes "session_table T rows" "auth T crypt req w = Ret w1 x" "answers w1 = answers w @ [''AuthOK'']"
  shows "(\<exists>k sid. cookies req ''Acookie'' = Some k \<and> named (rows (sessionDB w)) sid k \<and> sessionDB w1 = sessionDB w) \<or>
    (\<exists>name passwd u sid r. getQdata req ''login'' = Some name \<and> getQdata req ''passwd'' = Some passwd \<and> get_user T (authDB w) name = Row u \<and>
       crypt passwd = Some (password u) \<and> cookies_set w1 = cookies_set w @ [sid] \<and> (\<forall>k. \<not> named (rows (sessionDB w)) k sid) \<and>
       r_user r = name \<and> rows (sessionDB w1) = (rows (sessionDB w))(sid \<mapsto> r))"
proof (cases rule: session_table.auth_cases [OF assms(1,2), case_names same cookie logout login])
  case same
  then show ?thesis using assms(3) by blast
next
  case (cookie s)
  then show ?thesis using session_table.qookieSession_found [OF assms(1) cookie(1)] by (auto simp: named_def write0_def)
next
  case (logout db)
  then show ?thesis using assms(3) by (simp add: write0_def)
next
  case (login name passwd)
  obtain u sid r where "get_user T (authDB w) name = Row u" "crypt passwd = Some (password u)"
    "w1 = write0 ''AuthOK'' (w\<lparr>sessionDB := sessionDB w1, ids := ids w1, cookies_set := cookies_set w @ [sid]\<rparr>)"
    "\<forall>k. \<not> named (rows (sessionDB w)) k sid" "r_user r = name" "rows (sessionDB w1) = (rows (sessionDB w))(sid \<mapsto> r)"
    using session_table.log_in_ok [OF assms(1) login(4)] by blast
  moreover have "cookies_set (write0 ''AuthOK'' (w\<lparr>sessionDB := d, ids := j, cookies_set := c\<rparr>)) = c" for d j c by (simp add: write0_def)
  ultimately show ?thesis using login(1,2) by metis
qed

text \<open>
  Over any sequence of requests, no identifier belongs to two sessions, be it as the key of one or as the web socket of the other; the empty identifier is the exception.
\<close>

theorem sessions_identified:
  assumes "session_table T rows" "one_session (rows (sessionDB w))" "serve_all T crypt rs w = Ret w1 xs"
  shows "one_session (rows (sessionDB w1))"
  using session_table.serve_all_one_session [OF assms(1,3,2)] .

text \<open>
  Logging out ends the session: afterwards the cookie, unless it is empty, is refused by both handlers.
\<close>

theorem logout_ends_session:
  assumes "session_table T rows" "\<And>db k. del_sess T db k \<noteq> None" "one_session (rows (sessionDB w))"
    and "cookies req ''Acookie'' = Some k" "k \<noteq> []" "getQdata req ''LogOut'' \<noteq> None" "\<not> is_head req"
    and "cookies req2 ''Acookie'' = Some k"
  shows "\<exists>w1. auth T crypt req w = Ret w1 OCS_CLOSE_CONNECTION \<and> get T req2 w1 = Ret (write0 ''NeedAuth'' w1) OCS_FORBIDDEN"
proof -
  define db where "db = (case qookieSession T (sessionDB w) req of None \<Rightarrow> sessionDB w | Some s \<Rightarrow> fst (deleteSession T (sessionDB w) (sessID s)))"
  have a: "auth T crypt req w = Ret (write0 ''LogOut'' (w\<lparr>sessionDB := db, cookies_set := cookies_set w @ [''clear'']\<rparr>)) OCS_CLOSE_CONNECTION"
    using assms(6,7) by (auto simp: auth_def db_def Let_def)
  have "getSession T db (Some k) = None"
  proof (cases "qookieSession T (sessionDB w) req")
    case None
    then show ?thesis using assms(4) by (simp add: db_def qookieSession_def)
  next
    case (Some s)
    obtain sid r where s: "sessID s = Some sid" "rows (sessionDB w) sid = Some r" "sid = k \<or> r_sock r = k"
      using session_table.qookieSession_found [OF assms(1) Some] assms(4) by auto
    obtain db1 where d: "del_sess T (sessionDB w) sid = Some db1" using assms(2) by blast
    then have "db = db1" using Some s(1) by (simp add: db_def deleteSession_def)
    then have "rows db = (rows (sessionDB w))(sid := None)" using session_table.del_sess_rows [OF assms(1) d] by simp
    moreover have "named (rows (sessionDB w)) sid k" using s by (auto simp: named_def)
    ultimately have "\<not> named (rows db) j k" for j using assms(3,5) unfolding one_session_def named_def by (metis fun_upd_apply option.distinct(1))
    then show ?thesis using session_table.getSession_named [OF assms(1), of db k] by blast
  qed
  then show ?thesis using a assms(8) by (simp add: get_def qookieSession_def write0_def)
qed

text \<open>
  C38. After any user has logged in, a request with an empty cookie and nothing else is let in: a new session is stored with an empty web socket identifier, and cookies are looked up among these as well.
\<close>

theorem empty_cookie_enters:
  assumes "session_table T rows" "log_in T crypt req name passwd w = Ret w1 OCS_CLOSE_CONNECTION"
    and "cookies req2 ''Acookie'' = Some []" "getQdata req2 ''LogOut'' = None" "\<not> is_head req2"
  shows "auth T crypt req2 w1 = Ret (write0 ''AuthOK'' w1) OCS_CLOSE_CONNECTION"
  using session_table.empty_cookie_session [OF assms(1-3)] assms(4,5) by (simp add: auth_def)

text \<open>
  Logging in ends: with the right password, and when one of the identifiers that are generated is unused, the loop stores the session.
\<close>

theorem log_in_returns:
  assumes "session_table T rows" "\<And>db k r. add_sess T db k r \<noteq> None" "\<not> ulocked w" "get_user T (authDB w) name = Row u" "crypt passwd = Some (password u)"
    and "x \<in> set (ids w)" "getSession T (sessionDB w) (Some x) = None"
  shows "\<exists>w1. log_in T crypt req name passwd w = Ret w1 OCS_CLOSE_CONNECTION"
proof -
  let ?s = "\<lparr>sessID = None, sockID = None, atime = now w, username = name, sdata = json_text (agent req) (client req)\<rparr>"
  obtain db s xs where "sess_loop T (ids w) (sessionDB w) ?s = Some (db, s, xs)"
    using session_table.sess_loop_returns [OF assms(1,6,7,2), of ?s] by (cases "sess_loop T (ids w) (sessionDB w) ?s") auto
  then show ?thesis using assms(3-5) by (simp add: log_in_def getUserData_def)
qed

text \<open>
  A web socket never asks for a key: its flags start as 0, and every message is answered without one.
\<close>

theorem websocket_open: "list_all (\<lambda>x. fst x = OCS_NEED_MORE_DATA) (websocket_run T db ms) \<and> length (websocket_run T db ms) = length ms"
proof -
  have "fst (websocket_cont T db 0 m) = OCS_NEED_MORE_DATA" for m by (auto simp: websocket_cont_def Let_def split: option.splits)
  then show ?thesis by (induction ms) (simp_all add: websocket_run_def Let_def)
qed

text \<open>
  If the flag were set, a valid key would not help: the bit is cleared in a copy, and the next message is refused.
\<close>

theorem websocket_key_forgotten:
  assumes "getSession T db (Some k) \<noteq> None" "length k \<le> 250" "CHR 0x00 \<notin> set k" "m \<noteq> []" "take 5 m \<noteq> ''Akey=''"
  shows "ws_messages T db 1 [''Akey='' @ k, m] = [(OCS_NEED_MORE_DATA, None), (OCS_FORBIDDEN, Some ''NeedAuth'')]"
proof -
  have t: "takeWhile (\<lambda>b. b \<noteq> CHR 0x00) (take 255 (''Akey='' @ k)) = ''Akey='' @ k"
    using assms(2,3) by (auto simp: takeWhile_eq_all_conv)
  have 1: "websocket_cont T db 1 (''Akey='' @ k) = (OCS_NEED_MORE_DATA, None)" unfolding websocket_cont_def Let_def t using assms(1) by simp
  have "take 5 (takeWhile (\<lambda>b. b \<noteq> CHR 0x00) (take 255 m)) \<noteq> ''Akey=''"
  proof
    assume a: "take 5 (takeWhile (\<lambda>b. b \<noteq> CHR 0x00) (take 255 m)) = ''Akey=''"
    obtain n where "takeWhile (\<lambda>b. b \<noteq> CHR 0x00) (take 255 m) = take n (take 255 m)" using takeWhile_eq_take by blast
    then have t: "take (min 5 (min n 255)) m = ''Akey=''" using a by (simp add: min.assoc)
    then have "length (take (min 5 (min n 255)) m) = 5" by simp
    then have "min 5 (min n 255) = 5" by (simp split: if_splits add: min_def)
    then have "take 5 m = ''Akey=''" using t by simp
    then show False using assms(5) by simp
  qed
  then have "websocket_cont T db 1 m = (OCS_FORBIDDEN, Some ''NeedAuth'')" using assms(4) by (simp add: websocket_cont_def Let_def)
  then show ?thesis using 1 by (simp add: Let_def)
qed

text \<open>
  One name that cannot be bound locks the table of users for good: every later look-up waits.
\<close>

theorem user_lookup_locks:
  assumes "get_user T (authDB w) name = NoBind" "\<not> ulocked w"
  shows "\<exists>w1. getUserData T name w = Ret w1 None \<and> (\<forall>name2. getUserData T name2 w1 = Stuck) \<and> (\<forall>crypt req n p. log_in T crypt req n p w1 = Stuck)"
  using assms by (simp add: getUserData_def log_in_def)

section \<open>A table in a list\<close>

text \<open>The statements on lists of rows, where the first row of a key counts.\<close>

definition row_answer :: "'a option \<Rightarrow> 'a found" where
  "row_answer x = (case x of None \<Rightarrow> NoRow | Some r \<Rightarrow> Row r)"

definition sock_row :: "(string \<times> srow) list \<Rightarrow> string \<Rightarrow> (string \<times> srow) option" where
  "sock_row db x = find (\<lambda>(k, r). map_of db k = Some r \<and> r_sock r = x) db"

definition list_sql :: "((string \<times> srow) list, (string \<times> userinfo) list) sqlite" where
  "list_sql = \<lparr>getsid = (\<lambda>db x. row_answer (map_of db x)), getsockid = (\<lambda>db x. row_answer (sock_row db x)),
     add_sess = (\<lambda>db k r. Some ((k, r) # db)), del_sess = (\<lambda>db k. Some (filter (\<lambda>(j, r). j \<noteq> k) db)),
     delold = (\<lambda>db t. Some (filter (\<lambda>(k, r). \<not> (map_of db k = Some r \<and> r_atime r < t)) (map (\<lambda>k. (k, the (map_of db k))) (map fst db)))),
     get_user = (\<lambda>us n. row_answer (map_of us n)), add_user = (\<lambda>us n u. Some ((n, u) # us)), del_user = (\<lambda>us n. Some (filter (\<lambda>(m, u). m \<noteq> n) us))\<rparr>"

lemma row_answer_simps [simp]: "row_answer x = Row r \<longleftrightarrow> x = Some r" "row_answer x = NoRow \<longleftrightarrow> x = None" "row_answer x \<noteq> NoBind"
  by (simp_all add: row_answer_def split: option.splits)

lemma map_of_without: "map_of (filter (\<lambda>(j, r). j \<noteq> k) db) = (map_of db)(k := None)"
  by (induction db) (auto simp: fun_eq_iff)

lemma map_of_older:
  "map_of (filter (\<lambda>(k, r). \<not> (M k = Some r \<and> r_atime r < t)) (map (\<lambda>k. (k, the (M k))) ks)) sid =
     (if sid \<in> set ks \<and> \<not> (M sid = Some (the (M sid)) \<and> r_atime (the (M sid)) < t) then Some (the (M sid)) else None)"
  by (induction ks) auto

interpretation list_table: session_table list_sql map_of
proof (unfold_locales, goal_cases)
  case (4 db x sid r)
  then show ?case by (auto simp: list_sql_def sock_row_def find_Some_iff set_conv_nth)
next
  case (5 db x sid r)
  then have "(sid, r) \<in> set db" by (simp add: map_of_SomeD)
  then show ?case using 5 by (auto simp: list_sql_def sock_row_def find_None_iff)
next
  case (9 db t db1)
  have "sid \<in> fst ` set db \<longleftrightarrow> map_of db sid \<noteq> None" for sid by (simp add: dom_map_of_conv_image_fst [symmetric] domIff)
  then show ?case using 9 map_of_older [of "map_of db" t "map fst db"] by (auto simp: list_sql_def fun_eq_iff split: option.splits)
qed (auto simp: list_sql_def map_of_without)

definition crypt0 :: "string \<Rightarrow> string option" where
  "crypt0 p = Some (''$6$$'' @ p)"

definition web0 :: "((string \<times> srow) list, (string \<times> userinfo) list) web" where
  "web0 = \<lparr>sessionDB = [], authDB = [(''bob'', \<lparr>password = ''$6$$pw'', level = 1, comment = []\<rparr>)], ulocked = False, ids = [''A1'', ''B2''], now = 100,
     answers = [], cookies_set = []\<rparr>"

definition ask :: "(string \<times> string) list \<Rightarrow> string option \<Rightarrow> request" where
  "ask q c = \<lparr>is_head = False, query = map_of q, post = Map.empty, cookies = (\<lambda>x. if x = ''Acookie'' then c else None), client = ''h'', agent = ''a''\<rparr>"

definition login0 :: request where
  "login0 = ask [(''login'', ''bob''), (''passwd'', ''pw'')] None"

definition web1 :: "((string \<times> srow) list, (string \<times> userinfo) list) web" where
  "web1 = web0\<lparr>sessionDB := [(''A1'', \<lparr>r_sock = [], r_atime = 100, r_user = ''bob'', r_data = json_text ''a'' ''h''\<rparr>)], ids := [''B2''], answers := [''AuthOK''],
     cookies_set := [''A1'']\<rparr>"

lemma web0_login: "auth list_sql crypt0 login0 web0 = Ret web1 OCS_CLOSE_CONNECTION" "log_in list_sql crypt0 login0 ''bob'' ''pw'' web0 = Ret web1 OCS_CLOSE_CONNECTION"
  by code_simp+

theorem auth_ok_reason_witness:
  "auth list_sql crypt0 login0 web0 = Ret web1 OCS_CLOSE_CONNECTION \<and>
   (\<exists>name passwd u. getQdata login0 ''login'' = Some name \<and> getQdata login0 ''passwd'' = Some passwd \<and> get_user list_sql (authDB web0) name = Row u \<and> crypt0 passwd = Some (password u))"
proof -
  have "cookies login0 ''Acookie'' = None" "answers web1 = answers web0 @ [''AuthOK'']" by (simp_all add: login0_def ask_def web0_def web1_def)
  then show ?thesis using auth_ok_reason [OF list_table.session_table_axioms web0_login(1)] web0_login(1) by auto
qed

theorem sessions_identified_witness:
  "\<exists>w1 xs. serve_all list_sql crypt0 [(Auth, login0), (Get, ask [(''getWSkey'', ''1'')] (Some ''A1''))] web0 = Ret w1 xs \<and> one_session (map_of (sessionDB w1))"
proof -
  have "(case serve_all list_sql crypt0 [(Auth, login0), (Get, ask [(''getWSkey'', ''1'')] (Some ''A1''))] web0 of Ret w1 xs \<Rightarrow> True | _ \<Rightarrow> False)" by code_simp
  then obtain w1 xs where "serve_all list_sql crypt0 [(Auth, login0), (Get, ask [(''getWSkey'', ''1'')] (Some ''A1''))] web0 = Ret w1 xs"
    by (cases "serve_all list_sql crypt0 [(Auth, login0), (Get, ask [(''getWSkey'', ''1'')] (Some ''A1''))] web0") auto
  moreover have "one_session (map_of (sessionDB web0))" by (simp add: one_session_def named_def web0_def)
  ultimately show ?thesis using sessions_identified [OF list_table.session_table_axioms] by blast
qed

theorem logout_ends_session_witness:
  "\<exists>w1. auth list_sql crypt0 (ask [(''LogOut'', ''1'')] (Some ''A1'')) web1 = Ret w1 OCS_CLOSE_CONNECTION \<and>
     get list_sql (ask [] (Some ''A1'')) w1 = Ret (write0 ''NeedAuth'' w1) OCS_FORBIDDEN"
proof (rule logout_ends_session [OF list_table.session_table_axioms])
  show "one_session (map_of (sessionDB web1))" by (auto simp: one_session_def named_def web1_def split: if_splits)
qed (simp_all add: list_sql_def ask_def getQdata_def)

theorem empty_cookie_enters_witness: "auth list_sql crypt0 (ask [] (Some [])) web1 = Ret (write0 ''AuthOK'' web1) OCS_CLOSE_CONNECTION"
  by (rule empty_cookie_enters [OF list_table.session_table_axioms web0_login(2)]) (simp_all add: ask_def getQdata_def)

theorem log_in_returns_witness: "\<exists>w1. log_in list_sql crypt0 login0 ''bob'' ''pw'' web0 = Ret w1 OCS_CLOSE_CONNECTION"
  by (rule log_in_returns [OF list_table.session_table_axioms, of _ _ "\<lparr>password = ''$6$$pw'', level = 1, comment = []\<rparr>" _ _ "''A1''"])
    (simp_all add: list_sql_def web0_def crypt0_def getSession_def sock_row_def row_answer_def)

theorem websocket_key_forgotten_witness:
  "ws_messages list_sql (sessionDB web1) 1 [''Akey=A1'', ''stop''] = [(OCS_NEED_MORE_DATA, None), (OCS_FORBIDDEN, Some ''NeedAuth'')]"
proof -
  have "getSession list_sql (sessionDB web1) (Some ''A1'') \<noteq> None" by (simp add: getSession_def list_sql_def web1_def row_answer_def)
  then show ?thesis using websocket_key_forgotten [of list_sql "sessionDB web1" "''A1''" "''stop''"] by simp
qed

theorem user_lookup_locks_witness:
  "\<exists>w1. getUserData (list_sql\<lparr>get_user := (\<lambda>us n. if n = ''x'' then NoBind else NoRow)\<rparr>) ''x'' web0 = Ret w1 None \<and>
     getUserData (list_sql\<lparr>get_user := (\<lambda>us n. if n = ''x'' then NoBind else NoRow)\<rparr>) ''bob'' w1 = Stuck"
  using user_lookup_locks [of "list_sql\<lparr>get_user := (\<lambda>us n. if n = ''x'' then NoBind else NoRow)\<rparr>" web0 "''x''"] by (auto simp: web0_def)

end
