(* ===== verification/WebThreads.thy ===== *)
theory WebThreads
  imports WebAuth
begin

text \<open>
  The sessions of \<open>NES_webiface/\<close> under the threads of the server: \<open>main.c\<close> starts it with \<open>O_THREADED\<close>, so that
  every request runs in a thread of its own. The mutex of the database of sessions is taken for one look-up
  (\<open>getSession\<close>), one insertion (the end of \<open>addSession\<close>) or one deletion at a time, and these are the steps here. Between
  the two look-ups of \<open>addSession\<close> and its insertion other threads run.
\<close>

section \<open>Threads\<close>

text \<open>
  Where a thread is: it waits for a request, takes a new identifier for its session, is in front of the first or the second
  look-up of \<open>addSession\<close> (with what the first has found), in front of the insertion, or in front of the deletion of a
  session. The flag is \<open>modify\<close>: false in \<open>auth\<close>, true in \<open>addWSkey\<close>.
\<close>

datatype job =
    Idle
  | Draw sessinfo bool
  | Find1 sessinfo bool
  | Find2 sessinfo bool "sessinfo option"
  | Insert sessinfo bool
  | Drop "string option"

record 's shared =
  tdb :: 's
  jobs :: "nat \<Rightarrow> job"

text \<open>
  What happens next: thread \<open>i\<close> gets a log-in with the right password, a request for a key of a web socket or a log-out;
  the identifier that is generated for it; it does its next step on the database; or old sessions are deleted.
\<close>

datatype web_event =
    Login nat int string request
  | WSkey nat request
  | Logout nat request
  | Draws nat string
  | Runs nat
  | Expire int

definition goto :: "nat \<Rightarrow> job \<Rightarrow> 's shared \<Rightarrow> 's shared" where
  "goto i j st = st\<lparr>jobs := (jobs st)(i := j)\<rparr>"

text \<open>The test of \<open>addSession\<close> on what the two look-ups have found.\<close>

definition conflict :: "sessinfo \<Rightarrow> bool \<Rightarrow> sessinfo option \<Rightarrow> sessinfo option \<Rightarrow> bool" where
  "conflict s modify byID bysID \<longleftrightarrow>
     (byID \<noteq> None \<or> bysID \<noteq> None) \<and> (if modify then bysID \<noteq> None \<and> sessID (the bysID) \<noteq> sessID s else True)"

definition row_of :: "sessinfo \<Rightarrow> srow" where
  "row_of s = \<lparr>r_sock = bound (sockID s), r_atime = atime s, r_user = username s, r_data = sdata s\<rparr>"

text \<open>One step of a thread; a refused or failed insertion goes back to the loop that takes the next identifier.\<close>

definition job_step :: "('s, 'u) sqlite \<Rightarrow> nat \<Rightarrow> 's shared \<Rightarrow> 's shared option" where
  "job_step T i st =
     (case jobs st i of
        Idle \<Rightarrow> None
      | Draw s m \<Rightarrow> None
      | Find1 s m \<Rightarrow> Some (goto i (Find2 s m (getSession T (tdb st) (sessID s))) st)
      | Find2 s m byID \<Rightarrow>
          Some (goto i (if conflict s m byID (getSession T (tdb st) (sockID s)) then Draw s m else Insert s m) st)
      | Insert s m \<Rightarrow>
          (case add_sess T (tdb st) (bound (sessID s)) (row_of s) of
             None \<Rightarrow> Some (goto i (Draw s m) st)
           | Some db1 \<Rightarrow> Some (goto i Idle (st\<lparr>tdb := db1\<rparr>)))
      | Drop k \<Rightarrow> Some (goto i Idle (st\<lparr>tdb := fst (deleteSession T (tdb st) k)\<rparr>)))"

fun web_step :: "('s, 'u) sqlite \<Rightarrow> web_event \<Rightarrow> 's shared \<Rightarrow> 's shared option" where
  "web_step T (Login i t name req) st =
     (if jobs st i = Idle
      then Some (goto i (Draw \<lparr>sessID = None, sockID = None, atime = t, username = name, sdata = json_text (agent req) (client req)\<rparr> False) st)
      else None)"
| "web_step T (WSkey i req) st =
     (if jobs st i = Idle
      then Some (case qookieSession T (tdb st) req of None \<Rightarrow> st | Some s \<Rightarrow> goto i (Draw s True) st) else None)"
| "web_step T (Logout i req) st =
     (if jobs st i = Idle
      then Some (case qookieSession T (tdb st) req of None \<Rightarrow> st | Some s \<Rightarrow> goto i (Drop (sessID s)) st) else None)"
| "web_step T (Draws i x) st =
     (case jobs st i of
        Draw s m \<Rightarrow> Some (goto i (Find1 (if m then s\<lparr>sockID := Some x\<rparr> else s\<lparr>sessID := Some x\<rparr>) m) st)
      | _ \<Rightarrow> None)"
| "web_step T (Runs i) st = job_step T i st"
| "web_step T (Expire t) st = Some (st\<lparr>tdb := fst (deleteOldSessions T (tdb st) t)\<rparr>)"

text \<open>The identifiers that a thread has taken and not yet stored, and with them the key of the session it is to change.\<close>

fun drawn_ids :: "job \<Rightarrow> string set" where
  "drawn_ids (Find1 s m) = set_option (if m then sockID s else sessID s)"
| "drawn_ids (Find2 s m y) = set_option (if m then sockID s else sessID s)"
| "drawn_ids (Insert s m) = set_option (if m then sockID s else sessID s)"
| "drawn_ids _ = {}"

fun held_ids :: "job \<Rightarrow> string set" where
  "held_ids (Draw s m) = (if m then set_option (sessID s) else {})"
| "held_ids (Find1 s m) = set_option (sessID s) \<union> set_option (sockID s)"
| "held_ids (Find2 s m y) = set_option (sessID s) \<union> set_option (sockID s)"
| "held_ids (Insert s m) = set_option (sessID s) \<union> set_option (sockID s)"
| "held_ids _ = {}"

text \<open>No generated identifier is in use by another running request.\<close>

definition apart :: "'s shared \<Rightarrow> bool" where
  "apart st \<longleftrightarrow> (\<forall>i j. i \<noteq> j \<longrightarrow> drawn_ids (jobs st i) \<inter> held_ids (jobs st j) = {})"

inductive interleaved :: "('s, 'u) sqlite \<Rightarrow> 's shared \<Rightarrow> 's shared \<Rightarrow> bool" for T st0 where
  interleaved_start: "interleaved T st0 st0"
| interleaved_step: "interleaved T st0 st \<Longrightarrow> web_step T e st = Some st1 \<Longrightarrow> apart st1 \<Longrightarrow> interleaved T st0 st1"

section \<open>The invariant\<close>

text \<open>Who may be known under \<open>x\<close>: at most the session \<open>sid\<close>, or none.\<close>

definition belongs :: "(string \<Rightarrow> srow option) \<Rightarrow> string \<Rightarrow> string \<Rightarrow> bool" where
  "belongs R x sid \<longleftrightarrow> (x \<noteq> [] \<longrightarrow> (\<forall>k. named R k x \<longrightarrow> k = sid))"

definition unused :: "(string \<Rightarrow> srow option) \<Rightarrow> string \<Rightarrow> bool" where
  "unused R x \<longleftrightarrow> (x \<noteq> [] \<longrightarrow> (\<forall>k. \<not> named R k x))"

definition owner_ok :: "(string \<Rightarrow> srow option) \<Rightarrow> sessinfo \<Rightarrow> bool \<Rightarrow> bool" where
  "owner_ok R s m \<longleftrightarrow> (if m then \<exists>sid. sessID s = Some sid \<and> belongs R sid sid else sockID s = None)"

definition new_id :: "sessinfo \<Rightarrow> bool \<Rightarrow> string option" where
  "new_id s m = (if m then sockID s else sessID s)"

fun job_ok :: "(string \<Rightarrow> srow option) \<Rightarrow> job \<Rightarrow> bool" where
  "job_ok R Idle \<longleftrightarrow> True"
| "job_ok R (Drop k) \<longleftrightarrow> k \<noteq> None"
| "job_ok R (Draw s m) \<longleftrightarrow> owner_ok R s m"
| "job_ok R (Find1 s m) \<longleftrightarrow> owner_ok R s m \<and> new_id s m \<noteq> None"
| "job_ok R (Find2 s m y) \<longleftrightarrow> owner_ok R s m \<and> new_id s m \<noteq> None \<and> (\<not> m \<longrightarrow> y = None \<longrightarrow> unused R (bound (new_id s m)))"
| "job_ok R (Insert s m) \<longleftrightarrow> owner_ok R s m \<and> new_id s m \<noteq> None \<and>
     (if m then belongs R (bound (new_id s m)) (bound (sessID s)) else unused R (bound (new_id s m)))"

lemma named_less: "(\<And>k r. S k = Some r \<Longrightarrow> R k = Some r) \<Longrightarrow> named S k x \<Longrightarrow> named R k x"
  by (auto simp: named_def)

lemma belongs_less: "(\<And>k r. S k = Some r \<Longrightarrow> R k = Some r) \<Longrightarrow> belongs R x sid \<Longrightarrow> belongs S x sid"
  using named_less [of S R] unfolding belongs_def by blast

lemma unused_less: "(\<And>k r. S k = Some r \<Longrightarrow> R k = Some r) \<Longrightarrow> unused R x \<Longrightarrow> unused S x"
  using named_less [of S R] unfolding unused_def by blast

lemma job_ok_less: "(\<And>k r. S k = Some r \<Longrightarrow> R k = Some r) \<Longrightarrow> job_ok R j \<Longrightarrow> job_ok S j"
  using belongs_less [of S R] unused_less [of S R]
  by (cases j) (auto simp: owner_ok_def split: if_splits)

text \<open>What a thread holds stays right when another one stores a session under identifiers that it does not use.\<close>

lemma belongs_upd:
  assumes "belongs R x sid" "x \<noteq> key \<or> sid = key" "r_sock r = [] \<or> r_sock r \<noteq> x"
  shows "belongs (R(key \<mapsto> r)) x sid"
  using assms by (auto simp: belongs_def named_upd)

lemma unused_upd:
  assumes "unused R x" "x \<noteq> key" "r_sock r = [] \<or> r_sock r \<noteq> x"
  shows "unused (R(key \<mapsto> r)) x"
  using assms by (auto simp: unused_def named_upd)

lemma job_ok_upd:
  assumes "job_ok R j" "key \<notin> drawn_ids j" "r_sock r = [] \<or> r_sock r \<notin> held_ids j"
  shows "job_ok (R(key \<mapsto> r)) j"
proof -
  have o: "owner_ok (R(key \<mapsto> r)) s m" if "owner_ok R s m" "r_sock r = [] \<or> sessID s \<noteq> Some (r_sock r) \<or> \<not> m" for s m
    using that belongs_upd [of R] by (auto simp: owner_ok_def split: if_splits)
  have b: "bound (new_id s m) = x" if "new_id s m = Some x" for s m x using that by (simp add: bound_def)
  show ?thesis
  proof (cases j)
    case (Find2 s m y)
    then show ?thesis using assms o [of s m] unused_upd [of R "bound (new_id s m)" key r] b [of s m]
      by (auto simp: new_id_def split: if_splits)
  next
    case (Insert s m)
    then show ?thesis
      using assms o [of s m] unused_upd [of R "bound (new_id s m)" key r] belongs_upd [of R "bound (new_id s m)" "bound (sessID s)" key r] b [of s m]
      by (auto simp: new_id_def bound_def split: if_splits)
  qed (use assms o in \<open>auto split: if_splits\<close>)
qed

definition good :: "(string \<Rightarrow> srow option) \<Rightarrow> (nat \<Rightarrow> job) \<Rightarrow> bool" where
  "good R js \<longleftrightarrow> one_session R \<and> (\<forall>i. job_ok R (js i))"

lemma good_goto: "good R js \<Longrightarrow> job_ok R j \<Longrightarrow> good R (js(i := j))"
  by (simp add: good_def)

lemma good_less: "good R js \<Longrightarrow> (\<And>k r. S k = Some r \<Longrightarrow> R k = Some r) \<Longrightarrow> good S js"
  using one_session_less [of R S] job_ok_less [of S R] unfolding good_def by blast

text \<open>The insertion of a thread keeps the invariant.\<close>

lemma good_insert:
  assumes g: "good R js" and j: "js i = Insert s m"
    and a: "\<And>k. k \<noteq> i \<Longrightarrow> drawn_ids (js i) \<inter> held_ids (js k) = {} \<and> drawn_ids (js k) \<inter> held_ids (js i) = {}"
  shows "good (R(bound (sessID s) \<mapsto> row_of s)) (js(i := Idle))"
proof -
  let ?key = "bound (sessID s)" and ?r = "row_of s"
  have ok: "job_ok R (Insert s m)" using g j unfolding good_def by metis
  have ids: "?key \<in> held_ids (js i)" "r_sock ?r = [] \<or> r_sock ?r \<in> drawn_ids (js i)"
    using ok by (auto simp: j owner_ok_def new_id_def bound_def row_of_def split: if_splits)
  have 1: "k = ?key" if "x \<noteq> []" "x = ?key \<or> x = r_sock ?r" "named R k x" for k x
    using ok that by (auto simp: owner_ok_def new_id_def bound_def row_of_def belongs_def unused_def split: if_splits)
  have "one_session (R(?key \<mapsto> ?r))"
    using one_session_upd [of R ?key ?r] g 1 by (simp add: good_def)
  moreover have "job_ok (R(?key \<mapsto> ?r)) (js k)" if "k \<noteq> i" for k
    using job_ok_upd [of R "js k" ?key ?r] g a [OF that] ids unfolding good_def by blast
  ultimately show ?thesis by (simp add: good_def)
qed

text \<open>Every step keeps it.\<close>

context session_table begin

lemma deleteSession_less: "rows (fst (deleteSession T db k)) j = Some r \<Longrightarrow> rows db j = Some r"
  using del_sess_rows by (auto simp: deleteSession_def split: option.splits if_splits)

lemma deleteOldSessions_less: "rows (fst (deleteOldSessions T db t)) j = Some r \<Longrightarrow> rows db j = Some r"
  using delold_rows by (auto simp: deleteOldSessions_def split: option.splits if_splits)

lemma qookie_owner:
  assumes "qookieSession T db req = Some s" "one_session (rows db)"
  shows "owner_ok (rows db) s True"
proof -
  obtain sid r where s: "sessID s = Some sid" "rows db sid = Some r" using qookieSession_found [OF assms(1)] by blast
  then have "named (rows db) sid sid" by (simp add: named_def)
  then show ?thesis using s(1) assms(2) unfolding one_session_def belongs_def owner_ok_def by auto
qed

lemma unused_none: "getSession T db (Some x) = None \<Longrightarrow> unused (rows db) x"
  using getSession_none by (simp add: unused_def)

lemma passed_check:
  assumes ok: "job_ok (rows db) (Find2 s m y)" and o: "one_session (rows db)" and c: "\<not> conflict s m y (getSession T db (sockID s))"
  shows "job_ok (rows db) (Insert s m)"
proof (cases m)
  case False
  then show ?thesis using ok c by (auto simp: conflict_def)
next
  case True
  then obtain x sid where x: "sockID s = Some x" "sessID s = Some sid" using ok by (auto simp: new_id_def owner_ok_def)
  have "belongs (rows db) x sid"
  proof (cases "getSession T db (Some x)")
    case None
    then show ?thesis using unused_none [OF None] by (auto simp: unused_def belongs_def)
  next
    case (Some t)
    then have "sessID t = Some sid" using c True x by (auto simp: conflict_def)
    then have "named (rows db) sid x" using getSession_found [OF Some] by (auto simp: named_def)
    then show ?thesis using o unfolding one_session_def belongs_def by blast
  qed
  then show ?thesis using ok True x by (simp add: new_id_def bound_def)
qed

lemma job_step_good:
  assumes st: "job_step T i st = Some st1" and a: "apart st" and g: "good (rows (tdb st)) (jobs st)"
  shows "good (rows (tdb st1)) (jobs st1)"
proof -
  let ?R = "rows (tdb st)"
  have o: "one_session ?R" and j: "job_ok ?R (jobs st i)" using g by (simp_all add: good_def)
  have to: "good (rows (tdb (goto i k st))) (jobs (goto i k st))" if "job_ok ?R k" for k
    using good_goto [OF g that] by (simp add: goto_def)
  show ?thesis
  proof (cases "jobs st i")
    case (Find1 s m)
    have "job_ok ?R (Find2 s m (getSession T (tdb st) (sessID s)))"
      using j Find1 unused_none by (auto simp: new_id_def bound_def)
    then show ?thesis using st Find1 to by (auto simp: job_step_def)
  next
    case (Find2 s m y)
    then show ?thesis using st j to passed_check [of "tdb st" s m y] o by (auto simp: job_step_def)
  next
    case (Insert s m)
    show ?thesis
    proof (cases "add_sess T (tdb st) (bound (sessID s)) (row_of s)")
      case None
      then show ?thesis using st Insert j to by (auto simp: job_step_def)
    next
      case (Some db1)
      then have "rows db1 = ?R(bound (sessID s) \<mapsto> row_of s)" by (rule add_sess_rows)
      moreover have "drawn_ids (jobs st i) \<inter> held_ids (jobs st k) = {} \<and> drawn_ids (jobs st k) \<inter> held_ids (jobs st i) = {}" if "k \<noteq> i" for k
        using a that unfolding apart_def by metis
      ultimately show ?thesis using st Insert Some good_insert [OF g Insert] by (auto simp: job_step_def goto_def)
    qed
  next
    case (Drop k)
    then show ?thesis using st good_goto [OF good_less [OF g deleteSession_less [of "tdb st" k]]] by (auto simp: job_step_def goto_def)
  qed (use st in \<open>simp_all add: job_step_def\<close>)
qed

lemma web_step_good:
  assumes st: "web_step T e st = Some st1" and a: "apart st" and g: "good (rows (tdb st)) (jobs st)"
  shows "good (rows (tdb st1)) (jobs st1)"
proof -
  let ?R = "rows (tdb st)"
  have o: "one_session ?R" using g by (simp add: good_def)
  have to: "good (rows (tdb (goto i k st))) (jobs (goto i k st))" if "job_ok ?R k" for i k
    using good_goto [OF g that] by (simp add: goto_def)
  show ?thesis
  proof (cases e)
    case (Login i t name req)
    then show ?thesis using st to by (auto simp: owner_ok_def split: if_splits)
  next
    case (WSkey i req)
    then show ?thesis using st g to qookie_owner [OF _ o] by (auto split: if_splits option.splits)
  next
    case (Logout i req)
    then show ?thesis using st g to qookieSession_found by (fastforce split: if_splits option.splits)
  next
    case (Draws i x)
    then obtain s m where j: "jobs st i = Draw s m" using st by (auto split: job.splits)
    have "job_ok ?R (Draw s m)" using g j unfolding good_def by metis
    then show ?thesis using st Draws j to by (auto simp: owner_ok_def new_id_def)
  next
    case (Runs i)
    then show ?thesis using st job_step_good [OF _ a g] by simp
  next
    case (Expire t)
    then show ?thesis using st good_less [OF g deleteOldSessions_less [of "tdb st" t]] by auto
  qed
qed

lemma interleaved_good:
  assumes "interleaved T st0 st" "one_session (rows (tdb st0))" "\<And>i. jobs st0 i = Idle"
  shows "good (rows (tdb st)) (jobs st) \<and> apart st"
  using assms(1)
proof induction
  case interleaved_start
  then show ?case using assms(2,3) by (simp add: good_def apart_def)
next
  case (interleaved_step st e st1)
  then show ?case using web_step_good by blast
qed

end

text \<open>
  C29. The server handles its requests in threads, whose steps on the database of sessions interleave in any way. As long as
  no generated identifier is in use by another running request, and whatever identifiers are stored: no non-empty
  identifier ever belongs to two sessions, be it as the key of one or as the web socket of the other; and a log-in that is
  about to store its session replaces none. The empty identifier is the exception, which every session without a web
  socket has.
\<close>

theorem threads_identified:
  assumes "session_table T rows" "interleaved T st0 st" "one_session (rows (tdb st0))" "\<And>i. jobs st0 i = Idle"
  shows "(\<forall>x a b. x \<noteq> [] \<longrightarrow> named (rows (tdb st)) a x \<longrightarrow> named (rows (tdb st)) b x \<longrightarrow> a = b) \<and>
    (\<forall>i s. jobs st i = Insert s False \<longrightarrow> sessID s \<noteq> Some [] \<longrightarrow> rows (tdb st) (bound (sessID s)) = None)"
proof -
  have g: "good (rows (tdb st)) (jobs st)" using session_table.interleaved_good assms by blast
  have "rows (tdb st) (bound (sessID s)) = None" if j: "jobs st i = Insert s False" "sessID s \<noteq> Some []" for i s
  proof -
    have "job_ok (rows (tdb st)) (Insert s False)" using g j(1) unfolding good_def by metis
    then obtain x where x: "sessID s = Some x" "x \<noteq> []" "unused (rows (tdb st)) x" using j(2) by (auto simp: new_id_def bound_def)
    then have "\<not> named (rows (tdb st)) x x" by (simp add: unused_def)
    then show ?thesis using x(1) by (cases "rows (tdb st) x") (auto simp: named_def bound_def)
  qed
  then show ?thesis using g unfolding good_def one_session_def by blast
qed

section \<open>One thread alone\<close>

fun run_events :: "('s, 'u) sqlite \<Rightarrow> web_event list \<Rightarrow> 's shared \<Rightarrow> 's shared option" where
  "run_events T [] st = Some st"
| "run_events T (e # es) st = (case web_step T e st of None \<Rightarrow> None | Some st1 \<Rightarrow> run_events T es st1)"

text \<open>
  A thread that is not interrupted does what \<open>addSession\<close> does: after three steps its session is stored and it is done,
  or after two or three it is back in the loop that takes the next identifier, and nothing is stored.
\<close>

theorem alone_addSession:
  assumes "jobs st i = Find1 s m" "addSession T (tdb st) s m = (db1, e)"
  shows "\<exists>n \<le> 3. run_events T (replicate n (Runs i)) st =
    Some (goto i (if e = 0 then Idle else Draw s m) (st\<lparr>tdb := db1\<rparr>))"
proof -
  let ?y = "getSession T (tdb st) (sessID s)" and ?z = "getSession T (tdb st) (sockID s)"
  have db: "e \<noteq> 0 \<Longrightarrow> db1 = tdb st" using assms(2) by (auto simp: addSession_def Let_def split: if_splits option.splits)
  have g: "goto i a (goto i b st) = goto i a st" "jobs (goto i a st) i = a" "tdb (goto i a st) = tdb st" for a b
    by (simp_all add: goto_def)
  have st: "st\<lparr>tdb := tdb st\<rparr> = st" by simp
  have 2: "run_events T [Runs i, Runs i] st = Some (goto i (if conflict s m ?y ?z then Draw s m else Insert s m) st)"
    using assms(1) by (simp add: job_step_def g)
  show ?thesis
  proof (cases "conflict s m ?y ?z")
    case True
    then have "e \<noteq> 0" using assms(2) by (auto simp: addSession_def Let_def conflict_def split: if_splits)
    then show ?thesis using 2 True db by (intro exI [of _ 2]) (simp add: eval_nat_numeral)
  next
    case False
    then have "addSession T (tdb st) s m =
        (case add_sess T (tdb st) (bound (sessID s)) (row_of s) of None \<Rightarrow> (tdb st, 1) | Some db1 \<Rightarrow> (db1, 0))"
      by (auto simp: addSession_def Let_def conflict_def row_of_def split: if_splits)
    then show ?thesis using assms False
      by (intro exI [of _ 3]) (auto simp: eval_nat_numeral job_step_def g goto_def split: option.splits)
  qed
qed

section \<open>A log-out that is undone\<close>

text \<open>
  A request for a key of a web socket stores its session again as it has found it. When the user logs out in between, the
  session is deleted, and the insertion brings it back: the old cookie is let in again.
\<close>

theorem logout_undone:
  assumes T: "session_table T rows" and del: "\<And>db k. del_sess T db k \<noteq> None" and add: "\<And>db k r. add_sess T db k r \<noteq> None"
    and j: "jobs st i = Insert s True" "sessID s = Some sid" "jobs st k = Drop (Some sid)"
    and c: "cookies req ''Acookie'' = Some sid"
  shows "\<exists>st1 st2. web_step T (Runs k) st = Some st1 \<and> rows (tdb st1) sid = None \<and> jobs st1 k = Idle \<and>
    web_step T (Runs i) st1 = Some st2 \<and> jobs st2 i = Idle \<and> qookieSession T (tdb st2) req \<noteq> None"
proof -
  have ik: "i \<noteq> k" using j by auto
  obtain db1 where d: "del_sess T (tdb st) sid = Some db1" using del by blast
  define st1 where "st1 = goto k Idle (st\<lparr>tdb := db1\<rparr>)"
  have s1: "web_step T (Runs k) st = Some st1" using j d by (simp add: job_step_def deleteSession_def st1_def)
  have r1: "rows (tdb st1) = (rows (tdb st))(sid := None)" using session_table.del_sess_rows [OF T d] by (simp add: st1_def goto_def)
  obtain db2 where a: "add_sess T (tdb st1) sid (row_of s) = Some db2" using add by blast
  define st2 where "st2 = goto i Idle (st1\<lparr>tdb := db2\<rparr>)"
  have s2: "web_step T (Runs i) st1 = Some st2"
  proof -
    have "jobs st1 i = Insert s True" using j(1) ik by (simp add: st1_def goto_def)
    moreover have "bound (sessID s) = sid" using j(2) by (simp add: bound_def)
    ultimately show ?thesis using a by (simp add: job_step_def st2_def)
  qed
  have "rows (tdb st2) sid \<noteq> None" using session_table.add_sess_rows [OF T a] by (simp add: st2_def goto_def)
  then have "named (rows (tdb st2)) sid sid" by (auto simp: named_def)
  then have "getSession T (tdb st2) (Some sid) \<noteq> None" using session_table.getSession_named [OF T] by blast
  then have "qookieSession T (tdb st2) req \<noteq> None" using c by (simp add: qookieSession_def)
  moreover have "jobs st1 k = Idle" "jobs st2 i = Idle" by (simp_all add: st1_def st2_def goto_def)
  ultimately show ?thesis using s1 s2 r1 by auto
qed

section \<open>Two threads\<close>

definition two_apart :: "'s shared \<Rightarrow> bool" where
  "two_apart st \<longleftrightarrow> drawn_ids (jobs st 0) \<inter> held_ids (jobs st 1) = {} \<and> drawn_ids (jobs st 1) \<inter> held_ids (jobs st 0) = {}"

fun of_two :: "web_event \<Rightarrow> bool" where
  "of_two (Login i t name req) \<longleftrightarrow> i < 2"
| "of_two (WSkey i req) \<longleftrightarrow> i < 2"
| "of_two (Logout i req) \<longleftrightarrow> i < 2"
| "of_two (Draws i x) \<longleftrightarrow> i < 2"
| "of_two (Runs i) \<longleftrightarrow> i < 2"
| "of_two (Expire t) \<longleftrightarrow> True"

fun run_two :: "('s, 'u) sqlite \<Rightarrow> web_event list \<Rightarrow> 's shared \<Rightarrow> 's shared option" where
  "run_two T [] st = Some st"
| "run_two T (e # es) st =
     (case web_step T e st of None \<Rightarrow> None | Some st1 \<Rightarrow> if of_two e \<and> two_apart st1 then run_two T es st1 else None)"

lemma two_idle:
  "web_step T e st = Some st1 \<Longrightarrow> of_two e \<Longrightarrow> \<forall>k \<ge> 2. jobs st k = Idle \<Longrightarrow> \<forall>k \<ge> 2. jobs st1 k = Idle"
  by (cases e) (auto simp: goto_def job_step_def split: if_splits option.splits job.splits)

lemma apart_two: "two_apart st \<Longrightarrow> \<forall>k \<ge> 2. jobs st k = Idle \<Longrightarrow> apart st"
proof -
  assume a: "two_apart st" and idle: "\<forall>k \<ge> 2. jobs st k = Idle"
  have "drawn_ids (jobs st i) \<inter> held_ids (jobs st j) = {}" if "i \<noteq> j" for i j
  proof (cases "i \<ge> 2 \<or> j \<ge> 2")
    case True
    then show ?thesis using idle by auto
  next
    case False
    then have "i = 0 \<and> j = 1 \<or> i = 1 \<and> j = 0" using that by linarith
    then show ?thesis using a by (auto simp: two_apart_def)
  qed
  then show ?thesis by (simp add: apart_def)
qed

lemma run_two_interleaved:
  "interleaved T st0 st \<Longrightarrow> \<forall>k \<ge> 2. jobs st k = Idle \<Longrightarrow> run_two T es st = Some st1 \<Longrightarrow> interleaved T st0 st1"
proof (induction es arbitrary: st)
  case (Cons e es)
  then obtain st2 where s: "web_step T e st = Some st2" "of_two e" "two_apart st2" "run_two T es st2 = Some st1"
    by (auto split: option.splits if_splits)
  then have i: "\<forall>k \<ge> 2. jobs st2 k = Idle" using two_idle Cons.prems(2) by blast
  have "interleaved T st0 st2" using interleaved_step [OF Cons.prems(1) s(1) apart_two [OF s(3) i]] .
  from Cons.IH [OF this i s(4)] show ?case .
qed simp

definition shared0 :: "(string \<times> srow) list shared" where
  "shared0 = \<lparr>tdb = sessionDB web1, jobs = (\<lambda>i. Idle)\<rparr>"

text \<open>
  Bob is logged in with the session A1. A log-in generates A1 again and is refused, generates C3, and stores its session
  while a request for a web socket of A1 stores the key B2.
\<close>

definition events0 :: "web_event list" where
  "events0 = [Login 0 5 ''bob'' login0, Draws 0 ''A1'', Runs 0, Runs 0, Draws 0 ''C3'', WSkey 1 (ask [] (Some ''A1'')), Runs 0, Draws 1 ''B2'',
     Runs 1, Runs 0, Runs 1, Runs 0, Runs 1]"

lemma events0_run:
  "map_option (\<lambda>st. (map (\<lambda>(k, r). (k, r_sock r)) (tdb st), map (jobs st) [0, 1])) (run_two list_sql events0 shared0) =
     Some ([(''A1'', ''B2''), (''C3'', []), (''A1'', [])], [Idle, Idle])"
  by code_simp

theorem threads_identified_witness:
  "\<exists>st. interleaved list_sql shared0 st \<and> named (map_of (tdb st)) ''A1'' ''B2'' \<and> \<not> named (map_of (tdb st)) ''C3'' ''B2''"
proof -
  define run where "run = run_two list_sql events0 shared0"
  obtain st where r: "run_two list_sql events0 shared0 = Some st"
    and db: "map (\<lambda>(k, r). (k, r_sock r)) (tdb st) = [(''A1'', ''B2''), (''C3'', []), (''A1'', [])]"
    using events0_run unfolding run_def [symmetric] by (cases run) simp_all
  have interleaved: "interleaved list_sql shared0 st" by (rule run_two_interleaved [OF interleaved_start _ r]) (simp add: shared0_def)
  have o: "one_session (map_of (tdb shared0))" by (auto simp: one_session_def named_def shared0_def web1_def split: if_splits)
  obtain row rest where "tdb st = (''A1'', row) # rest" "r_sock row = ''B2''" using db by (cases "tdb st") force+
  then have n: "named (map_of (tdb st)) ''A1'' ''B2''" by (simp add: named_def)
  have "(\<forall>x a b. x \<noteq> [] \<longrightarrow> named (map_of (tdb st)) a x \<longrightarrow> named (map_of (tdb st)) b x \<longrightarrow> a = b)"
    by (rule threads_identified [OF list_table.session_table_axioms interleaved o, THEN conjunct1]) (simp add: shared0_def)
  from this [rule_format, OF _ n, of "''C3''"] have "\<not> named (map_of (tdb st)) ''C3'' ''B2''" by auto
  then show ?thesis using interleaved n by blast
qed

theorem alone_addSession_witness:
  "\<exists>n \<le> 3. run_events list_sql (replicate n (Runs 0)) (goto 0 (Find1 \<lparr>sessID = Some ''A1'', sockID = None, atime = 5, username = ''eve'', sdata = []\<rparr> False) shared0) =
     Some (goto 0 (Draw \<lparr>sessID = Some ''A1'', sockID = None, atime = 5, username = ''eve'', sdata = []\<rparr> False) shared0)"
proof -
  let ?s = "\<lparr>sessID = Some ''A1'', sockID = None, atime = 5, username = ''eve'', sdata = []\<rparr>"
  let ?st = "goto 0 (Find1 ?s False) shared0"
  have j: "jobs ?st 0 = Find1 ?s False" by (simp add: goto_def)
  have a: "addSession list_sql (tdb ?st) ?s False = (tdb ?st, 3)" by code_simp
  show ?thesis using alone_addSession [OF j a] by (simp add: goto_def)
qed

text \<open>The request for the key and the log-out, up to the deletion.\<close>

definition events1 :: "web_event list" where
  "events1 = [WSkey 0 (ask [] (Some ''A1'')), Draws 0 ''B2'', Runs 0, Runs 0, Logout 1 (ask [] (Some ''A1''))]"

lemma events1_run:
  "map_option (\<lambda>st. (map (jobs st) [0, 1])) (run_events list_sql events1 shared0) =
     Some [Insert \<lparr>sessID = Some ''A1'', sockID = Some ''B2'', atime = 100, username = ''bob'', sdata = json_text ''a'' ''h''\<rparr> True, Drop (Some ''A1'')]"
  by code_simp

theorem logout_undone_witness:
  "\<exists>st st1 st2. run_events list_sql events1 shared0 = Some st \<and> web_step list_sql (Runs 1) st = Some st1 \<and>
     map_of (tdb st1) ''A1'' = None \<and> web_step list_sql (Runs 0) st1 = Some st2 \<and> qookieSession list_sql (tdb st2) (ask [] (Some ''A1'')) \<noteq> None"
proof -
  define run where "run = run_events list_sql events1 shared0"
  define s where "s = \<lparr>sessID = Some ''A1'', sockID = Some ''B2'', atime = 100, username = ''bob'', sdata = json_text ''a'' ''h''\<rparr>"
  obtain st where r: "run = Some st" and j: "jobs st 0 = Insert s True" "jobs st 1 = Drop (Some ''A1'')"
    using events1_run unfolding run_def [symmetric] s_def [symmetric] by (cases run) simp_all
  have "sessID s = Some ''A1''" by (simp add: s_def)
  from logout_undone [OF list_table.session_table_axioms _ _ j(1) this j(2), of "ask [] (Some ''A1'')"]
  show ?thesis using r unfolding run_def by (auto simp: list_sql_def ask_def simp del: web_step.simps)
qed

end
