(* ===== verification/RunMedian.thy ===== *)
theory RunMedian
  imports Numerals "HOL-Library.Multiset"
begin

text \<open>
  The running median of \<open>_snippets/med.c\<close>. A window of the last \<open>N\<close> items is kept in a circular array \<open>data\<close>;
  \<open>heap\<close> holds positions of \<open>data\<close>, with the median at index 0, a heap with its least item first at the
  indices 1, 2, ... and a heap with its greatest item first at -1, -2, ...; \<open>pos\<close> is the inverse of \<open>heap\<close>.
\<close>

section \<open>The mediator\<close>

record mediator =
  data :: "int list"
  pos :: "int list"
  heapa :: "nat list"
  capacity :: nat
  idx :: nat
  ct :: nat

text \<open>The pointer \<open>heap\<close> points to the middle of its storage. Division in C rounds towards 0.\<close>

definition slot :: "mediator \<Rightarrow> int \<Rightarrow> nat" where
  "slot m i = nat (i + int (capacity m div 2))"

definition hget :: "mediator \<Rightarrow> int \<Rightarrow> nat" where
  "hget m i = heapa m ! slot m i"

definition hset :: "mediator \<Rightarrow> int \<Rightarrow> nat \<Rightarrow> mediator" where
  "hset m i x = m\<lparr>heapa := (heapa m)[slot m i := x]\<rparr>"

definition half :: "int \<Rightarrow> int" where
  "half i = (if i < 0 then - (- i div 2) else i div 2)"

definition minCt :: "mediator \<Rightarrow> int" where
  "minCt m = half (int (ct m) - 1)"

definition maxCt :: "mediator \<Rightarrow> int" where
  "maxCt m = half (int (ct m))"

text \<open>The item at an index of the heap.\<close>

definition item :: "mediator \<Rightarrow> int \<Rightarrow> int" where
  "item m i = data m ! hget m i"

definition mmless :: "mediator \<Rightarrow> int \<Rightarrow> int \<Rightarrow> bool" where
  "mmless m i j \<longleftrightarrow> item m i < item m j"

definition mmexchange :: "mediator \<Rightarrow> int \<Rightarrow> int \<Rightarrow> mediator" where
  "mmexchange m i j =
     (let t = hget m i; m1 = hset m i (hget m j); m2 = hset m1 j t
      in m2\<lparr>pos := (pos m2)[hget m2 i := i, hget m2 j := j]\<rparr>)"

definition mmCmpExch :: "mediator \<Rightarrow> int \<Rightarrow> int \<Rightarrow> mediator \<times> bool" where
  "mmCmpExch m i j = (if mmless m i j then (mmexchange m i j, True) else (m, False))"

lemma counts_exchange [simp]: "minCt (mmexchange m i j) = minCt m" "maxCt (mmexchange m i j) = maxCt m"
  by (simp_all add: minCt_def maxCt_def mmexchange_def hset_def Let_def)

text \<open>The callers give positive indices to \<open>minSortDown\<close> and negative ones to \<open>maxSortDown\<close>.\<close>

function minSortDown :: "mediator \<Rightarrow> int \<Rightarrow> mediator" where
  "minSortDown m i =
     (if i < 1 \<or> minCt m < i then m
      else
        (let i = (if i > 1 \<and> i < minCt m \<and> mmless m (i + 1) i then i + 1 else i) in
         case mmCmpExch m i (half i) of (m1, True) \<Rightarrow> minSortDown m1 (i * 2) | (m1, False) \<Rightarrow> m1))"
  by pat_completeness auto
termination
  by (relation "measure (\<lambda>(m, i). nat (minCt m + 1 - i))") (auto simp: mmCmpExch_def split: if_splits)

function maxSortDown :: "mediator \<Rightarrow> int \<Rightarrow> mediator" where
  "maxSortDown m i =
     (if i > - 1 \<or> i < - maxCt m then m
      else
        (let i = (if i < - 1 \<and> i > - maxCt m \<and> mmless m i (i - 1) then i - 1 else i) in
         case mmCmpExch m (half i) i of (m1, True) \<Rightarrow> maxSortDown m1 (i * 2) | (m1, False) \<Rightarrow> m1))"
  by pat_completeness auto
termination
  by (relation "measure (\<lambda>(m, i). nat (maxCt m + 1 + i))") (auto simp: mmCmpExch_def split: if_splits)

function minSortUp :: "mediator \<Rightarrow> int \<Rightarrow> mediator \<times> bool" where
  "minSortUp m i =
     (if i > 0 then case mmCmpExch m i (half i) of (m1, True) \<Rightarrow> minSortUp m1 (half i) | (m1, False) \<Rightarrow> (m1, i = 0)
      else (m, i = 0))"
  by pat_completeness auto
termination
  by (relation "measure (\<lambda>(m, i). nat i)") (auto simp: half_def)

function maxSortUp :: "mediator \<Rightarrow> int \<Rightarrow> mediator \<times> bool" where
  "maxSortUp m i =
     (if i < 0 then case mmCmpExch m (half i) i of (m1, True) \<Rightarrow> maxSortUp m1 (half i) | (m1, False) \<Rightarrow> (m1, i = 0)
      else (m, i = 0))"
  by pat_completeness auto
termination
  by (relation "measure (\<lambda>(m, i). nat (- i))") (auto simp: half_def)

declare minSortDown.simps [simp del] maxSortDown.simps [simp del] minSortUp.simps [simp del] maxSortUp.simps [simp del]

text \<open>
  \<open>MediatorNew\<close>: the block of memory comes with the contents that \<open>malloc\<close> finds; the loop fills \<open>pos\<close> and
  \<open>heap\<close>, \<open>data\<close> keeps the contents.
\<close>

definition place :: "nat \<Rightarrow> int" where
  "place k = int ((k + 1) div 2) * (if odd k then - 1 else 1)"

fun fill :: "nat \<Rightarrow> mediator \<Rightarrow> mediator" where
  "fill 0 m = m"
| "fill (Suc k) m = fill k (hset (m\<lparr>pos := (pos m)[k := place k]\<rparr>) (place k) k)"

definition MediatorNew :: "int list \<Rightarrow> int list \<Rightarrow> nat list \<Rightarrow> nat \<Rightarrow> mediator" where
  "MediatorNew d0 p0 h0 nItems = fill nItems \<lparr>data = d0, pos = p0, heapa = h0, capacity = nItems, idx = 0, ct = 0\<rparr>"

definition MediatorInsert :: "mediator \<Rightarrow> int \<Rightarrow> mediator" where
  "MediatorInsert m v =
     (let isNew = ct m < capacity m;
          p = pos m ! idx m;
          old = data m ! idx m;
          m = m\<lparr>data := (data m)[idx m := v], idx := (idx m + 1) mod capacity m, ct := ct m + (if isNew then 1 else 0)\<rparr>
      in if p > 0 then
           if \<not> isNew \<and> old < v then minSortDown m (p * 2)
           else (case minSortUp m p of (m1, True) \<Rightarrow> maxSortDown m1 (- 1) | (m1, False) \<Rightarrow> m1)
         else if p < 0 then
           if \<not> isNew \<and> v < old then maxSortDown m (p * 2)
           else (case maxSortUp m p of (m1, True) \<Rightarrow> minSortDown m1 1 | (m1, False) \<Rightarrow> m1)
         else
           let m1 = (if maxCt m \<noteq> 0 then maxSortDown m (- 1) else m)
           in if minCt m1 \<noteq> 0 then minSortDown m1 1 else m1)"

text \<open>
  \<open>MediatorMedian\<close> with both pointers given: the median, the least item and what is left in \<open>*maxval\<close>; \<open>None\<close>
  when the sum of the two middle items is outside of \<open>int\<close>. The loop for the greatest item has no effect.
\<close>

definition MediatorMedian :: "mediator \<Rightarrow> (int \<times> int \<times> int) option" where
  "MediatorMedian m =
     (let v = item m 0; w = (if even (ct m) then v + item m (- 1) else v) in
      if \<not> int_ok w then None
      else
        (let v = (if even (ct m) then half w else v);
             least = foldl (\<lambda>least i. if item m i < least then item m i else least) v [- maxCt m .. - 1]
         in Some (v, least, v)))"

text \<open>
  The filter of \<open>main\<close> in one column \<open>x\<close> of an image of \<open>SZ\<close> times \<open>SZ\<close> pixels, with the place of each result.
\<close>

definition insert_row :: "int list \<Rightarrow> nat \<Rightarrow> nat \<Rightarrow> nat \<Rightarrow> nat \<Rightarrow> mediator \<Rightarrow> mediator" where
  "insert_row v SZ hs x yy m = foldl (\<lambda>m xx. MediatorInsert m (v ! (xx + yy * SZ))) m [x - hs ..< x + hs + 1]"

fun column_rows :: "int list \<Rightarrow> nat \<Rightarrow> nat \<Rightarrow> nat \<Rightarrow> nat list \<Rightarrow> mediator \<Rightarrow> (nat \<times> (int \<times> int \<times> int) option) list" where
  "column_rows v SZ hs x [] m = []"
| "column_rows v SZ hs x (y # ys) m =
     (let m1 = insert_row v SZ hs x (y + hs) m in (x + y * SZ, MediatorMedian m1) # column_rows v SZ hs x ys m1)"

definition column_filter :: "int list \<Rightarrow> int list \<Rightarrow> nat list \<Rightarrow> int list \<Rightarrow> nat \<Rightarrow> nat \<Rightarrow> nat \<Rightarrow> (nat \<times> (int \<times> int \<times> int) option) list" where
  "column_filter d0 p0 h0 v SZ hs x =
     (let blksz = hs * 2 + 1; fullsz = blksz * blksz;
          m = foldl (\<lambda>m yy. insert_row v SZ hs x yy m) (MediatorNew d0 p0 h0 fullsz) [0 ..< blksz - 1]
      in column_rows v SZ hs x [hs ..< SZ - hs] m)"

section \<open>The arrays\<close>

text \<open>The indices of the heap, and those in use.\<close>

definition index :: "mediator \<Rightarrow> int \<Rightarrow> bool" where
  "index m i \<longleftrightarrow> - int (capacity m div 2) \<le> i \<and> i \<le> int ((capacity m - 1) div 2)"

definition used :: "mediator \<Rightarrow> int \<Rightarrow> bool" where
  "used m i \<longleftrightarrow> - maxCt m \<le> i \<and> i \<le> minCt m"

text \<open>The sizes, \<open>pos\<close> the inverse of \<open>heap\<close>, and the unused part as \<open>MediatorNew\<close> left it.\<close>

definition sizes :: "mediator \<Rightarrow> bool" where
  "sizes m \<longleftrightarrow> length (data m) = capacity m \<and> length (pos m) = capacity m \<and> length (heapa m) = capacity m \<and>
     0 < capacity m \<and> ct m \<le> capacity m"

definition linked :: "mediator \<Rightarrow> bool" where
  "linked m \<longleftrightarrow> (\<forall>k < capacity m. index m (pos m ! k) \<and> hget m (pos m ! k) = k) \<and>
     (\<forall>i. index m i \<longrightarrow> hget m i < capacity m \<and> pos m ! hget m i = i) \<and>
     (\<forall>k. ct m \<le> k \<longrightarrow> k < capacity m \<longrightarrow> pos m ! k = place k)"

lemma minCt_eq: "0 < ct m \<Longrightarrow> minCt m = int ((ct m - 1) div 2)"
  by (simp add: minCt_def half_def zdiv_int)

lemma maxCt_eq: "maxCt m = int (ct m div 2)"
  by (simp add: maxCt_def half_def zdiv_int)

lemma counts_nonneg [simp]: "0 \<le> minCt m" "0 \<le> maxCt m"
  by (simp_all add: minCt_def maxCt_def half_def)

lemma minCt_le: "0 < capacity m \<Longrightarrow> ct m \<le> capacity m \<Longrightarrow> minCt m \<le> int ((capacity m - 1) div 2)"
proof (cases "ct m = 0")
  case False
  assume "ct m \<le> capacity m"
  then show ?thesis using False by (simp add: minCt_eq div_le_mono)
qed (simp add: minCt_def half_def)

lemma used_index: "sizes m \<Longrightarrow> used m i \<Longrightarrow> index m i"
  using minCt_le [of m] div_le_mono [of "ct m" "capacity m" 2] by (auto simp: sizes_def used_def index_def maxCt_eq)

lemma slot_less: "sizes m \<Longrightarrow> index m i \<Longrightarrow> slot m i < length (heapa m)"
  by (auto simp: sizes_def index_def slot_def)

lemma slot_inj: "index m i \<Longrightarrow> index m j \<Longrightarrow> slot m i = slot m j \<longleftrightarrow> i = j"
  unfolding index_def slot_def by linarith

lemma hget_hset: "sizes m \<Longrightarrow> index m i \<Longrightarrow> index m j \<Longrightarrow> hget (hset m i x) j = (if i = j then x else hget m j)"
  using slot_less [of m i] by (auto simp: hget_def hset_def slot_inj slot_def [of "m\<lparr>heapa := y\<rparr>" for y] simp flip: slot_def)

lemma index_hset [simp]: "index (hset m i x) = index m" "index (m\<lparr>pos := p\<rparr>) = index m" "index (mmexchange m i j) = index m"
  by (simp_all add: fun_eq_iff index_def hset_def mmexchange_def Let_def)

lemma sizes_hset [simp]: "sizes (hset m i x) = sizes m"
  by (simp add: sizes_def hset_def)

lemma hget_pos [simp]: "hget (m\<lparr>pos := p\<rparr>) i = hget m i"
  by (simp add: hget_def slot_def)

lemma hget_mmexchange:
  assumes "sizes m" "index m i" "index m j" "index m k"
  shows "hget (mmexchange m i j) k = (if k = j then hget m i else if k = i then hget m j else hget m k)"
  using assms by (auto simp: mmexchange_def Let_def hget_hset)

lemma mmexchange_fields [simp]:
  "data (mmexchange m i j) = data m" "capacity (mmexchange m i j) = capacity m" "idx (mmexchange m i j) = idx m" "ct (mmexchange m i j) = ct m"
  by (simp_all add: mmexchange_def Let_def hset_def)

lemma used_mmexchange [simp]: "used (mmexchange m i j) = used m"
  by (simp add: fun_eq_iff used_def)

lemma sizes_mmexchange [simp]: "sizes (mmexchange m i j) = sizes m"
  by (simp add: sizes_def mmexchange_def Let_def hset_def)

lemma pos_mmexchange:
  assumes "sizes m" "index m i" "index m j" "i \<noteq> j" "linked m" "k < capacity m"
  shows "pos (mmexchange m i j) ! k = (if k = hget m i then j else if k = hget m j then i else pos m ! k)"
proof -
  have "hget m i < capacity m" "hget m j < capacity m" using assms by (auto simp: linked_def)
  moreover have "hget m i \<noteq> hget m j" using assms by (metis linked_def)
  moreover have "pos (hset m i x) = pos m" for m i x by (simp add: hset_def)
  moreover have "hget (hset (hset m i (hget m j)) j (hget m i)) i = hget m j" "hget (hset (hset m i (hget m j)) j (hget m i)) j = hget m i"
    using assms by (simp_all add: hget_hset)
  ultimately show ?thesis using assms by (simp add: mmexchange_def Let_def sizes_def nth_list_update)
qed


lemma used_hget:
  assumes "sizes m" "linked m" "used m i" "0 < ct m"
  shows "hget m i < ct m"
proof (rule ccontr)
  assume n: "\<not> hget m i < ct m"
  have i: "hget m i < capacity m" "pos m ! hget m i = i" using assms used_index by (auto simp: linked_def)
  then have "i = place (hget m i)" using n assms(2) by (auto simp: linked_def)
  moreover have "place k < - maxCt m \<or> minCt m < place k" if "ct m \<le> k" for k
  proof (cases "odd k")
    case True
    then have "ct m div 2 < (k + 1) div 2" using that by (auto elim!: oddE)
    then show ?thesis using True by (simp add: place_def maxCt_eq)
  next
    case False
    then have "(ct m - 1) div 2 < (k + 1) div 2" using that assms(4) by (auto elim!: evenE)
    then show ?thesis using False assms(4) by (simp add: place_def minCt_eq)
  qed
  ultimately show False using n assms(3) by (metis leD not_less used_def)
qed

lemma linked_mmexchange:
  assumes "sizes m" "linked m" "used m i" "used m j" "i \<noteq> j" "0 < ct m"
  shows "linked (mmexchange m i j)"
proof -
  have ij: "index m i" "index m j" using assms used_index by auto
  note P = pos_mmexchange [OF assms(1) ij assms(5,2)] and H = hget_mmexchange [OF assms(1) ij]
  have g: "hget m i < ct m" "hget m j < ct m" using assms used_hget by auto
  have l: "\<And>k. k < capacity m \<Longrightarrow> index m (pos m ! k) \<and> hget m (pos m ! k) = k"
    "\<And>k. index m k \<Longrightarrow> hget m k < capacity m \<and> pos m ! hget m k = k"
    "\<And>k. ct m \<le> k \<Longrightarrow> k < capacity m \<Longrightarrow> pos m ! k = place k"
    using assms(2) by (auto simp: linked_def)
  show ?thesis unfolding linked_def mmexchange_fields index_hset
  proof (intro conjI allI impI)
    fix k assume k: "k < capacity m"
    show "index m (pos (mmexchange m i j) ! k)" using l(1) [OF k] ij by (simp add: P [OF k])
    show "hget (mmexchange m i j) (pos (mmexchange m i j) ! k) = k" using l(1) [OF k] ij by (auto simp: P [OF k] H)
  next
    fix k assume k: "index m k"
    show "hget (mmexchange m i j) k < capacity m" using l(2) [OF k] l(2) [OF ij(1)] l(2) [OF ij(2)] by (simp add: H [OF k])
    then show "pos (mmexchange m i j) ! hget (mmexchange m i j) k = k"
      using l(2) [OF k] l(2) [OF ij(1)] l(2) [OF ij(2)] by (auto simp: H [OF k] P)
  next
    fix k assume "ct m \<le> k" "k < capacity m"
    then show "pos (mmexchange m i j) ! k = place k" using g l(3) by (simp add: P)
  qed
qed

definition arrays :: "mediator \<Rightarrow> bool" where
  "arrays m \<longleftrightarrow> sizes m \<and> linked m \<and> 0 < ct m"

lemma arrays_mmexchange: "arrays m \<Longrightarrow> used m i \<Longrightarrow> used m j \<Longrightarrow> i \<noteq> j \<Longrightarrow> arrays (mmexchange m i j)"
  by (simp add: arrays_def linked_mmexchange)

lemma item_mmexchange:
  assumes "arrays m" "used m i" "used m j" "used m k"
  shows "item (mmexchange m i j) k = (if k = j then item m i else if k = i then item m j else item m k)"
  using assms used_index by (auto simp: item_def arrays_def hget_mmexchange)

section \<open>Both heaps as one\<close>

text \<open>
  The heap of the greatest items is the heap of the least items with indices and items negated: \<open>s\<close> is 1
  for the heap at the positive indices and -1 for the other.
\<close>

definition key :: "int \<Rightarrow> mediator \<Rightarrow> int \<Rightarrow> int" where
  "key s m i = s * item m (s * i)"

definition cnt :: "int \<Rightarrow> mediator \<Rightarrow> int" where
  "cnt s m = (if s = 1 then minCt m else maxCt m)"

definition exch :: "int \<Rightarrow> mediator \<Rightarrow> int \<Rightarrow> mediator" where
  "exch s m c = (if s = 1 then mmexchange m c (c div 2) else mmexchange m (- (c div 2)) (- c))"

lemma cnt_exch [simp]: "cnt s (exch t m c) = cnt s m"
  by (simp add: cnt_def exch_def)

function sortDown :: "int \<Rightarrow> mediator \<Rightarrow> int \<Rightarrow> mediator" where
  "sortDown s m i =
     (if i < 1 \<or> cnt s m < i then m
      else
        (let c = (if i > 1 \<and> i < cnt s m \<and> key s m (i + 1) < key s m i then i + 1 else i) in
         if key s m c < key s m (c div 2) then sortDown s (exch s m c) (c * 2) else m))"
  by pat_completeness auto
termination
  by (relation "measure (\<lambda>(s, m, i). nat (cnt s m + 1 - i))") (auto split: if_splits)

function sortUp :: "int \<Rightarrow> mediator \<Rightarrow> int \<Rightarrow> mediator \<times> bool" where
  "sortUp s m i =
     (if i > 0 then if key s m i < key s m (i div 2) then sortUp s (exch s m i) (i div 2) else (m, False)
      else (m, i = 0))"
  by pat_completeness auto
termination
  by (relation "measure (\<lambda>(s, m, i). nat i)") auto

declare sortDown.simps [simp del] sortUp.simps [simp del]

lemma minSortDown_eq: "minSortDown m i = sortDown 1 m i"
proof (induction m i rule: minSortDown.induct)
  case (1 m i)
  then show ?case by (subst minSortDown.simps, subst sortDown.simps)
      (auto simp: Let_def cnt_def key_def mmless_def mmCmpExch_def half_def exch_def)
qed

lemma minSortUp_eq: "minSortUp m i = sortUp 1 m i"
proof (induction m i rule: minSortUp.induct)
  case (1 m i)
  then show ?case by (subst minSortUp.simps, subst sortUp.simps)
      (auto simp: Let_def cnt_def key_def mmless_def mmCmpExch_def half_def exch_def)
qed

lemma maxSortDown_eq: "maxSortDown m i = sortDown (- 1) m (- i)"
proof (induction m i rule: maxSortDown.induct)
  case (1 m i)
  then show ?case by (subst maxSortDown.simps, subst sortDown.simps)
      (auto simp: Let_def cnt_def key_def mmless_def mmCmpExch_def half_def exch_def)
qed

lemma maxSortUp_eq: "maxSortUp m i = sortUp (- 1) m (- i)"
proof (induction m i rule: maxSortUp.induct)
  case (1 m i)
  then show ?case by (subst maxSortUp.simps, subst sortUp.simps)
      (auto simp: Let_def cnt_def key_def mmless_def mmCmpExch_def half_def exch_def)
qed

text \<open>What an exchange changes: two neighbouring keys of one heap.\<close>

definition side :: "int \<Rightarrow> bool" where
  "side s \<longleftrightarrow> s = 1 \<or> s = - 1"

lemma side_minus [simp]: "side (- s) = side s"
  by (auto simp: side_def)

lemma used_side: "side s \<Longrightarrow> used m (s * i) \<longleftrightarrow> - cnt (- s) m \<le> i \<and> i \<le> cnt s m"
  by (auto simp: side_def used_def cnt_def)

lemma cnt_nonneg [simp]: "0 \<le> cnt s m"
  by (simp add: cnt_def)

lemma used_key: "side s \<Longrightarrow> 0 \<le> k \<Longrightarrow> k \<le> cnt s m \<Longrightarrow> used m (s * k)"
  using cnt_nonneg [of "- s" m] unfolding used_side by linarith

lemma used_pair: "side s \<Longrightarrow> 1 \<le> c \<Longrightarrow> c \<le> cnt s m \<Longrightarrow> used m (s * c) \<and> used m (s * (c div 2))"
  using used_key [of s c m] used_key [of s "c div 2" m] by simp

lemma key_zero: "key (- s) m 0 = - key s m 0"
  by (simp add: key_def)

lemma exch_eq: "side s \<Longrightarrow> exch s m c = (if s = 1 then mmexchange m (s * c) (s * (c div 2)) else mmexchange m (s * (c div 2)) (s * c))"
  by (auto simp: side_def exch_def)

lemma arrays_exch:
  assumes "side s" "arrays m" "1 \<le> c" "c \<le> cnt s m"
  shows "arrays (exch s m c)"
proof -
  have "used m (s * c)" "used m (s * (c div 2))" using used_pair assms by auto
  moreover have "s * c \<noteq> s * (c div 2)" using assms by (auto simp: side_def)
  ultimately show ?thesis using assms by (auto simp: exch_eq arrays_mmexchange)
qed

lemma item_exch:
  assumes "side s" "arrays m" "1 \<le> c" "c \<le> cnt s m" "used m (s * k)"
  shows "item (exch s m c) (s * k) = (if k = c then item m (s * (c div 2)) else if k = c div 2 then item m (s * c) else item m (s * k))"
proof -
  have "used m (s * c)" "used m (s * (c div 2))" using used_pair assms by auto
  moreover have "s \<noteq> 0" "c \<noteq> c div 2" using assms by (auto simp: side_def)
  ultimately show ?thesis using assms by (auto simp: exch_eq item_mmexchange)
qed

lemma key_exch:
  assumes "side s" "arrays m" "1 \<le> c" "c \<le> cnt s m" "0 \<le> k" "k \<le> cnt s m"
  shows "key s (exch s m c) k = (if k = c then key s m (c div 2) else if k = c div 2 then key s m c else key s m k)"
proof -
  have "used m (s * k)" using assms used_key by auto
  then show ?thesis using item_exch [OF assms(1-4)] by (simp add: key_def)
qed

lemma key_exch_other:
  assumes "side s" "arrays m" "1 \<le> c" "c \<le> cnt s m" "1 \<le> k" "k \<le> cnt (- s) m"
  shows "key (- s) (exch s m c) k = key (- s) m k"
proof -
  have "used m (s * - k)" using assms cnt_nonneg [of s m] by (simp only: used_side) simp
  moreover have "- k \<noteq> c" "- k \<noteq> c div 2" using assms by linarith+
  ultimately show ?thesis using item_exch [OF assms(1-4), of "- k"] by (simp add: key_def)
qed


text \<open>What sorting one heap leaves alone: the items, the counters and the other heap.\<close>

definition frame :: "int \<Rightarrow> mediator \<Rightarrow> mediator \<Rightarrow> bool" where
  "frame s m m' \<longleftrightarrow> arrays m' \<and> data m' = data m \<and> capacity m' = capacity m \<and> idx m' = idx m \<and> ct m' = ct m \<and>
     (\<forall>k. 1 \<le> k \<longrightarrow> k \<le> cnt (- s) m \<longrightarrow> key (- s) m' k = key (- s) m k)"

lemma frame_refl: "arrays m \<Longrightarrow> frame s m m"
  by (simp add: frame_def)

lemma frame_cnt: "frame s m m' \<Longrightarrow> cnt t m' = cnt t m"
  by (simp add: frame_def cnt_def minCt_def maxCt_def)

lemma frame_trans: "frame s m m1 \<Longrightarrow> frame s m1 m2 \<Longrightarrow> frame s m m2"
  using frame_cnt [of s m m1 "- s"] by (simp add: frame_def)

lemma frame_exch: "side s \<Longrightarrow> arrays m \<Longrightarrow> 1 \<le> c \<Longrightarrow> c \<le> cnt s m \<Longrightarrow> frame s m (exch s m c)"
  by (simp add: frame_def arrays_exch key_exch_other) (simp add: exch_def)

definition ordered :: "int \<Rightarrow> mediator \<Rightarrow> bool" where
  "ordered s m \<longleftrightarrow> (\<forall>k. 1 \<le> k \<longrightarrow> k \<le> cnt s m \<longrightarrow> key s m (k div 2) \<le> key s m k)"

text \<open>The order except below \<open>q\<close>, respectively above \<open>q\<close>; the keys below \<open>q\<close> are in order with that above it.\<close>

definition below :: "int \<Rightarrow> mediator \<Rightarrow> int \<Rightarrow> bool" where
  "below s m q \<longleftrightarrow> (\<forall>k. 1 \<le> k \<longrightarrow> k \<le> cnt s m \<longrightarrow> k div 2 = q \<longrightarrow> 1 \<le> q \<longrightarrow> key s m (q div 2) \<le> key s m k)"

definition except_down :: "int \<Rightarrow> mediator \<Rightarrow> int \<Rightarrow> bool" where
  "except_down s m q \<longleftrightarrow> (\<forall>k. 1 \<le> k \<longrightarrow> k \<le> cnt s m \<longrightarrow> k div 2 \<noteq> q \<longrightarrow> key s m (k div 2) \<le> key s m k) \<and> below s m q"

definition except_up :: "int \<Rightarrow> mediator \<Rightarrow> int \<Rightarrow> bool" where
  "except_up s m q \<longleftrightarrow> (\<forall>k. 1 \<le> k \<longrightarrow> k \<le> cnt s m \<longrightarrow> k \<noteq> q \<longrightarrow> key s m (k div 2) \<le> key s m k) \<and> below s m q"

definition child :: "int \<Rightarrow> int" where
  "child q = (if q = 0 then 1 else 2 * q)"

lemma except_down_step:
  assumes "side s" "arrays m" "except_down s m q" "0 \<le> q" "c div 2 = q" "1 \<le> c" "c \<le> cnt s m"
    and least: "\<forall>k. 1 \<le> k \<longrightarrow> k \<le> cnt s m \<longrightarrow> k div 2 = q \<longrightarrow> key s m c \<le> key s m k"
    and less: "key s m c < key s m q"
  shows "except_down s (exch s m c) c"
proof -
  note K = key_exch [OF assms(1,2,6,7)]
  have e: "1 \<le> k \<Longrightarrow> k \<le> cnt s m \<Longrightarrow> k div 2 \<noteq> q \<Longrightarrow> key s m (k div 2) \<le> key s m k"
    "1 \<le> k \<Longrightarrow> k \<le> cnt s m \<Longrightarrow> k div 2 = q \<Longrightarrow> 1 \<le> q \<Longrightarrow> key s m (q div 2) \<le> key s m k" for k
    using assms(3) by (simp_all add: except_down_def below_def)
  have "key s (exch s m c) (k div 2) \<le> key s (exch s m c) k" if k: "1 \<le> k" "k \<le> cnt s m" "k div 2 \<noteq> c" for k
  proof -
    have d: "0 \<le> k div 2" "k div 2 \<le> cnt s m" "k div 2 \<noteq> k" "c \<noteq> q" using k assms(5,6) by auto
    consider "k = c" | "k \<noteq> c" "k = q" | "k \<noteq> c" "k \<noteq> q" "k div 2 = q" | "k \<noteq> c" "k \<noteq> q" "k div 2 \<noteq> q" by blast
    then show ?thesis
    proof cases
      case 1
      then show ?thesis using less d k assms(5) by (simp add: K)
    next
      case 2
      then have "q div 2 \<noteq> q" "q div 2 \<noteq> c" "key s m (q div 2) \<le> key s m c" using e(2) [OF assms(6,7,5)] k by auto
      then show ?thesis using 2 d k assms(5) by (simp add: K)
    next
      case 3
      then show ?thesis using least d k assms(5) by (simp add: K)
    next
      case 4
      then show ?thesis using e(1) [OF k(1,2)] d k assms(5) by (simp add: K)
    qed
  qed
  moreover have "key s (exch s m c) (c div 2) \<le> key s (exch s m c) k" if k: "1 \<le> k" "k \<le> cnt s m" "k div 2 = c" for k
  proof -
    have "k \<noteq> c" "k \<noteq> q" "c \<noteq> q" "c div 2 \<le> cnt s m" using k assms(4-7) by auto
    then show ?thesis using e(1) [OF k(1,2)] k assms(4-7) by (simp add: K)
  qed
  ultimately show ?thesis by (simp add: except_down_def below_def)
qed

lemma except_down_stop:
  assumes "except_down s m q" "\<forall>k. 1 \<le> k \<longrightarrow> k \<le> cnt s m \<longrightarrow> k div 2 = q \<longrightarrow> key s m q \<le> key s m k"
  shows "ordered s m"
  using assms by (auto simp: except_down_def ordered_def)

lemma except_up_step:
  assumes "side s" "arrays m" "except_up s m c" "1 \<le> c" "c \<le> cnt s m" and less: "key s m c < key s m (c div 2)"
  shows "except_up s (exch s m c) (c div 2)"
proof -
  note K = key_exch [OF assms(1,2,4,5)]
  have e: "1 \<le> k \<Longrightarrow> k \<le> cnt s m \<Longrightarrow> k \<noteq> c \<Longrightarrow> key s m (k div 2) \<le> key s m k"
    "1 \<le> k \<Longrightarrow> k \<le> cnt s m \<Longrightarrow> k div 2 = c \<Longrightarrow> key s m (c div 2) \<le> key s m k" for k
    using assms(3,4) by (simp_all add: except_up_def below_def)
  have c: "c div 2 \<noteq> c" "0 \<le> c div 2" "c div 2 \<le> cnt s m" using assms(4,5) by auto
  have "key s (exch s m c) (k div 2) \<le> key s (exch s m c) k" if k: "1 \<le> k" "k \<le> cnt s m" "k \<noteq> c div 2" for k
  proof -
    have d: "0 \<le> k div 2" "k div 2 \<le> cnt s m" "k div 2 \<noteq> k" using k by auto
    consider "k = c" | "k \<noteq> c" "k div 2 = c" | "k \<noteq> c" "k div 2 = c div 2" | "k \<noteq> c" "k div 2 \<noteq> c" "k div 2 \<noteq> c div 2" by blast
    then show ?thesis
    proof cases
      case 1
      then show ?thesis using less d k c by (simp add: K)
    next
      case 2
      then show ?thesis using e(2) [OF k(1,2)] d k c by (simp add: K)
    next
      case 3
      then show ?thesis using e(1) [OF k(1,2)] less d k c by (simp add: K)
    next
      case 4
      then show ?thesis using e(1) [OF k(1,2)] d k c by (simp add: K)
    qed
  qed
  moreover have "below s (exch s m c) (c div 2)" unfolding below_def
  proof (intro allI impI)
    define P where "P = c div 2"
    fix k
    assume k: "1 \<le> k" "k \<le> cnt s (exch s m c)" "k div 2 = c div 2" "1 \<le> c div 2"
    note KP = K [folded P_def]
    have P: "1 \<le> P" "P < c" "P \<le> cnt s m" "0 \<le> P div 2" "P div 2 < P" "k \<noteq> P" using k c assms(5) by (auto simp: P_def)
    have p: "key s m (P div 2) \<le> key s m P" using e(1) [of P] P by simp
    have "key s m P \<le> key s m k" if "k \<noteq> c" using e(1) [OF k(1) _ that] k by (simp add: P_def)
    then have "key s (exch s m c) (P div 2) \<le> key s (exch s m c) k" using p P k by (cases "k = c") (simp_all add: KP)
    then show "key s (exch s m c) (c div 2 div 2) \<le> key s (exch s m c) k" by (simp only: P_def)
  qed
  ultimately show ?thesis by (simp add: except_up_def)
qed


lemma child_div: "0 \<le> q \<Longrightarrow> 1 \<le> k \<Longrightarrow> k div 2 = q \<longleftrightarrow> k = child q \<or> (1 \<le> q \<and> k = child q + 1)"
  by (auto simp: child_def)

lemma least_child:
  assumes "0 \<le> q" "child q \<le> cnt s m"
    and c: "c = (if child q > 1 \<and> child q < cnt s m \<and> key s m (child q + 1) < key s m (child q) then child q + 1 else child q)"
  shows "c div 2 = q \<and> 1 \<le> c \<and> c \<le> cnt s m \<and> (\<forall>k. 1 \<le> k \<longrightarrow> k \<le> cnt s m \<longrightarrow> k div 2 = q \<longrightarrow> key s m c \<le> key s m k) \<and> child c = c * 2"
proof -
  have q: "1 \<le> child q" "child q > 1 \<longleftrightarrow> 1 \<le> q" using assms(1) by (auto simp: child_def)
  then have "1 \<le> c" "c \<le> cnt s m" using assms by auto
  moreover have "c div 2 = q" using child_div [OF assms(1), of c] q \<open>1 \<le> c\<close> c by auto
  moreover have "key s m c \<le> key s m k" if "1 \<le> k" "k \<le> cnt s m" "k div 2 = q" for k
    using child_div [OF assms(1) that(1)] that q by (auto simp: c)
  ultimately show ?thesis by (auto simp: child_def)
qed

lemma sortDown_ordered:
  assumes "side s" "arrays m" "0 \<le> q" "except_down s m q"
  shows "frame s m (sortDown s m (child q)) \<and> ordered s (sortDown s m (child q)) \<and>
    (1 \<le> q \<longrightarrow> key s (sortDown s m (child q)) 0 = key s m 0) \<and>
    (q = 0 \<longrightarrow> sortDown s m (child q) = m \<or> (1 \<le> cnt s m \<and> key s (sortDown s m (child q)) 0 = key s m 1))"
  using assms
proof (induction "nat (cnt s m + 1 - q)" arbitrary: m q rule: less_induct)
  case less
  define c where "c = (if child q > 1 \<and> child q < cnt s m \<and> key s m (child q + 1) < key s m (child q) then child q + 1 else child q)"
  show ?case
  proof (cases "child q \<le> cnt s m")
    case False
    then have "\<not> k div 2 = q" if "1 \<le> k" "k \<le> cnt s m" for k using child_div [OF less.prems(3) that(1)] that by auto
    then have "ordered s m" using except_down_stop [OF less.prems(4)] by blast
    moreover have e0: "sortDown s m (child q) = m" using False by (subst sortDown.simps) simp
    ultimately show ?thesis unfolding e0 using less.prems(2) by (simp add: frame_refl)
  next
    case True
    have C: "c div 2 = q" "1 \<le> c" "c \<le> cnt s m" "child c = c * 2" "\<forall>k. 1 \<le> k \<longrightarrow> k \<le> cnt s m \<longrightarrow> k div 2 = q \<longrightarrow> key s m c \<le> key s m k"
      using least_child [OF less.prems(3) True c_def] by auto
    have eq: "sortDown s m (child q) = (if key s m c < key s m q then sortDown s (exch s m c) (child c) else m)"
    proof -
      have "\<not> (child q < 1 \<or> cnt s m < child q)" using True less.prems(3) by (auto simp: child_def)
      then show ?thesis by (subst sortDown.simps) (simp only: if_False c_def [symmetric] Let_def C(1,4))
    qed
    show ?thesis
    proof (cases "key s m c < key s m q")
      case False
      then have "ordered s m" using except_down_stop [OF less.prems(4)] C(5) by fastforce
      then show ?thesis unfolding eq if_not_P [OF False] using less.prems(2) by (simp add: frame_refl)
    next
      case True
      let ?m = "exch s m c"
      have f: "frame s m ?m" "except_down s ?m c"
        using frame_exch except_down_step [OF less.prems(1,2,4,3) C(1-3,5) True] less.prems C(2,3) by auto
      have "q < c" using C(1,2) by auto
      then have IH: "frame s ?m (sortDown s ?m (child c)) \<and> ordered s (sortDown s ?m (child c)) \<and> key s (sortDown s ?m (child c)) 0 = key s ?m 0"
        using less.hyps [of ?m c] less.prems f C(2,3) by (simp add: frame_def)
      have "key s ?m 0 = (if q = 0 then key s m c else key s m 0)"
        using key_exch [OF less.prems(1,2) C(2,3), of 0] C(1,2) by simp
      moreover have "c = 1" if "q = 0" using that C(1,2) by simp
      ultimately show ?thesis unfolding eq if_P [OF True] using IH f(1) C(2,3) by (auto intro: frame_trans)
    qed
  qed
qed

lemma sortUp_ordered:
  assumes "side s" "arrays m" "0 \<le> q" "q \<le> cnt s m" "except_up s m q" "q = 0 \<Longrightarrow> ordered s m"
  shows "frame s m (fst (sortUp s m q)) \<and> ordered s (fst (sortUp s m q)) \<and>
    (if snd (sortUp s m q) then q = 0 \<or> (1 \<le> cnt s m \<and> key s (fst (sortUp s m q)) 1 = key s m 0)
     else key s (fst (sortUp s m q)) 0 = key s m 0)"
  using assms
proof (induction "nat q" arbitrary: m q rule: less_induct)
  case less
  show ?case
  proof (cases "1 \<le> q \<and> key s m q < key s m (q div 2)")
    case False
    then have "ordered s m" using less.prems(3,5,6) by (auto simp: except_up_def ordered_def)
    moreover have "sortUp s m q = (m, q = 0)" using False less.prems(3) by (subst sortUp.simps) auto
    ultimately show ?thesis using less.prems(2) by (simp add: frame_refl)
  next
    case True
    let ?m = "exch s m q"
    have q: "1 \<le> q" and l: "key s m q < key s m (q div 2)" using True by auto
    have eq: "sortUp s m q = sortUp s ?m (q div 2)" using True by (subst sortUp.simps) simp
    have f: "frame s m ?m" "except_up s ?m (q div 2)"
      using frame_exch except_up_step [OF less.prems(1,2,5) q less.prems(4) l] less.prems q by auto
    have o: "ordered s ?m" if "q div 2 = 0" using f(2) that by (auto simp: except_up_def ordered_def)
    have IH: "frame s ?m (fst (sortUp s ?m (q div 2))) \<and> ordered s (fst (sortUp s ?m (q div 2))) \<and>
      (if snd (sortUp s ?m (q div 2)) then q div 2 = 0 \<or> (1 \<le> cnt s ?m \<and> key s (fst (sortUp s ?m (q div 2))) 1 = key s ?m 0)
       else key s (fst (sortUp s ?m (q div 2))) 0 = key s ?m 0)"
      by (rule less.hyps) (use less.prems q f o in \<open>auto simp: frame_def\<close>)
    show ?thesis
    proof (cases "q = 1")
      case True
      have "sortUp s ?m 0 = (?m, True)" by (subst sortUp.simps) simp
      then have e1: "sortUp s m q = (?m, True)" using eq True by simp
      have "key s ?m 1 = key s m 0" using key_exch [OF less.prems(1,2) q less.prems(4), of 1] True less.prems(4) by simp
      then show ?thesis unfolding e1 using True f(1) o less.prems(4) by simp
    next
      case False
      then have "q div 2 \<noteq> 0" using q by auto
      moreover have "key s ?m 0 = key s m 0" using key_exch [OF less.prems(1,2) q less.prems(4), of 0] \<open>q div 2 \<noteq> 0\<close> q by simp
      ultimately show ?thesis using IH f(1) less.prems(4) q by (auto simp: eq intro: frame_trans split: if_splits)
    qed
  qed
qed

section \<open>Inserting an item\<close>

definition ready :: "mediator \<Rightarrow> bool" where
  "ready m \<longleftrightarrow> sizes m \<and> linked m \<and> ordered 1 m \<and> ordered (- 1) m \<and> idx m < capacity m \<and> (ct m < capacity m \<longrightarrow> idx m = ct m)"

lemma ready_side: "ready m \<Longrightarrow> side s \<Longrightarrow> ordered s m"
  by (auto simp: ready_def side_def)

text \<open>The state before the heaps are sorted.\<close>

definition put :: "mediator \<Rightarrow> int \<Rightarrow> mediator" where
  "put m v = m\<lparr>data := (data m)[idx m := v], idx := (idx m + 1) mod capacity m, ct := ct m + (if ct m < capacity m then 1 else 0)\<rparr>"

lemma index_put [simp]: "index (put m v) = index m"
  by (simp add: fun_eq_iff index_def put_def)

lemma hget_put [simp]: "hget (put m v) i = hget m i"
  by (simp add: hget_def slot_def put_def)

lemma arrays_put: "ready m \<Longrightarrow> arrays (put m v)"
proof -
  assume r: "ready m"
  have "sizes (put m v)" "0 < ct (put m v)" using r by (auto simp: ready_def sizes_def put_def)
  moreover have "linked (put m v)" using r by (auto simp: ready_def linked_def) (auto simp: put_def)
  ultimately show ?thesis by (simp add: arrays_def)
qed

lemma item_put:
  assumes "ready m" "used (put m v) i"
  shows "item (put m v) i = (if i = pos m ! idx m then v else item m i)"
proof -
  have "index m i" using arrays_put [OF assms(1), of v] used_index [of "put m v" i] assms(2) by (simp add: arrays_def)
  then have "hget m i = idx m \<longleftrightarrow> i = pos m ! idx m" "idx m < length (data m)" using assms(1) by (auto simp: ready_def linked_def sizes_def)
  moreover have "data (put m v) = (data m)[idx m := v]" by (simp add: put_def)
  ultimately show ?thesis by (auto simp: item_def)
qed

lemma key_put:
  assumes "ready m" "side s" "pos m ! idx m = s * P" "used (put m v) (s * k)"
  shows "key s (put m v) k = (if k = P then s * v else key s m k)"
  using item_put [OF assms(1,4)] assms(2,3) by (auto simp: key_def side_def)

text \<open>The counts: a new item is the last of its heap.\<close>

lemma index_all_used:
  assumes "sizes m" "ct m = capacity m" "index m i"
  shows "used m i"
  using assms by (auto simp: sizes_def used_def index_def maxCt_eq minCt_eq)

lemma put_counts:
  assumes "ready m" "side s" "pos m ! idx m = s * P" "1 \<le> P"
  shows "cnt (- s) (put m v) = cnt (- s) m \<and> P \<le> cnt s (put m v) \<and>
    (if ct m < capacity m then P = cnt s (put m v) \<and> cnt s m = P - 1 else cnt s (put m v) = cnt s m)"
proof (cases "ct m < capacity m")
  case True
  then have p: "s * P = place (ct m)" using assms(1,3) by (auto simp: ready_def linked_def)
  have c: "minCt (put m v) = int (ct m div 2)" "maxCt (put m v) = int ((ct m + 1) div 2)"
    using True by (simp_all add: minCt_def maxCt_def half_def put_def zdiv_int)
  show ?thesis
  proof (cases "odd (ct m)")
    case odd: True
    then have "s = - 1" "P = int ((ct m + 1) div 2)" "0 < ct m" using p assms(2,4) by (auto simp: place_def side_def intro: Nat.gr0I)
    then show ?thesis using True c odd by (auto simp: cnt_def minCt_eq maxCt_eq elim!: oddE)
  next
    case even: False
    then have "s = 1" "P = int ((ct m + 1) div 2)" using p assms(2,4) by (auto simp: place_def side_def)
    moreover have "0 < ct m" using \<open>P = _\<close> assms(4) by (auto intro: Nat.gr0I)
    ultimately show ?thesis using True c even by (auto simp: cnt_def minCt_eq maxCt_eq elim!: evenE)
  qed
next
  case False
  then have e: "ct m = capacity m" "ct (put m v) = ct m" using assms(1) by (auto simp: ready_def sizes_def put_def)
  then have "cnt t (put m v) = cnt t m" for t by (simp add: cnt_def minCt_def maxCt_def)
  moreover have "index m (s * P)" using assms(1,3) by (auto simp: ready_def linked_def)
  then have "used m (s * P)" using index_all_used e assms(1) by (auto simp: ready_def)
  then have "P \<le> cnt s m" using assms(2) by (simp add: used_side)
  ultimately show ?thesis using False by simp
qed

lemma frame_ordered:
  assumes "ordered s m" "frame (- s) m m'" "1 \<le> cnt s m \<Longrightarrow> key s m' 0 = key s m 0 \<or> key s m' 0 \<le> key s m 1"
  shows "ordered s m'"
proof -
  have f: "key s m' k = key s m k" if "1 \<le> k" "k \<le> cnt s m" for k using assms(2) that by (simp add: frame_def)
  have "key s m' (k div 2) \<le> key s m' k" if k: "1 \<le> k" "k \<le> cnt s m" for k
  proof -
    have o: "key s m (k div 2) \<le> key s m k" using assms(1) k by (simp add: ordered_def)
    show ?thesis
    proof (cases "k = 1")
      case True
      then show ?thesis using assms(3) o k f [of k] by auto
    next
      case False
      then have "1 \<le> k div 2" "k div 2 \<le> cnt s m" using k by auto
      then show ?thesis using f k o by simp
    qed
  qed
  then show ?thesis using frame_cnt [OF assms(2)] by (simp add: ordered_def)
qed

lemma except_down_root:
  assumes "\<forall>k. 2 \<le> k \<longrightarrow> k \<le> cnt s m \<longrightarrow> key s m (k div 2) \<le> key s m k"
  shows "except_down s m 0"
proof -
  have "2 \<le> k" if "1 \<le> k" "k div 2 \<noteq> 0" for k :: int using that by auto
  then show ?thesis using assms by (simp add: except_down_def below_def)
qed


text \<open>A change on one side, at an index that is not the median's.\<close>

lemma put_side_keys:
  assumes "ready m" "side s" "pos m ! idx m = s * P" "1 \<le> P"
  shows "0 \<le> k \<Longrightarrow> k \<le> cnt s (put m v) \<Longrightarrow> key s (put m v) k = (if k = P then s * v else key s m k)"
    and "0 \<le> k \<Longrightarrow> k \<le> cnt (- s) (put m v) \<Longrightarrow> key (- s) (put m v) k = key (- s) m k"
proof -
  show "key s (put m v) k = (if k = P then s * v else key s m k)" if "0 \<le> k" "k \<le> cnt s (put m v)"
    using key_put [OF assms(1-3)] used_key [OF assms(2) that] by simp
  show "key (- s) (put m v) k = key (- s) m k" if "0 \<le> k" "k \<le> cnt (- s) (put m v)"
  proof -
    have "used (put m v) ((- s) * k)" using used_key [of "- s"] assms(2) that by simp
    then show ?thesis using key_put [of m "- s" "- P" v k] assms that by auto
  qed
qed

lemma put_other_ordered:
  assumes "ready m" "side s" "pos m ! idx m = s * P" "1 \<le> P"
  shows "ordered (- s) (put m v)"
proof -
  have "ordered (- s) m" using ready_side [OF assms(1), of "- s"] assms(2) by simp
  moreover have "cnt (- s) (put m v) = cnt (- s) m" using put_counts [OF assms] by simp
  ultimately show ?thesis using put_side_keys(2) [OF assms] by (auto simp: ordered_def)
qed

lemma put_except_down:
  assumes "ready m" "side s" "pos m ! idx m = s * P" "1 \<le> P" "\<not> ct m < capacity m" "key s m P \<le> s * v"
  shows "except_down s (put m v) P"
proof -
  note K = put_side_keys(1) [OF assms(1-4)]
  have c: "cnt s (put m v) = cnt s m" "P \<le> cnt s m" using put_counts [OF assms(1-4), of v] assms(5) by auto
  have o: "key s m (k div 2) \<le> key s m k" if "1 \<le> k" "k \<le> cnt s m" for k using ready_side [OF assms(1,2)] that by (simp add: ordered_def)
  have P: "P div 2 \<noteq> P" "0 \<le> P div 2" "P div 2 \<le> cnt s m" using assms(4) c by auto
  have 1: "key s (put m v) (k div 2) \<le> key s (put m v) k" if k: "1 \<le> k" "k \<le> cnt s m" "k div 2 \<noteq> P" for k
    using o [OF k(1,2)] k c assms(6) by (cases "k = P") (simp_all add: K)
  have 2: "key s (put m v) (P div 2) \<le> key s (put m v) k" if k: "1 \<le> k" "k \<le> cnt s m" "k div 2 = P" for k
  proof -
    have "k \<noteq> P" "key s m (P div 2) \<le> key s m k" using o [OF k(1,2)] o [OF assms(4) c(2)] k by auto
    then show ?thesis using k P c by (simp add: K)
  qed
  show ?thesis using 1 2 c(1) by (simp add: except_down_def below_def)
qed

lemma put_except_up:
  assumes "ready m" "side s" "pos m ! idx m = s * P" "1 \<le> P" "\<not> ct m < capacity m \<Longrightarrow> s * v \<le> key s m P"
  shows "except_up s (put m v) P"
proof -
  note K = put_side_keys(1) [OF assms(1-4)]
  have c: "P \<le> cnt s (put m v)" "ct m < capacity m \<Longrightarrow> P = cnt s (put m v) \<and> cnt s m = P - 1" "\<not> ct m < capacity m \<Longrightarrow> cnt s (put m v) = cnt s m"
    using put_counts [OF assms(1-4), of v] by (auto split: if_splits)
  have o: "key s m (k div 2) \<le> key s m k" if "1 \<le> k" "k \<le> cnt s m" for k using ready_side [OF assms(1,2)] that by (simp add: ordered_def)
  have P: "P div 2 \<noteq> P" "0 \<le> P div 2" "P div 2 \<le> cnt s (put m v)" using assms(4) c(1) by auto
  have child: "\<not> ct m < capacity m \<and> k \<le> cnt s m \<and> k \<noteq> P" if "1 \<le> k" "k \<le> cnt s (put m v)" "k div 2 = P" for k
    using c that assms(4) by (cases "ct m < capacity m") auto
  have 1: "key s (put m v) (k div 2) \<le> key s (put m v) k" if k: "1 \<le> k" "k \<le> cnt s (put m v)" "k \<noteq> P" for k
  proof -
    have "k \<le> cnt s m" using c k by (cases "ct m < capacity m") auto
    then have "key s m (k div 2) \<le> key s m k" using o k by simp
    moreover have "s * v \<le> key s m P" if "k div 2 = P" using assms(5) child [OF k(1,2) that] by simp
    ultimately show ?thesis using k by (cases "k div 2 = P") (simp_all add: K)
  qed
  have 2: "key s (put m v) (P div 2) \<le> key s (put m v) k" if k: "1 \<le> k" "k \<le> cnt s (put m v)" "k div 2 = P" for k
  proof -
    have "key s m (P div 2) \<le> key s m P" "key s m P \<le> key s m k" using o [of P] o [of k] child [OF k] k(1,3) assms(4) c(3) c(1) by auto
    then show ?thesis using child [OF k] k P by (simp add: K)
  qed
  show ?thesis using 1 2 by (simp add: except_up_def below_def)
qed


text \<open>The invariant of the heaps, and what an insertion does to the arrays besides sorting.\<close>

definition settled :: "mediator \<Rightarrow> mediator \<Rightarrow> bool" where
  "settled m m' \<longleftrightarrow> arrays m' \<and> ordered 1 m' \<and> ordered (- 1) m' \<and> data m' = data m \<and> capacity m' = capacity m \<and> idx m' = idx m \<and> ct m' = ct m"

lemma settledI:
  assumes "side s" "frame s m m'" "ordered s m'" "ordered (- s) m'"
  shows "settled m m'"
  using assms by (auto simp: settled_def frame_def side_def)

lemma settled_down:
  assumes "ready m" "side s" "pos m ! idx m = s * P" "1 \<le> P" "\<not> ct m < capacity m" "key s m P \<le> s * v"
  shows "settled (put m v) (sortDown s (put m v) (P * 2))"
proof -
  let ?m = "put m v"
  have e: "P * 2 = child P" using assms(4) by (simp add: child_def)
  have d: "frame s ?m (sortDown s ?m (child P))" "ordered s (sortDown s ?m (child P))" "key s (sortDown s ?m (child P)) 0 = key s ?m 0"
    using sortDown_ordered [OF assms(2) arrays_put [OF assms(1)] _ put_except_down [OF assms], of ] assms(4) by auto
  have "ordered (- s) (sortDown s ?m (child P))"
    by (rule frame_ordered [OF put_other_ordered [OF assms(1-4), of v]]) (use d in \<open>simp_all add: key_zero\<close>)
  then show ?thesis unfolding e using settledI d assms(2) by blast
qed

lemma settled_up:
  assumes "ready m" "side s" "pos m ! idx m = s * P" "1 \<le> P" "\<not> ct m < capacity m \<Longrightarrow> s * v \<le> key s m P"
  shows "settled (put m v) (let u = sortUp s (put m v) P in if snd u then sortDown (- s) (fst u) 1 else fst u)"
proof -
  let ?m = "put m v" let ?u = "sortUp s (put m v) P" let ?m1 = "fst (sortUp s (put m v) P)"
  have c: "P \<le> cnt s ?m" using put_counts [OF assms(1-4)] by simp
  have u: "frame s ?m ?m1" "ordered s ?m1" "if snd ?u then 1 \<le> cnt s ?m \<and> key s ?m1 1 = key s ?m 0 else key s ?m1 0 = key s ?m 0"
    using sortUp_ordered [OF assms(2) arrays_put [OF assms(1)] _ c put_except_up [OF assms]] assms(4) by auto
  have o: "ordered (- s) ?m" by (rule put_other_ordered [OF assms(1-4)])
  show ?thesis
  proof (cases "snd ?u")
    case False
    then have "ordered (- s) ?m1" by (intro frame_ordered [OF o]) (use u in \<open>simp_all add: key_zero\<close>)
    then show ?thesis using False settledI u assms(2) by (auto simp: Let_def)
  next
    case True
    let ?m2 = "sortDown (- s) ?m1 1"
    have k: "key (- s) ?m1 k = key (- s) ?m k" "cnt (- s) ?m1 = cnt (- s) ?m" if "1 \<le> k" "k \<le> cnt (- s) ?m" for k
      using u(1) that frame_cnt by (auto simp: frame_def)
    have cnt: "cnt (- s) ?m1 = cnt (- s) ?m" "cnt s ?m1 = cnt s ?m" using frame_cnt [OF u(1)] by auto
    have "key (- s) ?m1 (k div 2) \<le> key (- s) ?m1 k" if "2 \<le> k" "k \<le> cnt (- s) ?m1" for k
    proof -
      have "1 \<le> k div 2" "k div 2 \<le> cnt (- s) ?m" using that cnt by auto
      then show ?thesis using o that k(1) cnt by (simp add: ordered_def)
    qed
    then have "except_down (- s) ?m1 0" by (intro except_down_root) simp
    then have d: "frame (- s) ?m1 ?m2" "ordered (- s) ?m2" "?m2 = ?m1 \<or> (1 \<le> cnt (- s) ?m1 \<and> key (- s) ?m2 0 = key (- s) ?m1 1)"
      using sortDown_ordered [of "- s" ?m1 0] assms(2) u(1) by (auto simp: child_def frame_def)
    have "key s ?m2 0 = key s ?m1 0 \<or> key s ?m2 0 \<le> key s ?m1 1"
    proof (cases "?m2 = ?m1")
      case False
      then have 1: "1 \<le> cnt (- s) ?m" "key (- s) ?m2 0 = key (- s) ?m 1" using d(3) k(1) cnt by auto
      moreover have "key (- s) ?m 0 \<le> key (- s) ?m 1" using o 1(1) by (force simp: ordered_def)
      ultimately show ?thesis using u(3) True by (simp add: key_zero)
    qed simp
    then have s: "ordered s ?m2" by (intro frame_ordered [OF u(2) d(1)])
    have "settled ?m1 ?m2" using settledI [of "- s"] d s assms(2) by simp
    then show ?thesis using True u(1) by (simp add: Let_def settled_def frame_def)
  qed
qed


lemma sortDown_none: "cnt s m < 1 \<Longrightarrow> sortDown s m 1 = m"
  by (subst sortDown.simps) simp

lemma put_median_counts:
  assumes "ready m" "pos m ! idx m = 0"
  shows "ct m < capacity m \<and> cnt s (put m v) = 0 \<or> cnt s (put m v) = cnt s m \<and> \<not> ct m < capacity m"
proof (cases "ct m < capacity m")
  case True
  then have "place (ct m) = 0" using assms by (auto simp: ready_def linked_def)
  then have "ct m = 0" by (auto simp: place_def split: if_splits)
  then show ?thesis using True by (simp add: cnt_def minCt_def maxCt_def put_def half_def)
next
  case False
  then show ?thesis using assms(1) by (simp add: cnt_def minCt_def maxCt_def put_def)
qed

lemma put_median_keys:
  assumes "ready m" "pos m ! idx m = 0" "side s" "1 \<le> k" "k \<le> cnt s (put m v)"
  shows "key s (put m v) k = key s m k"
  using key_put [of m s 0 v k] used_key [OF assms(3) _ assms(5)] assms by simp

lemma frame_except_root:
  assumes "\<forall>k. 2 \<le> k \<longrightarrow> k \<le> cnt s m \<longrightarrow> key s m (k div 2) \<le> key s m k" "frame (- s) m m'"
  shows "except_down s m' 0"
proof (rule except_down_root, intro allI impI)
  fix k assume k: "2 \<le> k" "k \<le> cnt s m'"
  have f: "key s m' j = key s m j" if "1 \<le> j" "j \<le> cnt s m" for j using assms(2) that by (simp add: frame_def)
  have "1 \<le> k div 2" "k div 2 \<le> cnt s m" "1 \<le> k" "k \<le> cnt s m" using k frame_cnt [OF assms(2), of s] by auto
  then show "key s m' (k div 2) \<le> key s m' k" using assms(1) k f by simp
qed

lemma settled_median:
  assumes "ready m" "pos m ! idx m = 0"
  shows "settled (put m v) (sortDown 1 (sortDown (- 1) (put m v) 1) 1)"
proof -
  let ?m = "put m v" let ?m1 = "sortDown (- 1) (put m v) 1" let ?m2 = "sortDown 1 (sortDown (- 1) (put m v) 1) 1"
  have c: "cnt s ?m = 0 \<or> cnt s ?m = cnt s m" for s using put_median_counts [OF assms] by blast
  have inner: "\<forall>k. 2 \<le> k \<longrightarrow> k \<le> cnt s ?m \<longrightarrow> key s ?m (k div 2) \<le> key s ?m k" if "side s" for s
  proof (intro allI impI)
    fix k assume k: "2 \<le> k" "k \<le> cnt s ?m"
    then have "k \<le> cnt s m" "1 \<le> k div 2" "k div 2 \<le> cnt s ?m" using c [of s] by auto
    then show "key s ?m (k div 2) \<le> key s ?m k"
      using ready_side [OF assms(1) that] put_median_keys [OF assms that] k by (simp add: ordered_def)
  qed
  have d1: "frame (- 1) ?m ?m1" "ordered (- 1) ?m1" "?m1 = ?m \<or> (1 \<le> cnt (- 1) ?m \<and> key (- 1) ?m1 0 = key (- 1) ?m 1)"
    using sortDown_ordered [of "- 1" ?m 0] except_down_root [OF inner [of "- 1"]] arrays_put [OF assms(1)] by (auto simp: child_def side_def)
  have d2: "frame 1 ?m1 ?m2" "ordered 1 ?m2" "?m2 = ?m1 \<or> (1 \<le> cnt 1 ?m1 \<and> key 1 ?m2 0 = key 1 ?m1 1)"
    using sortDown_ordered [of 1 ?m1 0] frame_except_root [OF inner [of 1]] d1(1) by (auto simp: child_def side_def frame_def)
  have "ordered (- 1) ?m2"
  proof (rule frame_ordered [OF d1(2)])
    show "frame (- (- 1)) ?m1 ?m2" using d2(1) by simp
    assume n: "1 \<le> cnt (- 1) ?m1"
    show "key (- 1) ?m2 0 = key (- 1) ?m1 0 \<or> key (- 1) ?m2 0 \<le> key (- 1) ?m1 1"
    proof (cases "?m2 = ?m1")
      case False
      have n1: "1 \<le> cnt (- 1) ?m" "1 \<le> cnt 1 ?m" using n False d2(3) frame_cnt [OF d1(1)] by auto
      then have n0: "1 \<le> cnt (- 1) m" "1 \<le> cnt 1 m" using c [of 1] c [of "- 1"] by auto
      have "key 1 ?m1 1 = key 1 ?m 1" using d1(1) n1 by (simp add: frame_def)
      also have "\<dots> = key 1 m 1" using put_median_keys [OF assms, of 1 1] n1 by (simp add: side_def)
      finally have 1: "key 1 ?m2 0 = key 1 m 1" using False d2(3) by simp
      have 2: "key (- 1) ?m 1 = key (- 1) m 1" using put_median_keys [OF assms, of "- 1" 1] n1 by (simp add: side_def)
      have "key 1 m (1 div 2) \<le> key 1 m 1" "key (- 1) m (1 div 2) \<le> key (- 1) m 1"
        using ready_side [OF assms(1)] n0 unfolding ordered_def side_def by blast+
      then have 3: "- key 1 m 1 \<le> key (- 1) m 1" using key_zero [of 1 m] by simp
      have "key (- 1) ?m1 (1 div 2) \<le> key (- 1) ?m1 1" using d1(2) n unfolding ordered_def by blast
      then have "key (- 1) m 1 \<le> key (- 1) ?m1 1" using d1(3) 2 by auto
      then show ?thesis using 1 3 key_zero [of 1 ?m2] by simp
    qed simp
  qed
  then have "settled ?m1 ?m2" using settledI [of 1] d2 by (simp add: side_def)
  then show ?thesis using d1(1) by (simp add: settled_def frame_def)
qed


lemma MediatorInsert_eq:
  "MediatorInsert m v =
     (let p = pos m ! idx m; old = data m ! idx m; m1 = put m v in
      if p > 0 then
        if \<not> ct m < capacity m \<and> old < v then sortDown 1 m1 (p * 2)
        else (let u = sortUp 1 m1 p in if snd u then sortDown (- 1) (fst u) 1 else fst u)
      else if p < 0 then
        if \<not> ct m < capacity m \<and> v < old then sortDown (- 1) m1 (- p * 2)
        else (let u = sortUp (- 1) m1 (- p) in if snd u then sortDown 1 (fst u) 1 else fst u)
      else sortDown 1 (sortDown (- 1) m1 1) 1)"
proof -
  have b: "(case u of (m1, True) \<Rightarrow> f m1 | (m1, False) \<Rightarrow> m1) = (if snd u then f (fst u) else fst u)"
    for u :: "mediator \<times> bool" and f by (cases u) (auto split: bool.split)
  have 0: "maxCt m1 = 0 \<Longrightarrow> sortDown (- 1) m1 1 = m1" "minCt m1 = 0 \<Longrightarrow> sortDown 1 m1 1 = m1" for m1
    using sortDown_none [of "- 1" m1] sortDown_none [of 1 m1] by (auto simp: cnt_def)
  show ?thesis unfolding MediatorInsert_def Let_def put_def [symmetric] b minSortDown_eq maxSortDown_eq minSortUp_eq maxSortUp_eq
    by (simp add: 0)
qed

lemma MediatorInsert_settled:
  assumes "ready m"
  shows "settled (put m v) (MediatorInsert m v)"
proof -
  let ?p = "pos m ! idx m"
  have old: "item m ?p = data m ! idx m" using assms by (auto simp: item_def ready_def linked_def)
  consider "?p > 0" | "?p < 0" | "?p = 0" by linarith
  then show ?thesis
  proof cases
    case 1
    have k: "key 1 m ?p = data m ! idx m" using old by (simp add: key_def)
    show ?thesis using 1 settled_down [OF assms, of 1 ?p v] settled_up [OF assms, of 1 ?p v] k
      by (auto simp: MediatorInsert_eq Let_def side_def)
  next
    case 2
    have k: "key (- 1) m (- ?p) = - data m ! idx m" using old by (simp add: key_def)
    show ?thesis using 2 settled_down [OF assms, of "- 1" "- ?p" v] settled_up [OF assms, of "- 1" "- ?p" v] k
      by (auto simp: MediatorInsert_eq Let_def side_def)
  next
    case 3
    then show ?thesis using settled_median [OF assms 3] by (simp add: MediatorInsert_eq Let_def)
  qed
qed

lemma MediatorInsert_ready:
  assumes "ready m"
  shows "ready (MediatorInsert m v) \<and> data (MediatorInsert m v) = (data m)[idx m := v] \<and>
    idx (MediatorInsert m v) = (idx m + 1) mod capacity m \<and> capacity (MediatorInsert m v) = capacity m \<and>
    ct (MediatorInsert m v) = min (ct m + 1) (capacity m)"
proof -
  have s: "settled (put m v) (MediatorInsert m v)" by (rule MediatorInsert_settled [OF assms])
  have "ct (put m v) = min (ct m + 1) (capacity m)" "capacity (put m v) = capacity m" "data (put m v) = (data m)[idx m := v]"
    "idx (put m v) = (idx m + 1) mod capacity m" using assms by (auto simp: put_def ready_def sizes_def)
  moreover have "min (ct m + 1) (capacity m) < capacity m \<longrightarrow> (idx m + 1) mod capacity m = min (ct m + 1) (capacity m)" "0 < capacity m"
    using assms by (auto simp: ready_def)
  ultimately show ?thesis using s by (simp add: settled_def ready_def arrays_def)
qed

section \<open>A new mediator\<close>

lemma place_index: "k < n \<Longrightarrow> index m (place k) \<or> capacity m \<noteq> n"
proof -
  assume k: "k < n"
  show ?thesis
  proof (cases "odd k")
    case True
    then have "(k + 1) div 2 \<le> n div 2" using k by (auto elim!: oddE)
    then show ?thesis using True by (auto simp: index_def place_def)
  next
    case False
    then have "(k + 1) div 2 \<le> (n - 1) div 2" using k by (auto elim!: evenE)
    then show ?thesis using False by (auto simp: index_def place_def)
  qed
qed

lemma place_inj: "place k = place j \<Longrightarrow> k = j"
  by (auto simp: place_def split: if_splits elim!: oddE evenE)

lemma place_onto: "index m i \<Longrightarrow> 0 < capacity m \<Longrightarrow> \<exists>k < capacity m. place k = i"
proof (cases "i < 0")
  case True
  assume i: "index m i" "0 < capacity m"
  let ?k = "nat (- i) * 2 - 1"
  have "?k < capacity m" using i True by (auto simp: index_def)
  moreover have "place ?k = i" using True by (auto simp: place_def)
  ultimately show ?thesis by blast
next
  case False
  assume i: "index m i" "0 < capacity m"
  let ?k = "nat i * 2"
  have "?k < capacity m" using i False by (auto simp: index_def)
  moreover have "place ?k = i" using False by (simp add: place_def)
  ultimately show ?thesis by blast
qed


text \<open>After the loop of \<open>MediatorNew\<close> for the places from \<open>k\<close> on.\<close>

lemma fill_fields: "data (fill k m) = data m" "capacity (fill k m) = capacity m" "idx (fill k m) = idx m" "ct (fill k m) = ct m"
  "length (pos (fill k m)) = length (pos m)" "length (heapa (fill k m)) = length (heapa m)"
  by (induction k m rule: fill.induct) (simp_all add: hset_def)

lemma fill_links:
  assumes "sizes m" "k \<le> capacity m" "j < capacity m"
  shows "pos (fill k m) ! j = (if j < k then place j else pos m ! j) \<and>
    hget (fill k m) (place j) = (if j < k then j else hget m (place j))"
  using assms
proof (induction k arbitrary: m)
  case (Suc k)
  let ?m = "hset (m\<lparr>pos := (pos m)[k := place k]\<rparr>) (place k) k"
  have s: "sizes ?m" "sizes (m\<lparr>pos := (pos m)[k := place k]\<rparr>)" using Suc.prems(1) by (simp_all add: sizes_def hset_def)
  have i: "index m (place k)" "index m (place j)" using place_index [of k "capacity m" m] place_index [of j "capacity m" m] Suc.prems(2,3) by auto
  have h: "hget ?m (place j) = (if place k = place j then k else hget m (place j))"
    using hget_hset [OF s(2), of "place k" "place j" k] i by simp
  have p: "pos ?m ! j = (if j = k then place k else pos m ! j)" using Suc.prems by (simp add: hset_def sizes_def nth_list_update)
  have c: "k \<le> capacity ?m" "j < capacity ?m" using Suc.prems by (simp_all add: hset_def)
  note IH = Suc.IH [OF s(1) c]
  show ?case
  proof (cases "k = j")
    case True
    then show ?thesis using IH h p by simp
  next
    case False
    then have "place k \<noteq> place j" using place_inj by blast
    then show ?thesis using IH h p False by (simp add: less_Suc_eq)
  qed
qed simp

lemma MediatorNew_ready:
  assumes "length d0 = n" "length p0 = n" "length h0 = n" "0 < n"
  shows "ready (MediatorNew d0 p0 h0 n) \<and> ct (MediatorNew d0 p0 h0 n) = 0 \<and> capacity (MediatorNew d0 p0 h0 n) = n"
proof -
  let ?new = "\<lparr>data = d0, pos = p0, heapa = h0, capacity = n, idx = 0, ct = 0\<rparr>" let ?m = "MediatorNew d0 p0 h0 n"
  have f: "data ?m = d0" "capacity ?m = n" "idx ?m = 0" "ct ?m = 0" "length (pos ?m) = n" "length (heapa ?m) = n"
    using assms by (simp_all add: MediatorNew_def fill_fields)
  have "sizes ?new" using assms by (simp add: sizes_def)
  then have l: "pos ?m ! j = place j" "hget ?m (place j) = j" if "j < n" for j
    using fill_links [of ?new n j] that by (simp_all add: MediatorNew_def)
  have a: "hget ?m i < n \<and> pos ?m ! hget ?m i = i" if i: "index ?m i" for i
  proof -
    obtain k where "k < n" "place k = i" using place_onto [OF i] f(2) assms(4) by auto
    then show ?thesis using l [of k] by auto
  qed
  have "index ?m (place k)" if "k < n" for k using place_index [of k n ?m] f(2) that by auto
  then have b: "\<forall>k < n. index ?m (pos ?m ! k) \<and> hget ?m (pos ?m ! k) = k" "\<forall>k. 0 \<le> k \<longrightarrow> k < n \<longrightarrow> pos ?m ! k = place k"
    using l by simp_all
  have "linked ?m" unfolding linked_def f using a b by blast
  moreover have "cnt s ?m = 0" for s by (simp add: cnt_def minCt_def maxCt_def half_def f)
  ultimately show ?thesis using assms f by (simp add: ready_def sizes_def ordered_def)
qed

section \<open>The window\<close>

text \<open>The last \<open>n\<close> items of a list, and the window with its oldest item first.\<close>

definition newest :: "nat \<Rightarrow> 'a list \<Rightarrow> 'a list" where
  "newest n xs = drop (length xs - n) xs"

definition window :: "mediator \<Rightarrow> int list" where
  "window m = (if ct m < capacity m then take (ct m) (data m) else drop (idx m) (data m) @ take (idx m) (data m))"

lemma newest_snoc: "newest n (newest n xs @ [x]) = newest n (xs @ [x])"
  by (cases "length xs < n") (auto simp: newest_def not_less Suc_diff_le)

lemma length_newest [simp]: "length (newest n xs) = min (length xs) n"
  by (simp add: newest_def)

lemma length_window: "ready m \<Longrightarrow> length (window m) = ct m"
  by (auto simp: window_def ready_def sizes_def)

lemma window_insert:
  assumes "ready m"
  shows "window (MediatorInsert m v) = newest (capacity m) (window m @ [v])"
proof -
  let ?m = "MediatorInsert m v"
  have m: "data ?m = (data m)[idx m := v]" "idx ?m = (idx m + 1) mod capacity m" "capacity ?m = capacity m" "ct ?m = min (ct m + 1) (capacity m)"
    using MediatorInsert_ready [OF assms] by auto
  have r: "length (data m) = capacity m" "idx m < capacity m" "ct m < capacity m \<Longrightarrow> idx m = ct m" "ct m \<le> capacity m"
    using assms by (auto simp: ready_def sizes_def)
  have u: "(data m)[idx m := v] = take (idx m) (data m) @ v # drop (Suc (idx m)) (data m)" using r by (simp add: upd_conv_take_nth_drop)
  have d: "drop (idx m) (data m) = data m ! idx m # drop (Suc (idx m)) (data m)" using r by (simp add: Cons_nth_drop_Suc)
  have i: "idx ?m = (if Suc (idx m) = capacity m then 0 else Suc (idx m))" using m(2) r(2) by auto
  show ?thesis
  proof (cases "ct m < capacity m")
    case True
    then show ?thesis using r m(1,3,4) i u by (auto simp: window_def newest_def)
  next
    case False
    then have "window m @ [v] = data m ! idx m # drop (Suc (idx m)) (data m) @ take (idx m) (data m) @ [v]" using d by (simp add: window_def)
    then have "newest (capacity m) (window m @ [v]) = drop (Suc (idx m)) (data m) @ take (idx m) (data m) @ [v]"
      using r(1,2) by (simp add: newest_def)
    then show ?thesis using False r m(1,3,4) i u by (auto simp: window_def)
  qed
qed

text \<open>The contract of a structure that keeps the last items, and what follows for a whole sequence.\<close>

locale sliding_window =
  fixes ins :: "'q \<Rightarrow> 'a \<Rightarrow> 'q" and invar :: "'q \<Rightarrow> bool" and width :: "'q \<Rightarrow> nat" and contents :: "'q \<Rightarrow> 'a list"
  assumes invar_ins: "invar q \<Longrightarrow> invar (ins q x)"
    and width_ins: "invar q \<Longrightarrow> width (ins q x) = width q"
    and contents_ins: "invar q \<Longrightarrow> contents (ins q x) = newest (width q) (contents q @ [x])"
begin

lemma stream:
  assumes "invar q" "contents q = []"
  shows "invar (foldl ins q xs) \<and> width (foldl ins q xs) = width q \<and> contents (foldl ins q xs) = newest (width q) xs"
proof (induction xs rule: rev_induct)
  case Nil
  then show ?case using assms by (simp add: newest_def)
next
  case (snoc x xs)
  then show ?case using invar_ins [of "foldl ins q xs" x] width_ins [of "foldl ins q xs" x] contents_ins [of "foldl ins q xs" x]
    by (simp add: newest_snoc)
qed

end

interpretation running: sliding_window MediatorInsert ready capacity window
  by unfold_locales (simp_all add: MediatorInsert_ready window_insert)

lemma window_empty: "ready m \<Longrightarrow> ct m = 0 \<Longrightarrow> window m = []"
  using length_window [of m] by simp

section \<open>The median\<close>

lemma used_card: "arrays m \<Longrightarrow> maxCt m + minCt m + 1 = int (ct m)"
  by (auto simp: arrays_def maxCt_eq minCt_eq)

lemma mset_items:
  assumes "arrays m"
  shows "mset (map (item m) [- maxCt m .. minCt m]) = mset (take (ct m) (data m))"
proof -
  let ?U = "[- maxCt m .. minCt m]"
  have U: "used m i" "index m i" if "i \<in> set ?U" for i using that assms used_index by (auto simp: used_def arrays_def)
  have inj: "inj_on (hget m) (set ?U)" using U(2) assms by (intro inj_onI) (metis arrays_def linked_def)
  have sub: "hget m ` set ?U \<subseteq> {..<ct m}" using U(1) assms used_hget by (auto simp: arrays_def)
  have "card (hget m ` set ?U) = ct m" using inj used_card [OF assms] by (simp add: card_image)
  then have "hget m ` set ?U = {..<ct m}" using card_subset_eq [OF _ sub] by simp
  then have "mset (map (hget m) ?U) = mset [0 ..< ct m]" using inj by (subst set_eq_iff_mset_eq_distinct [symmetric]) (auto simp: distinct_map)
  then have "mset (map (\<lambda>k. data m ! k) (map (hget m) ?U)) = mset (map (\<lambda>k. data m ! k) [0 ..< ct m])" by (simp only: mset_map)
  moreover have "map (\<lambda>k. data m ! k) [0 ..< ct m] = take (ct m) (data m)" using assms by (auto intro!: nth_equalityI simp: arrays_def sizes_def)
  moreover have "item m = (\<lambda>k. data m ! k) \<circ> hget m" by (simp add: fun_eq_iff item_def)
  ultimately show ?thesis by (simp only: map_map)
qed

lemma mset_window: "ready m \<Longrightarrow> mset (window m) = mset (take (ct m) (data m))"
  by (auto simp: window_def ready_def sizes_def simp flip: mset_append) (metis append_take_drop_id mset_append union_commute)

lemma root_least:
  assumes "ordered s m" "1 \<le> k" "k \<le> cnt s m"
  shows "key s m 1 \<le> key s m k \<and> key s m 0 \<le> key s m k"
  using assms(2,3)
proof (induction "nat k" arbitrary: k rule: less_induct)
  case less
  have o: "key s m (k div 2) \<le> key s m k" using assms(1) less.prems by (simp add: ordered_def)
  show ?case
  proof (cases "k = 1")
    case False
    then have "key s m 1 \<le> key s m (k div 2) \<and> key s m 0 \<le> key s m (k div 2)" using less.prems by (intro less.hyps) auto
    then show ?thesis using o by auto
  qed (use o in simp)
qed

text \<open>The items of the two heaps around the median.\<close>

definition lower :: "mediator \<Rightarrow> int list" where
  "lower m = map (item m) [- maxCt m .. - 1]"

definition upper :: "mediator \<Rightarrow> int list" where
  "upper m = map (item m) [1 .. minCt m]"

lemma ready_arrays: "ready m \<Longrightarrow> 0 < ct m \<Longrightarrow> arrays m"
  by (simp add: ready_def arrays_def)

lemma mset_lower_upper:
  assumes "ready m" "0 < ct m"
  shows "mset (window m) = mset (lower m @ item m 0 # upper m)"
proof -
  have "[- maxCt m .. minCt m] = [- maxCt m .. - 1] @ [0 .. minCt m]"
    using upto_split1 [of "- maxCt m" 0 "minCt m"] counts_nonneg [of m] by simp
  moreover have "[0 .. minCt m] = 0 # [1 .. minCt m]" using upto_rec1 [of 0 "minCt m"] counts_nonneg [of m] by simp
  ultimately show ?thesis
    using mset_items [OF ready_arrays [OF assms]] mset_window [OF assms(1)] by (simp add: lower_def upper_def)
qed

lemma lower_le: "ready m \<Longrightarrow> a \<in> set (lower m) \<Longrightarrow> a \<le> item m (- 1) \<and> item m (- 1) \<le> item m 0"
proof -
  assume r: "ready m" and a: "a \<in> set (lower m)"
  then obtain i where i: "a = item m i" "- maxCt m \<le> i" "i \<le> - 1" by (auto simp: lower_def)
  have "key (- 1) m 1 \<le> key (- 1) m (- i) \<and> key (- 1) m 0 \<le> key (- 1) m 1"
    using root_least [of "- 1" m "- i"] root_least [of "- 1" m 1] r i by (auto simp: ready_def cnt_def)
  then show ?thesis using i by (simp add: key_def)
qed

lemma upper_ge: "ready m \<Longrightarrow> a \<in> set (upper m) \<Longrightarrow> item m 0 \<le> a"
proof -
  assume r: "ready m" and a: "a \<in> set (upper m)"
  then obtain i where i: "a = item m i" "1 \<le> i" "i \<le> minCt m" by (auto simp: upper_def)
  have "key 1 m 0 \<le> key 1 m i" using root_least [of 1 m i] r i by (auto simp: ready_def cnt_def)
  then show ?thesis using i by (simp add: key_def)
qed

lemma sort_window:
  assumes "ready m" "0 < ct m"
  shows "sort (window m) = sort (lower m) @ item m 0 # sort (upper m)"
proof (rule properties_for_sort)
  show "mset (sort (lower m) @ item m 0 # sort (upper m)) = mset (window m)" using mset_lower_upper [OF assms] by simp
  show "sorted (sort (lower m) @ item m 0 # sort (upper m))"
    using lower_le [OF assms(1)] upper_ge [OF assms(1)] by (fastforce simp: sorted_append)
qed

lemma length_lower: "length (lower m) = ct m div 2"
  by (simp add: lower_def maxCt_eq)

lemma middle_items:
  assumes "ready m" "0 < ct m"
  shows "item m 0 = sort (window m) ! (ct m div 2)" and "even (ct m) \<Longrightarrow> item m (- 1) = sort (window m) ! (ct m div 2 - 1)"
proof -
  show "item m 0 = sort (window m) ! (ct m div 2)" using sort_window [OF assms] length_lower [of m] by (simp add: nth_append)
  show "item m (- 1) = sort (window m) ! (ct m div 2 - 1)" if "even (ct m)"
  proof -
    let ?l = "sort (lower m)"
    have n: "1 \<le> ct m div 2" using that assms(2) by auto
    then have "item m (- 1) \<in> set (lower m)" by (auto simp: lower_def maxCt_eq)
    moreover have "\<forall>a \<in> set (lower m). a \<le> item m (- 1)" using lower_le [OF assms(1)] by blast
    moreover have l: "?l \<noteq> []" using n length_lower [of m] by (metis length_sort list.size(3) not_one_le_zero)
    then have "last ?l \<in> set ?l" by (rule last_in_set)
    moreover have "a \<le> last ?l" if "a \<in> set ?l" for a
    proof -
      obtain i where "i < length ?l" "?l ! i = a" using \<open>a \<in> set ?l\<close> by (auto simp only: in_set_conv_nth)
      then show ?thesis using sorted_nth_mono [OF sorted_sort [of "lower m"], of i "length ?l - 1"] by (simp add: last_conv_nth l)
    qed
    ultimately have "last ?l = item m (- 1)" unfolding set_sort by (meson antisym)
    then show ?thesis using sort_window [OF assms] l n length_lower [of m] by (simp add: last_conv_nth nth_append)
  qed
qed

text \<open>The median of a list, and the least item.\<close>

definition median_sum :: "int list \<Rightarrow> int" where
  "median_sum w = sort w ! (length w div 2) + (if even (length w) then sort w ! (length w div 2 - 1) else 0)"

definition median :: "int list \<Rightarrow> int" where
  "median w = (if even (length w) then half (median_sum w) else median_sum w)"

lemma foldl_least: "foldl (\<lambda>a i. if f i < a then f i else a) (v :: int) xs = Min (insert v (f ` set xs))"
proof (induction xs rule: rev_induct)
  case (snoc x xs)
  have "insert v (f ` set (xs @ [x])) = insert (f x) (insert v (f ` set xs))" by auto
  then have "Min (insert v (f ` set (xs @ [x]))) = min (f x) (Min (insert v (f ` set xs)))" using Min_insert [of "insert v (f ` set xs)" "f x"] by simp
  also have "\<dots> = foldl (\<lambda>a i. if f i < a then f i else a) v (xs @ [x])" unfolding snoc.IH [symmetric] by (simp add: min_def)
  finally show ?case by simp
qed simp

lemma MediatorMedian_window:
  assumes "ready m" "0 < ct m"
  shows "MediatorMedian m =
    (if int_ok (median_sum (window m)) then Some (median (window m), Min (set (window m)), median (window m)) else None)"
proof -
  let ?w = "window m"
  let ?s = "if even (ct m) then item m 0 + item m (- 1) else item m 0" let ?v = "if even (ct m) then half ?s else item m 0"
  have s: "?s = median_sum ?w" "?v = median ?w" "(if even (ct m) then half (median_sum ?w) else item m 0) = median ?w"
    using middle_items [OF assms] length_window [OF assms(1)] by (simp_all add: median_sum_def median_def)
  have w: "set ?w = set (lower m) \<union> insert (item m 0) (set (upper m))"
    using mset_lower_upper [OF assms] by (metis Un_insert_right list.simps(15) mset_eq_setD set_append)
  have l: "set (lower m) = item m ` set [- maxCt m .. - 1]" by (simp add: lower_def)
  have "Min (insert ?v (set (lower m))) = Min (set ?w)"
  proof (cases "lower m = []")
    case True
    then have c: "ct m = 1" using length_lower [of m] assms(2) by (cases "ct m" rule: nat.exhaust) auto
    then have "upper m = []" by (simp add: upper_def minCt_def half_def)
    then show ?thesis using True w c by simp
  next
    case False
    let ?a = "Min (set (lower m))"
    have a: "?a \<in> set (lower m)" using False by (intro Min_in) auto
    have v: "?a \<le> ?v" using lower_le [OF assms(1) a] by (auto simp: half_def)
    then have "Min (insert ?v (set (lower m))) = ?a" using False a by (intro Min_eqI) (auto simp del: if_split)
    moreover have "Min (set ?w) = ?a"
    proof (rule Min_eqI)
      show "?a \<le> y" if "y \<in> set ?w" for y using that lower_le [OF assms(1) a] upper_ge [OF assms(1), of y] unfolding w by auto
      show "?a \<in> set ?w" using a w by simp
    qed simp
    ultimately show ?thesis by simp
  qed
  then show ?thesis unfolding MediatorMedian_def Let_def foldl_least l [symmetric] s(1,3) by simp
qed

lemma stream_median:
  assumes "length d0 = n" "length p0 = n" "length h0 = n" "0 < n" "vs \<noteq> []"
    and w: "w = drop (length vs - n) vs"
  shows "MediatorMedian (foldl MediatorInsert (MediatorNew d0 p0 h0 n) vs) =
    (if int_ok (median_sum w) then Some (median w, Min (set w), median w) else None)"
proof -
  let ?m = "foldl MediatorInsert (MediatorNew d0 p0 h0 n) vs"
  have "ready ?m" and e: "window ?m = w" 
    using running.stream [OF _ window_empty] MediatorNew_ready [OF assms(1-4)] w by (auto simp: newest_def)
  moreover have "0 < ct ?m" using length_window [OF \<open>ready ?m\<close>] assms(4,5) w unfolding e by (cases vs) auto
  ultimately show ?thesis using MediatorMedian_window [of ?m] by simp
qed

text \<open>
  The invariant of the running median: every insertion keeps the lengths of the arrays, \<open>pos\<close> as the inverse of \<open>heap\<close> and the order of both heaps, and makes the window the last items with the new one at its end.
\<close>

theorem MediatorInsert_refines:
  assumes "ready m"
  shows "ready (MediatorInsert m v) \<and> window (MediatorInsert m v) = newest (capacity m) (window m @ [v])"
  using MediatorInsert_ready [OF assms] window_insert [OF assms] by simp

section \<open>The median filter\<close>

definition row :: "int list \<Rightarrow> nat \<Rightarrow> nat \<Rightarrow> nat \<Rightarrow> nat \<Rightarrow> int list" where
  "row v SZ hs x yy = map (\<lambda>xx. v ! (xx + yy * SZ)) [x - hs ..< x + hs + 1]"

text \<open>The square around a pixel.\<close>

definition block :: "int list \<Rightarrow> nat \<Rightarrow> nat \<Rightarrow> nat \<Rightarrow> nat \<Rightarrow> int list" where
  "block v SZ hs x y = concat (map (row v SZ hs x) [y - hs ..< y + hs + 1])"

lemma insert_row_stream: "insert_row v SZ hs x yy m = foldl MediatorInsert m (row v SZ hs x yy)"
  by (simp add: insert_row_def row_def foldl_map)

lemma insert_rows_stream: "foldl (\<lambda>m yy. insert_row v SZ hs x yy m) m ys = foldl MediatorInsert m (concat (map (row v SZ hs x) ys))"
  by (induction ys rule: rev_induct) (simp_all add: insert_row_stream)

lemma length_rows: "hs \<le> x \<Longrightarrow> length (concat (map (row v SZ hs x) ys)) = length ys * (hs * 2 + 1)"
  by (induction ys) (simp_all add: row_def)

lemma newest_rows:
  assumes "hs \<le> x" "hs \<le> y" "n = (hs * 2 + 1) * (hs * 2 + 1)"
  shows "drop (length (concat (map (row v SZ hs x) [0 ..< y + hs + 1])) - n) (concat (map (row v SZ hs x) [0 ..< y + hs + 1])) = block v SZ hs x y"
proof -
  let ?c = "\<lambda>ys. concat (map (row v SZ hs x) ys)"
  have "[0 ..< y + hs + 1] = [0 ..< y - hs] @ [y - hs ..< y + hs + 1]" 
    using upt_add_eq_append [of 0 "y - hs" "2 * hs + 1"] assms(2) by (simp del: upt_Suc add: algebra_simps)
  then have e: "?c [0 ..< y + hs + 1] = ?c [0 ..< y - hs] @ block v SZ hs x y" by (simp add: block_def)
  have l: "length (block v SZ hs x y) = n" using length_rows [OF assms(1), of v SZ "[y - hs ..< y + hs + 1]"] assms(2,3) by (simp add: block_def)
  show ?thesis unfolding e by (simp add: l)
qed

lemma median_sum_in: "w \<noteq> [] \<Longrightarrow> odd (length w) \<Longrightarrow> median_sum w \<in> set w"
  using nth_mem [of "length w div 2" "sort w"] by (simp add: median_sum_def)

lemma block_pixels:
  assumes "length v = SZ * SZ" "x + hs < SZ" "y + hs < SZ" "p \<in> set (block v SZ hs x y)"
  shows "p \<in> set v"
proof -
  obtain yy where y: "p \<in> set (row v SZ hs x yy)" "yy < y + hs + 1" using assms(4) by (auto simp: block_def simp del: upt_Suc)
  then obtain xx where p: "p = v ! (xx + yy * SZ)" "xx < x + hs + 1" by (auto simp: row_def simp del: upt_Suc)
  have "xx + yy * SZ < SZ + yy * SZ" using p(2) assms(2) by simp
  also have "SZ + yy * SZ \<le> SZ * SZ" using mult_le_mono1 [of "Suc yy" SZ SZ] y(2) assms(3) by simp
  finally show ?thesis using p(1) assms(1) nth_mem [of "xx + yy * SZ" v] by simp
qed

lemma column_rows_stream:
  assumes "hs \<le> x" "x + hs < SZ" "length v = SZ * SZ" "\<forall>p \<in> set v. int_ok p" "n = (hs * 2 + 1) * (hs * 2 + 1)"
    "length d0 = n" "length p0 = n" "length h0 = n" "hs \<le> y" "y + hs \<le> SZ"
    and m: "m = foldl MediatorInsert (MediatorNew d0 p0 h0 n) (concat (map (row v SZ hs x) [0 ..< y + hs]))"
  shows "column_rows v SZ hs x [y ..< SZ - hs] m =
    map (\<lambda>y. (x + y * SZ, Some (median (block v SZ hs x y), Min (set (block v SZ hs x y)), median (block v SZ hs x y)))) [y ..< SZ - hs]"
  using assms(9,10) m
proof (induction "SZ - hs - y" arbitrary: y m)
  case 0
  then show ?case by simp
next
  case (Suc d)
  let ?vs = "concat (map (row v SZ hs x) [0 ..< y + hs + 1])" let ?b = "block v SZ hs x y"
  let ?m = "insert_row v SZ hs x (y + hs) m"
  have y: "y < SZ - hs" "y + hs < SZ" using Suc.hyps(2) by auto
  have m1: "?m = foldl MediatorInsert (MediatorNew d0 p0 h0 n) ?vs" using Suc.prems(3) by (simp add: insert_row_stream)
  have l: "length ?b = n" "length ?vs = (y + hs + 1) * (hs * 2 + 1)"
    using length_rows [OF assms(1), of v SZ "[y - hs ..< y + hs + 1]"] length_rows [OF assms(1), of v SZ "[0 ..< y + hs + 1]"] Suc.prems(1) assms(5)
    by (simp_all add: block_def del: upt_Suc)
  have n: "0 < n" "odd n" using assms(5) by simp_all
  have ne: "?b \<noteq> []" "?vs \<noteq> []"
  proof -
    have "0 < length ?b" unfolding l using n by simp
    then show "?b \<noteq> []" by (rule length_greater_0_conv [THEN iffD1])
    have "0 < length ?vs" unfolding l by simp
    then show "?vs \<noteq> []" by (rule length_greater_0_conv [THEN iffD1])
  qed
  then have ok: "int_ok (median_sum ?b)" using median_sum_in [of ?b] block_pixels [OF assms(3,2) y(2)] assms(4) l n by simp
  have "MediatorMedian ?m = Some (median ?b, Min (set ?b), median ?b)"
    unfolding m1 using stream_median [OF assms(6-8) n(1) ne(2) newest_rows [OF assms(1) Suc.prems(1) assms(5), symmetric]] ok by simp
  moreover have "column_rows v SZ hs x [Suc y ..< SZ - hs] ?m =
    map (\<lambda>y. (x + y * SZ, Some (median (block v SZ hs x y), Min (set (block v SZ hs x y)), median (block v SZ hs x y)))) [Suc y ..< SZ - hs]"
    by (rule Suc.hyps(1)) (use Suc.hyps(2) Suc.prems(1) y m1 in simp_all)
  ultimately show ?case unfolding upt_conv_Cons [OF y(1)] by (simp add: Let_def)
qed

text \<open>
  C11. The median filter of an image: in every column that is far enough from the edges, each result stands at its pixel and is the median of the square around it, together with the least pixel of the square.
\<close>

theorem column_filter_medians:
  assumes "hs \<le> x" "x + hs < SZ" "length v = SZ * SZ" "\<forall>p \<in> set v. int_ok p" "n = (hs * 2 + 1) * (hs * 2 + 1)"
    "length d0 = n" "length p0 = n" "length h0 = n"
  shows "column_filter d0 p0 h0 v SZ hs x =
    map (\<lambda>y. (x + y * SZ, Some (median (block v SZ hs x y), Min (set (block v SZ hs x y)), median (block v SZ hs x y)))) [hs ..< SZ - hs]"
proof -
  have e: "hs + hs = hs * 2 + 1 - 1" by simp
  show ?thesis unfolding column_filter_def Let_def insert_rows_stream assms(5) [symmetric] e [symmetric]
    by (rule column_rows_stream [OF assms]) (use assms(1,2) in simp_all)
qed

text \<open>
  C3. The running median: after any sequence of items has been inserted into a new mediator of size \<open>n\<close>, the result is the median of the last \<open>n\<close> items (of all items, while there are fewer), and their least item; for an even number of items it is the mean of the two middle ones, unless their sum is outside of \<open>int\<close>. In place of the greatest item the median is stored once more.
\<close>

theorem running_median:
  assumes "length d0 = n" "length p0 = n" "length h0 = n" "0 < n" "vs \<noteq> []"
    and "w = drop (length vs - n) vs"
  shows "MediatorMedian (foldl MediatorInsert (MediatorNew d0 p0 h0 n) vs) =
    (if int_ok (median_sum w) then Some (median w, Min (set w), median w) else None)"
  using assms by (rule stream_median)

section \<open>Concrete medians\<close>

theorem running_median_witness:
  "MediatorMedian (foldl MediatorInsert (MediatorNew (replicate 5 0) (replicate 5 0) (replicate 5 0) 5) [5, 3, 8, 1, 9, 2, 7]) = Some (7, 1, 7)"
proof -
  have "int_ok (median_sum [8, 1, 9, 2, 7])" "median [8, 1, 9, 2, 7] = 7" "Min (set [8, 1, 9, 2, 7 :: int]) = 1" by code_simp+
  then have "MediatorMedian (foldl MediatorInsert (MediatorNew d0 p0 h0 5) [5, 3, 8, 1, 9, 2, 7]) = Some (7, 1, 7)"
    if "length d0 = 5" "length p0 = 5" "length h0 = 5" for d0 p0 h0
    using running_median [OF that, of "[5, 3, 8, 1, 9, 2, 7]" "[8, 1, 9, 2, 7]"] by (simp del: set_simps)
  then show ?thesis by (simp only: length_replicate)
qed

theorem MediatorInsert_refines_witness:
  "ready (MediatorInsert (MediatorNew [0, 0] [0, 0] [0, 0] 2) 4) \<and> window (MediatorInsert (MediatorNew [0, 0] [0, 0] [0, 0] 2) 4) = [4]"
proof -
  have r: "ready (MediatorNew [0, 0] [0, 0] [0, 0] 2)" "ct (MediatorNew [0, 0] [0, 0] [0, 0] 2) = 0" "capacity (MediatorNew [0, 0] [0, 0] [0, 0] 2) = 2"
    using MediatorNew_ready [of "[0, 0]" 2 "[0, 0]" "[0, 0]"] by simp_all
  show ?thesis using MediatorInsert_refines [OF r(1), of 4] window_empty [OF r(1,2)] r(3) by (simp add: newest_def)
qed

theorem column_filter_medians_witness:
  "column_filter (replicate 9 0) (replicate 9 0) (replicate 9 0) [5, 1, 8, 2, 9, 3, 7, 4, 6] 3 1 1 = [(4, Some (5, 1, 5))]"
proof -
  let ?v = "[5, 1, 8, 2, 9, 3, 7, 4, 6 :: int]"
  have ok: "\<forall>p \<in> set ?v. int_ok p" by code_simp
  have v: "block ?v 3 1 1 1 = ?v" by code_simp
  have b: "median ?v = 5" "Min (set ?v) = 1" by code_simp+
  have u: "[1 ..< 3 - 1] = [1 :: nat]" by code_simp
  have "column_filter d0 p0 h0 ?v 3 1 1 = [(4, Some (5, 1, 5))]" if "length d0 = 9" "length p0 = 9" "length h0 = 9" for d0 p0 h0
  proof -
    have "column_filter d0 p0 h0 ?v 3 1 1 =
      map (\<lambda>y. (1 + y * 3, Some (median (block ?v 3 1 1 y), Min (set (block ?v 3 1 1 y)), median (block ?v 3 1 1 y)))) [1 ..< 3 - 1]"
      by (rule column_filter_medians [of 1 1 3 ?v 9 d0 p0 h0, OF _ _ _ ok _ that]) simp_all
    then show ?thesis unfolding u list.map v b by simp
  qed
  then show ?thesis by (simp only: length_replicate)
qed

end
