(* ===== verification/RelayBoard.thy ===== *)
theory RelayBoard
  imports Complex_Main Numerals
begin

text \<open>
  Relay boards behind \<open>libmodbus\<close>: the utility \<open>modbus_relay/main.c\<close> and the daemon
  \<open>modbus_relay/web_management/relay_daemon/\<close>, which drives a shutter with relays 0 and 1. The library and
  the board behind it are the argument \<open>B\<close>; a theorem that needs what they promise assumes \<open>board_laws\<close>.
\<close>

section \<open>The board\<close>

text \<open>
  The calls of \<open>libmodbus\<close> that the sources make, over a state \<open>'d\<close> of the connection and the board. A call
  gives the new state and whether it succeeded, or the values read.
\<close>

record 'd board =
  wr_bit :: "'d \<Rightarrow> nat \<Rightarrow> bool \<Rightarrow> 'd \<times> bool"
  wr_bits :: "'d \<Rightarrow> u8 list \<Rightarrow> 'd \<times> bool"
  rd_inputs :: "'d \<Rightarrow> nat \<Rightarrow> 'd \<times> u8 list option"
  rd_bits :: "'d \<Rightarrow> nat \<Rightarrow> 'd \<times> u8 list option"
  rd_register :: "'d \<Rightarrow> 'd \<times> u16 option"
  wr_registers :: "'d \<Rightarrow> u16 \<Rightarrow> 'd \<times> bool"
  wr_register :: "'d \<Rightarrow> nat \<Rightarrow> u16 \<Rightarrow> 'd \<times> bool"
  set_slave :: "'d \<Rightarrow> int \<Rightarrow> 'd \<times> bool"
  get_slave :: "'d \<Rightarrow> int"

text \<open>
  A successful write of one bit switches that coil only; a failed one leaves the other coils alone, and says nothing
  of its own. Reading switches nothing and tells the coils.
\<close>

definition board_laws :: "('d \<Rightarrow> nat \<Rightarrow> bool) \<Rightarrow> 'd board \<Rightarrow> bool" where
  "board_laws coil B \<longleftrightarrow>
     (\<forall>d i v d'. wr_bit B d i v = (d', True) \<longrightarrow> coil d' = (coil d)(i := v)) \<and>
     (\<forall>d i v d' j. wr_bit B d i v = (d', False) \<longrightarrow> j \<noteq> i \<longrightarrow> coil d' j = coil d j) \<and>
     (\<forall>d n. coil (fst (rd_inputs B d n)) = coil d) \<and>
     (\<forall>d n. coil (fst (rd_bits B d n)) = coil d) \<and>
     (\<forall>d n bs. snd (rd_bits B d n) = Some bs \<longrightarrow> bs = map (\<lambda>i. of_bool (coil d i)) [0..<n])"

definition writes_ok :: "'d board \<Rightarrow> bool" where
  "writes_ok B \<longleftrightarrow> (\<forall>d i v. snd (wr_bit B d i v))"

definition resets_ok :: "'d board \<Rightarrow> bool" where
  "resets_ok B \<longleftrightarrow> (\<forall>d i. snd (wr_bit B d i False))"

section \<open>Requests to the daemon\<close>

definition SOCKET_TIMEOUT :: real where "SOCKET_TIMEOUT = 60"
definition RELAYS_TIMEOUT :: real where "RELAYS_TIMEOUT = 10"
definition T_INTERVAL :: real where "T_INTERVAL = 1"

text \<open>Where the daemon is in the body of its loop: between the sections under the mutex requests may come.\<close>

datatype phase = Poll | Inputs | Coils | Commands

record 'd srv =
  ctx :: 'd
  relay :: "u8 list"
  ins :: "u8 list"
  relaycmd :: "int list"
  tgot :: real
  lasttchanged :: real
  phase :: phase

text \<open>The static variables at the start of a process and the locals of \<open>daemon_\<close>, started at the time \<open>t\<close>.\<close>

definition start :: "'d \<Rightarrow> real \<Rightarrow> 'd srv" where
  "start d t = \<lparr>ctx = d, relay = [0, 0], ins = [0, 0], relaycmd = [- 1, - 1],
     tgot = t, lasttchanged = - 1, phase = Poll\<rparr>"

text \<open>\<open>strstr\<close>: the text before the first occurrence of the needle and the text behind it.\<close>

fun strstr :: "string \<Rightarrow> string \<Rightarrow> (string \<times> string) option" where
  "strstr n [] = (if n = [] then Some ([], []) else None)"
| "strstr n (c # s) =
     (if take (length n) (c # s) = n then Some ([], drop (length n) (c # s))
      else map_option (\<lambda>(a, b). (c # a, b)) (strstr n s))"

text \<open>
  The word found and the text of the buffer before it. The buffer ends behind the word from then on: the space there
  is overwritten.
\<close>

definition stringscan :: "string \<Rightarrow> string \<Rightarrow> (string \<times> string) option" where
  "stringscan str needle =
     (case strstr needle str of
        None \<Rightarrow> None
      | Some (before, a) \<Rightarrow>
          (let sp = takeWhile (\<lambda>c. c = SPACE \<or> c = CR \<or> c = TAB) a; w = drop (length sp) a
           in if w = [] then None
              else Some (before @ needle @ sp, takeWhile (\<lambda>c. c \<noteq> SPACE) w)))"

text \<open>What the user asks for, and whether over the web.\<close>

definition find_request :: "string \<Rightarrow> bool \<times> string" where
  "find_request buff =
     (case (case stringscan buff ''GET'' of None \<Rightarrow> stringscan buff ''POST'' | r \<Rightarrow> r) of
        None \<Rightarrow> (False, buff)
      | Some (before, got) \<Rightarrow>
          (True, case split_at (CHR ''/'') got of None \<Rightarrow> before @ got | Some (_, found) \<Rightarrow> found))"

definition status_text :: "'d srv \<Rightarrow> string" where
  "status_text s =
     ''relay0='' @ fmt_u (unat (relay s ! 0)) @ NL # ''relay1='' @ fmt_u (unat (relay s ! 1)) @
     NL # ''in0='' @ fmt_u (unat (ins s ! 0)) @ NL # ''in1='' @ fmt_u (unat (ins s ! 1)) @ [NL]"

definition send_data :: "bool \<Rightarrow> string \<Rightarrow> string" where
  "send_data webquery textbuf =
     (if webquery then
        ''HTTP/2.0 200 OK'' @ [CR, NL] @
        ''Access-Control-Allow-Origin: *'' @ [CR, NL] @
        ''Access-Control-Allow-Methods: GET, POST'' @ [CR, NL] @
        ''Access-Control-Allow-Credentials: true'' @ [CR, NL] @
        ''Content-type: text/plain'' @ [CR, NL] @ ''Content-Length: '' @ fmt_u (length textbuf) @
        [CR, NL, CR, NL]
      else []) @ textbuf"

text \<open>The new commands for the relays, for a word that is one of the four requests.\<close>

definition user_command :: "string \<Rightarrow> 'd srv \<Rightarrow> 'd srv option" where
  "user_command found s =
     (if strcmp found ''status'' = 0 then Some s
      else if strcmp found ''stop'' = 0 then Some (s\<lparr>relaycmd := [0, 0]\<rparr>)
      else if strcmp found ''open'' = 0 then Some (s\<lparr>relaycmd := [1, 0]\<rparr>)
      else if strcmp found ''close'' = 0 then Some (s\<lparr>relaycmd := [0, 1]\<rparr>)
      else None)"

text \<open>The section under the mutex, with what is sent; \<open>bytes\<close> are those that one call of \<open>read\<close> gave.\<close>

definition handle_request :: "string \<Rightarrow> 'd srv \<Rightarrow> 'd srv \<times> string" where
  "handle_request bytes s =
     (let (webquery, found) = find_request (takeWhile (\<lambda>c. c \<noteq> CHR 0x00) bytes)
      in case user_command found s of
           None \<Rightarrow> (s, [])
         | Some s' \<Rightarrow> (s', send_data webquery (status_text s')))"

text \<open>
  One connection. Each turn of the loop has the time it starts at and what \<open>waittoread\<close> and \<open>read\<close> give: nothing yet,
  an error or the end, or bytes. None: the connection is still open when the turns given are over.
\<close>

datatype poll = Silent | Closed | Bytes string

fun handle_socket :: "real \<Rightarrow> (real \<times> poll) list \<Rightarrow> 'd srv \<Rightarrow> ('d srv \<times> string) option" where
  "handle_socket t0 [] s = None"
| "handle_socket t0 ((t, p) # ps) s =
     (if \<not> t - t0 < SOCKET_TIMEOUT then Some (s, [])
      else case p of
             Silent \<Rightarrow> handle_socket t0 ps s
           | Closed \<Rightarrow> Some (s, [])
           | Bytes b \<Rightarrow> Some (handle_request b s))"

section \<open>The loop of the daemon\<close>

definition off_step :: "'d board \<Rightarrow> nat \<Rightarrow> 'd srv \<Rightarrow> 'd srv" where
  "off_step B i s =
     (if relaycmd s ! i = 0 then
        (case wr_bit B (ctx s) i False of
           (d, False) \<Rightarrow> s\<lparr>ctx := d\<rparr>
         | (d, True) \<Rightarrow> s\<lparr>ctx := d, relaycmd := (relaycmd s)[i := - 1]\<rparr>)
      else s)"

text \<open>\<open>clk\<close> gives what the calls of \<open>sl_dtime\<close> in one step return: the first one, and that behind relay \<open>i\<close>.\<close>

definition on_step :: "'d board \<Rightarrow> (nat \<Rightarrow> real) \<Rightarrow> nat \<Rightarrow> 'd srv \<Rightarrow> 'd srv" where
  "on_step B clk i s =
     (if relaycmd s ! i = 1 then
        (case wr_bit B (ctx s) i True of
           (d, False) \<Rightarrow> s\<lparr>ctx := d\<rparr>
         | (d, True) \<Rightarrow> s\<lparr>ctx := d, relaycmd := (relaycmd s)[i := - 1], lasttchanged := clk (Suc i)\<rparr>)
      else s)"

definition time_out :: "(nat \<Rightarrow> real) \<Rightarrow> 'd srv \<Rightarrow> 'd srv" where
  "time_out clk s =
     (if lasttchanged s > - 1 \<and> clk 0 - lasttchanged s > RELAYS_TIMEOUT
         \<and> relaycmd s ! 0 = - 1 \<and> relaycmd s ! 1 = - 1
      then s\<lparr>relaycmd := [0, 0]\<rparr> else s)"

definition commands :: "'d board \<Rightarrow> (nat \<Rightarrow> real) \<Rightarrow> 'd srv \<Rightarrow> 'd srv" where
  "commands B clk s0 =
     (let s = time_out clk s0
      in if relaycmd s ! 0 > - 1 \<or> relaycmd s ! 1 > - 1 then
           (let s1 = (if relaycmd s ! 0 = 1 \<and> relaycmd s ! 1 = 1 then s\<lparr>relaycmd := [0, 0]\<rparr> else s);
                s2 = (if relaycmd s1 ! 0 = 0 \<and> relaycmd s1 ! 1 = 0 then s1\<lparr>lasttchanged := - 1\<rparr> else s1)
            in fold (on_step B clk) [0, 1] (fold (off_step B) [0, 1] s2))
         else s)"

definition daemon_step :: "'d board \<Rightarrow> (nat \<Rightarrow> real) \<Rightarrow> 'd srv \<Rightarrow> 'd srv" where
  "daemon_step B clk s =
     (case phase s of
        Poll \<Rightarrow> if clk 0 - tgot s < T_INTERVAL then s else s\<lparr>tgot := clk 1, phase := Inputs\<rparr>
      | Inputs \<Rightarrow>
          (case rd_inputs B (ctx s) 8 of
             (d, None) \<Rightarrow> s\<lparr>ctx := d, phase := Coils\<rparr>
           | (d, Some dest8) \<Rightarrow> s\<lparr>ctx := d, ins := [dest8 ! 0, dest8 ! 1], phase := Coils\<rparr>)
      | Coils \<Rightarrow>
          (case rd_bits B (ctx s) 8 of
             (d, None) \<Rightarrow> s\<lparr>ctx := d, phase := Commands\<rparr>
           | (d, Some dest8) \<Rightarrow> s\<lparr>ctx := d, relay := [dest8 ! 0, dest8 ! 1], phase := Commands\<rparr>)
      | Commands \<Rightarrow> (commands B clk s)\<lparr>phase := Poll\<rparr>)"

definition daemon_steps :: "'d board \<Rightarrow> (nat \<Rightarrow> real) list \<Rightarrow> 'd srv \<Rightarrow> 'd srv" where
  "daemon_steps B = fold (daemon_step B)"

text \<open>
  The master forks again when the child dies: the new child has the variables as they were before the first fork, and
  the board as it is.
\<close>

definition respawn :: "real \<Rightarrow> 'd srv \<Rightarrow> 'd srv" where
  "respawn t s = start (ctx s) t"

text \<open>Everything that can happen, in any order.\<close>

inductive reach :: "'d board \<Rightarrow> 'd srv \<Rightarrow> 'd srv \<Rightarrow> bool" for B s0 where
  reach_start: "reach B s0 s0"
| reach_turn: "reach B s0 s \<Longrightarrow> reach B s0 (daemon_step B clk s)"
| reach_request: "reach B s0 s \<Longrightarrow> reach B s0 (fst (handle_request bytes s))"
| reach_respawn: "reach B s0 s \<Longrightarrow> reach B s0 (respawn t s)"

section \<open>The utility\<close>

record gp =
  relaytype :: int
  nodenum :: int
  setall :: bool
  resetall :: bool
  setrelay :: "int list"
  resetrelay :: "int list"
  getinput :: "int list"
  getrelay :: "int list"
  readn :: bool
  setn :: int

text \<open>What is printed at the highest verbosity. \<open>NodeNum None\<close> is the number printed from a variable that was never set.\<close>

datatype msg = Warn string | BadNumber string int int | CantReset int | CantSet int | RelaySet int bool |
  InputIs int u8 | RelayIs int u8 | SlaveId int | NodeNum "u16 option"

text \<open>The program goes on, or leaves with a message.\<close>

datatype 'd prog = Go 'd "msg list" | Exit 'd "msg list" string

text \<open>The loops over the numbers given: an empty list is an absent option.\<close>

fun write_loop :: "'d board \<Rightarrow> bool \<Rightarrow> int list \<Rightarrow> 'd \<times> msg list \<Rightarrow> 'd \<times> msg list" where
  "write_loop B v [] st = st"
| "write_loop B v (n # p) (d, out) =
     (if n > 7 \<or> n < 0 then write_loop B v p (d, out @ [BadNumber ''Relay'' n 7])
      else case wr_bit B d (nat n) v of
             (d', False) \<Rightarrow> write_loop B v p (d', out @ [if v then CantSet n else CantReset n])
           | (d', True) \<Rightarrow> write_loop B v p (d', out @ [RelaySet n v]))"

definition read_loop :: "string \<Rightarrow> (int \<Rightarrow> u8 \<Rightarrow> msg) \<Rightarrow> nat \<Rightarrow> u8 list \<Rightarrow> int list \<Rightarrow> msg list" where
  "read_loop what mk sz dest8 =
     map (\<lambda>n. if n > int sz - 1 \<or> n < 0 then BadNumber what n (int sz - 1) else mk n (dest8 ! nat n))"

definition getN :: "'d board \<Rightarrow> 'd \<Rightarrow> msg list \<Rightarrow> 'd prog" where
  "getN B d out =
     (let s = get_slave B d
      in case set_slave B d 0 of
           (d1, False) \<Rightarrow> Exit d1 out ''Can't set modbus slave''
         | (d1, True) \<Rightarrow>
             (let out1 = out @ [SlaveId (get_slave B d1)]; (d2, nodeN) = rd_register B d1;
                  out2 = out1 @ (if nodeN = None then [Warn ''Can't read node number''] else [])
              in case set_slave B d2 s of
                   (d3, False) \<Rightarrow> Exit d3 out2 ''Can't set modbus slave''
                 | (d3, True) \<Rightarrow> Go d3 (out2 @ [NodeNum nodeN, SlaveId (get_slave B d3)])))"

definition write_part :: "'d board \<Rightarrow> gp \<Rightarrow> 'd \<Rightarrow> 'd \<times> msg list" where
  "write_part B G d =
     (let noutputs = (if relaytype G = 1 then 4 else 8)
      in if setall G then
           (let (d', ok) = (if relaytype G = 0 then wr_bits B d (replicate noutputs 1)
                            else wr_bit B d 255 True)
            in (d', if ok then [] else [Warn ''Can't set all relays'']))
         else if resetall G then
           (let (d', ok) = (if relaytype G = 0 then wr_bits B d (replicate noutputs 0)
                            else wr_bit B d 255 False)
            in (d', if ok then [] else [Warn ''Can't clear all relays'']))
         else write_loop B True (setrelay G) (write_loop B False (resetrelay G) (d, [])))"

definition read_part :: "'d board \<Rightarrow> gp \<Rightarrow> 'd \<times> msg list \<Rightarrow> 'd \<times> msg list" where
  "read_part B G st =
     (let n = (if relaytype G = 1 then 4 else 8); (d, out) = st;
          (d1, out1) = (if getinput G = [] then (d, out)
            else case rd_inputs B d n of
                   (d', None) \<Rightarrow> (d', out @ [Warn ''Can't read inputs''])
                 | (d', Some dest8) \<Rightarrow> (d', out @ read_loop ''Input'' InputIs n dest8 (getinput G)))
      in if getrelay G = [] then (d1, out1)
         else case rd_bits B d1 n of
                (d', None) \<Rightarrow> (d', out1 @ [Warn ''Can't read relays''])
              | (d', Some dest8) \<Rightarrow> (d', out1 @ read_loop ''Relay'' RelayIs n dest8 (getrelay G)))"

definition node_part :: "'d board \<Rightarrow> gp \<Rightarrow> 'd \<times> msg list \<Rightarrow> 'd prog" where
  "node_part B G st =
     (case (if readn G then getN B (fst st) (snd st) else Go (fst st) (snd st)) of
        Exit d out e \<Rightarrow> Exit d out e
      | Go d out \<Rightarrow>
          if setn G = 0 then Go d out
          else (let nodeN = word_of_int (setn G) :: u16;
                    d1 = (if relaytype G = 0 then fst (wr_registers B d nodeN) else fst (wr_register B d 0x4000 nodeN));
                    d2 = fst (set_slave B d1 (uint nodeN))
                in getN B d2 out))"

text \<open>\<open>connect\<close> is the result of \<open>modbus_connect\<close>.\<close>

definition relay_main :: "'d board \<Rightarrow> ('d \<Rightarrow> 'd \<times> bool) \<Rightarrow> gp \<Rightarrow> 'd \<Rightarrow> 'd prog" where
  "relay_main B connect G d0 =
     (case set_slave B d0 (nodenum G) of
        (d1, False) \<Rightarrow> Exit d1 [] ''Can't set modbus slave''
      | (d1, True) \<Rightarrow>
          (case connect d1 of
             (d, False) \<Rightarrow> Exit d [] ''Can't open device''
           | (d, True) \<Rightarrow>
               if relaytype G < 0 \<or> relaytype G > 1 then Exit d [] ''Type should be 0 or 1''
               else node_part B G (read_part B G (write_part B G d))))"

section \<open>Facts on the board\<close>

lemma wr_ok: "board_laws coil B \<Longrightarrow> wr_bit B d i v = (d', True) \<Longrightarrow> coil d' = (coil d)(i := v)"
  by (simp add: board_laws_def)

lemma wr_fail: "board_laws coil B \<Longrightarrow> wr_bit B d i v = (d', False) \<Longrightarrow> j \<noteq> i \<Longrightarrow> coil d' j = coil d j"
  by (simp add: board_laws_def)

lemma rd_keeps: "board_laws coil B \<Longrightarrow> rd_inputs B d n = (d', r) \<Longrightarrow> coil d' = coil d"
  "board_laws coil B \<Longrightarrow> rd_bits B d n = (d', r) \<Longrightarrow> coil d' = coil d"
  unfolding board_laws_def by (metis fst_conv)+

lemma writes_resets: "writes_ok B \<Longrightarrow> resets_ok B"
  by (simp add: writes_ok_def resets_ok_def)

lemmas step_defs = daemon_step_def commands_def time_out_def

section \<open>Requests\<close>

lemma strstr_prefix [simp]: "n \<noteq> [] \<Longrightarrow> strstr n (n @ s) = Some ([], s)"
  by (cases n) simp_all

lemma stringscan_word:
  assumes "needle \<noteq> []" "SPACE \<notin> set w" "w \<noteq> []" "hd w \<noteq> CR" "hd w \<noteq> TAB"
  shows "stringscan (needle @ SPACE # w @ SPACE # rest) needle = Some (needle @ [SPACE], w)"
proof -
  obtain c w' where w: "w = c # w'" using assms(3) by (cases w) auto
  have "takeWhile (\<lambda>x. x \<noteq> SPACE) (w' @ SPACE # rest) = w'"
    using assms(2) w by (subst takeWhile_append2) auto
  then show ?thesis using assms by (auto simp: stringscan_def w Let_def)
qed

lemma find_request_get:
  assumes "SPACE \<notin> set w"
  shows "find_request (''GET /'' @ w @ SPACE # rest) = (True, w)"
  using stringscan_word [of "''GET''" "CHR ''/'' # w" rest] assms by (simp add: find_request_def)

text \<open>
  A request of a browser, \<open>GET /w\<close> and anything behind the next space, does what the word \<open>w\<close> does and
  is answered with the state of the relays and inputs under a header of the web; an unknown word changes and sends nothing.
\<close>

theorem get_request:
  assumes "SPACE \<notin> set w" "CHR 0x00 \<notin> set w"
  shows "handle_request (''GET /'' @ w @ SPACE # rest) s =
    (case user_command w s of None \<Rightarrow> (s, []) | Some s' \<Rightarrow> (s', send_data True (status_text s)))"
proof -
  have "takeWhile (\<lambda>c. c \<noteq> CHR 0x00) (''GET /'' @ w @ SPACE # rest) =
      ''GET /'' @ w @ SPACE # takeWhile (\<lambda>c. c \<noteq> CHR 0x00) rest"
    using assms(2) by simp (subst takeWhile_append2; auto)
  moreover have "status_text s' = status_text s" if "user_command w s = Some s'" for s'
    using that by (auto simp: user_command_def status_text_def split: if_splits)
  ultimately show ?thesis
    using find_request_get [OF assms(1)] by (auto simp: handle_request_def split: option.splits)
qed

lemma user_command_keeps:
  assumes "user_command w s = Some s'"
  shows "s' = s\<lparr>relaycmd := relaycmd s'\<rparr>" "relaycmd s' \<in> {relaycmd s, [0, 0], [1, 0], [0, 1]}"
  using assms by (auto simp: user_command_def split: if_splits)

lemma handle_request_cases:
  obtains c where "fst (handle_request b s) = s\<lparr>relaycmd := c\<rparr>" "c \<in> {relaycmd s, [0, 0], [1, 0], [0, 1]}"
proof -
  obtain web found where f: "find_request (takeWhile (\<lambda>c. c \<noteq> CHR 0x00) b) = (web, found)" by fastforce
  show ?thesis
  proof (cases "user_command found s")
    case None
    then show ?thesis using f that [of "relaycmd s"] by (simp add: handle_request_def)
  next
    case (Some s')
    then show ?thesis using f that [of "relaycmd s'"] user_command_keeps [OF Some]
      by (simp add: handle_request_def)
  qed
qed

section \<open>The commands\<close>

text \<open>The commands are two, and never both to switch on.\<close>

definition cmds_ok :: "'d srv \<Rightarrow> bool" where
  "cmds_ok s \<longleftrightarrow> (\<exists>a b. relaycmd s = [a, b] \<and> a \<in> {- 1, 0, 1} \<and> b \<in> {- 1, 0, 1} \<and> \<not> (a = 1 \<and> b = 1))"

lemma cmds_ok_start [simp]: "cmds_ok (start d t)"
  by (simp add: cmds_ok_def start_def)

lemma off_step_cmds: "cmds_ok s \<Longrightarrow> i < 2 \<Longrightarrow> cmds_ok (off_step B i s)"
  by (auto simp: cmds_ok_def off_step_def less_2_cases_iff split: prod.splits bool.splits)

lemma on_step_cmds: "cmds_ok s \<Longrightarrow> i < 2 \<Longrightarrow> cmds_ok (on_step B clk i s)"
  by (auto simp: cmds_ok_def on_step_def less_2_cases_iff split: prod.splits bool.splits)

lemma time_out_cmds: "cmds_ok s \<Longrightarrow> cmds_ok (time_out clk s)"
  by (auto simp: cmds_ok_def time_out_def)

lemma not_both_one: "cmds_ok s \<Longrightarrow> \<not> (relaycmd s ! 0 = 1 \<and> relaycmd s ! Suc 0 = 1)"
  by (auto simp: cmds_ok_def)

lemma cmds_ok_updates [simp]: "cmds_ok (s\<lparr>phase := p\<rparr>) = cmds_ok s" "cmds_ok (s\<lparr>lasttchanged := t\<rparr>) = cmds_ok s"
  "cmds_ok (s\<lparr>ctx := d\<rparr>) = cmds_ok s" "cmds_ok (s\<lparr>tgot := t\<rparr>) = cmds_ok s" "cmds_ok (s\<lparr>relay := r\<rparr>) = cmds_ok s"
  "cmds_ok (s\<lparr>ins := r\<rparr>) = cmds_ok s"
  by (simp_all add: cmds_ok_def)

lemma commands_cmds: "cmds_ok s \<Longrightarrow> cmds_ok (commands B clk s)"
  using time_out_cmds [of s clk] not_both_one [of "time_out clk s"]
  by (auto simp: commands_def Let_def intro!: on_step_cmds off_step_cmds)

lemma daemon_step_cmds: "cmds_ok s \<Longrightarrow> cmds_ok (daemon_step B clk s)"
  by (auto simp: daemon_step_def commands_cmds split: phase.splits prod.splits option.splits)

lemma handle_request_cmds: "cmds_ok s \<Longrightarrow> cmds_ok (fst (handle_request b s))"
  by (rule handle_request_cases [of b s]) (auto simp: cmds_ok_def)

text \<open>
  In any order of requests, steps of the daemon and deaths of the child there are two commands of -1, 0 or 1, and
  never both relays are to be switched on: the branch that the source calls wrong is never taken.
\<close>

theorem commands_never_both_on:
  assumes "reach B (start d t) s"
  shows "\<exists>a b. relaycmd s = [a, b] \<and> a \<in> {- 1, 0, 1} \<and> b \<in> {- 1, 0, 1} \<and> \<not> (a = 1 \<and> b = 1)"
proof -
  have "cmds_ok s" using assms
    by induction (simp_all add: daemon_step_cmds handle_request_cmds respawn_def)
  then show ?thesis by (simp add: cmds_ok_def)
qed

section \<open>The relays are never both on\<close>

text \<open>A relay is wanted when it is to be switched on, or is on and not to be switched off.\<close>

definition wanted :: "('d \<Rightarrow> nat \<Rightarrow> bool) \<Rightarrow> nat \<Rightarrow> 'd srv \<Rightarrow> bool" where
  "wanted coil i s \<longleftrightarrow> relaycmd s ! i = 1 \<or> coil (ctx s) i \<and> relaycmd s ! i \<noteq> 0"

definition one_wanted :: "('d \<Rightarrow> nat \<Rightarrow> bool) \<Rightarrow> 'd srv \<Rightarrow> bool" where
  "one_wanted coil s \<longleftrightarrow> \<not> (wanted coil 0 s \<and> wanted coil 1 s) \<and> \<not> (coil (ctx s) 0 \<and> coil (ctx s) 1)"

lemma off_step_wanted:
  assumes "board_laws coil B" "resets_ok B" "length (relaycmd s) = 2" "i < 2"
  shows "wanted coil j (off_step B i s) \<longrightarrow> wanted coil j s"
    "coil (ctx (off_step B i s)) j \<longrightarrow> coil (ctx s) j"
    "relaycmd (off_step B i s) ! i \<noteq> 0"
    "length (relaycmd (off_step B i s)) = 2"
    "j \<noteq> i \<Longrightarrow> relaycmd (off_step B i s) ! j = relaycmd s ! j"
proof -
  obtain d ok where w: "wr_bit B (ctx s) i False = (d, ok)" by fastforce
  moreover have ok using assms(2) w by (metis resets_ok_def snd_conv)
  ultimately have d: "wr_bit B (ctx s) i False = (d, True)" by simp
  note c = wr_ok [OF assms(1) d]
  show "wanted coil j (off_step B i s) \<longrightarrow> wanted coil j s"
    "coil (ctx (off_step B i s)) j \<longrightarrow> coil (ctx s) j"
    "relaycmd (off_step B i s) ! i \<noteq> 0"
    "length (relaycmd (off_step B i s)) = 2"
    "j \<noteq> i \<Longrightarrow> relaycmd (off_step B i s) ! j = relaycmd s ! j"
    using c d assms(3,4) by (auto simp: off_step_def wanted_def nth_list_update)
qed

lemma on_step_wanted:
  assumes "board_laws coil B" "length (relaycmd s) = 2" "i < 2"
  shows "wanted coil j (on_step B clk i s) \<longrightarrow> wanted coil j s"
    "coil (ctx (on_step B clk i s)) j \<longrightarrow> coil (ctx s) j \<or> wanted coil j s"
    "length (relaycmd (on_step B clk i s)) = 2"
    "relaycmd s ! j \<noteq> 0 \<longrightarrow> relaycmd (on_step B clk i s) ! j \<noteq> 0"
proof -
  obtain d ok where d: "wr_bit B (ctx s) i True = (d, ok)" by fastforce
  have c: "j \<noteq> i \<longrightarrow> coil d j = coil (ctx s) j" "ok \<longrightarrow> coil d i"
    using d wr_ok [OF assms(1), of "ctx s" i True d] wr_fail [OF assms(1), of "ctx s" i True d j]
    by (cases ok; auto)+
  show "wanted coil j (on_step B clk i s) \<longrightarrow> wanted coil j s"
    "coil (ctx (on_step B clk i s)) j \<longrightarrow> coil (ctx s) j \<or> wanted coil j s"
    "length (relaycmd (on_step B clk i s)) = 2"
    "relaycmd s ! j \<noteq> 0 \<longrightarrow> relaycmd (on_step B clk i s) ! j \<noteq> 0"
    using c d assms(2,3) by (auto simp: on_step_def wanted_def nth_list_update split: bool.splits)
qed

text \<open>What the two loops do together.\<close>

definition drive :: "'d board \<Rightarrow> (nat \<Rightarrow> real) \<Rightarrow> 'd srv \<Rightarrow> 'd srv" where
  "drive B clk s = fold (on_step B clk) [0, 1] (fold (off_step B) [0, 1] s)"

lemma drive_one_wanted:
  assumes L: "board_laws coil B" and R: "resets_ok B" and n: "length (relaycmd s) = 2"
    and o: "one_wanted coil s"
  shows "one_wanted coil (drive B clk s)"
proof -
  define s1 s2 s3 where s: "s1 = off_step B 0 s" "s2 = off_step B (Suc 0) s1" "s3 = on_step B clk 0 s2"
  note off0 = off_step_wanted [OF L R n, of 0, folded s(1), simplified]
  note off1 = off_step_wanted [OF L R off0(4), of "Suc 0", folded s(2), simplified]
  note on0 = on_step_wanted [OF L off1(4), where i = 0 and clk = clk, folded s(3), simplified]
  note on1 = on_step_wanted [OF L on0(3), where i = "Suc 0" and clk = clk, simplified]
  have w: "wanted coil j (on_step B clk (Suc 0) s3) \<longrightarrow> wanted coil j s" for j
    using off0(1) off1(1) on0(1) on1(1) by blast
  have "relaycmd s2 ! j \<noteq> 0" if "j < 2" for j
    using that off0(3) off1(3) off1(5) [of 0] by (auto simp: less_2_cases_iff)
  then have "coil (ctx s2) j \<longrightarrow> wanted coil j s2" if "j < 2" for j
    using that by (simp add: wanted_def)
  then have c: "coil (ctx (on_step B clk (Suc 0) s3)) j \<longrightarrow> wanted coil j s" if "j < 2" for j
    using that off0(1) off1(1) on0(1,2) on1(2) by blast
  have "drive B clk s = on_step B clk (Suc 0) s3" by (simp add: drive_def s)
  then show ?thesis using o w c [of 0] c [of 1] by (auto simp: one_wanted_def)
qed

lemma time_out_one_wanted: "one_wanted coil s \<Longrightarrow> one_wanted coil (time_out clk s)"
  by (auto simp: one_wanted_def wanted_def time_out_def)

lemma cmds_ok_length: "cmds_ok s \<Longrightarrow> length (relaycmd s) = 2"
  by (auto simp: cmds_ok_def)

lemma one_wanted_updates [simp]: "one_wanted coil (s\<lparr>phase := p\<rparr>) = one_wanted coil s"
  "one_wanted coil (s\<lparr>lasttchanged := t\<rparr>) = one_wanted coil s" "one_wanted coil (s\<lparr>tgot := t\<rparr>) = one_wanted coil s"
  "one_wanted coil (s\<lparr>relay := r\<rparr>) = one_wanted coil s" "one_wanted coil (s\<lparr>ins := r\<rparr>) = one_wanted coil s"
  by (simp_all add: one_wanted_def wanted_def)

lemma one_wanted_ctx: "coil d = coil (ctx s) \<Longrightarrow> one_wanted coil (s\<lparr>ctx := d\<rparr>) = one_wanted coil s"
  by (simp add: one_wanted_def wanted_def)

lemma commands_drive:
  assumes "cmds_ok s"
  shows "commands B clk s =
    (let s' = time_out clk s
     in if relaycmd s' = [- 1, - 1] then s'
        else drive B clk (if relaycmd s' = [0, 0] then s'\<lparr>lasttchanged := - 1\<rparr> else s'))"
  using time_out_cmds [OF assms, of clk]
  by (auto simp: commands_def Let_def drive_def cmds_ok_def)

lemma daemon_step_one_wanted:
  assumes "board_laws coil B" "resets_ok B" "cmds_ok s" "one_wanted coil s"
  shows "one_wanted coil (daemon_step B clk s)"
proof (cases "phase s")
  case Commands
  have "one_wanted coil (commands B clk s)"
    using drive_one_wanted [OF assms(1,2)] time_out_one_wanted [OF assms(4), of clk]
      cmds_ok_length [OF time_out_cmds [OF assms(3), of clk]]
    by (simp add: commands_drive [OF assms(3)] Let_def)
  then show ?thesis using Commands by (simp add: daemon_step_def)
qed (use assms in \<open>auto simp: daemon_step_def one_wanted_ctx rd_keeps split: prod.splits option.splits\<close>)

lemma handle_request_one_wanted: "one_wanted coil s \<Longrightarrow> one_wanted coil (fst (handle_request b s))"
  by (rule handle_request_cases [of b s]) (auto simp: one_wanted_def wanted_def)

text \<open>
  C21. When every write that switches a relay off succeeds, writes that switch on may fail, the two relays are never
  both on, whatever requests come and between whichever steps of the daemon.
\<close>

theorem relays_never_both_on:
  assumes "board_laws coil B" "resets_ok B" "\<not> (coil d 0 \<and> coil d 1)" "reach B (start d t) s"
  shows "\<not> (coil (ctx s) 0 \<and> coil (ctx s) 1)"
proof -
  have "cmds_ok s \<and> one_wanted coil s" using assms(4)
  proof induction
    case reach_start
    then show ?case using assms(3) by (simp add: one_wanted_def wanted_def) (simp add: start_def)
  next
    case (reach_respawn s t)
    then show ?case by (simp add: respawn_def one_wanted_def wanted_def) (simp add: start_def)
  qed (use assms in \<open>simp_all add: daemon_step_cmds daemon_step_one_wanted handle_request_cmds handle_request_one_wanted\<close>)
  then show ?thesis by (simp add: one_wanted_def)
qed

section \<open>How long a relay is on\<close>

definition settled :: "('d \<Rightarrow> nat \<Rightarrow> bool) \<Rightarrow> real \<Rightarrow> bool \<Rightarrow> bool \<Rightarrow> 'd srv \<Rightarrow> bool" where
  "settled coil t v0 v1 s \<longleftrightarrow> relaycmd s = [- 1, - 1] \<and> lasttchanged s = t \<and> coil (ctx s) 0 = v0 \<and> coil (ctx s) 1 = v1"

lemma wr_all:
  assumes "board_laws coil B" "writes_ok B"
  obtains d' where "wr_bit B d i v = (d', True)" "coil d' = (coil d)(i := v)"
proof -
  have "snd (wr_bit B d i v)" using assms(2) by (simp add: writes_ok_def)
  then have "wr_bit B d i v = (fst (wr_bit B d i v), True)" by (simp add: prod_eq_iff)
  then show ?thesis using that wr_ok [OF assms(1)] by blast
qed

lemma drive_open:
  assumes L: "board_laws coil B" "writes_ok B" and i: "i < 2" and c: "relaycmd s = [0, 0][i := 1]"
  shows "settled coil (clk (Suc i)) (i = 0) (i = 1) (drive B clk s)"
proof -
  obtain d1 where d1: "wr_bit B (ctx s) (1 - i) False = (d1, True)" "coil d1 = (coil (ctx s))(1 - i := False)"
    by (rule wr_all [OF L])
  obtain d2 where d2: "wr_bit B d1 i True = (d2, True)" "coil d2 = (coil d1)(i := True)"
    by (rule wr_all [OF L])
  consider "i = 0" | "i = 1" using i by linarith
  then show ?thesis using c d1 d2 by cases (simp_all add: drive_def off_step_def on_step_def settled_def)
qed

lemma drive_stop:
  assumes L: "board_laws coil B" "resets_ok B" and c: "relaycmd s = [0, 0]"
  shows "settled coil (lasttchanged s) False False (drive B clk s)"
proof -
  obtain d1 where d1: "wr_bit B (ctx s) 0 False = (d1, True)" using L(2) by (metis prod.exhaust_sel resets_ok_def)
  obtain d2 where d2: "wr_bit B d1 (Suc 0) False = (d2, True)" using L(2) by (metis prod.exhaust_sel resets_ok_def)
  show ?thesis using c d1 d2 wr_ok [OF L(1) d1] wr_ok [OF L(1) d2]
    by (simp add: drive_def off_step_def on_step_def settled_def)
qed

lemma settled_cmds: "settled coil t v0 v1 s \<Longrightarrow> cmds_ok s"
  by (simp add: settled_def cmds_ok_def)

lemma settled_updates [simp]: "settled coil t v0 v1 (s\<lparr>phase := p\<rparr>) = settled coil t v0 v1 s"
  "settled coil t v0 v1 (s\<lparr>tgot := x\<rparr>) = settled coil t v0 v1 s" "settled coil t v0 v1 (s\<lparr>relay := r\<rparr>) = settled coil t v0 v1 s"
  "settled coil t v0 v1 (s\<lparr>ins := r\<rparr>) = settled coil t v0 v1 s"
  by (simp_all add: settled_def)

lemma settled_ctx: "coil d = coil (ctx s) \<Longrightarrow> settled coil t v0 v1 (s\<lparr>ctx := d\<rparr>) = settled coil t v0 v1 s"
  by (simp add: settled_def)

text \<open>Before the time is over nothing is switched, and never when no relay was switched on by this process.\<close>

lemma settled_stays:
  assumes "board_laws coil B" "settled coil t v0 v1 s" "t = - 1 \<or> clk 0 - t \<le> RELAYS_TIMEOUT"
  shows "settled coil t v0 v1 (daemon_step B clk s)"
proof -
  have "time_out clk s = s" using assms(2,3) by (auto simp: time_out_def settled_def)
  then have "commands B clk s = s"
    using assms(2) by (simp add: commands_drive [OF settled_cmds [OF assms(2)]] settled_def)
  then show ?thesis using assms
    by (auto simp: daemon_step_def settled_ctx rd_keeps split: phase.splits prod.splits option.splits)
qed

lemma settled_stays_long:
  assumes "board_laws coil B" "settled coil t v0 v1 s" "\<forall>c \<in> set cs. t = - 1 \<or> c 0 - t \<le> RELAYS_TIMEOUT"
  shows "settled coil t v0 v1 (daemon_steps B cs s)"
  using assms(2,3)
proof (induction cs arbitrary: s)
  case (Cons c cs)
  show ?case
    using Cons.IH [OF settled_stays [OF assms(1) Cons.prems(1), of c]] Cons.prems(2) by (auto simp: daemon_steps_def)
qed (simp add: daemon_steps_def)

lemma settled_ends:
  assumes "board_laws coil B" "resets_ok B" "settled coil t v0 v1 s" "- 1 < t" "clk 0 - t > RELAYS_TIMEOUT" "phase s = Commands"
  shows "settled coil (- 1) False False (daemon_step B clk s)"
proof -
  have t: "time_out clk s = s\<lparr>relaycmd := [0, 0]\<rparr>" using assms(3-5) by (simp add: time_out_def settled_def)
  show ?thesis
    using drive_stop [OF assms(1,2), of "s\<lparr>relaycmd := [0, 0], lasttchanged := - 1\<rparr>" clk]
    by (simp add: daemon_step_def assms(6) commands_drive [OF settled_cmds [OF assms(3)]] t)
qed

fun steps_left :: "phase \<Rightarrow> nat" where
  "steps_left Poll = 4"
| "steps_left Inputs = 3"
| "steps_left Coils = 2"
| "steps_left Commands = 1"

lemma waiting_step:
  assumes "board_laws coil B" "settled coil t v0 v1 s" "phase s \<noteq> Commands" "phase s = Poll \<longrightarrow> T_INTERVAL \<le> clk 0 - tgot s"
  shows "settled coil t v0 v1 (daemon_step B clk s)" "phase (daemon_step B clk s) \<noteq> Poll"
    "Suc (steps_left (phase (daemon_step B clk s))) = steps_left (phase s)"
  using assms
  by (auto simp: daemon_step_def settled_ctx rd_keeps split: phase.splits prod.splits option.splits)

lemma settled_released:
  assumes "board_laws coil B" "resets_ok B" "- 1 < t"
  shows "settled coil t v0 v1 s \<Longrightarrow> \<forall>c \<in> set cs. c 0 - t > RELAYS_TIMEOUT \<and> (phase s = Poll \<longrightarrow> T_INTERVAL \<le> c 0 - tgot s) \<Longrightarrow>
    steps_left (phase s) \<le> length cs \<Longrightarrow> settled coil (- 1) False False (daemon_steps B cs s)"
proof (induction cs arbitrary: s)
  case Nil
  then show ?case by (cases "phase s") simp_all
next
  case (Cons c cs)
  show ?case
  proof (cases "phase s = Commands")
    case True
    then show ?thesis
      using settled_ends [OF assms(1,2) Cons.prems(1) assms(3), of c] Cons.prems(2) settled_stays_long [OF assms(1), of "- 1"]
      by (simp add: daemon_steps_def)
  next
    case False
    note w = waiting_step [OF assms(1) Cons.prems(1) False, of c]
    show ?thesis using Cons.IH [OF w(1)] w Cons.prems(2,3) by (simp add: daemon_steps_def)
  qed
qed

lemma tgot_step:
  assumes "tgot s \<le> m" "phase s = Commands \<or> clk 1 \<le> m"
  shows "tgot (daemon_step B clk s) \<le> m"
proof -
  have "tgot (off_step B i x) = tgot x" "tgot (on_step B clk i x) = tgot x" for i x
    by (auto simp: off_step_def on_step_def split: prod.splits bool.splits)
  then have "tgot (commands B clk s) = tgot s" by (simp add: commands_def time_out_def Let_def)
  then show ?thesis using assms
    by (auto simp: daemon_step_def split: phase.splits prod.splits option.splits)
qed

lemma tgot_steps: "tgot s \<le> m \<Longrightarrow> \<forall>c \<in> set cs. c 1 \<le> m \<Longrightarrow> tgot (daemon_steps B cs s) \<le> m"
  by (induction cs arbitrary: s) (simp_all add: daemon_steps_def tgot_step)

text \<open>
  C40. With a working board either relay, once switched on, stays on for \<open>RELAYS_TIMEOUT\<close> while the process lives
  and nobody asks for anything, and four steps of the daemon later than that and \<open>T_INTERVAL\<close> have switched it
  off. The other relay is off all the time.
\<close>

theorem opened_then_released:
  assumes "board_laws coil B" "writes_ok B" "phase s = Commands" "i < 2" "relaycmd s = [0, 0][i := 1]"
    and "0 \<le> clk (Suc i)" "tgot s \<le> clk (Suc i)"
    and early: "\<forall>c \<in> set cs. c 0 \<le> clk (Suc i) + RELAYS_TIMEOUT \<and> c 1 \<le> clk (Suc i) + RELAYS_TIMEOUT"
    and late: "\<forall>c \<in> set cs'. c 0 > clk (Suc i) + RELAYS_TIMEOUT + T_INTERVAL" "4 \<le> length cs'"
  shows "(let d = ctx (daemon_steps B (clk # cs) s) in coil d i \<and> \<not> coil d (1 - i)) \<and>
    (let d = ctx (daemon_steps B (clk # cs @ cs') s) in \<not> coil d 0 \<and> \<not> coil d 1)"
proof -
  define t s1 where t: "t = clk (Suc i)" "s1 = daemon_step B clk s"
  have i: "i = 0 \<or> i = 1" using assms(4) by linarith
  then have k: "cmds_ok s" "time_out clk s = s" "relaycmd s \<noteq> [- 1, - 1]" "relaycmd s \<noteq> [0, 0]"
    using assms(5) by (auto simp: cmds_ok_def time_out_def)
  have s1: "settled coil t (i = 0) (i = 1) s1"
    using drive_open [OF assms(1,2,4,5), of clk] by (simp add: t daemon_step_def assms(3) commands_drive [OF k(1)] k(2-))
  have g1: "tgot s1 \<le> t + RELAYS_TIMEOUT"
    unfolding t(2) by (rule tgot_step) (use assms(3,7) in \<open>simp_all add: t RELAYS_TIMEOUT_def\<close>)
  have s2: "settled coil t (i = 0) (i = 1) (daemon_steps B cs s1)"
    by (rule settled_stays_long [OF assms(1) s1]) (use early in \<open>auto simp: t\<close>)
  have g2: "tgot (daemon_steps B cs s1) \<le> t + RELAYS_TIMEOUT"
    by (rule tgot_steps [OF g1]) (use early in \<open>simp add: t\<close>)
  have "steps_left p \<le> length cs'" for p using late(2) by (cases p) auto
  then have "settled coil (- 1) False False (daemon_steps B cs' (daemon_steps B cs s1))"
    using g2 late(1) assms(6)
    by (intro settled_released [OF assms(1) writes_resets [OF assms(2)] _ s2]) (auto simp: t T_INTERVAL_def)
  then show ?thesis using s2 i by (auto simp: daemon_steps_def t settled_def)
qed

text \<open>
  After the child died its successor never switches off what was on, however long it runs without a request: the time
  of the last change is lost with the process.
\<close>

theorem respawned_keeps_on:
  assumes "board_laws coil B"
  shows "coil (ctx (daemon_steps B cs (respawn t s))) 0 = coil (ctx s) 0 \<and>
    coil (ctx (daemon_steps B cs (respawn t s))) 1 = coil (ctx s) 1"
proof -
  have "settled coil (- 1) (coil (ctx s) 0) (coil (ctx s) 1) (respawn t s)"
    by (simp add: settled_def respawn_def start_def)
  from settled_stays_long [OF assms this, of cs]
  show ?thesis
    by (simp_all add: settled_def)
qed

text \<open>
  When relay 0 cannot be switched off and relay 1 is to be switched on, relay 1 is switched on nevertheless and
  both are on.
\<close>

theorem failed_reset_both_on:
  assumes "board_laws coil B" "phase s = Commands" "relaycmd s = [0, 1]"
    and "wr_bit B (ctx s) 0 False = (d, False)" "coil d 0" "wr_bit B d 1 True = (d', True)"
  shows "coil (ctx (daemon_step B clk s)) 0 \<and> coil (ctx (daemon_step B clk s)) 1"
  using assms wr_ok [OF assms(1,6)]
  by (simp add: daemon_step_def commands_def time_out_def off_step_def on_step_def)

section \<open>What the utility writes and tells\<close>

lemma write_loop_coils:
  assumes L: "board_laws coil B" "writes_ok B"
  shows "coil (fst (write_loop B v ns (d, out))) i = (if i \<le> 7 \<and> int i \<in> set ns then v else coil d i)"
proof (induction ns arbitrary: d out)
  case (Cons n ns)
  obtain d' where d': "wr_bit B d (nat n) v = (d', True)" "coil d' = (coil d)(nat n := v)"
    by (rule wr_all [OF L])
  show ?case using d' by (auto simp: Cons.IH)
qed simp

lemma write_part_coils:
  assumes "board_laws coil B" "writes_ok B" "\<not> setall G" "\<not> resetall G"
  shows "coil (fst (write_part B G d)) i \<longleftrightarrow>
    i \<le> 7 \<and> int i \<in> set (setrelay G) \<or> \<not> (i \<le> 7 \<and> int i \<in> set (resetrelay G)) \<and> coil d i"
  using assms(3,4) write_loop_coils [OF assms(1,2)]
  by (cases "write_loop B False (resetrelay G) (d, [])")
     (simp add: write_part_def, metis fst_conv)

text \<open>
  The utility tells of a relay what it has just written: on when it is among those to set, else off when it is among
  those to reset, else as it was.
\<close>

theorem main_set_get:
  assumes L: "board_laws coil B" "writes_ok B" and reads: "\<forall>d. snd (rd_bits B d 8) \<noteq> None"
    and "set_slave B d0 (nodenum G) = (d1, True)" "connect d1 = (d, True)"
    and G: "relaytype G = 0" "\<not> setall G" "\<not> resetall G" "getinput G = []" "\<not> readn G" "setn G = 0"
    and n: "n \<in> set (getrelay G)" "0 \<le> n" "n \<le> 7"
  shows "\<exists>d' out. relay_main B connect G d0 = Go d' out \<and>
    RelayIs n (of_bool (n \<in> set (setrelay G) \<or> n \<notin> set (resetrelay G) \<and> coil d (nat n))) \<in> set out"
proof -
  obtain dw outw where w: "write_part B G d = (dw, outw)" by fastforce
  obtain d' bs where r: "rd_bits B dw 8 = (d', Some bs)" using reads by (metis not_None_eq prod.exhaust_sel)
  then have "bs = map (\<lambda>i. of_bool (coil dw i)) [0..<8]" using L(1) unfolding board_laws_def by (metis snd_conv)
  then have "bs ! nat n = of_bool (coil dw (nat n))" using n by (simp del: upt_conv_Cons)
  moreover have "coil dw (nat n) \<longleftrightarrow> n \<in> set (setrelay G) \<or> n \<notin> set (resetrelay G) \<and> coil d (nat n)"
    using write_part_coils [OF L G(2,3), of d "nat n"] w n by (simp add: nat_le_iff)
  moreover have "RelayIs n (bs ! nat n) \<in> set (read_loop ''Relay'' RelayIs 8 bs (getrelay G))"
    using n by (force simp: read_loop_def)
  ultimately show ?thesis
    using assms(4,5) G n w r by (auto simp: relay_main_def read_part_def node_part_def)
qed

text \<open>
  When the node number cannot be read it is printed nevertheless, from a variable that was never set.
\<close>

theorem getN_uninitialised:
  assumes "set_slave B d 0 = (d1, True)" "rd_register B d1 = (d2, None)" "set_slave B d2 (get_slave B d) = (d3, True)"
  shows "\<exists>out'. getN B d out = Go d3 out' \<and> NodeNum None \<in> set out'"
  using assms by (simp add: getN_def Let_def)

section \<open>Instances\<close>

text \<open>A board whose calls all succeed, and one whose relay 0 cannot be switched off.\<close>

definition good_board :: "(nat \<Rightarrow> bool) board" where
  "good_board = \<lparr>wr_bit = \<lambda>d i v. (d(i := v), True), wr_bits = \<lambda>d bs. (\<lambda>i. i < length bs \<and> bs ! i \<noteq> 0, True),
     rd_inputs = \<lambda>d n. (d, Some (replicate n 0)), rd_bits = \<lambda>d n. (d, Some (map (\<lambda>i. of_bool (d i)) [0..<n])),
     rd_register = \<lambda>d. (d, None), wr_registers = \<lambda>d x. (d, True), wr_register = \<lambda>d a x. (d, True),
     set_slave = \<lambda>d n. (d, True), get_slave = \<lambda>d. 1\<rparr>"

definition stuck_board :: "(nat \<Rightarrow> bool) board" where
  "stuck_board = good_board\<lparr>wr_bit := \<lambda>d i v. if i = 0 \<and> \<not> v then (d, False) else (d(i := v), True)\<rparr>"

lemma good_board_laws: "board_laws (\<lambda>d. d) good_board" "writes_ok good_board" "resets_ok good_board"
  by (simp_all add: board_laws_def writes_ok_def resets_ok_def good_board_def)

lemma stuck_board_laws: "board_laws (\<lambda>d. d) stuck_board"
  by (auto simp: board_laws_def stuck_board_def good_board_def)

text \<open>The state before the commands are carried out, 2 seconds after the start, with relay 0 on or off.\<close>

definition pending :: "int list \<Rightarrow> bool \<Rightarrow> (nat \<Rightarrow> bool) srv" where
  "pending cmd on = \<lparr>ctx = \<lambda>i. i = 0 \<and> on, relay = [0, 0], ins = [0, 0], relaycmd = cmd,
     tgot = 2, lasttchanged = - 1, phase = Commands\<rparr>"

lemma reach_example:
  "reach good_board (start (\<lambda>i. False) 0)
     (daemon_step good_board (\<lambda>k. 1) (fst (handle_request ''open'' (start (\<lambda>i. False) 0))))"
  by (intro reach.intros)

lemma get_request_witness:
  "handle_request (''GET /open HTTP/1.1'') (pending [- 1, - 1] False) =
     (pending [1, 0] False, send_data True (status_text (pending [- 1, - 1] False)))"
  using get_request [of "''open''" "''HTTP/1.1''" "pending [- 1, - 1] False"]
  by (simp add: user_command_def pending_def)

lemma commands_never_both_on_witness:
  "\<exists>a b. relaycmd (daemon_step good_board (\<lambda>k. 1) (fst (handle_request ''open'' (start (\<lambda>i. False) 0)))) = [a, b] \<and>
     a \<in> {- 1, 0, 1} \<and> b \<in> {- 1, 0, 1} \<and> \<not> (a = 1 \<and> b = 1)"
  by (rule commands_never_both_on [OF reach_example])

lemma relays_never_both_on_witness:
  "\<not> (ctx (daemon_step good_board (\<lambda>k. 1) (fst (handle_request ''open'' (start (\<lambda>i. False) 0)))) 0 \<and>
      ctx (daemon_step good_board (\<lambda>k. 1) (fst (handle_request ''open'' (start (\<lambda>i. False) 0)))) 1)"
  by (rule relays_never_both_on [OF good_board_laws(1,3) _ reach_example]) simp

lemma opened_then_released_witness:
  "ctx (daemon_steps good_board [\<lambda>k. 5, \<lambda>k. 15] (pending [1, 0] False)) 0 \<and>
   \<not> ctx (daemon_steps good_board ([\<lambda>k. 5, \<lambda>k. 15] @ replicate 4 (\<lambda>k. 17)) (pending [1, 0] False)) 0"
  using opened_then_released [OF good_board_laws(1,2), of "pending [1, 0] False" 0 "\<lambda>k. 5" "[\<lambda>k. 15]" "replicate 4 (\<lambda>k. 17)"]
  by (simp add: pending_def RELAYS_TIMEOUT_def T_INTERVAL_def Let_def)

lemma respawned_keeps_on_witness:
  "\<forall>cs. ctx (daemon_steps good_board cs (respawn 9 (pending [- 1, - 1] True))) 0"
  using respawned_keeps_on [OF good_board_laws(1), of _ 9 "pending [- 1, - 1] True"] by (simp add: pending_def)

lemma failed_reset_both_on_witness:
  "ctx (daemon_step stuck_board (\<lambda>k. 5) (pending [0, 1] True)) 0 \<and> ctx (daemon_step stuck_board (\<lambda>k. 5) (pending [0, 1] True)) 1"
  by (rule failed_reset_both_on [OF stuck_board_laws, where d = "\<lambda>i. i = 0" and d' = "(\<lambda>i. i = 0)(1 := True)"])
    (simp_all add: pending_def stuck_board_def)

definition set_and_get :: gp where
  "set_and_get = \<lparr>relaytype = 0, nodenum = 1, setall = False, resetall = False, setrelay = [1], resetrelay = [1, 2],
     getinput = [], getrelay = [1], readn = False, setn = 0\<rparr>"

lemma main_set_get_witness:
  "\<exists>d' out. relay_main good_board (\<lambda>d. (d, True)) set_and_get (\<lambda>i. False) = Go d' out \<and> RelayIs 1 1 \<in> set out"
  using main_set_get [OF good_board_laws(1,2), of "\<lambda>i. False" set_and_get "\<lambda>i. False" "\<lambda>d. (d, True)" "\<lambda>i. False" 1]
  by (simp add: set_and_get_def) (simp add: good_board_def)

lemma getN_uninitialised_witness:
  "\<exists>out'. getN good_board (\<lambda>i. False) [] = Go (\<lambda>i. False) out' \<and> NodeNum None \<in> set out'"
  by (rule getN_uninitialised) (simp_all add: good_board_def)

end
