(* ===== verification/WordSubst.thy ===== *)
theory WordSubst
  imports SortSearch
begin

text \<open>
  Replacement of words by a table with hashes, \<open>deepseek/hashreplace.c\<close>: the table is filled, sorted by the hash of its
  keys and searched for every word of a text. A function that touches memory outside of its arrays gives \<open>None\<close>.
\<close>

section \<open>The table\<close>

record HashEntry =
  hash :: u32
  key :: string
  val :: string
  key_len :: nat

text \<open>\<open>size\<close> is the length of the list of entries.\<close>

record SubstitutionTable =
  entries :: "HashEntry list"
  capacity :: nat

definition hash_function :: "string \<Rightarrow> u32" where
  "hash_function str = foldl (\<lambda>hash c. push_bit 5 hash + hash + of_char c) 5381 str"

definition init_table :: "nat \<Rightarrow> SubstitutionTable" where
  "init_table initial_capacity = \<lparr>entries = [], capacity = initial_capacity\<rparr>"

definition add_substitution :: "string \<times> string \<Rightarrow> SubstitutionTable \<Rightarrow> SubstitutionTable option" where
  "add_substitution kv table =
     (let cap = (if length (entries table) \<ge> capacity table then capacity table * 2 else capacity table);
          e = \<lparr>hash = hash_function (fst kv), key = fst kv, val = snd kv, key_len = length (fst kv)\<rparr>
      in if length (entries table) < cap then Some \<lparr>entries = entries table @ [e], capacity = cap\<rparr> else None)"

fun add_all :: "(string \<times> string) list \<Rightarrow> SubstitutionTable \<Rightarrow> SubstitutionTable option" where
  "add_all [] table = Some table"
| "add_all (kv # kvs) table = Option.bind (add_substitution kv table) (add_all kvs)"

definition compare_entries :: "HashEntry \<Rightarrow> HashEntry \<Rightarrow> int" where
  "compare_entries a b = (if hash a < hash b then - 1 else if hash a > hash b then 1 else 0)"

definition sort_table :: "SubstitutionTable \<Rightarrow> SubstitutionTable" where
  "sort_table table = table\<lparr>entries := qsort compare_entries (entries table)\<rparr>"

section \<open>Searching\<close>

fun left_loop :: "HashEntry list \<Rightarrow> u32 \<Rightarrow> nat \<Rightarrow> nat" where
  "left_loop es h 0 = 0"
| "left_loop es h (Suc i) = (if hash (es ! i) = h then left_loop es h i else Suc i)"

fun scan_loop :: "u32 \<Rightarrow> string \<Rightarrow> HashEntry list \<Rightarrow> string option" where
  "scan_loop h word [] = None"
| "scan_loop h word (e # es) =
     (if hash e \<noteq> h then None
      else if key_len e = length word \<and> take (length word) (key e) = word then Some (val e)
      else scan_loop h word es)"

text \<open>
  The sum of the bounds does not wrap around: either both are below the size of the table, or the table is empty and
  the lower bound 0.
\<close>

function search_loop :: "HashEntry list \<Rightarrow> u32 \<Rightarrow> string \<Rightarrow> nat \<Rightarrow> nat \<Rightarrow> string option option" where
  "search_loop es h word low high =
     (if low \<le> high then
        (let mid = (low + high) div 2
         in if \<not> mid < length es then None
            else if hash (es ! mid) = h then Some (scan_loop h word (drop (left_loop es h mid) es))
            else if hash (es ! mid) < h then search_loop es h word (mid + 1) high
            else if mid > 0 then search_loop es h word low (mid - 1)
            else Some None)
      else Some None)"
  by pat_completeness auto
termination
  by (relation "measure (\<lambda>(es, h, word, low, high). Suc high - low)") auto

declare search_loop.simps [simp del]

text \<open>\<open>size - 1\<close> wraps around for an empty table.\<close>

definition find_substitution :: "SubstitutionTable \<Rightarrow> string \<Rightarrow> string option option" where
  "find_substitution table word =
     search_loop (entries table) (hash_function word) word 0
       ((length (entries table) + (2 ^ 64 - 1)) mod 2 ^ 64)"

section \<open>Replacing\<close>

definition isalnum :: "char \<Rightarrow> bool" where
  "isalnum c = (isalpha c \<or> 48 \<le> schar c \<and> schar c \<le> 57)"

definition is_word_boundary :: "char \<Rightarrow> bool" where
  "is_word_boundary c = (\<not> isalnum c \<and> c \<noteq> CHR ''_'')"

text \<open>\<open>room\<close> is the size of the result, \<open>result\<close> what is written to it so far.\<close>

function subst_loop :: "SubstitutionTable \<Rightarrow> nat \<Rightarrow> string \<Rightarrow> string \<Rightarrow> string option" where
  "subst_loop table room [] result = (if length result < room then Some result else None)"
| "subst_loop table room (c # s) result =
     (if is_word_boundary c then
        (if length result < room then subst_loop table room s (result @ [c]) else None)
      else
        (let word = takeWhile (\<lambda>x. \<not> is_word_boundary x) (c # s);
             p = dropWhile (\<lambda>x. \<not> is_word_boundary x) (c # s)
         in case find_substitution table word of
              None \<Rightarrow> None
            | Some (Some replacement) \<Rightarrow>
                if length result + length replacement + 1 \<le> room
                then subst_loop table room p (result @ replacement) else None
            | Some None \<Rightarrow>
                if length result + length word \<le> room then subst_loop table room p (result @ word) else None))"
  by pat_completeness auto
termination
  by (relation "measure (\<lambda>(table, room, p, result). length p)")
     (auto simp: less_Suc_eq_le length_dropWhile_le)

text \<open>\<open>alloc\<close> tells whether \<open>malloc\<close> succeeds; the inner option is the pointer returned.\<close>

definition substitute_words :: "bool \<Rightarrow> string \<Rightarrow> SubstitutionTable \<Rightarrow> string option option" where
  "substitute_words alloc input table =
     (if \<not> alloc then Some None
      else map_option Some (subst_loop table (length input * 2 + 1) input []))"

section \<open>What a search finds\<close>

definition assoc :: "HashEntry list \<Rightarrow> (string \<times> string) list" where
  "assoc es = map (\<lambda>e. (key e, val e)) es"

definition good_entry :: "HashEntry \<Rightarrow> bool" where
  "good_entry e \<longleftrightarrow> hash e = hash_function (key e) \<and> key_len e = length (key e)"

lemma assoc_simps [simp]: "assoc [] = []" "assoc (e # es) = (key e, val e) # assoc es" "assoc (xs @ ys) = assoc xs @ assoc ys"
  by (simp_all add: assoc_def)

lemma set_assoc: "set (assoc es) = (\<lambda>e. (key e, val e)) ` set es"
  by (simp add: assoc_def)

lemma scan_loop_hits:
  assumes "\<forall>e \<in> set ys. hash e = h \<and> good_entry e" "zs = [] \<or> hash (hd zs) \<noteq> h"
  shows "scan_loop h w (ys @ zs) = map_of (assoc ys) w"
  using assms
proof (induction ys)
  case Nil
  then show ?case by (cases zs) auto
next
  case (Cons e ys)
  then have "key_len e = length w \<and> take (length w) (key e) = w \<longleftrightarrow> key e = w"
    by (auto simp: good_entry_def)
  then show ?case using Cons by auto
qed

lemma left_loop_spec:
  assumes "hash (es ! m) = h"
  shows "left_loop es h m \<le> m" "hash (es ! left_loop es h m) = h"
    "left_loop es h m = 0 \<or> hash (es ! (left_loop es h m - 1)) \<noteq> h"
  using assms by (induction m) auto

lemma sorted_run_end:
  "sorted (map f xs) \<Longrightarrow> \<forall>x \<in> set xs. (h :: 'b :: linorder) \<le> f x \<Longrightarrow> z \<in> set (dropWhile (\<lambda>x. f x = h) xs) \<Longrightarrow> f z \<noteq> h"
proof (induction xs)
  case (Cons x xs)
  show ?case
  proof (cases "f x = h")
    case True
    then show ?thesis using Cons by simp
  next
    case False
    moreover have "h \<le> f x" "f x \<le> f z" using Cons.prems False by auto
    ultimately show ?thesis by simp
  qed
qed simp

lemma map_of_other_hash:
  "\<forall>e \<in> set es. good_entry e \<and> hash e \<noteq> hash_function w \<Longrightarrow> map_of (assoc es) w = None"
  by (auto simp: map_of_eq_None_iff set_assoc good_entry_def)

text \<open>The entries before, in and behind the run that begins at \<open>l\<close>.\<close>

lemma before_run:
  assumes "sorted (map hash es)" "l < length es" "hash (es ! l) = h" "l = 0 \<or> hash (es ! (l - 1)) \<noteq> h"
    and "e \<in> set (take l es)"
  shows "hash e \<noteq> h"
proof -
  obtain i where i: "i < l" "e = es ! i" using assms(2,5) by (auto simp: in_set_conv_nth)
  have a: "hash (es ! i) \<le> hash (es ! (l - 1))"
    using sorted_nth_mono [OF assms(1), of i "l - 1"] i assms(2) by simp
  have b: "hash (es ! (l - 1)) \<le> h"
    using sorted_nth_mono [OF assms(1), of "l - 1" l] assms(2,3) by simp
  have "hash (es ! (l - 1)) \<noteq> h" using assms(4) i(1) by simp
  then show ?thesis using a b i(2) by simp
qed

lemma behind_run:
  assumes "sorted (map hash es)" "l < length es" "hash (es ! l) = h" "e \<in> set (dropWhile (\<lambda>e. hash e = h) (drop l es))"
  shows "hash e \<noteq> h"
proof (rule sorted_run_end [OF _ _ assms(4)])
  show "sorted (map hash (drop l es))" using assms(1) by (simp add: drop_map [symmetric] sorted_wrt_drop)
  have "h \<le> hash (es ! (l + i))" if "i < length es - l" for i
    using sorted_nth_mono [OF assms(1), of l "l + i"] assms(3) that by simp
  then show "\<forall>x \<in> set (drop l es). h \<le> hash x" by (auto simp: in_set_conv_nth)
qed

lemma run_found:
  assumes s: "sorted (map hash es)" and g: "\<forall>e \<in> set es. good_entry e"
    and m: "m < length es" "hash (es ! m) = hash_function w"
  shows "scan_loop (hash_function w) w (drop (left_loop es (hash_function w) m) es) = map_of (assoc es) w"
proof -
  define h l where h: "h = hash_function w" "l = left_loop es h m"
  note L = left_loop_spec [of es m h, folded h(2)]
  have l: "l < length es" "hash (es ! l) = h" "l = 0 \<or> hash (es ! (l - 1)) \<noteq> h"
    using L m h(1) by auto
  define ys zs where yz: "ys = takeWhile (\<lambda>e. hash e = h) (drop l es)" "zs = dropWhile (\<lambda>e. hash e = h) (drop l es)"
  have es: "drop l es = ys @ zs" by (simp add: yz)
  have es': "take l es @ ys @ zs = es" by (simp add: yz)
  have sub: "\<forall>e \<in> set ys. good_entry e \<and> hash e = h" "\<forall>e \<in> set zs. good_entry e" "\<forall>e \<in> set (take l es). good_entry e"
    using g by (auto simp: yz dest: set_takeWhileD set_dropWhileD in_set_dropD in_set_takeD)
  have none: "map_of (assoc (take l es)) w = None" "map_of (assoc zs) w = None"
    using before_run [OF s l] behind_run [OF s l(1,2), folded yz(2)] sub
    by (auto intro!: map_of_other_hash simp: h(1))
  have "zs = [] \<or> hash (hd zs) \<noteq> h"
    using behind_run [OF s l(1,2), folded yz(2)] by (cases zs) auto
  with sub(1) have "scan_loop h w (drop l es) = map_of (assoc ys) w" unfolding es by (intro scan_loop_hits) auto
  also have "\<dots> = map_of (assoc (take l es @ ys @ zs)) w"
    using none by (simp add: map_add_def split: option.splits)
  finally show ?thesis unfolding es' by (simp add: h)
qed

lemma search_loop_found:
  assumes "sorted (map hash es)" "\<forall>e \<in> set es. good_entry e"
  shows "high < length es \<Longrightarrow> \<forall>i < length es. hash (es ! i) = hash_function w \<longrightarrow> low \<le> i \<and> i \<le> high \<Longrightarrow>
    search_loop es (hash_function w) w low high = Some (map_of (assoc es) w)"
proof (induction "Suc high - low" arbitrary: low high rule: less_induct)
  case less
  let ?h = "hash_function w" and ?mid = "(low + high) div 2"
  show ?case
  proof (cases "low \<le> high")
    case False
    then have "\<forall>e \<in> set es. hash e \<noteq> ?h" using less.prems(2) by (metis in_set_conv_nth order_trans)
    then show ?thesis using False assms(2) by (subst search_loop.simps) (simp add: map_of_other_hash)
  next
    case True
    then have m: "?mid < length es" "low \<le> ?mid" "?mid \<le> high" using less.prems(1) by auto
    consider "hash (es ! ?mid) = ?h" | "hash (es ! ?mid) < ?h" | "?h < hash (es ! ?mid)" by fastforce
    then show ?thesis
    proof cases
      case 1
      then show ?thesis using True m run_found [OF assms m(1) 1] by (subst search_loop.simps) (simp add: Let_def)
    next
      case 2
      have "?mid < i" if "i < length es" "hash (es ! i) = ?h" for i
        using sorted_nth_mono [OF assms(1), of i ?mid] that m 2 by (cases "i \<le> ?mid") auto
      then show ?thesis using less.hyps [of high "Suc ?mid"] True m 2 less.prems
        by (subst search_loop.simps) (force simp: Let_def)
    next
      case 3
      have hits: "i < ?mid" if "i < length es" "hash (es ! i) = ?h" for i
        using sorted_nth_mono [OF assms(1), of ?mid i] that m 3 by (cases "?mid \<le> i") auto
      have n: "\<not> hash (es ! ?mid) < ?h" "hash (es ! ?mid) \<noteq> ?h" using 3 by auto
      show ?thesis
      proof (cases "?mid = 0")
        case True
        then have "\<forall>e \<in> set es. hash e \<noteq> ?h" using hits by (metis in_set_conv_nth not_less0)
        then show ?thesis using True 3 m assms(2) \<open>low \<le> high\<close> order.asym [OF 3]
          by (subst search_loop.simps) (auto simp: Let_def map_of_other_hash)
      next
        case False
        have "search_loop es ?h w low (?mid - 1) = Some (map_of (assoc es) w)"
        proof (rule less.hyps)
          show "\<forall>i < length es. hash (es ! i) = ?h \<longrightarrow> low \<le> i \<and> i \<le> ?mid - 1"
            using hits less.prems(2) by (metis Suc_pred' False less_Suc_eq_le neq0_conv)
        qed (use m False in linarith)+
        then show ?thesis using \<open>low \<le> high\<close> n m False
          by (simp add: Let_def search_loop.simps [of es ?h w low high])
      qed
    qed
  qed
qed

section \<open>The table that is built\<close>

definition entry_of :: "string \<times> string \<Rightarrow> HashEntry" where
  "entry_of kv = \<lparr>hash = hash_function (fst kv), key = fst kv, val = snd kv, key_len = length (fst kv)\<rparr>"

lemma add_all_entries:
  assumes "0 < capacity t" "length (entries t) \<le> capacity t"
  shows "\<exists>c. add_all kvs t = Some \<lparr>entries = entries t @ map entry_of kvs, capacity = c\<rparr>"
  using assms
proof (induction kvs arbitrary: t)
  case Nil
  then show ?case by (intro exI [of _ "capacity t"]) simp
next
  case (Cons kv kvs)
  define c where "c = (if length (entries t) \<ge> capacity t then capacity t * 2 else capacity t)"
  then have c: "add_substitution kv t = Some \<lparr>entries = entries t @ [entry_of kv], capacity = c\<rparr>"
    "0 < c" "length (entries t) < c"
    using Cons.prems by (auto simp: add_substitution_def entry_of_def Let_def)
  then show ?case using Cons.IH [of "\<lparr>entries = entries t @ [entry_of kv], capacity = c\<rparr>"] by simp
qed

lemma compare_ranks: "ranks compare_entries hash"
  by (auto simp: ranks_def compare_entries_def)

lemma find_in_sorted:
  assumes "sorted (map hash (entries t))" "\<forall>e \<in> set (entries t). good_entry e" "entries t \<noteq> []" "length (entries t) < 2 ^ 64"
  shows "find_substitution t w = Some (map_of (assoc (entries t)) w)"
proof -
  obtain n where n: "length (entries t) = Suc n" using assms(3) by (cases "entries t") auto
  have "(length (entries t) + (2 ^ 64 - 1)) mod 2 ^ 64 = n" using n assms(4) by simp
  then show ?thesis
    unfolding find_substitution_def using n by (auto intro!: search_loop_found [OF assms(1,2)])
qed

lemma find_substitution_table:
  assumes "0 < n" "kvs \<noteq> []" "length kvs < 2 ^ 64" "distinct (map fst kvs)"
  shows "\<exists>t. add_all kvs (init_table n) = Some t \<and> (\<forall>w. find_substitution (sort_table t) w = Some (map_of kvs w))"
proof -
  obtain c where c: "add_all kvs (init_table n) = Some \<lparr>entries = map entry_of kvs, capacity = c\<rparr>"
    using add_all_entries [of "init_table n" kvs] assms(1) by (auto simp: init_table_def)
  define es where es: "es = qsort compare_entries (map entry_of kvs)"
  have a: "assoc (map entry_of kvs) = kvs" by (induction kvs) (simp_all add: entry_of_def)
  have k: "map key (map entry_of kvs) = map fst kvs" by (simp add: entry_of_def)
  have "map fst (assoc es) = map key es" by (simp add: assoc_def)
  then have "distinct (map fst (assoc es))" 
    using assms(4) qs.sorter_distinct [of key compare_entries "map entry_of kvs", unfolded k] by (simp add: es)
  moreover have "set (assoc es) = set kvs" using a by (metis es qs.sorter_set set_assoc)
  ultimately have m: "map_of (assoc es) = map_of kvs" using assms(4) by (simp add: map_of_inject_set)
  have "find_substitution (sort_table \<lparr>entries = map entry_of kvs, capacity = c\<rparr>) w = Some (map_of kvs w)" for w
    using find_in_sorted [of "\<lparr>entries = es, capacity = c\<rparr>" w] assms(2,3) qs.sorter_sorted [OF compare_ranks, of "map entry_of kvs"] m
      qs.sorter_length [of compare_entries "map entry_of kvs"]
    by (cases "es = []") (auto simp: sort_table_def es good_entry_def entry_of_def)
  then show ?thesis using c by blast
qed

section \<open>The text that comes out\<close>

text \<open>A text as words and the characters between them; a word ends where the next part begins with a boundary.\<close>

definition is_sep :: "string \<Rightarrow> bool" where
  "is_sep w \<longleftrightarrow> (\<exists>c. w = [c] \<and> is_word_boundary c)"

definition is_word :: "string \<Rightarrow> bool" where
  "is_word w \<longleftrightarrow> w \<noteq> [] \<and> (\<forall>c \<in> set w. \<not> is_word_boundary c)"

fun well_split :: "string list \<Rightarrow> bool" where
  "well_split [] \<longleftrightarrow> True"
| "well_split (w # ws) \<longleftrightarrow> (is_sep w \<or> is_word w \<and> (ws = [] \<or> is_sep (hd ws))) \<and> well_split ws"

definition replaced :: "(string \<Rightarrow> string option) \<Rightarrow> string list \<Rightarrow> string" where
  "replaced look ws = concat (map (\<lambda>w. if is_word w then case look w of None \<Rightarrow> w | Some r \<Rightarrow> r else w) ws)"

lemma replaced_simps [simp]: "replaced look [] = []"
  "replaced look (w # ws) = (if is_word w then case look w of None \<Rightarrow> w | Some r \<Rightarrow> r else w) @ replaced look ws"
  by (simp_all add: replaced_def)

lemma first_word:
  assumes "is_word w" "ws = [] \<or> is_sep (hd ws)"
  shows "takeWhile (\<lambda>x. \<not> is_word_boundary x) (w @ concat ws) = w"
    "dropWhile (\<lambda>x. \<not> is_word_boundary x) (w @ concat ws) = concat ws"
  using assms by (cases ws; auto simp: is_word_def is_sep_def takeWhile_append2)+

lemma subst_loop_replaced:
  assumes F: "\<And>w. find_substitution table w = Some (look w)"
  shows "well_split ws \<Longrightarrow> subst_loop table room (concat ws) result =
    (if length (result @ replaced look ws) < room then Some (result @ replaced look ws) else None)"
proof (induction ws arbitrary: result)
  case (Cons w ws)
  show ?case
  proof (cases "is_word w")
    case True
    then obtain c v where w: "w = c # v" "\<not> is_word_boundary c" by (cases w) (auto simp: is_word_def)
    have "ws = [] \<or> is_sep (hd ws)" using Cons.prems True w by (auto simp: is_sep_def)
    note fw = first_word [OF True this]
    show ?thesis using w fw Cons True F by (auto simp: Let_def split: option.splits)
  next
    case False
    then obtain c where w: "w = [c]" "is_word_boundary c" using Cons.prems by (auto simp: is_sep_def)
    then show ?thesis using Cons False by auto
  qed
qed simp

text \<open>
  C32. For a table of distinct keys, hashes of which may collide, and a text split into words and the characters between them
  the result is the text with every word of the table replaced, when it is at most twice as long as the text;
  otherwise the program writes behind its buffer.
\<close>

theorem substitute_words_spec:
  assumes "0 < n" "kvs \<noteq> []" "length kvs < 2 ^ 64" "distinct (map fst kvs)" "well_split ws"
    and "add_all kvs (init_table n) = Some table"
  shows "substitute_words True (concat ws) (sort_table table) =
    (if length (replaced (map_of kvs) ws) \<le> 2 * length (concat ws) then Some (Some (replaced (map_of kvs) ws)) else None)"
proof -
  have "find_substitution (sort_table table) w = Some (map_of kvs w)" for w
    using find_substitution_table [OF assms(1-4)] assms(6) by auto
  from subst_loop_replaced [OF this assms(5)] show ?thesis
    by (simp add: substitute_words_def less_Suc_eq_le mult.commute del: length_concat)
qed

text \<open>Every text is words and characters between them.\<close>

lemma well_split_exists: "\<exists>ws. concat ws = s \<and> well_split ws"
proof (induction s)
  case (Cons c s)
  then obtain ws where ws: "concat ws = s" "well_split ws" by blast
  show ?case
  proof (cases "is_word_boundary c")
    case True
    then show ?thesis using ws by (intro exI [of _ "[c] # ws"]) (simp add: is_sep_def)
  next
    case False
    show ?thesis
    proof (cases "ws \<noteq> [] \<and> is_word (hd ws)")
      case True
      then obtain v vs where v: "ws = v # vs" "is_word v" by (cases ws) auto
      then have "\<not> is_sep v" "is_word (c # v)" using False by (auto simp: is_word_def is_sep_def)
      then show ?thesis using ws v by (intro exI [of _ "(c # v) # vs"]) auto
    next
      case nw: False
      then have "ws = [] \<or> is_sep (hd ws)" using ws(2) by (cases ws) auto
      then show ?thesis using ws False by (intro exI [of _ "[c] # ws"]) (simp add: is_word_def)
    qed
  qed
qed (auto intro: exI [of _ "[]"])

text \<open>
  A search in an empty table reads outside of it: the upper bound wraps around.
\<close>

theorem empty_table_outside: "find_substitution (sort_table (init_table n)) w = None"
  by (simp add: find_substitution_def sort_table_def init_table_def search_loop.simps [of "[]"])

text \<open>
  A table of capacity 0 never grows: the first pair is written outside of it.
\<close>

theorem no_capacity_outside: "add_substitution kv (init_table 0) = None"
  by (simp add: add_substitution_def init_table_def)

lemma substitute_words_spec_witness:
  "\<exists>table. add_all [(''hello'', ''hi''), (''foo'', ''bar'')] (init_table 10) = Some table \<and>
     substitute_words True ''hello, foo'' (sort_table table) = Some (Some ''hi, bar'')"
proof -
  obtain table where t: "add_all [(''hello'', ''hi''), (''foo'', ''bar'')] (init_table 10) = Some table"
    by (simp add: init_table_def add_substitution_def)
  have w: "well_split [''hello'', '','', '' '', ''foo'']"
    by (simp add: is_sep_def is_word_def) code_simp
  have "is_word ''hello''" "is_word ''foo''" "\<not> is_word '',''" "\<not> is_word '' ''" by code_simp+
  then show ?thesis using substitute_words_spec [OF _ _ _ _ w t] t by (intro exI [of _ table]) simp
qed

end
