(* ===== verification/Snippets.thy ===== *)
theory Snippets
  imports CPrelude
begin

text \<open>
  Programs of one file each: circles of stars (\<open>_snippets/Bresenham_circle.c\<close>), sorting of three numbers
  (\<open>_snippets/fixed_sort_example.c\<close> and \<open>sorting.c\<close>) and the test for powers of two (\<open>_snippets/powerof2.c\<close>).
\<close>

section \<open>Circles\<close>

text \<open>
  The buffer of a circle holds lines of \<open>Y\<close> characters with a newline at their end
  and a NUL behind the last; a write outside of it gives \<open>None\<close>.
\<close>

definition put_char :: "int \<Rightarrow> string \<Rightarrow> string option" where
  "put_char i buf = (if 0 \<le> i \<and> i < int (length buf) then Some (buf[nat i := CHR ''*'']) else None)"

definition DrawPixel :: "bool \<Rightarrow> int \<Rightarrow> int \<Rightarrow> int \<Rightarrow> string \<Rightarrow> string option" where
  "DrawPixel geom Y x y buf =
     (if geom then (if y mod 2 = 0 then put_char (Y * y div 2 + x) buf else Some buf)
      else put_char (Y * y + x) buf)"

function newline_loop :: "nat \<Rightarrow> nat \<Rightarrow> nat \<Rightarrow> string \<Rightarrow> string" where
  "newline_loop Y S i buf = (if i < S \<and> 0 < Y then newline_loop Y S (i + Y) (buf[i := NL]) else buf)"
  by pat_completeness auto
termination
  by (relation "measure (\<lambda>(Y, S, i, buf). S - i)") auto

declare newline_loop.simps [simp del]

text \<open>The calls of \<open>DrawPixel\<close> in a turn of the loop, one after another.\<close>

definition octants :: "int \<Rightarrow> int \<Rightarrow> int \<Rightarrow> (int \<times> int) list" where
  "octants R x y =
     [(x + R, y + R), (y + R, x + R), (- x + R, y + R), (- y + R, x + R),
      (- x + R, - y + R), (- y + R, - x + R), (x + R, - y + R), (y + R, - x + R)]"

fun draw_all :: "bool \<Rightarrow> int \<Rightarrow> (int \<times> int) list \<Rightarrow> string \<Rightarrow> string option" where
  "draw_all geom Y [] buf = Some buf"
| "draw_all geom Y (p # ps) buf = Option.bind (DrawPixel geom Y (fst p) (snd p) buf) (draw_all geom Y ps)"

function circle_loop :: "bool \<Rightarrow> int \<Rightarrow> int \<Rightarrow> int \<Rightarrow> int \<Rightarrow> int \<Rightarrow> string \<Rightarrow> string option" where
  "circle_loop geom Y R x y radiusError buf =
     (if x \<ge> y then
        (case draw_all geom Y (octants R x y) buf of
           None \<Rightarrow> None
         | Some buf' \<Rightarrow>
             if radiusError < 0 then circle_loop geom Y R x (y + 1) (radiusError + (2 * (y + 1) + 1)) buf'
             else circle_loop geom Y R (x - 1) (y + 1) (radiusError + (2 * ((y + 1) - (x - 1)) + 1)) buf')
      else Some buf)"
  by pat_completeness auto
termination
  by (relation "measure (\<lambda>(geom, Y, R, x, y, e, buf). nat (x - y + 1))") auto

declare circle_loop.simps [simp del]

text \<open>\<open>alloc\<close> tells whether \<open>malloc\<close> succeeds; the inner option is the pointer returned.\<close>

definition drawCircle :: "bool \<Rightarrow> int \<Rightarrow> bool \<Rightarrow> string option option" where
  "drawCircle alloc R geom =
     (if R > 200 \<or> R < 1 then Some None
      else let Y = 2 * R + 2; S = nat (if geom then Y * (R + 1) else Y * (Y - 1))
           in if \<not> alloc then Some None
              else let buf = newline_loop (nat Y) S (nat (Y - 1)) (replicate S SPACE @ [CHR 0x00])
                   in map_option Some (circle_loop geom Y R R 0 (1 - R) buf))"

section \<open>Three numbers\<close>

definition swap_a :: "nat \<Rightarrow> nat \<Rightarrow> int list \<Rightarrow> int list" where
  "swap_a x y d =
     (let a = (if d ! x < d ! y then d ! x else d ! y); b = (if d ! x < d ! y then d ! y else d ! x)
      in d[x := a, y := b])"

definition sort3a :: "int list \<Rightarrow> int list" where
  "sort3a d = swap_a 0 1 (swap_a 1 2 (swap_a 0 1 d))"

definition cmpswap_b :: "nat \<Rightarrow> nat \<Rightarrow> int list \<Rightarrow> int list" where
  "cmpswap_b x y d = (if d ! x > d ! y then let a = d ! x; d' = d[x := d ! y] in d'[y := a] else d)"

definition sort3b :: "int list \<Rightarrow> int list" where
  "sort3b d = cmpswap_b 0 1 (cmpswap_b 1 2 (cmpswap_b 0 1 d))"

definition cmpswap_c :: "nat \<Rightarrow> nat \<Rightarrow> int list \<Rightarrow> int list" where
  "cmpswap_c x y d = (let a = d ! x; b = d ! y in if a > b then d[x := b, y := a] else d)"

definition sort3c :: "int list \<Rightarrow> int list" where
  "sort3c d = cmpswap_c 0 1 (cmpswap_c 1 2 (cmpswap_c 0 1 d))"

section \<open>Powers of two\<close>

definition IsPowerOfTwo :: "64 word \<Rightarrow> bool" where
  "IsPowerOfTwo x = (x \<noteq> 0 \<and> x AND (x - 1) = 0)"

section \<open>Pictures\<close>

text \<open>
  The buffer for a set of pixels. With \<open>geom\<close> every second row of pixels is a line, since characters are about twice as
  high as wide.
\<close>

definition width :: "int \<Rightarrow> nat" where
  "width R = nat (2 * R + 2)"

definition total :: "bool \<Rightarrow> int \<Rightarrow> nat" where
  "total geom R = width R * (if geom then nat R + 1 else width R - 1)"

definition spot :: "bool \<Rightarrow> int \<Rightarrow> nat \<Rightarrow> int \<times> int" where
  "spot geom R i = (int (i mod width R), (if geom then 2 else 1) * int (i div width R))"

definition picture :: "bool \<Rightarrow> int \<Rightarrow> (int \<times> int) set \<Rightarrow> string" where
  "picture geom R D =
     map (\<lambda>i. if i mod width R = width R - 1 then NL else if spot geom R i \<in> D then CHR ''*'' else SPACE)
       [0..<total geom R] @ [CHR 0x00]"

lemma length_picture [simp]: "length (picture geom R D) = Suc (total geom R)"
  by (simp add: picture_def)

lemma picture_nth: "i < total geom R \<Longrightarrow> picture geom R D ! i =
    (if i mod width R = width R - 1 then NL else if spot geom R i \<in> D then CHR ''*'' else SPACE)"
  "picture geom R D ! total geom R = CHR 0x00"
  by (simp_all add: picture_def nth_append)

lemma newline_loop_length [simp]: "length (newline_loop Y S i buf) = length buf"
  by (induction Y S i buf rule: newline_loop.induct) (subst newline_loop.simps, simp)

lemma newline_loop_nth:
  "0 < Y \<Longrightarrow> k < length buf \<Longrightarrow> newline_loop Y S i buf ! k = (if i \<le> k \<and> k < S \<and> k mod Y = i mod Y then NL else buf ! k)"
proof (induction Y S i buf rule: newline_loop.induct)
  case (1 Y S i buf)
  show ?case
  proof (cases "i < S \<and> 0 < Y")
    case True
    have split: "i \<le> k \<and> k mod Y = i mod Y \<longleftrightarrow> k = i \<or> i + Y \<le> k \<and> k mod Y = (i + Y) mod Y"
    proof -
      have "i + Y \<le> k" if "i < k" "k mod Y = i mod Y"
      proof -
        have "Y dvd k - i" using that by (metis less_imp_le mod_eq_dvd_iff_nat)
        then show ?thesis using that(1) by (auto dest!: dvd_imp_le)
      qed
      then show ?thesis using True by auto
    qed
    show ?thesis using True "1.IH" [OF True] "1.prems" split
      by (subst newline_loop.simps) (auto simp: nth_list_update)
  next
    case False
    then show ?thesis using "1.prems" by (subst newline_loop.simps) auto
  qed
qed

lemma start_picture:
  assumes "1 \<le> R"
  shows "newline_loop (width R) (total geom R) (width R - 1) (replicate (total geom R) SPACE @ [CHR 0x00]) = picture geom R {}"
proof (rule nth_equalityI)
  fix k assume "k < length (newline_loop (width R) (total geom R) (width R - 1) (replicate (total geom R) SPACE @ [CHR 0x00]))"
  then have k: "k < Suc (total geom R)" by simp
  have w: "0 < width R" using assms by (simp add: width_def)
  have "width R - 1 \<le> k" if "k mod width R = width R - 1" using that mod_less_eq_dividend [of k "width R"] by simp
  then show "newline_loop (width R) (total geom R) (width R - 1) (replicate (total geom R) SPACE @ [CHR 0x00]) ! k = picture geom R {} ! k"
    using k w by (cases "k = total geom R") (auto simp: newline_loop_nth picture_nth nth_append)
qed simp

section \<open>Drawing\<close>

lemma put_char_picture:
  assumes "1 \<le> R" "0 \<le> x" "x \<le> 2 * R" "0 \<le> q" "nat q < (if geom then nat R + 1 else width R - 1)"
  shows "put_char (int (width R) * q + x) (picture geom R D) =
    Some (picture geom R (insert (x, (if geom then 2 else 1) * q) D))"
proof -
  define i where "i = width R * nat q + nat x"
  have w: "nat x < width R - 1" "0 < width R" using assms(1-3) by (auto simp: width_def)
  have m: "i mod width R = nat x" "i div width R = nat q" using w by (simp_all add: i_def)
  have "i < width R * Suc (nat q)" using w by (simp add: i_def)
  also have "\<dots> \<le> total geom R" using assms(5) unfolding total_def by (intro mult_le_mono2) simp
  finally have i: "i < total geom R" .
  have e: "int (width R) * q + x = int i" using assms by (simp add: i_def)
  have "(picture geom R D)[i := CHR ''*''] = picture geom R (insert (x, (if geom then 2 else 1) * q) D)"
  proof (rule nth_equalityI)
    fix k assume "k < length ((picture geom R D)[i := CHR ''*''])"
    then have k: "k < Suc (total geom R)" by simp
    have "spot geom R k = (x, (if geom then 2 else 1) * q) \<longleftrightarrow> k = i"
    proof
      assume "spot geom R k = (x, (if geom then 2 else 1) * q)"
      then have "k mod width R = nat x" "k div width R = nat q" by (auto simp: spot_def split: if_splits)
      then show "k = i" by (metis m div_mult_mod_eq)
    qed (use m assms in \<open>simp add: spot_def\<close>)
    then show "(picture geom R D)[i := CHR ''*''] ! k = picture geom R (insert (x, (if geom then 2 else 1) * q) D) ! k"
      using k i m w by (cases "k = total geom R") (auto simp: picture_nth nth_list_update)
  qed simp
  then show ?thesis using i by (simp add: put_char_def e)
qed

lemma DrawPixel_picture:
  assumes "1 \<le> R" "0 \<le> x" "x \<le> 2 * R" "0 \<le> y" "y \<le> 2 * R"
  shows "DrawPixel geom (2 * R + 2) x y (picture geom R D) = Some (picture geom R (insert (x, y) D))"
proof -
  have W: "2 * R + 2 = int (width R)" using assms(1) by (simp add: width_def)
  show ?thesis
  proof (cases geom)
    case True
    show ?thesis
    proof (cases "y mod 2 = 0")
      case even: True
      then obtain q where q: "y = 2 * q" by (metis dvd_def dvd_eq_mod_eq_0)
      then show ?thesis using put_char_picture [of R x q True D] assms True
        by (simp add: DrawPixel_def W nat_less_iff)
    next
      case odd: False
      have "spot True R k \<noteq> (x, y)" for k using odd by (auto simp: spot_def)
      then have "picture True R (insert (x, y) D) = picture True R D" by (auto simp: picture_def)
      then show ?thesis using odd True by (simp add: DrawPixel_def)
    qed
  next
    case False
    then show ?thesis using put_char_picture [of R x y False D] assms
      by (simp add: DrawPixel_def W) (simp add: width_def nat_less_iff)
  qed
qed

lemma draw_all_picture:
  "1 \<le> R \<Longrightarrow> \<forall>p \<in> set ps. 0 \<le> fst p \<and> fst p \<le> 2 * R \<and> 0 \<le> snd p \<and> snd p \<le> 2 * R \<Longrightarrow>
   draw_all geom (2 * R + 2) ps (picture geom R D) = Some (picture geom R (set ps \<union> D))"
proof (induction ps arbitrary: D)
  case (Cons p ps)
  then show ?case by (simp add: DrawPixel_picture)
qed simp

section \<open>The points of the circle\<close>

text \<open>The points of one octant: for each \<open>y\<close> the integer \<open>x\<close> that is the nearest to the circle.\<close>

definition arc :: "int \<Rightarrow> (int \<times> int) set" where
  "arc R = {(x, y). 0 \<le> y \<and> y \<le> x \<and> x\<^sup>2 - x + y\<^sup>2 < R\<^sup>2 \<and> R\<^sup>2 \<le> x\<^sup>2 + x + y\<^sup>2}"

definition mirrored :: "int \<Rightarrow> (int \<times> int) set \<Rightarrow> (int \<times> int) set" where
  "mirrored R P = (\<Union>(x, y) \<in> P. set (octants R x y))"

lemma arc_unique:
  assumes "0 \<le> a" "0 \<le> x" "a\<^sup>2 - a < K" "K \<le> a\<^sup>2 + a" "x\<^sup>2 - x < K" "(K :: int) \<le> x\<^sup>2 + x"
  shows "a = x"
proof -
  have mono: "u\<^sup>2 + u \<le> v\<^sup>2 - v" if "0 \<le> u" "u < v" for u v :: int
    using that mult_mono [of u "v - 1" "u + 1" v] by (simp add: power2_eq_square algebra_simps)
  show ?thesis using mono [of a x] mono [of x a] assms by (cases a x rule: linorder_cases) auto
qed

lemma arc_end:
  assumes "- 1 \<le> x" "x < y" "R\<^sup>2 \<le> x\<^sup>2 + x + y\<^sup>2" "(a, b) \<in> arc R" "y \<le> b" "0 \<le> y"
  shows False
proof -
  have "x + 1 \<le> a" "0 \<le> x + 1" using assms by (auto simp: arc_def)
  then have "(x + 1) * x \<le> a * (a - 1)"
    by (cases "x = - 1"; cases "a = 0") (auto intro!: mult_mono)
  moreover have "y\<^sup>2 \<le> b\<^sup>2" using assms by (simp add: power_mono)
  ultimately show False using assms by (simp add: arc_def power2_eq_square algebra_simps)
qed

lemma arc_step:
  assumes "(x, y) \<in> arc R"
  shows "{p \<in> arc R. y \<le> snd p} = insert (x, y) {p \<in> arc R. y + 1 \<le> snd p}"
proof -
  have u: "a = x" if "(a, y) \<in> arc R" for a
    by (rule arc_unique [of a x "R\<^sup>2 - y\<^sup>2"]) (use assms that in \<open>simp_all add: arc_def\<close>)
  show ?thesis
  proof (rule set_eqI)
    fix p :: "int \<times> int"
    obtain a b where p: "p = (a, b)" by fastforce
    show "p \<in> {p \<in> arc R. y \<le> snd p} \<longleftrightarrow> p \<in> insert (x, y) {p \<in> arc R. y + 1 \<le> snd p}"
      using u [of a] assms unfolding p by (cases "b = y") auto
  qed
qed

lemma circle_loop_arc:
  assumes R: "1 \<le> R"
  shows "0 \<le> y \<Longrightarrow> - 1 \<le> x \<Longrightarrow> x \<le> R \<Longrightarrow> e = (y + 1)\<^sup>2 + x\<^sup>2 - x - R\<^sup>2 \<Longrightarrow> R\<^sup>2 \<le> x\<^sup>2 + x + y\<^sup>2 \<Longrightarrow>
    (y \<le> x \<longrightarrow> x\<^sup>2 - x + y\<^sup>2 < R\<^sup>2) \<Longrightarrow>
    circle_loop geom (2 * R + 2) R x y e (picture geom R D) =
      Some (picture geom R (mirrored R {p \<in> arc R. y \<le> snd p} \<union> D))"
proof (induction "nat (x - y + 1)" arbitrary: x y e D rule: less_induct)
  case less
  show ?case
  proof (cases "y \<le> x")
    case False
    then have e: "{p \<in> arc R. y \<le> snd p} = {}" using arc_end [of x y R] less.prems by force
    show ?thesis unfolding e using False by (subst circle_loop.simps) (simp add: mirrored_def)
  next
    case True
    then have xy: "(x, y) \<in> arc R" using less.prems by (simp add: arc_def)
    have d: "draw_all geom (2 * R + 2) (octants R x y) (picture geom R D) = Some (picture geom R (set (octants R x y) \<union> D))"
      by (rule draw_all_picture [OF R]) (use less.prems True in \<open>simp add: octants_def\<close>)
    have u: "mirrored R {p \<in> arc R. y \<le> snd p} \<union> D = mirrored R {p \<in> arc R. y + 1 \<le> snd p} \<union> (set (octants R x y) \<union> D)"
      unfolding arc_step [OF xy] by (auto simp: mirrored_def)
    show ?thesis
    proof (cases "e < 0")
      case neg: True
      have "circle_loop geom (2 * R + 2) R x (y + 1) (e + (2 * (y + 1) + 1)) (picture geom R (set (octants R x y) \<union> D)) =
        Some (picture geom R (mirrored R {p \<in> arc R. y + 1 \<le> snd p} \<union> (set (octants R x y) \<union> D)))"
        by (rule less.hyps) (use less.prems True neg in \<open>auto simp: power2_eq_square algebra_simps\<close>)
      then show ?thesis using True neg d u by (subst circle_loop.simps) simp
    next
      case pos: False
      have "y + 1 \<le> x - 1 \<longrightarrow> (x - 1)\<^sup>2 - (x - 1) + (y + 1)\<^sup>2 < R\<^sup>2"
        using less.prems(6) True by (auto simp: power2_eq_square algebra_simps)
      moreover have "R\<^sup>2 \<le> (x - 1)\<^sup>2 + (x - 1) + (y + 1)\<^sup>2"
        using pos less.prems(4) by (simp add: power2_eq_square algebra_simps)
      ultimately have "circle_loop geom (2 * R + 2) R (x - 1) (y + 1) (e + (2 * ((y + 1) - (x - 1)) + 1)) (picture geom R (set (octants R x y) \<union> D)) =
        Some (picture geom R (mirrored R {p \<in> arc R. y + 1 \<le> snd p} \<union> (set (octants R x y) \<union> D)))"
        by (intro less.hyps) (use less.prems True in \<open>auto simp: power2_eq_square algebra_simps\<close>)
      then show ?thesis using True pos d u by (subst circle_loop.simps) simp
    qed
  qed
qed

text \<open>
  C17. For every radius that is accepted the program ends, writes nowhere outside of its buffer and over no newline, and
  draws exactly the eight mirror images of the points that are the nearest to the circle.
\<close>

theorem drawCircle_picture:
  assumes "1 \<le> R" "R \<le> 200"
  shows "drawCircle True R geom = Some (Some (picture geom R (mirrored R (arc R))))"
proof -
  have t: "nat (if geom then (2 * R + 2) * (R + 1) else (2 * R + 2) * (2 * R + 2 - 1)) = total geom R"
    using assms(1) by (auto simp: total_def width_def nat_mult_distrib nat_add_distrib nat_diff_distrib)
  have w: "nat (2 * R + 2) = width R" "nat (2 * R + 2 - 1) = width R - 1" using assms(1) by (simp_all add: width_def)
  have a: "{p \<in> arc R. 0 \<le> snd p} = arc R" by (auto simp: arc_def)
  have "circle_loop geom (2 * R + 2) R R 0 (1 - R) (picture geom R {}) = Some (picture geom R (mirrored R (arc R)))"
    using circle_loop_arc [OF assms(1), of 0 R "1 - R" geom "{}"] assms a by (simp add: power2_eq_square)
  then show ?thesis using assms
    by (simp only: drawCircle_def Let_def t w start_picture [OF assms(1)]) simp
qed

lemma drawCircle_picture_witness:
  "drawCircle True 3 True = Some (Some (picture True 3 (mirrored 3 (arc 3))))"
  by (rule drawCircle_picture) simp_all

section \<open>Numbers\<close>

text \<open>
  The three ways to sort three numbers give the sorted list.
\<close>

theorem sort3_sorts: "sort3a [a, b, c] = sort [a, b, c] \<and> sort3b [a, b, c] = sort [a, b, c] \<and> sort3c [a, b, c] = sort [a, b, c]"
  by (auto simp: sort3a_def sort3b_def sort3c_def swap_a_def cmpswap_b_def cmpswap_c_def Let_def)

lemma and_pred_pow:
  fixes n :: nat
  assumes "0 < n" "n AND (n - 1) = 0"
  shows "\<exists>k. n = 2 ^ k"
proof -
  obtain k where k: "2 ^ k \<le> n" "n < 2 ^ (k + 1)" using ex_power_ivl1 [of 2 n] assms(1) by auto
  have "n = 2 ^ k"
  proof (rule ccontr)
    assume "n \<noteq> 2 ^ k"
    then have "2 ^ k \<le> n - 1" using k(1) by simp
    then have "n div 2 ^ k = 1" "(n - 1) div 2 ^ k = 1" using k by (auto intro!: div_nat_eqI)
    then have "bit n k" "bit (n - 1) k" by (simp_all add: bit_iff_odd)
    then have "bit (n AND (n - 1)) k" by (simp add: bit_and_iff)
    then show False using assms(2) by simp
  qed
  then show ?thesis by blast
qed

text \<open>
  The test holds exactly for the 64 powers of two of a 64 bit number.
\<close>

theorem IsPowerOfTwo_iff: "IsPowerOfTwo x \<longleftrightarrow> (\<exists>k < 64. x = 2 ^ k)"
proof
  assume x: "IsPowerOfTwo x"
  then have n: "x \<noteq> 0" "x AND (x - 1) = 0" by (simp_all add: IsPowerOfTwo_def)
  have "unat x AND unat (x - 1) = unat (x AND (x - 1))" by (simp add: unsigned_and_eq)
  then have "unat x AND (unat x - 1) = 0" unfolding unat_minus_one [OF n(1)] n(2) by simp
  moreover have "0 < unat x" using n(1) by (simp add: unat_gt_0)
  ultimately obtain k where k: "unat x = 2 ^ k" using and_pred_pow by blast
  have "(2::nat) ^ k < 2 ^ 64" unfolding k [symmetric] using unsigned_less [of x, where ?'a = nat] by simp
  then have "k < 64" by (rule power_less_imp_less_exp [rotated]) simp
  moreover have "x = of_nat (unat x)" by simp
  then have "x = 2 ^ k" unfolding k by simp
  ultimately show "\<exists>k < 64. x = 2 ^ k" by blast
next
  assume "\<exists>k < 64. x = 2 ^ k"
  then obtain k where k: "k < 64" "x = 2 ^ k" by blast
  have "(2 ^ k :: 64 word) AND mask k = 0" by (rule bit_eqI) (auto simp: bit_simps)
  then show "IsPowerOfTwo x" using k by (simp add: IsPowerOfTwo_def mask_eq_decr_exp)
qed

end
