(* ===== verification/BidiList.thy ===== *)
theory BidiList
  imports CPrelude "HOL-Library.Monad_Syntax"
begin

text \<open>
  A sorted list with links to both neighbours, \<open>_deprecated/bidirectional_list.c\<close>. Any node serves as the root of the list.
  A step through a pointer that points to no node gives \<open>None\<close>.
\<close>

section \<open>The program\<close>

type_synonym addr = nat
type_synonym ptr = "addr option"

record node =
  data :: int
  left_p :: ptr
  right_p :: ptr

type_synonym heap = "addr \<rightharpoonup> node"

text \<open>The node found, and the neighbours of the place where the value is or would be.\<close>

partial_function (option) search_loop :: "heap \<Rightarrow> int \<Rightarrow> bool \<Rightarrow> addr \<Rightarrow> (ptr \<times> ptr \<times> ptr) option" where
  "search_loop h v rightwards root = do {
     n \<leftarrow> h root;
     if data n > v \<and> \<not> rightwards then
       (case left_p n of None \<Rightarrow> Some (None, None, Some root) | Some p \<Rightarrow> search_loop h v rightwards p)
     else if data n < v \<and> rightwards then
       (case right_p n of None \<Rightarrow> Some (None, Some root, None) | Some p \<Rightarrow> search_loop h v rightwards p)
     else if data n = v then Some (Some root, left_p n, right_p n)
     else if \<not> rightwards then Some (None, Some root, right_p n)
     else Some (None, left_p n, Some root) }"

text \<open>The inner options of the neighbours are pointers; \<open>None\<close> around them is a variable that is not set.\<close>

definition l_search :: "heap \<Rightarrow> ptr \<Rightarrow> int \<Rightarrow> (ptr \<times> ptr option \<times> ptr option) option" where
  "l_search h root v =
     (case root of
        None \<Rightarrow> Some (None, Some None, Some None)
      | Some r \<Rightarrow> do {
          n \<leftarrow> h r;
          if data n = v then Some (Some r, None, None)
          else do {
            (found, L, R) \<leftarrow> search_loop h v (data n < v) r;
            Some (found, Some L, Some R) } })"

definition set_right :: "ptr \<Rightarrow> ptr \<Rightarrow> heap \<Rightarrow> heap option" where
  "set_right p q h = (case p of None \<Rightarrow> Some h | Some a \<Rightarrow> do { n \<leftarrow> h a; Some (h(a \<mapsto> n\<lparr>right_p := q\<rparr>)) })"

definition set_left :: "ptr \<Rightarrow> ptr \<Rightarrow> heap \<Rightarrow> heap option" where
  "set_left p q h = (case p of None \<Rightarrow> Some h | Some a \<Rightarrow> do { n \<leftarrow> h a; Some (h(a \<mapsto> n\<lparr>left_p := q\<rparr>)) })"

text \<open>\<open>a\<close> is the address that \<open>calloc\<close> gives. The neighbours are set whenever no node is found.\<close>

definition l_insert :: "addr \<Rightarrow> heap \<Rightarrow> ptr \<Rightarrow> int \<Rightarrow> (heap \<times> addr) option" where
  "l_insert a h root v = do {
     (found, L, R) \<leftarrow> l_search h root v;
     (case found of
        Some p \<Rightarrow> Some (h, p)
      | None \<Rightarrow> do {
          l \<leftarrow> L;
          r \<leftarrow> R;
          h1 \<leftarrow> set_right l (Some a) (h(a \<mapsto> \<lparr>data = v, left_p = l, right_p = r\<rparr>));
          h2 \<leftarrow> set_left r (Some a) h1;
          Some (h2, a) }) }"

definition l_remove :: "heap \<Rightarrow> ptr \<Rightarrow> int \<Rightarrow> (heap \<times> ptr) option" where
  "l_remove h root v =
     (if root = None then Some (h, root)
      else do {
        (found, L, R) \<leftarrow> l_search h root v;
        (case found of
           None \<Rightarrow> Some (h, root)
         | Some p \<Rightarrow> do {
             n \<leftarrow> h p;
             let root1 = (if root = Some p then right_p n else root);
             let root2 = (if root1 = None then left_p n else root1);
             left \<leftarrow> L;
             right \<leftarrow> R;
             h1 \<leftarrow> set_right left right (h(p := None));
             h2 \<leftarrow> set_left right left h1;
             Some (h2, root2) }) })"

section \<open>Lists in the heap\<close>

definition hdp :: "addr list \<Rightarrow> ptr \<Rightarrow> ptr" where
  "hdp xs r = (case xs of [] \<Rightarrow> r | x # _ \<Rightarrow> Some x)"

definition lastp :: "ptr \<Rightarrow> addr list \<Rightarrow> ptr" where
  "lastp l xs = (if xs = [] then l else Some (last xs))"

lemma hdp_simps [simp]: "hdp [] r = r" "hdp (x # xs) r = Some x" "hdp (xs @ ys) r = hdp xs (hdp ys r)"
  by (simp_all add: hdp_def split: list.splits)

lemma lastp_simps [simp]: "lastp l [] = l" "lastp l (xs @ [x]) = Some x" "lastp l (x # xs) = lastp (Some x) xs"
  "lastp l (xs @ ys) = lastp (lastp l xs) ys"
  by (simp_all add: lastp_def)

text \<open>The nodes \<open>xs\<close> between the neighbours \<open>l\<close> and \<open>r\<close>.\<close>

fun seg :: "heap \<Rightarrow> ptr \<Rightarrow> addr list \<Rightarrow> ptr \<Rightarrow> bool" where
  "seg h l [] r \<longleftrightarrow> True"
| "seg h l (x # xs) r \<longleftrightarrow> (\<exists>d. h x = Some \<lparr>data = d, left_p = l, right_p = hdp xs r\<rparr>) \<and> seg h (Some x) xs r"

lemma seg_append [simp]: "seg h l (xs @ ys) r \<longleftrightarrow> seg h l xs (hdp ys r) \<and> seg h (lastp l xs) ys r"
  by (induction xs arbitrary: l) auto

lemma seg_frame: "x \<notin> set xs \<Longrightarrow> seg (h(x := n)) l xs r = seg h l xs r"
  by (induction xs arbitrary: l) auto

definition value_at :: "heap \<Rightarrow> addr \<Rightarrow> int" where
  "value_at h x = data (the (h x))"

definition vals :: "heap \<Rightarrow> addr list \<Rightarrow> int list" where
  "vals h xs = map (value_at h) xs"

lemma vals_simps [simp]: "vals h [] = []" "vals h (x # xs) = value_at h x # vals h xs" "vals h (xs @ ys) = vals h xs @ vals h ys"
  by (simp_all add: vals_def)

lemma set_vals: "set (vals h xs) = value_at h ` set xs"
  by (simp add: vals_def)

definition sorted_list :: "heap \<Rightarrow> addr list \<Rightarrow> bool" where
  "sorted_list h xs \<longleftrightarrow> seg h None xs None \<and> distinct xs \<and> sorted_wrt (<) (vals h xs)"

lemma seg_node:
  assumes "seg h l (pre @ x # post) r"
  shows "h x = Some \<lparr>data = value_at h x, left_p = lastp l pre, right_p = hdp post r\<rparr>"
  using assms by (auto simp: value_at_def)

section \<open>Searching\<close>

text \<open>The place of \<open>v\<close>: at a node, or between two halves of the list.\<close>

definition placed :: "heap \<Rightarrow> int \<Rightarrow> addr list \<Rightarrow> ptr \<times> ptr \<times> ptr \<Rightarrow> bool" where
  "placed h v xs res \<longleftrightarrow>
     (\<exists>p x q. xs = p @ x # q \<and> value_at h x = v \<and> res = (Some x, lastp None p, hdp q None)) \<or>
     (\<exists>p q. xs = p @ q \<and> (\<forall>x \<in> set p. value_at h x < v) \<and> (\<forall>x \<in> set q. v < value_at h x) \<and>
        res = (None, lastp None p, hdp q None))"

lemma placed_at: "value_at h x = v \<Longrightarrow> placed h v (p @ x # q) (Some x, lastp None p, hdp q None)"
  by (auto simp: placed_def)

lemma placed_between:
  "\<forall>x \<in> set p. value_at h x < v \<Longrightarrow> \<forall>x \<in> set q. v < value_at h x \<Longrightarrow> placed h v (p @ q) (None, lastp None p, hdp q None)"
  by (auto simp: placed_def)

lemma search_loop_node:
  assumes "h x = Some \<lparr>data = d, left_p = l, right_p = r\<rparr>"
  shows "d = v \<Longrightarrow> search_loop h v rightwards x = Some (Some x, l, r)"
    "v < d \<Longrightarrow> search_loop h v False x = (case l of None \<Rightarrow> Some (None, None, Some x) | Some p \<Rightarrow> search_loop h v False p)"
    "d < v \<Longrightarrow> search_loop h v False x = Some (None, Some x, r)"
    "d < v \<Longrightarrow> search_loop h v True x = (case r of None \<Rightarrow> Some (None, Some x, None) | Some p \<Rightarrow> search_loop h v True p)"
    "v < d \<Longrightarrow> search_loop h v True x = Some (None, l, Some x)"
  using assms by (subst search_loop.simps, simp)+

lemma search_left:
  assumes "seg h None (pre @ x # post) None" "\<forall>y \<in> set post. v < value_at h y"
    and "\<forall>y \<in> set pre. value_at h y < value_at h x" "sorted_wrt (<) (vals h pre)"
  shows "\<exists>res. search_loop h v False x = Some res \<and> placed h v (pre @ x # post) res"
  using assms
proof (induction pre arbitrary: x post rule: rev_induct)
  case Nil
  note n = search_loop_node [of h x, OF seg_node [OF Nil(1)], of v]
  show ?case
    using n placed_at [of h x v "[]" post] placed_between [of "[]" h v "x # post"] placed_between [of "[x]" h v post] Nil
    by (cases "value_at h x" v rule: linorder_cases) auto
next
  case (snoc y pre)
  note n = search_loop_node [of h x, OF seg_node [OF snoc.prems(1)], of v]
  consider "value_at h x = v" | "v < value_at h x" | "value_at h x < v" by linarith
  then show ?case
  proof cases
    case 1
    then show ?thesis using n(1) placed_at [of h x v "pre @ [y]" post] by auto
  next
    case 2
    have "\<exists>res. search_loop h v False y = Some res \<and> placed h v (pre @ y # (x # post)) res"
      by (rule snoc.IH) (use snoc.prems 2 in \<open>auto simp: vals_def sorted_wrt_append\<close>)
    then show ?thesis using n(2) 2 by simp
  next
    case 3
    have "\<forall>z \<in> set (pre @ [y, x]). value_at h z < v" using snoc.prems(3) 3 by force
    then show ?thesis using n(3) 3 snoc.prems(2) placed_between [of "pre @ [y, x]" h v post] by simp
  qed
qed

lemma search_right:
  assumes "seg h None (pre @ x # post) None" "\<forall>y \<in> set pre. value_at h y < v"
    and "\<forall>y \<in> set post. value_at h x < value_at h y" "sorted_wrt (<) (vals h post)"
  shows "\<exists>res. search_loop h v True x = Some res \<and> placed h v (pre @ x # post) res"
  using assms
proof (induction post arbitrary: x pre)
  case Nil
  note n = search_loop_node [of h x, OF seg_node [OF Nil(1)], of v]
  show ?case
    using n placed_at [of h x v pre "[]"] placed_between [of pre h v "[x]"] placed_between [of "pre @ [x]" h v "[]"] Nil
    by (cases "value_at h x" v rule: linorder_cases) auto
next
  case (Cons y post)
  note n = search_loop_node [of h x, OF seg_node [OF Cons.prems(1)], of v]
  consider "value_at h x = v" | "v < value_at h x" | "value_at h x < v" by linarith
  then show ?case
  proof cases
    case 1
    then show ?thesis using n(1) placed_at [of h x v pre "y # post"] by auto
  next
    case 2
    have "\<forall>z \<in> set (x # y # post). v < value_at h z" using Cons.prems(3) 2 by force
    then show ?thesis using n(5) 2 Cons.prems(2) placed_between [of pre h v "x # y # post"] by simp
  next
    case 3
    have "\<exists>res. search_loop h v True y = Some res \<and> placed h v ((pre @ [x]) @ y # post) res"
      by (rule Cons.IH) (use Cons.prems 3 in \<open>auto simp: vals_def\<close>)
    then show ?thesis using n(4) 3 by simp
  qed
qed

lemma l_search_placed:
  assumes "sorted_list h xs" "r \<in> set xs"
  shows "if value_at h r = v then l_search h (Some r) v = Some (Some r, None, None)
    else \<exists>f L R. l_search h (Some r) v = Some (f, Some L, Some R) \<and> placed h v xs (f, L, R)"
proof -
  obtain pre post where xs: "xs = pre @ r # post" using assms(2) by (meson split_list)
  have s: "seg h None (pre @ r # post) None" using assms(1) xs by (simp add: sorted_list_def)
  have o: "\<forall>y \<in> set pre. value_at h y < value_at h r" "\<forall>y \<in> set post. value_at h r < value_at h y"
    "sorted_wrt (<) (vals h pre)" "sorted_wrt (<) (vals h post)"
    using assms(1) by (auto simp: sorted_list_def xs vals_def sorted_wrt_append)
  note n = seg_node [OF s]
  consider "value_at h r = v" | "v < value_at h r" | "value_at h r < v" by linarith
  then show ?thesis
  proof cases
    case 1
    then show ?thesis using n by (simp add: l_search_def)
  next
    case 2
    have "\<forall>y \<in> set post. v < value_at h y" using o 2 by force
    from search_left [OF s this o(1,3)] show ?thesis using n 2 by (auto simp: l_search_def xs)
  next
    case 3
    have "\<forall>y \<in> set pre. value_at h y < v" using o 3 by force
    from search_right [OF s this o(2,4)] show ?thesis using n 3 by (auto simp: l_search_def xs)
  qed
qed

section \<open>Inserting and removing\<close>

lemma set_right_seg:
  assumes "seg h l p r" "distinct p"
  shows "\<exists>h'. set_right (lastp None p) q h = Some h' \<and> seg h' l p q \<and> (\<forall>x. x \<notin> set p \<longrightarrow> h' x = h x) \<and>
    (\<forall>x. value_at h' x = value_at h x)"
proof (cases p rule: rev_cases)
  case Nil
  then show ?thesis by (simp add: set_right_def)
next
  case (snoc p' x)
  obtain d where d: "h x = Some \<lparr>data = d, left_p = lastp l p', right_p = r\<rparr>" using assms(1) snoc by auto
  then show ?thesis using assms(1,2) snoc
    by (simp add: set_right_def seg_frame value_at_def)
qed

lemma set_left_seg:
  assumes "seg h l p r" "distinct p"
  shows "\<exists>h'. set_left (hdp p None) q h = Some h' \<and> seg h' q p r \<and> (\<forall>x. x \<notin> set p \<longrightarrow> h' x = h x) \<and>
    (\<forall>x. value_at h' x = value_at h x)"
proof (cases p)
  case Nil
  then show ?thesis by (simp add: set_left_def)
next
  case (Cons x p')
  obtain d where d: "h x = Some \<lparr>data = d, left_p = l, right_p = hdp p' r\<rparr>" using assms(1) Cons by auto
  then show ?thesis using assms Cons
    by (simp add: set_left_def seg_frame value_at_def)
qed

lemma seg_cong: "\<forall>x \<in> set xs. h' x = h x \<Longrightarrow> seg h' l xs r = seg h l xs r"
  by (induction xs arbitrary: l) auto

text \<open>Both links at the border of two halves are set anew.\<close>

lemma relink:
  assumes "seg h None p r" "seg h l q None" "distinct (p @ q)"
  shows "\<exists>h1 h2. set_right (lastp None p) a h = Some h1 \<and> set_left (hdp q None) b h1 = Some h2 \<and>
    seg h2 None p a \<and> seg h2 b q None \<and> (\<forall>x. x \<notin> set (p @ q) \<longrightarrow> h2 x = h x) \<and> (\<forall>x. value_at h2 x = value_at h x)"
proof -
  have d: "distinct p" "distinct q" "set p \<inter> set q = {}" using assms(3) by auto
  obtain h1 where h1: "set_right (lastp None p) a h = Some h1" "seg h1 None p a" "\<forall>x. x \<notin> set p \<longrightarrow> h1 x = h x"
    "\<forall>x. value_at h1 x = value_at h x"
    using set_right_seg [OF assms(1) d(1), of a] by blast
  have "seg h1 l q None" using assms(2) seg_cong [of q h1 h] h1(3) d(3) by auto
  from set_left_seg [OF this d(2), of b] obtain h2 where h2: "set_left (hdp q None) b h1 = Some h2" "seg h2 b q None"
    "\<forall>x. x \<notin> set q \<longrightarrow> h2 x = h1 x" "\<forall>x. value_at h2 x = value_at h1 x" by blast
  have "seg h2 None p a" using h1(2) seg_cong [of p h2 h1] h2(3) d(3) by auto
  then show ?thesis using h1 h2 by auto
qed

text \<open>
  C19. Inserting from any node of a list ends and gives a sorted list with the value, at the node returned, and with all the
  others; a value that is there is not inserted again.
\<close>

theorem l_insert_sorted:
  assumes "sorted_list h xs" "r \<in> set xs" "h a = None"
  shows "\<exists>h' x ys. l_insert a h (Some r) v = Some (h', x) \<and> sorted_list h' ys \<and> x \<in> set ys \<and> value_at h' x = v \<and>
    set (vals h' ys) = insert v (set (vals h xs))"
proof (cases "value_at h r = v")
  case True
  then show ?thesis using l_search_placed [OF assms(1,2), of v] assms
    by (intro exI [of _ h] exI [of _ r] exI [of _ xs]) (auto simp: l_insert_def vals_def)
next
  case False
  then obtain f L R where l: "l_search h (Some r) v = Some (f, Some L, Some R)" "placed h v xs (f, L, R)"
    using l_search_placed [OF assms(1,2), of v] by auto
  have s: "seg h None xs None" "distinct xs" "sorted_wrt (<) (vals h xs)" using assms(1) by (auto simp: sorted_list_def)
  show ?thesis
  proof (cases f)
    case (Some x)
    then have "x \<in> set xs" "value_at h x = v" using l(2) by (auto simp: placed_def)
    then show ?thesis using l(1) Some assms(1)
      by (intro exI [of _ h] exI [of _ x] exI [of _ xs]) (auto simp: l_insert_def vals_def)
  next
    case None
    then obtain p q where pq: "xs = p @ q" "\<forall>x \<in> set p. value_at h x < v" "\<forall>x \<in> set q. v < value_at h x"
      "L = lastp None p" "R = hdp q None" using l(2) by (auto simp: placed_def)
    have a: "a \<notin> set xs"
    proof
      assume "a \<in> set xs"
      then obtain u w where "xs = u @ a # w" by (meson split_list)
      then show False using s(1) assms(3) by auto
    qed
    define h0 where "h0 = h(a \<mapsto> \<lparr>data = v, left_p = L, right_p = R\<rparr>)"
    have v0: "value_at h0 x = value_at h x" if "x \<in> set xs" for x
      using that a by (auto simp: h0_def value_at_def)
    have "seg h0 None p (hdp q None)" "seg h0 (lastp None p) q None"
      using s(1) a by (auto simp: h0_def pq(1) seg_frame)
    from relink [OF this, of "Some a" "Some a"] s(2) pq(1) obtain h1 h2
      where h: "set_right L (Some a) h0 = Some h1" "set_left R (Some a) h1 = Some h2"
        "seg h2 None p (Some a)" "seg h2 (Some a) q None" "\<forall>x. x \<notin> set (p @ q) \<longrightarrow> h2 x = h0 x"
        "\<forall>x. value_at h2 x = value_at h0 x" by (auto simp: pq(4,5))
    have av: "h2 a = Some \<lparr>data = v, left_p = L, right_p = R\<rparr>" using h(5) a pq(1) by (simp add: h0_def)
    have vs: "vals h2 p = vals h p" "vals h2 q = vals h q" "value_at h2 a = v"
      using h(6) v0 av by (auto simp: vals_def pq(1) value_at_def)
    have "sorted_list h2 (p @ a # q)"
      using h(3,4) av s(2,3) a pq vs by (auto simp: sorted_list_def set_vals sorted_wrt_append)
    then show ?thesis using l(1) None h(1,2) vs pq(1)
      by (intro exI [of _ h2] exI [of _ a] exI [of _ "p @ a # q"]) (auto simp: l_insert_def h0_def)
  qed
qed

text \<open>
  Inserting into an empty list gives a list of one node.
\<close>

theorem l_insert_empty:
  "\<exists>h'. l_insert a h None v = Some (h', a) \<and> sorted_list h' [a] \<and> vals h' [a] = [v]"
  by (simp add: l_insert_def l_search_def set_right_def set_left_def sorted_list_def vals_def value_at_def)

text \<open>
  Removing a value other than that of the root gives a sorted list of the other values with the same root.
\<close>

theorem l_remove_other:
  assumes "sorted_list h xs" "r \<in> set xs" "v \<noteq> value_at h r"
  shows "\<exists>h' ys. l_remove h (Some r) v = Some (h', Some r) \<and> sorted_list h' ys \<and> r \<in> set ys \<and>
    set (vals h' ys) = set (vals h xs) - {v}"
proof -
  obtain f L R where l: "l_search h (Some r) v = Some (f, Some L, Some R)" "placed h v xs (f, L, R)"
    using l_search_placed [OF assms(1,2), of v] assms(3) by auto
  have s: "seg h None xs None" "distinct xs" "sorted_wrt (<) (vals h xs)" using assms(1) by (auto simp: sorted_list_def)
  show ?thesis
  proof (cases f)
    case None
    then have "v \<notin> set (vals h xs)" using l(2) by (auto simp: placed_def vals_def)
    then show ?thesis using l(1) None assms by (intro exI [of _ h] exI [of _ xs]) (simp add: l_remove_def)
  next
    case (Some x)
    then obtain p q where pq: "xs = p @ x # q" "value_at h x = v" "L = lastp None p" "R = hdp q None"
      using l(2) by (auto simp: placed_def)
    have x: "x \<notin> set p" "x \<notin> set q" "x \<noteq> r" using s(2) pq assms(3) by auto
    note n = seg_node [OF s(1) [unfolded pq(1)]]
    define h0 where "h0 = h(x := None)"
    have v0: "value_at h0 y = value_at h y" if "y \<noteq> x" for y using that by (simp add: h0_def value_at_def)
    have "seg h0 None p (Some x)" "seg h0 (Some x) q None"
      using s(1) x by (auto simp: h0_def pq(1) seg_frame)
    from relink [OF this, of R L] s(2) pq(1) obtain h1 h2
      where h: "set_right L R h0 = Some h1" "set_left R L h1 = Some h2" "seg h2 None p R" "seg h2 L q None"
        "\<forall>y. value_at h2 y = value_at h0 y" by (auto simp: pq(3,4))
    have "value_at h2 y = value_at h y" if "y \<in> set p \<union> set q" for y using that h(5) v0 [of y] x by (cases "y = x") auto
    then have vs: "vals h2 p = vals h p" "vals h2 q = vals h q" by (simp_all add: vals_def)
    have "sorted_list h2 (p @ q)"
      using h(3,4) s(2,3) pq vs by (auto simp: sorted_list_def set_vals sorted_wrt_append)
    moreover have "v \<notin> set (vals h p)" "v \<notin> set (vals h q)"
      using s(3) by (auto simp: pq vals_def sorted_wrt_append)
    ultimately show ?thesis using l(1) Some h(1,2) vs pq(1,2) x(3) n assms(2)
      by (intro exI [of _ h2] exI [of _ "p @ q"]) (auto simp: l_remove_def h0_def)
  qed
qed

text \<open>
  Removing the value of the root uses pointers that were never set.
\<close>

theorem l_remove_root: "h r = Some n \<Longrightarrow> l_remove h (Some r) (data n) = None"
  by (simp add: l_remove_def l_search_def Let_def)

text \<open>
  A search from any node ends, without a bad pointer, and finds a node with the value exactly when there is one.
\<close>

theorem l_search_finds:
  assumes "sorted_list h xs" "r \<in> set xs"
  shows "\<exists>f L R. l_search h (Some r) v = Some (f, L, R) \<and>
    (case f of None \<Rightarrow> v \<notin> set (vals h xs) | Some x \<Rightarrow> x \<in> set xs \<and> value_at h x = v)"
proof (cases "value_at h r = v")
  case True
  then show ?thesis using l_search_placed [OF assms, of v] assms(2) by simp
next
  case False
  then obtain f L R where "l_search h (Some r) v = Some (f, Some L, Some R)" "placed h v xs (f, L, R)"
    using l_search_placed [OF assms, of v] by auto
  then show ?thesis by (auto simp: placed_def set_vals)
qed

section \<open>An instance\<close>

definition two_nodes :: heap where
  "two_nodes = [0 \<mapsto> \<lparr>data = 2, left_p = None, right_p = Some 1\<rparr>, 1 \<mapsto> \<lparr>data = 6, left_p = Some 0, right_p = None\<rparr>]"

lemma two_nodes_list: "sorted_list two_nodes [0, 1]" "two_nodes 2 = None"
  by (simp_all add: sorted_list_def two_nodes_def value_at_def)

lemma two_nodes_values: "value_at two_nodes 0 = 2" "value_at two_nodes (Suc 0) = 6"
  by (simp_all add: two_nodes_def value_at_def)

lemma l_search_finds_witness:
  "\<exists>f L R. l_search two_nodes (Some 1) 3 = Some (f, L, R) \<and>
    (case f of None \<Rightarrow> 3 \<notin> set (vals two_nodes [0, 1]) | Some x \<Rightarrow> x \<in> set [0, 1] \<and> value_at two_nodes x = 3)"
  by (rule l_search_finds [OF two_nodes_list(1)]) simp

lemma l_insert_sorted_witness:
  "\<exists>h' x ys. l_insert 2 two_nodes (Some 1) 3 = Some (h', x) \<and> sorted_list h' ys \<and> x \<in> set ys \<and> value_at h' x = 3 \<and>
    set (vals h' ys) = {3, 2, 6}"
  using l_insert_sorted [OF two_nodes_list(1) _ two_nodes_list(2), of 1 3] by (simp add: two_nodes_values)

lemma l_remove_other_witness:
  "\<exists>h' ys. l_remove two_nodes (Some 1) 2 = Some (h', Some 1) \<and> sorted_list h' ys \<and> 1 \<in> set ys \<and> set (vals h' ys) = {6}"
  using l_remove_other [OF two_nodes_list(1), of 1 2] by (simp add: two_nodes_values)

lemma l_remove_root_witness: "l_remove two_nodes (Some 0) 2 = None"
  using l_remove_root [of two_nodes 0] by (simp add: two_nodes_def)

end
