(* ===== verification/Spec2Isabelle.thy ===== *)
theory Spec2Isabelle
  imports StrFunc HashGen ModbusServer Tetris ThreadArray Json FilterWheel CCLabel Gps Sensors CanBuffer SearchTree
    TeaServer Pressure ParseArgs Smsd Trinamic WebThreads RunMedian RelayBoard WordSubst Snippets BidiList
begin

text \<open>
  A verification development for the utilities of \<open>eddys_snippets\<close>. The repository is a collection of
  programs and libraries around the instruments of an observatory, most of them independent of each
  other. The parts whose own logic carries a program are modelled; each has a theory of its own.

  \<^bold>\<open>Layout.\<close> \<open>CPrelude\<close> holds what the components share: C strings as lists of characters with a pointer
  as the suffix it points to, the functions of the C library that the sources call, and lemmas on lists and
  words. \<open>Numerals\<close> is positional numerals as text. \<open>SortSearch\<close> states the interfaces of \<open>qsort\<close> and of a
  binary search as locales (\<open>table_sorter\<close>, \<open>bin_search\<close>), which the tables of the components interpret.

  \<^item> \<open>StrFunc\<close>: \<open>stringHash4MCU_/strfunc.c\<close>, numbers from and to text in 32 bits, hexadecimal dumps. The
    four readers are interpretations of one locale \<open>radix_reader\<close>; the lemmas show that they are exact,
    detect overflow, and read back what the printers print.
  \<^item> \<open>HashGen\<close>: \<open>stringHash4MCU_/hashgen.c\<close>, which searches a hash function without collisions and writes a
    command parser. The outcome of the generator is characterised, and for which commands the generated parser calls
    their function.
  \<^item> \<open>ModbusDict\<close>, \<open>ModbusIO\<close>, \<open>ModbusDump\<close>, \<open>ModbusServer\<close>: \<open>modbus_params/\<close> with \<open>dictionary.c\<close>, \<open>modbus.c\<close>
    and \<open>server.c\<close>. The dictionary is read from a file into tables sorted by code and register; requests
    name a register by number, code or alias; a thread writes dumps. Libmodbus and the functions of the
    snippets library are parameters. Lookups are exact, the device is accessed only as the dictionary
    allows, a request has an answer unless aliases are circular, and the flags of the dump thread are a
    step relation in which closing can wait forever.
  \<^item> \<open>Tetris\<close>: \<open>Tetris/displaybuf.c\<close> and \<open>main.c\<close>. The game draws the figure into the cup; it refines a game
    with a separate board of settled cells, and stores only inside of the array.
  \<^item> \<open>HeapQueue\<close>, \<open>ThreadArray\<close>: \<open>thread_array_management/test.c\<close> and \<open>_deprecated/fifo_lifo.c\<close>. Linked
    nodes on a heap implement the queue contract \<open>fifo_queue\<close>; threads are registered by name and get
    messages. A freed or null pointer is the outcome \<open>None\<close>.
  \<^item> \<open>Json\<close>: \<open>_deprecated/json/json.c\<close>, a reader that cuts the text in place; written objects are read back.
  \<^item> \<open>FilterWheel\<close>: \<open>HSFW_management/hsfw.c\<close> with \<open>hidmanage.c\<close> and \<open>main.c\<close>. Selection of a wheel and a
    position from the command line and the commands sent to the device; the locale \<open>command_invariant\<close>
    carries the proofs over every command the program can send. An exit carries the hardware as it then is, so
    that they hold for runs that end with an error too.
  \<^item> \<open>BinMorph\<close>, \<open>CCLabel\<close>: \<open>_deprecated/erosion-dilation/\<close> with \<open>binmorph.c\<close> and the bodies it includes.
    Dilation, erosion and a filter on packed bits equal their definitions on pixels; the labelling of
    components is modelled with its table, whose faults are proved on images.
  \<^item> \<open>Gps\<close>: \<open>_deprecated/GPS/main.c\<close>, checksums and dispatch of sentences, configuration packets and the
    wait for their acknowledgement. Of a stream exactly the intact sentences with a known name reach their handler.
  \<^item> \<open>I2C\<close>, \<open>Sensors\<close>: \<open>I2Csensors/i2c.c\<close>, \<open>sensor.c\<close> and the drivers \<open>SHT3x.c\<close>, \<open>SI7005.c\<close>, \<open>aht.c\<close>. The
    common layer over any driver that keeps the laws of the locale \<open>sensor_driver\<close> refines the phases of a
    measurement; SHT3x and SI7005 keep them, the AHT does not.
  \<^item> \<open>Pressure\<close>: the drivers \<open>BMP180.c\<close>, \<open>BMP280.c\<close> and \<open>BMP580.c\<close> of \<open>I2Csensors/\<close> and the table of all
    sensors. The compensation formulas are computed in the machine integers of the code; the lemmas say for
    which calibrations no step overflows, and follow a measurement over the bus.
  \<^item> \<open>CanBuffer\<close>: \<open>Socket_CAN/can_io.c\<close>, the ring buffer that a server shares with its clients, and the signal
    handlers. A client that keeps up reads the frames as from a queue; a stopping server is seen as down.
  \<^item> \<open>SearchTree\<close>: \<open>_snippets/B-trees.c\<close>. Insertion and search keep the contract \<open>value_set\<close>; what removal loses
    beside the value is stated for values whose differences fit \<open>int\<close>; other removals have no result.

  \<^item> \<open>TeaCmd\<close>, \<open>TeaServer\<close>: \<open>TeAmanagement/teacmd.c\<close> and \<open>sersock.c\<close>, a stage with three motors behind a serial
    line. Commands are written and their answers parsed; the server checks a request that starts with a command
    against its table and the range of the stage (behind a blank or in a further line it does not look), takes lines out of a stream and survives any input; a line that does not
    answer keeps the client in its loops.
  \<^item> \<open>ParseArgs\<close>: \<open>HSFW_management/parseargs.c\<close>, tables of options for \<open>getopt_long\<close>, which is a parameter by
    its results, the assignment of arguments to variables, suboptions and the help text.
  \<^item> \<open>Smsd\<close>: \<open>Trinamic/SHA_client_cmdline/client.c\<close>, programs for a motor controller, each command of which is
    echoed and answered. Loading stops at a refused command and erases what was loaded; a call for a position runs its
    two programs.
  \<^item> \<open>Trinamic\<close>: \<open>Trinamic/client/client.c\<close>, the telegrams of a two axis controller. Every telegram of a session is well
    formed, values survive the way to the controller, and what a key pressed at a wrong time does to the list of
    parameters is stated.
  \<^item> \<open>WebAuth\<close>: \<open>NES_webiface/auth.c\<close>, the handler of \<open>main.c\<close> and \<open>websockets.c\<close>. The SQL statements are a parameter
    with the laws of the locale \<open>session_table\<close>. Who gets the answer \<open>AuthOK\<close> is characterised, identifiers stay
    unique and logging out works; an empty cookie and every web socket get past the checks. There the requests are
    handled one after the other; \<open>WebThreads\<close> interleaves their accesses to the table of sessions, one for every time
    that its mutex is taken, as the servers do, which run with \<open>O_THREADED\<close>: identifiers stay unique while no generated
    one is in use by two running requests, and a log-out may be undone.
  \<^item> \<open>RelayBoard\<close>: \<open>modbus_relay/main.c\<close> and \<open>modbus_relay/web_management/relay_daemon/\<close>, over \<open>libmodbus\<close> as a
    parameter with the laws \<open>board_laws\<close>. The two relays of a shutter are never both on while switching off
    works, in any interleaving of requests and steps, and either is released after the timeout; a failed switching off
    and the death of the child break this.
  \<^item> \<open>WordSubst\<close>: \<open>deepseek/hashreplace.c\<close>, a table sorted by hashes and the replacement of words by it, through the
    sorting contract of \<open>SortSearch\<close>. The text that comes out is characterised, with the texts for which the
    buffer is too small.
  \<^item> \<open>RunMedian\<close>: \<open>_snippets/med.c\<close>, a median over the last items with two heaps in one array. An insertion keeps
    the contract \<open>sliding_window\<close>; the result is the middle of the sorted window, and the filter of an image
    gives the median of the square around every pixel.
  \<^item> \<open>BidiList\<close>: \<open>_deprecated/bidirectional_list.c\<close>, a sorted list with links both ways in a heap, searched from any
    of its nodes. Search, insertion and removal are correct but for the value of the root, which cannot be removed.
  \<^item> \<open>Snippets\<close>: \<open>_snippets/Bresenham_circle.c\<close>, whose circle consists of exactly the nearest points, and the routines
    of \<open>fixed_sort_example.c\<close> and \<open>powerof2.c\<close>.

  \<^bold>\<open>State and effects.\<close> State is passed and returned; a kernel call, a library or a device is an argument
  on a state of its own, so that no assumption on it is hidden. Errors are values: a sum with the reason
  where a program ends, \<open>None\<close> where it reads outside of an array or through a bad pointer.

  \<^bold>\<open>Loops and bounds.\<close> Loops are structural or have a measure. The request handler \<open>defhandler\<close> follows
  aliases and may not return, so it is a partial function into \<open>option\<close>, with a theorem for when it
  returns. Loops that a clock ends take the number of their turns as an argument, for which the theorems
  are universal: the polls of a sensor, the reads in \<open>get_ACK\<close>, the turns of the loops of the stage. The
  loops of the stage that wait for a motor and the recursion of \<open>quit\<close> are partial functions as well, with
  theorems for lines on which they do not return, and so is the search of \<open>BidiList\<close>, which is shown to
  return on every list. Counts that the code fixes are the
  code's: 300 polls and 10 tries of the filter wheel, 11 sends of a packet.

  \<^bold>\<open>Not modelled.\<close> Printed messages, delays, the scan of \<open>argv\<close> by \<open>getopt_long\<close>, and the programs that
  are mainly calls of OpenGL, OpenSSL, web sockets, curses, USB or of the snippets library, whose logic is
  not in the repository. Floating point programs (the Zernike polynomials, the thermal camera, the
  telescope emulation, sine tables) have no arithmetic of \<open>double\<close> to stand on here; where a driver only
  scales a reading, its value is an exact fraction. The older labelling \<open>cclabling.h\<close>, \<open>strtod\<close> of the JSON
  reader, the statistics that the GPS handlers print and the rotations that balance a search tree are left
  out as well. Times of the CAN frames are whole microseconds, so the conversion of a \<open>double\<close> into a \<open>timeval\<close> is taken
  to be exact. \<open>quit\<close> of \<open>Smsd\<close> is modelled for a terminal with a positive descriptor; its result \<open>None\<close> stands for an
  endless recursion, an access outside of an array, or waiting beyond the given input.
\<close>

end
